(* ===== verification/Prelude.thy ===== *)
theory Prelude
  imports Main "HOL-Library.Word" "HOL-Library.Monad_Syntax"
begin

text \<open>
  Shared vocabulary of the development: bytes and C strings, the integer widths of an LP64 C
  implementation, memory blocks with bounds-checked access, the allocator, and nullable results.

  Conventions used by every theory.
  \<^item> A C function is a HOL function into \<open>'a option\<close>. \<open>None\<close> is an execution that has left the
    defined behaviour of C: an access outside a block, the dereference of a null pointer, a failed
    \<open>assert\<close>, a missing variadic argument. A result that the C code merely reports (NULL,
    \<open>REDIS_ERR\<close>, an error field) is an ordinary value.
  \<^item> A pointer that may be NULL is a \<open>'a ptr\<close>.
  \<^item> A byte is a \<open>char\<close>; plain C \<open>char\<close> is signed (as on x86-64), see \<open>sch\<close>.
  \<^item> A value stored in an integer of fewer bits than it was computed with is reduced explicitly
    (\<open>usz\<close>, \<open>int32\<close>, \<open>int64\<close>, \<open>mod 2 ^ w\<close>).
\<close>

section \<open>Bytes and C strings\<close>

type_synonym bytes = "char list"

abbreviation NUL :: char where "NUL \<equiv> CHR 0x00"
abbreviation CR :: char where "CR \<equiv> CHR 0x0D"
abbreviation LF :: char where "LF \<equiv> CHR 0x0A"
abbreviation TAB :: char where "TAB \<equiv> CHR 0x09"
abbreviation BEL :: char where "BEL \<equiv> CHR 0x07"
abbreviation BS :: char where "BS \<equiv> CHR 0x08"
abbreviation QUOT :: char where "QUOT \<equiv> CHR 0x22"
abbreviation APOS :: char where "APOS \<equiv> CHR 0x27"
abbreviation BSL :: char where "BSL \<equiv> CHR 0x5C"

definition CRLF :: bytes where
  "CRLF = [CR, LF]"

definition uch :: "char \<Rightarrow> nat" where
  "uch c = of_char c"

definition sch :: "char \<Rightarrow> int" where
  "sch c = (if uch c < 128 then int (uch c) else int (uch c) - 256)"

definition byte_of :: "nat \<Rightarrow> char" where
  "byte_of n = char_of (n mod 256)"

text \<open>The bytes of a C string argument end before its first NUL.\<close>

definition cstr :: "bytes \<Rightarrow> bytes" where
  "cstr t = takeWhile (\<lambda>c. c \<noteq> NUL) t"

definition cstrlen :: "bytes \<Rightarrow> nat" where
  "cstrlen t = length (cstr t)"

lemma cstr_id [simp]: "NUL \<notin> set t \<Longrightarrow> cstr t = t"
  by (auto simp: cstr_def)

lemma NUL_notin_cstr [simp]: "NUL \<notin> set (cstr t)"
  by (auto simp: cstr_def dest: set_takeWhileD)

lemma uch_less [simp]: "uch c < 256"
  by (simp add: uch_def)

lemma uch_eq_iff [simp]: "uch c = uch d \<longleftrightarrow> c = d"
  by (simp add: uch_def)

lemma byte_of_uch [simp]: "byte_of (uch c) = c"
  by (simp add: byte_of_def uch_def)

lemma uch_byte_of [simp]: "uch (byte_of n) = n mod 256"
  by (simp add: byte_of_def uch_def)

section \<open>Integer widths\<close>

definition usz :: "nat \<Rightarrow> nat" where
  "usz n = n mod 2 ^ 64"

definition usz_of_int :: "int \<Rightarrow> nat" where
  "usz_of_int i = nat (i mod 2 ^ 64)"

definition int32 :: "int \<Rightarrow> int" where
  "int32 i = (i + 2 ^ 31) mod 2 ^ 32 - 2 ^ 31"

definition int64 :: "int \<Rightarrow> int" where
  "int64 i = (i + 2 ^ 63) mod 2 ^ 64 - 2 ^ 63"

definition INT_MAX :: int where "INT_MAX = 2147483647"
definition LONG_MAX :: nat where "LONG_MAX = 9223372036854775807"

lemma usz_id [simp]: "n < 2 ^ 64 \<Longrightarrow> usz n = n"
  by (simp add: usz_def)

lemma usz_less [simp]: "usz n < 2 ^ 64"
  by (simp add: usz_def)

lemma usz_le: "usz n \<le> n"
  by (simp add: usz_def)

lemma usz_of_int_id: "0 \<le> i \<Longrightarrow> i < 2 ^ 64 \<Longrightarrow> usz_of_int i = nat i"
  by (simp add: usz_of_int_def)

lemma int32_id: "- (2 ^ 31) \<le> i \<Longrightarrow> i < 2 ^ 31 \<Longrightarrow> int32 i = i"
  by (simp add: int32_def)

lemma int64_id: "- (2 ^ 63) \<le> i \<Longrightarrow> i < 2 ^ 63 \<Longrightarrow> int64 i = i"
  by (simp add: int64_def)

lemma int32_range: "- (2 ^ 31) \<le> int32 i \<and> int32 i < 2 ^ 31"
  by (simp add: int32_def)

section \<open>Nullable results\<close>

datatype 'a ptr = Nullp | Ptr 'a

primrec ptr_all :: "('a \<Rightarrow> bool) \<Rightarrow> 'a ptr \<Rightarrow> bool" where
  "ptr_all P Nullp = True"
| "ptr_all P (Ptr x) = P x"

lemma ptr_all_mono: "ptr_all P p \<Longrightarrow> (\<And>x. P x \<Longrightarrow> Q x) \<Longrightarrow> ptr_all Q p"
  by (cases p) auto

text \<open>
  \<open>ptr_bind\<close> is \<open>if (s == NULL) return NULL;\<close> after a call; \<open>deref\<close> is a use of the pointer
  without that check.
\<close>

definition ptr_bind :: "'a ptr option \<Rightarrow> ('a \<Rightarrow> 'b ptr option) \<Rightarrow> 'b ptr option" where
  "ptr_bind m f = do { r \<leftarrow> m; (case r of Nullp \<Rightarrow> Some Nullp | Ptr x \<Rightarrow> f x) }"

primrec deref :: "'a ptr \<Rightarrow> 'a option" where
  "deref Nullp = None"
| "deref (Ptr x) = Some x"

lemma ptr_bind_simps [simp]:
  "ptr_bind None f = None"
  "ptr_bind (Some Nullp) f = Some Nullp"
  "ptr_bind (Some (Ptr x)) f = f x"
  by (simp_all add: ptr_bind_def)

section \<open>Memory blocks\<close>

text \<open>
  A block is the list of its bytes. Writing (\<open>put\<close>, \<open>poke\<close>), reading (\<open>peek\<close>, \<open>get_bytes\<close>) and
  \<open>memmove\<close> fail when a byte they touch lies outside the block.
\<close>

definition put :: "bytes \<Rightarrow> nat \<Rightarrow> bytes \<Rightarrow> bytes option" where
  "put b off src =
     (if off + length src \<le> length b
      then Some (take off b @ src @ drop (off + length src) b) else None)"

definition poke :: "bytes \<Rightarrow> nat \<Rightarrow> char \<Rightarrow> bytes option" where
  "poke b i c = (if i < length b then Some (b[i := c]) else None)"

definition peek :: "bytes \<Rightarrow> nat \<Rightarrow> char option" where
  "peek b i = (if i < length b then Some (b ! i) else None)"

definition get_bytes :: "bytes \<Rightarrow> nat \<Rightarrow> nat \<Rightarrow> bytes option" where
  "get_bytes b off n = (if off + n \<le> length b then Some (take n (drop off b)) else None)"

definition memmove :: "bytes \<Rightarrow> nat \<Rightarrow> nat \<Rightarrow> nat \<Rightarrow> bytes option" where
  "memmove b dst src n = do { t \<leftarrow> get_bytes b src n; put b dst t }"

lemma put_Some:
  "off + length src \<le> length b \<Longrightarrow>
     put b off src = Some (take off b @ src @ drop (off + length src) b)"
  by (simp add: put_def)

lemma put_length: "put b off src = Some b' \<Longrightarrow> length b' = length b"
  by (auto simp: put_def split: if_splits)

lemma put_nil [simp]: "off \<le> length b \<Longrightarrow> put b off [] = Some b"
  by (simp add: put_def)

lemma poke_Some: "i < length b \<Longrightarrow> poke b i c = Some (b[i := c])"
  by (simp add: poke_def)

lemma get_bytes_Some: "off + n \<le> length b \<Longrightarrow> get_bytes b off n = Some (take n (drop off b))"
  by (simp add: get_bytes_def)

lemma get_bytes_whole [simp]: "get_bytes b 0 (length b) = Some b"
  by (simp add: get_bytes_def)

lemma peek_Some: "i < length b \<Longrightarrow> peek b i = Some (b ! i)"
  by (simp add: peek_def)

section \<open>The allocator\<close>

text \<open>
  \<open>malloc\<close> may refuse any request and hands out indeterminate bytes. The record says which request
  sizes are granted and what a fresh block holds; every theorem is stated for an arbitrary one.
  \<open>realloc\<close> keeps the bytes both blocks have in common.
\<close>

record allocator =
  grant :: "nat \<Rightarrow> bool"
  junk :: "nat \<Rightarrow> char"

definition malloc :: "allocator \<Rightarrow> nat \<Rightarrow> bytes option" where
  "malloc A n = (if grant A n then Some (map (junk A) [0..<n]) else None)"

definition realloc :: "allocator \<Rightarrow> bytes \<Rightarrow> nat \<Rightarrow> bytes option" where
  "realloc A b n =
     (if grant A n then Some (take n b @ map (junk A) [length b..<n]) else None)"

definition generous :: allocator where
  "generous = \<lparr>grant = (\<lambda>_. True), junk = (\<lambda>i. byte_of i)\<rparr>"

lemma malloc_length: "malloc A n = Some b \<Longrightarrow> length b = n"
  by (auto simp: malloc_def split: if_splits)

lemma realloc_length: "realloc A b n = Some b' \<Longrightarrow> length b' = n"
  by (auto simp: realloc_def split: if_splits)

lemma realloc_prefix:
  "realloc A b n = Some b' \<Longrightarrow> k \<le> length b \<Longrightarrow> k \<le> n \<Longrightarrow> take k b' = take k b"
  by (auto simp: realloc_def split: if_splits)

text \<open>
  \<open>yields A m P\<close>: the allocating computation \<open>m\<close> stays within defined behaviour, a non-null result
  satisfies \<open>P\<close>, and NULL is only reported by an allocator that refuses some request.
\<close>

definition yields :: "allocator \<Rightarrow> 'a ptr option \<Rightarrow> ('a \<Rightarrow> bool) \<Rightarrow> bool" where
  "yields A m P \<longleftrightarrow>
     (\<exists>r. m = Some r \<and> ptr_all P r \<and> ((\<forall>n. grant A n) \<longrightarrow> r \<noteq> Nullp))"

lemma yieldsI: "m = Some (Ptr x) \<Longrightarrow> P x \<Longrightarrow> yields A m P"
  by (simp add: yields_def)

lemma yields_Some [simp]: "yields A (Some (Ptr x)) P \<longleftrightarrow> P x"
  by (simp add: yields_def)

lemma yields_bind:
  assumes m: "yields A m P" and f: "\<And>x. P x \<Longrightarrow> yields A (f x) Q"
  shows "yields A (ptr_bind m f) Q"
proof -
  from m obtain r where r: "m = Some r" "ptr_all P r" "(\<forall>n. grant A n) \<longrightarrow> r \<noteq> Nullp"
    by (auto simp: yields_def)
  show ?thesis
  proof (cases r)
    case Nullp
    with r show ?thesis by (simp add: yields_def)
  next
    case (Ptr x)
    with r f show ?thesis by simp
  qed
qed

lemma yields_mono: "yields A m P \<Longrightarrow> (\<And>x. P x \<Longrightarrow> Q x) \<Longrightarrow> yields A m Q"
  unfolding yields_def by (blast intro: ptr_all_mono)

lemma yields_no_fault: "yields A m P \<Longrightarrow> m \<noteq> None"
  by (auto simp: yields_def)

lemma yields_granted:
  "yields A m P \<Longrightarrow> \<forall>n. grant A n \<Longrightarrow> \<exists>x. m = Some (Ptr x) \<and> P x"
  unfolding yields_def by (metis ptr.exhaust ptr_all.simps(2))

lemma generous_grants [simp]: "grant generous n"
  by (simp add: generous_def)

text \<open>
  A property of every result of a computation that may fail, with one rule per construct, so that it
  is proved along the structure of a definition.
\<close>

definition every :: "('a \<Rightarrow> bool) \<Rightarrow> 'a option \<Rightarrow> bool" where
  "every P m \<longleftrightarrow> (\<forall>x. m = Some x \<longrightarrow> P x)"

lemma everyD: "every P m \<Longrightarrow> m = Some x \<Longrightarrow> P x"
  by (simp add: every_def)

lemma every_None: "every P None"
  by (simp add: every_def)

lemma every_Some [simp]: "every P (Some x) \<longleftrightarrow> P x"
  by (simp add: every_def)

lemma every_bind: "(\<And>x. m = Some x \<Longrightarrow> every P (f x)) \<Longrightarrow> every P (m \<bind> f)"
  by (cases m) (simp_all add: every_None)

lemma every_if: "(b \<Longrightarrow> every P m) \<Longrightarrow> (\<not> b \<Longrightarrow> every P n) \<Longrightarrow> every P (if b then m else n)"
  by simp

lemma every_ptr: "(p = Nullp \<Longrightarrow> every P m) \<Longrightarrow> (\<And>z. p = Ptr z \<Longrightarrow> every P (f z)) \<Longrightarrow>
    every P (case p of Nullp \<Rightarrow> m | Ptr z \<Rightarrow> f z)"
  by (cases p) simp_all

lemma every_pair: "(\<And>u v. q = (u, v) \<Longrightarrow> every P (f u v)) \<Longrightarrow> every P (case q of (u, v) \<Rightarrow> f u v)"
  by (cases q) simp

lemmas every_rules = every_None every_bind every_if every_ptr every_pair

section \<open>Decimal numerals\<close>

text \<open>The digits \<open>printf\<close> writes for an unsigned and for a signed value.\<close>

fun dec_nat :: "nat \<Rightarrow> bytes" where
  "dec_nat n = (if n < 10 then [byte_of (48 + n)] else dec_nat (n div 10) @ [byte_of (48 + n mod 10)])"

declare dec_nat.simps [simp del]

definition dec_int :: "int \<Rightarrow> bytes" where
  "dec_int i = (if i < 0 then CHR ''-'' # dec_nat (nat (- i)) else dec_nat (nat i))"

definition is_digit :: "char \<Rightarrow> bool" where
  "is_digit c \<longleftrightarrow> 48 \<le> uch c \<and> uch c \<le> 57"

lemma dec_nat_nonempty [simp]: "dec_nat n \<noteq> []"
  by (subst dec_nat.simps) simp

lemma dec_nat_digits: "c \<in> set (dec_nat n) \<Longrightarrow> is_digit c"
proof (induction n rule: dec_nat.induct)
  case (1 n)
  show ?case
  proof (cases "n < 10")
    case True
    with "1.prems" show ?thesis by (subst (asm) dec_nat.simps) (auto simp: is_digit_def)
  next
    case False
    with "1.prems" have "c \<in> set (dec_nat (n div 10)) \<or> c = byte_of (48 + n mod 10)"
      by (subst (asm) dec_nat.simps) auto
    with False show ?thesis
      using "1.IH" by (auto simp: is_digit_def)
  qed
qed

end
