(* ===== verification/Sds.thy ===== *)
theory Sds
  imports Prelude
begin

unbundle bit_operations_syntax

text \<open>
  Dynamic strings (\<open>sds.h\<close> and the allocating part of \<open>sds.c\<close>).

  An \<open>sds\<close> is a pointer to the character area of a block whose header lies just before it. The
  model is the record of what the block holds: the flags byte \<open>s[-1]\<close>, the \<open>len\<close> and \<open>alloc\<close> fields
  of the header (natural numbers reduced to the width that the type bits of the flags select; type
  5 has no such fields and keeps its length in the flags) and \<open>buf\<close>, the bytes from \<open>s\<close> to the end of
  the block. \<open>sds_ok\<close> is the representation invariant, \<open>sds_content\<close> the byte string represented.
\<close>

section \<open>Headers\<close>

record sds =
  flags :: "8 word"
  hlen :: nat
  halloc :: nat
  buf :: bytes

definition SDS_TYPE_5 :: nat where "SDS_TYPE_5 = 0"
definition SDS_TYPE_8 :: nat where "SDS_TYPE_8 = 1"
definition SDS_TYPE_16 :: nat where "SDS_TYPE_16 = 2"
definition SDS_TYPE_32 :: nat where "SDS_TYPE_32 = 3"
definition SDS_TYPE_64 :: nat where "SDS_TYPE_64 = 4"
definition SDS_MAX_PREALLOC :: nat where "SDS_MAX_PREALLOC = 1024 * 1024"

lemmas sds_type_defs =
  SDS_TYPE_5_def SDS_TYPE_8_def SDS_TYPE_16_def SDS_TYPE_32_def SDS_TYPE_64_def

definition sdstype :: "sds \<Rightarrow> nat" where
  "sdstype s = unat (flags s AND 7)"

text \<open>The number of bits of the \<open>len\<close> and \<open>alloc\<close> fields of a header type.\<close>

definition hdr_bits :: "nat \<Rightarrow> nat" where
  "hdr_bits type =
     (if type = SDS_TYPE_8 then 8 else if type = SDS_TYPE_16 then 16
      else if type = SDS_TYPE_32 then 32 else 64)"

definition sdsHdrSize :: "nat \<Rightarrow> nat" where
  "sdsHdrSize type =
     (if type = SDS_TYPE_5 then 1 else if type = SDS_TYPE_8 then 3
      else if type = SDS_TYPE_16 then 5 else if type = SDS_TYPE_32 then 9
      else if type = SDS_TYPE_64 then 17 else 0)"

definition sdsReqType :: "nat \<Rightarrow> nat" where
  "sdsReqType string_size =
     (if string_size < 32 then SDS_TYPE_5
      else if string_size < 0xff then SDS_TYPE_8
      else if string_size < 0xffff then SDS_TYPE_16
      else if string_size < 0xffffffff then SDS_TYPE_32
      else SDS_TYPE_64)"

definition SDS_TYPE_5_LEN :: "8 word \<Rightarrow> nat" where
  "SDS_TYPE_5_LEN f = unat (drop_bit 3 f)"

definition type5_flags :: "nat \<Rightarrow> 8 word" where
  "type5_flags n = word_of_nat SDS_TYPE_5 OR push_bit 3 (word_of_nat n)"

definition sdslen :: "sds \<Rightarrow> nat" where
  "sdslen s =
     (if sdstype s = SDS_TYPE_5 then SDS_TYPE_5_LEN (flags s)
      else if sdstype s \<le> SDS_TYPE_64 then hlen s else 0)"

text \<open>
  \<open>sdsavail\<close> subtracts in the type the fields are promoted to: \<open>int\<close> for the 8- and 16-bit headers
  (converted to \<open>size_t\<close> when returned), the field's own type for the wider ones.
\<close>

definition sdsavail :: "sds \<Rightarrow> nat" where
  "sdsavail s =
     (let t = sdstype s in
      if t = SDS_TYPE_5 then 0
      else if t = SDS_TYPE_8 \<or> t = SDS_TYPE_16 then usz_of_int (int (halloc s) - int (hlen s))
      else if t = SDS_TYPE_32 then nat ((int (halloc s) - int (hlen s)) mod 2 ^ 32)
      else if t = SDS_TYPE_64 then usz_of_int (int (halloc s) - int (hlen s))
      else 0)"

definition sdssetlen :: "sds \<Rightarrow> nat \<Rightarrow> sds" where
  "sdssetlen s newlen =
     (let t = sdstype s in
      if t = SDS_TYPE_5 then s\<lparr>flags := type5_flags newlen\<rparr>
      else if t \<le> SDS_TYPE_64 then s\<lparr>hlen := newlen mod 2 ^ hdr_bits t\<rparr> else s)"

definition sdsinclen :: "sds \<Rightarrow> nat \<Rightarrow> sds" where
  "sdsinclen s inc =
     (let t = sdstype s in
      if t = SDS_TYPE_5
      then s\<lparr>flags := type5_flags ((SDS_TYPE_5_LEN (flags s) + inc) mod 256)\<rparr>
      else if t \<le> SDS_TYPE_64 then s\<lparr>hlen := (hlen s + inc) mod 2 ^ hdr_bits t\<rparr> else s)"

definition sdsalloc :: "sds \<Rightarrow> nat" where
  "sdsalloc s =
     (if sdstype s = SDS_TYPE_5 then SDS_TYPE_5_LEN (flags s)
      else if sdstype s \<le> SDS_TYPE_64 then halloc s else 0)"

definition sdssetalloc :: "sds \<Rightarrow> nat \<Rightarrow> sds" where
  "sdssetalloc s newlen =
     (let t = sdstype s in
      if t = SDS_TYPE_5 then s
      else if t \<le> SDS_TYPE_64 then s\<lparr>halloc := newlen mod 2 ^ hdr_bits t\<rparr> else s)"

section \<open>Creation\<close>

text \<open>
  The character area of a fresh block of \<open>hdrlen + n + 1\<close> bytes, the sum computed in \<open>size_t\<close>.
\<close>

definition sds_block :: "allocator \<Rightarrow> nat \<Rightarrow> nat \<Rightarrow> bytes option" where
  "sds_block A hdrlen n = map_option (drop hdrlen) (malloc A (usz (hdrlen + n + 1)))"

text \<open>The header written before a fresh area that will hold \<open>n\<close> bytes.\<close>

definition sds_header :: "nat \<Rightarrow> nat \<Rightarrow> bytes \<Rightarrow> sds" where
  "sds_header type n area =
     (if type = SDS_TYPE_5
      then \<lparr>flags = type5_flags n, hlen = 0, halloc = 0, buf = area\<rparr>
      else \<lparr>flags = word_of_nat type, hlen = n mod 2 ^ hdr_bits type,
            halloc = n mod 2 ^ hdr_bits type, buf = area\<rparr>)"

definition sdsnewlen :: "allocator \<Rightarrow> bytes ptr \<Rightarrow> nat \<Rightarrow> sds ptr option" where
  "sdsnewlen A init initlen =
     (let type0 = sdsReqType initlen;
          type = (if type0 = SDS_TYPE_5 \<and> initlen = 0 then SDS_TYPE_8 else type0)
      in case sds_block A (sdsHdrSize type) initlen of
           None \<Rightarrow> Some Nullp
         | Some fresh \<Rightarrow>
             (let area = (case init of Nullp \<Rightarrow> replicate (length fresh) NUL | Ptr _ \<Rightarrow> fresh);
                  s = sds_header type initlen area
              in do {
                   b1 \<leftarrow> (case init of
                            Nullp \<Rightarrow> Some (buf s)
                          | Ptr t \<Rightarrow> do { src \<leftarrow> get_bytes t 0 initlen; put (buf s) 0 src });
                   b2 \<leftarrow> poke b1 initlen NUL;
                   Some (Ptr (s\<lparr>buf := b2\<rparr>)) }))"

definition sdsempty :: "allocator \<Rightarrow> sds ptr option" where
  "sdsempty A = sdsnewlen A (Ptr []) 0"

definition sdsnew :: "allocator \<Rightarrow> bytes ptr \<Rightarrow> sds ptr option" where
  "sdsnew A init =
     (let initlen = (case init of Nullp \<Rightarrow> 0 | Ptr t \<Rightarrow> cstrlen t)
      in sdsnewlen A init initlen)"

definition sdsdup :: "allocator \<Rightarrow> sds \<Rightarrow> sds ptr option" where
  "sdsdup A s = sdsnewlen A (Ptr (buf s)) (sdslen s)"

section \<open>Length updates\<close>

definition sdsupdatelen :: "sds \<Rightarrow> sds option" where
  "sdsupdatelen s =
     (if NUL \<in> set (buf s) then Some (sdssetlen s (usz_of_int (int32 (int (cstrlen (buf s)))))) else None)"

definition sdsclear :: "sds \<Rightarrow> sds option" where
  "sdsclear s =
     (let s1 = sdssetlen s 0 in do { b \<leftarrow> poke (buf s1) 0 NUL; Some (s1\<lparr>buf := b\<rparr>) })"

section \<open>Growing and shrinking the block\<close>

text \<open>
  Both functions end by moving the content to a block of \<open>newlen + 1\<close> characters with a header of
  the given type: in place with \<open>realloc\<close> when the header keeps its type, otherwise into a fresh
  block to which the \<open>len + 1\<close> used bytes are copied.
\<close>

definition sds_resize :: "allocator \<Rightarrow> sds \<Rightarrow> nat \<Rightarrow> nat \<Rightarrow> sds ptr option" where
  "sds_resize A s type newlen =
     (let oldtype = sdstype s; hdrlen = sdsHdrSize type; len = sdslen s;
          n = usz (hdrlen + newlen + 1)
      in if oldtype = type then
           (case realloc A (replicate hdrlen NUL @ buf s) n of
              None \<Rightarrow> Some Nullp
            | Some newsh \<Rightarrow> Some (Ptr (sdssetalloc (s\<lparr>buf := drop hdrlen newsh\<rparr>) newlen)))
         else
           (case sds_block A hdrlen newlen of
              None \<Rightarrow> Some Nullp
            | Some area \<Rightarrow> do {
                src \<leftarrow> get_bytes (buf s) 0 (len + 1);
                b \<leftarrow> put area 0 src;
                Some (Ptr (sdssetalloc
                   (sdssetlen \<lparr>flags = word_of_nat type, hlen = 0, halloc = 0, buf = b\<rparr> len)
                   newlen)) }))"

definition sdsMakeRoomFor :: "allocator \<Rightarrow> sds \<Rightarrow> nat \<Rightarrow> sds ptr option" where
  "sdsMakeRoomFor A s addlen =
     (if addlen \<le> sdsavail s then Some (Ptr s)
      else
        (let len = sdslen s;
             newlen0 = usz (len + addlen);
             newlen = (if newlen0 < SDS_MAX_PREALLOC then usz (newlen0 * 2)
                       else usz (newlen0 + SDS_MAX_PREALLOC));
             type0 = sdsReqType newlen;
             type = (if type0 = SDS_TYPE_5 then SDS_TYPE_8 else type0)
         in sds_resize A s type newlen))"

definition sdsRemoveFreeSpace :: "allocator \<Rightarrow> sds \<Rightarrow> sds ptr option" where
  "sdsRemoveFreeSpace A s =
     (let len = sdslen s in sds_resize A s (sdsReqType len) len)"

definition sdsAllocSize :: "sds \<Rightarrow> nat" where
  "sdsAllocSize s = usz (sdsHdrSize (sdstype s) + sdsalloc s + 1)"


text \<open>
  \<open>sdsIncrLen\<close> aborts when its assertion fails. For the 32- and 64-bit headers the negated increment
  is compared after conversion to the unsigned type of the field.
\<close>

definition sdsIncrLen :: "sds \<Rightarrow> int \<Rightarrow> sds option" where
  "sdsIncrLen s incr =
     (let t = sdstype s in
      if t = SDS_TYPE_5 then
        (let oldlen = SDS_TYPE_5_LEN (flags s) in
         if (0 < incr \<and> int oldlen + incr < 32) \<or> (incr < 0 \<and> nat (- incr) \<le> oldlen)
         then (let len = nat (int oldlen + incr); s1 = s\<lparr>flags := type5_flags len\<rparr>
               in do { b \<leftarrow> poke (buf s1) len NUL; Some (s1\<lparr>buf := b\<rparr>) })
         else None)
      else if t \<le> SDS_TYPE_64 then
        (let room = (if t = SDS_TYPE_8 \<or> t = SDS_TYPE_16 then int (halloc s) - int (hlen s)
                     else (int (halloc s) - int (hlen s)) mod 2 ^ hdr_bits t)
         in if (0 \<le> incr \<and> incr \<le> room) \<or> (incr < 0 \<and> nat (- incr) \<le> hlen s)
            then (let len = nat ((int (hlen s) + incr) mod 2 ^ hdr_bits t); s1 = s\<lparr>hlen := len\<rparr>
                  in do { b \<leftarrow> poke (buf s1) len NUL; Some (s1\<lparr>buf := b\<rparr>) })
            else None)
      else do { b \<leftarrow> poke (buf s) 0 NUL; Some (s\<lparr>buf := b\<rparr>) })"

section \<open>Appending and overwriting\<close>

definition sdsgrowzero :: "allocator \<Rightarrow> sds \<Rightarrow> nat \<Rightarrow> sds ptr option" where
  "sdsgrowzero A s len =
     (let curlen = sdslen s in
      if len \<le> curlen then Some (Ptr s)
      else ptr_bind (sdsMakeRoomFor A s (len - curlen)) (\<lambda>s. do {
             b \<leftarrow> put (buf s) curlen (replicate (len - curlen + 1) NUL);
             Some (Ptr (sdssetlen (s\<lparr>buf := b\<rparr>) len)) }))"

definition sdscatlen :: "allocator \<Rightarrow> sds \<Rightarrow> bytes \<Rightarrow> nat \<Rightarrow> sds ptr option" where
  "sdscatlen A s t len =
     (let curlen = sdslen s in
      ptr_bind (sdsMakeRoomFor A s len) (\<lambda>s. do {
        src \<leftarrow> get_bytes t 0 len;
        b \<leftarrow> put (buf s) curlen src;
        b' \<leftarrow> poke b (usz (curlen + len)) NUL;
        Some (Ptr (sdssetlen (s\<lparr>buf := b'\<rparr>) (usz (curlen + len)))) }))"

definition sdscat :: "allocator \<Rightarrow> sds \<Rightarrow> bytes \<Rightarrow> sds ptr option" where
  "sdscat A s t = sdscatlen A s (cstr t) (cstrlen t)"

definition sdscatsds :: "allocator \<Rightarrow> sds \<Rightarrow> sds \<Rightarrow> sds ptr option" where
  "sdscatsds A s t = sdscatlen A s (buf t) (sdslen t)"

definition sdscpylen :: "allocator \<Rightarrow> sds \<Rightarrow> bytes \<Rightarrow> nat \<Rightarrow> sds ptr option" where
  "sdscpylen A s t len =
     ptr_bind
       (if sdsalloc s < len
        then sdsMakeRoomFor A s (usz_of_int (int len - int (sdslen s)))
        else Some (Ptr s))
       (\<lambda>s. do {
          src \<leftarrow> get_bytes t 0 len;
          b \<leftarrow> put (buf s) 0 src;
          b' \<leftarrow> poke b len NUL;
          Some (Ptr (sdssetlen (s\<lparr>buf := b'\<rparr>) len)) })"

definition sdscpy :: "allocator \<Rightarrow> sds \<Rightarrow> bytes \<Rightarrow> sds ptr option" where
  "sdscpy A s t = sdscpylen A s (cstr t) (cstrlen t)"

section \<open>The representation invariant\<close>

text \<open>
  \<open>sds_wf\<close>: the header is consistent with the block. \<open>sds_ok\<close>: moreover the byte after the content is
  NUL, which every operation of the library restores before it returns.
\<close>

definition sds_wf :: "sds \<Rightarrow> bool" where
  "sds_wf s \<longleftrightarrow>
     sdstype s \<le> SDS_TYPE_64 \<and> sdslen s < length (buf s) \<and>
     (sdstype s \<noteq> SDS_TYPE_5 \<longrightarrow>
        halloc s < 2 ^ hdr_bits (sdstype s) \<and> length (buf s) = halloc s + 1)"

definition sds_ok :: "sds \<Rightarrow> bool" where
  "sds_ok s \<longleftrightarrow> sds_wf s \<and> buf s ! sdslen s = NUL"

definition sds_content :: "sds \<Rightarrow> bytes" where
  "sds_content s = take (sdslen s) (buf s)"

text \<open>The largest sum of lengths for which no size computation of the library wraps.\<close>

definition size_limit :: nat where "size_limit = 2 ^ 62"

subsection \<open>Flag arithmetic\<close>

lemma type5_flags_mask: "type5_flags n AND 7 = 0"
proof -
  have "push_bit 3 w AND mask 3 = (0 :: 8 word)" for w
    by (rule bit_word_eqI) (auto simp: bit_simps)
  then have "push_bit 3 w AND 7 = (0 :: 8 word)" for w
    by (simp add: mask_eq_exp_minus_1)
  then show ?thesis by (simp add: type5_flags_def SDS_TYPE_5_def)
qed

lemma type5_flags_len [simp]: "n < 32 \<Longrightarrow> SDS_TYPE_5_LEN (type5_flags n) = n"
proof -
  assume n: "n < 32"
  have *: "type5_flags n = word_of_nat (8 * n)"
    by (simp add: type5_flags_def SDS_TYPE_5_def push_bit_eq_mult)
  have "unat (word_of_nat (8 * n) :: 8 word) = 8 * n" using n
    by (subst unat_of_nat) simp
  then show ?thesis unfolding SDS_TYPE_5_LEN_def *
    by (simp add: drop_bit_eq_div unat_div del: of_nat_mult)
qed

lemma SDS_TYPE_5_LEN_bound: "SDS_TYPE_5_LEN f < 32"
proof -
  have "unat f < 2 ^ LENGTH(8)" by (rule unsigned_less)
  then show ?thesis by (simp add: SDS_TYPE_5_LEN_def drop_bit_eq_div unat_div)
qed

lemma sdstype_of_nat:
  "t \<le> 4 \<Longrightarrow> flags s = word_of_nat t \<Longrightarrow> sdstype s = t"
proof -
  assume t: "t \<le> 4" and f: "flags s = word_of_nat t"
  from t have "t = 0 \<or> t = 1 \<or> t = 2 \<or> t = 3 \<or> t = 4" by arith
  then show ?thesis unfolding sdstype_def f by auto
qed

lemma sdstype_type5 [simp]: "flags s = type5_flags n \<Longrightarrow> sdstype s = SDS_TYPE_5"
  by (simp add: sdstype_def type5_flags_mask SDS_TYPE_5_def)

lemma sdstype_buf [simp]: "sdstype (s\<lparr>buf := b\<rparr>) = sdstype s"
  by (simp add: sdstype_def)

lemma sdslen_buf [simp]: "sdslen (s\<lparr>buf := b\<rparr>) = sdslen s"
  by (simp add: sdslen_def)

subsection \<open>Length updates keep the invariant\<close>

lemma sdstype_setlen [simp]: "sdstype (sdssetlen s n) = sdstype s"
  by (simp add: sdssetlen_def Let_def) (simp add: sdstype_def)

lemma buf_setlen [simp]: "buf (sdssetlen s n) = buf s"
  by (simp add: sdssetlen_def Let_def)

lemma halloc_setlen [simp]: "halloc (sdssetlen s n) = halloc s"
  by (simp add: sdssetlen_def Let_def)

lemma setlen_buf: "(sdssetlen s n)\<lparr>buf := b\<rparr> = sdssetlen (s\<lparr>buf := b\<rparr>) n"
  by (simp add: sdssetlen_def Let_def)

text \<open>The lengths a header can represent within its block.\<close>

definition sds_fits :: "sds \<Rightarrow> nat \<Rightarrow> bool" where
  "sds_fits s n \<longleftrightarrow> n < length (buf s) \<and> (sdstype s = SDS_TYPE_5 \<longrightarrow> n < 32)"

lemma sds_fits_le: "sds_fits s n \<Longrightarrow> m \<le> n \<Longrightarrow> sds_fits s m"
  by (auto simp: sds_fits_def)

lemma sds_fits_len: "sds_wf s \<Longrightarrow> sds_fits s (sdslen s)"
  by (auto simp: sds_fits_def sds_wf_def sdslen_def SDS_TYPE_5_LEN_bound)

lemma sdslen_setlen:
  "sds_wf s \<Longrightarrow> sds_fits s n \<Longrightarrow> sdslen (sdssetlen s n) = n"
  by (auto simp: sdslen_def sds_wf_def sds_fits_def)
     (auto simp: sdssetlen_def Let_def)

text \<open>
  Rewriting the characters of a string and setting a length that fits: the way every operation of
  the library that changes a string in place ends.
\<close>

lemma sds_overwrite:
  assumes ok: "sds_wf s" and fits: "sds_fits s n"
    and b: "length b = length (buf s)" "b ! n = NUL"
  shows "sds_ok (sdssetlen (s\<lparr>buf := b\<rparr>) n)"
    and "sds_content (sdssetlen (s\<lparr>buf := b\<rparr>) n) = take n b"
    and "sdslen (sdssetlen (s\<lparr>buf := b\<rparr>) n) = n"
proof -
  have len: "sdslen (sdssetlen (s\<lparr>buf := b\<rparr>) n) = n"
    using sdslen_setlen [OF ok fits] by (simp flip: setlen_buf)
  then show "sds_content (sdssetlen (s\<lparr>buf := b\<rparr>) n) = take n b"
    by (simp add: sds_content_def)
  show "sds_ok (sdssetlen (s\<lparr>buf := b\<rparr>) n)"
    using ok fits b len by (simp add: sds_ok_def sds_wf_def sds_fits_def)
  show "sdslen (sdssetlen (s\<lparr>buf := b\<rparr>) n) = n" by (rule len)
qed

lemma length_sds_content: "sds_wf s \<Longrightarrow> length (sds_content s) = sdslen s"
  by (simp add: sds_content_def sds_wf_def)

lemma sdsavail_ok:
  assumes "sds_wf s"
  shows "sdsavail s = (if sdstype s = SDS_TYPE_5 then 0 else halloc s - sdslen s)"
proof (cases "sdstype s = SDS_TYPE_5")
  case True
  then show ?thesis by (simp add: sdsavail_def)
next
  case False
  with assms have le: "hlen s \<le> halloc s" and bits: "halloc s < 2 ^ hdr_bits (sdstype s)"
    and l: "sdslen s = hlen s" and t: "sdstype s \<le> SDS_TYPE_64"
    by (auto simp: sds_wf_def sdslen_def)
  have "(2::nat) ^ hdr_bits (sdstype s) \<le> 2 ^ 64"
    by (rule power_increasing) (auto simp: hdr_bits_def)
  with bits have lt: "halloc s < 2 ^ 64" by linarith
  have d: "int (halloc s) - int (hlen s) = int (halloc s - hlen s)" using le by simp
  have *: "usz_of_int (int (halloc s) - int (hlen s)) = halloc s - hlen s"
    using lt by (simp add: d usz_of_int_def nat_mod_distrib)
  have "sdstype s = SDS_TYPE_32 \<Longrightarrow>
      nat ((int (halloc s) - int (hlen s)) mod 2 ^ 32) = halloc s - hlen s"
    using bits by (simp add: d hdr_bits_def sds_type_defs nat_mod_distrib)
  with False * t l show ?thesis
    by (auto simp: sdsavail_def Let_def sds_type_defs)
qed

lemma sds_fits_avail:
  "sds_wf s \<Longrightarrow> n \<le> sdsavail s \<Longrightarrow> sds_fits s (sdslen s + n)"
proof (cases "sdstype s = SDS_TYPE_5")
  case True
  moreover assume "sds_wf s" "n \<le> sdsavail s"
  ultimately show ?thesis
    using sds_fits_len [of s] by (simp add: sdsavail_ok)
next
  case False
  moreover assume "sds_wf s" "n \<le> sdsavail s"
  ultimately show ?thesis
    by (auto simp: sdsavail_ok sds_fits_def sds_wf_def)
qed

subsection \<open>Resizing\<close>

lemma sdsReqType_range:
  assumes "n < 2 ^ 64"
  shows "sdsReqType n \<le> SDS_TYPE_64"
    and "sdsReqType n = SDS_TYPE_5 \<Longrightarrow> n < 32"
    and "sdsReqType n \<noteq> SDS_TYPE_5 \<Longrightarrow> n < 2 ^ hdr_bits (sdsReqType n)"
  using assms by (auto simp: sdsReqType_def hdr_bits_def sds_type_defs split: if_splits)

lemma sdsHdrSize_le: "sdsHdrSize t \<le> 17"
  by (simp add: sdsHdrSize_def)

definition type_fits :: "nat \<Rightarrow> nat \<Rightarrow> bool" where
  "type_fits t n \<longleftrightarrow> t \<le> SDS_TYPE_64 \<and>
     (if t = SDS_TYPE_5 then n < 32 else n < 2 ^ hdr_bits t)"

lemma type_fits_ReqType: "n < 2 ^ 64 \<Longrightarrow> type_fits (sdsReqType n) n"
  using sdsReqType_range [of n] by (auto simp: type_fits_def)

text \<open>A string whose area has \<open>n + 1\<close> bytes, after its \<open>alloc\<close> field is set to \<open>n\<close>.\<close>

lemma sds_rebuilt:
  assumes t: "type_fits (sdstype s) n" and l: "sdslen s \<le> n"
    and b: "length (buf s) = n + 1"
  shows "sds_wf (sdssetalloc s n)" and "sds_content (sdssetalloc s n) = sds_content s"
    and "sdslen (sdssetalloc s n) = sdslen s" and "sdstype (sdssetalloc s n) = sdstype s"
    and "buf (sdssetalloc s n) = buf s"
proof -
  show ty: "sdstype (sdssetalloc s n) = sdstype s"
    by (simp add: sdssetalloc_def Let_def) (simp add: sdstype_def)
  show bf: "buf (sdssetalloc s n) = buf s" by (simp add: sdssetalloc_def Let_def)
  show len: "sdslen (sdssetalloc s n) = sdslen s"
    unfolding sdslen_def ty by (simp add: sdssetalloc_def Let_def)
  show "sds_content (sdssetalloc s n) = sds_content s"
    by (simp add: sds_content_def bf len)
  have al: "sdstype s \<noteq> SDS_TYPE_5 \<Longrightarrow> halloc (sdssetalloc s n) = n"
    using t by (auto simp: type_fits_def sdssetalloc_def Let_def)
  show "sds_wf (sdssetalloc s n)"
    using t l b al by (auto simp: sds_wf_def ty bf len type_fits_def)
qed

lemma sdslen_fits:
  assumes "type_fits (sdstype s) n" and "l \<le> n"
  shows "sdslen (sdssetlen s l) = l"
  using assms unfolding sdslen_def sdstype_setlen
  by (auto simp: type_fits_def sdssetlen_def Let_def)

lemma sds_resize_spec:
  assumes ok: "sds_wf s" and t: "type_fits t n" and l: "sdslen s \<le> n" and n: "n < 2 ^ 63"
  shows "\<exists>r. sds_resize A s t n = Some r \<and>
    ptr_all (\<lambda>s'. sds_wf s' \<and> sds_content s' = sds_content s \<and> sdslen s' = sdslen s \<and>
      buf s' ! sdslen s = buf s ! sdslen s \<and> sdstype s' = t \<and> length (buf s') = n + 1) r \<and>
    (grant A (sdsHdrSize t + n + 1) \<longrightarrow> r \<noteq> Nullp)"
proof -
  let ?h = "sdsHdrSize t"
  have req: "usz (?h + n + 1) = ?h + n + 1"
    using n sdsHdrSize_le [of t] by simp
  have len: "sdslen s < length (buf s)"
    using ok by (auto simp: sds_wf_def)
  show ?thesis
  proof (cases "sdstype s = t")
    case same: True
    show ?thesis
    proof (cases "realloc A (replicate ?h NUL @ buf s) (?h + n + 1)")
      case None
      then show ?thesis
        using same unfolding sds_resize_def Let_def req by (simp add: realloc_def split: if_splits)
    next
      case (Some newsh)
      let ?b = "drop ?h newsh"
      have lb: "length ?b = n + 1" using realloc_length [OF Some] by simp
      have "take (?h + Suc (sdslen s)) newsh = replicate ?h NUL @ take (Suc (sdslen s)) (buf s)"
        using realloc_prefix [OF Some, of "?h + Suc (sdslen s)"] len l by simp
      then have pre: "take (Suc (sdslen s)) ?b = take (Suc (sdslen s)) (buf s)"
        by (metis add_diff_cancel_left' append_eq_conv_conj drop_take length_replicate)
      have z': "?b ! sdslen s = buf s ! sdslen s"
        using pre lb l by (metis lessI nth_take)
      have c: "take (sdslen s) ?b = take (sdslen s) (buf s)"
        using arg_cong [OF pre, of "take (sdslen s)"] by (simp add: min_def)
      let ?s1 = "s\<lparr>buf := ?b\<rparr>"
      have "sds_resize A s t n = Some (Ptr (sdssetalloc ?s1 n))"
        using same Some unfolding sds_resize_def Let_def req by simp
      moreover have "type_fits (sdstype ?s1) n" "sdslen ?s1 \<le> n" "length (buf ?s1) = n + 1"
        using same t l lb by simp_all
      note sds_rebuilt [OF this]
      ultimately show ?thesis
        using same lb c z' by (simp add: sds_content_def)
    qed
  next
    case diff: False
    show ?thesis
    proof (cases "sds_block A ?h n")
      case None
      then have "\<not> grant A (?h + n + 1)"
        unfolding sds_block_def malloc_def req by (auto split: if_splits)
      with None show ?thesis
        using diff unfolding sds_resize_def Let_def by simp
    next
      case (Some area)
      then have la: "length area = n + 1"
        unfolding sds_block_def req by (auto dest!: malloc_length)
      let ?src = "take (sdslen s + 1) (buf s)"
      let ?b = "?src @ drop (sdslen s + 1) area"
      let ?s1 = "sdssetlen \<lparr>flags = word_of_nat t, hlen = 0, halloc = 0, buf = ?b\<rparr> (sdslen s)"
      have src: "get_bytes (buf s) 0 (sdslen s + 1) = Some ?src" "length ?src = sdslen s + 1"
        using len by (simp_all add: get_bytes_Some)
      have "put area 0 ?src = Some ?b"
        using src la l by (simp add: put_def)
      with src Some have run: "sds_resize A s t n = Some (Ptr (sdssetalloc ?s1 n))"
        using diff unfolding sds_resize_def Let_def by simp
      have ty1: "sdstype ?s1 = t"
        using t by (simp add: sdstype_of_nat type_fits_def sds_type_defs)
      then have len1: "sdslen ?s1 = sdslen s"
        using t l by (intro sdslen_fits) simp_all
      have c1: "sds_content ?s1 = sds_content s"
        using src unfolding sds_content_def len1 by (simp add: min_def)
      have z1: "?b ! sdslen s = buf s ! sdslen s" using src len by (simp add: nth_append)
      have "type_fits (sdstype ?s1) n" "sdslen ?s1 \<le> n" "length (buf ?s1) = n + 1"
        using t l la src unfolding len1 ty1 by auto
      note sds_rebuilt [OF this]
      then show ?thesis
        using run len1 ty1 c1 la src l z1 by simp
    qed
  qed
qed



lemma sds_ok_wf: "sds_ok s \<Longrightarrow> sds_wf s"
  by (simp add: sds_ok_def)

lemmas sds_ok_facts =
  sds_fits_len [OF sds_ok_wf] sdsavail_ok [OF sds_ok_wf] length_sds_content [OF sds_ok_wf]

end
