(* ===== verification/Sds_Append.thy ===== *)
theory Sds_Append
  imports Sds
begin

text \<open>
  Functional correctness of the allocating operations of \<open>sds.c\<close>: creation, growing, appending,
  overwriting. Each lemma says that the operation runs without a memory error for every allocator,
  keeps \<open>sds_ok\<close> and has the stated effect on \<open>sds_content\<close>.
\<close>

section \<open>Creation\<close>

lemma type_fits_header:
  assumes "n < 2 ^ 64"
  shows "type_fits (if sdsReqType n = SDS_TYPE_5 \<and> n = 0 then SDS_TYPE_8 else sdsReqType n) n"
  using type_fits_ReqType [OF assms] by (auto simp: type_fits_def sds_type_defs)

lemma sds_header_props:
  assumes "type_fits t n"
  shows "sdstype (sds_header t n b) = t" and "sdslen (sds_header t n b) = n"
    and "buf (sds_header t n b) = b" and "t \<noteq> SDS_TYPE_5 \<Longrightarrow> halloc (sds_header t n b) = n"
proof -
  show ty: "sdstype (sds_header t n b) = t"
  proof (cases "t = SDS_TYPE_5")
    case True
    then show ?thesis
      unfolding sds_header_def by (simp add: sdstype_def type5_flags_mask) (simp add: SDS_TYPE_5_def)
  next
    case False
    with assms show ?thesis
      by (intro sdstype_of_nat) (simp_all add: sds_header_def type_fits_def SDS_TYPE_64_def)
  qed
  show "sdslen (sds_header t n b) = n"
    using assms unfolding sdslen_def ty by (auto simp: sds_header_def type_fits_def)
  show "buf (sds_header t n b) = b" by (simp add: sds_header_def)
  show "t \<noteq> SDS_TYPE_5 \<Longrightarrow> halloc (sds_header t n b) = n"
    using assms by (auto simp: sds_header_def type_fits_def)
qed

lemma sds_header_ok:
  assumes t: "type_fits t n" and c: "length c = n"
  shows "sds_ok ((sds_header t n b)\<lparr>buf := c @ [NUL]\<rparr>)"
    and "sds_content ((sds_header t n b)\<lparr>buf := c @ [NUL]\<rparr>) = c"
  using c t unfolding sds_ok_def sds_wf_def sds_content_def
  by (auto simp: sds_header_props nth_append type_fits_def)

lemma sdsnewlen_spec:
  assumes n: "n < size_limit" and src: "\<And>t. init = Ptr t \<Longrightarrow> n \<le> length t"
  shows "yields A (sdsnewlen A init n) (\<lambda>s. sds_ok s \<and>
     sds_content s = (case init of Nullp \<Rightarrow> replicate n NUL | Ptr t \<Rightarrow> take n t))"
proof -
  define ty where "ty = (if sdsReqType n = SDS_TYPE_5 \<and> n = 0 then SDS_TYPE_8 else sdsReqType n)"
  let ?h = "sdsHdrSize ty"
  have req: "usz (?h + n + 1) = ?h + n + 1"
    using n sdsHdrSize_le [of ty] by (simp add: size_limit_def)
  have fits: "type_fits ty n"
    unfolding ty_def using n by (intro type_fits_header) (simp add: size_limit_def)
  note run = sdsnewlen_def [of A init n, unfolded Let_def, folded ty_def]
  show ?thesis
  proof (cases "sds_block A ?h n")
    case None
    then have "\<not> grant A (?h + n + 1)"
      unfolding sds_block_def malloc_def req by (auto split: if_splits)
    with None show ?thesis unfolding run by (auto simp: yields_def)
  next
    case (Some fresh)
    then have lf: "length fresh = n + 1"
      unfolding sds_block_def req by (auto dest!: malloc_length)
    define area where "area = (case init of Nullp \<Rightarrow> replicate (length fresh) NUL | Ptr _ \<Rightarrow> fresh)"
    define c where "c = (case init of Nullp \<Rightarrow> replicate n NUL | Ptr t \<Rightarrow> take n t)"
    have c: "length c = n" using src by (auto simp: c_def split: ptr.splits)
    have area: "length area = n + 1" using lf by (auto simp: area_def split: ptr.splits)
    have copy: "(case init of Nullp \<Rightarrow> Some area
           | Ptr t \<Rightarrow> do { src \<leftarrow> get_bytes t 0 n; put area 0 src })
         = Some (c @ drop n area)"
    proof (cases init)
      case Nullp
      with area lf show ?thesis
        by (simp del: replicate_Suc add: c_def area_def replicate_add [symmetric])
    next
      case (Ptr t)
      with src lf show ?thesis by (simp add: c_def area_def get_bytes_Some put_def)
    qed
    obtain x where x: "drop n area = [x]"
      using area by (metis add_diff_cancel_left' length_Suc_conv length_drop length_0_conv One_nat_def)
    then have nul: "poke (c @ [x]) n NUL = Some (c @ [NUL])"
      using c by (simp add: poke_def list_update_append)
    have "sdsnewlen A init n = do {
        b1 \<leftarrow> (case init of Nullp \<Rightarrow> Some area
               | Ptr t \<Rightarrow> do { src \<leftarrow> get_bytes t 0 n; put area 0 src });
        b2 \<leftarrow> poke b1 n NUL;
        Some (Ptr ((sds_header ty n area)\<lparr>buf := b2\<rparr>)) }"
      unfolding run Some option.case area_def [symmetric] sds_header_props [OF fits] ..
    also have "\<dots> = Some (Ptr ((sds_header ty n area)\<lparr>buf := c @ [NUL]\<rparr>))"
      unfolding copy x using nul by simp
    finally show ?thesis
      unfolding c_def [symmetric] by (rule yieldsI) (simp add: sds_header_ok [OF fits c])
  qed
qed


lemma sdsempty_spec: "yields A (sdsempty A) (\<lambda>s. sds_ok s \<and> sds_content s = [])"
  unfolding sdsempty_def
  by (rule yields_mono [OF sdsnewlen_spec]) (auto simp: size_limit_def)

lemma sdsnew_spec:
  "cstrlen t < size_limit \<Longrightarrow>
     yields A (sdsnew A (Ptr t)) (\<lambda>s. sds_ok s \<and> sds_content s = cstr t)"
  unfolding sdsnew_def Let_def
  by (rule yields_mono [OF sdsnewlen_spec])
     (auto simp: cstrlen_def cstr_def length_takeWhile_le takeWhile_eq_take [symmetric])

lemma sdsdup_spec:
  "sds_ok s \<Longrightarrow> sdslen s < size_limit \<Longrightarrow>
     yields A (sdsdup A s) (\<lambda>s'. sds_ok s' \<and> sds_content s' = sds_content s)"
  unfolding sdsdup_def
  by (rule yields_mono [OF sdsnewlen_spec]) (auto simp: sds_content_def sds_ok_def sds_wf_def)

section \<open>Growing\<close>

lemma sdsMakeRoomFor_wf:
  assumes ok: "sds_wf s" and lim: "sdslen s + n < size_limit"
  shows "yields A (sdsMakeRoomFor A s n) (\<lambda>s'. sds_wf s' \<and> sds_content s' = sds_content s \<and>
    sdslen s' = sdslen s \<and> buf s' ! sdslen s = buf s ! sdslen s \<and> n \<le> sdsavail s')"
proof (cases "n \<le> sdsavail s")
  case True
  with ok show ?thesis by (simp add: sdsMakeRoomFor_def)
next
  case False
  define m where "m = (if sdslen s + n < SDS_MAX_PREALLOC then (sdslen s + n) * 2
    else sdslen s + n + SDS_MAX_PREALLOC)"
  define ty where "ty = (if sdsReqType m = SDS_TYPE_5 then SDS_TYPE_8 else sdsReqType m)"
  have m: "m < 2 ^ 63" "sdslen s + n \<le> m"
    using lim by (auto simp: m_def size_limit_def SDS_MAX_PREALLOC_def)
  have w: "usz (sdslen s + n) = sdslen s + n"
    "(if sdslen s + n < SDS_MAX_PREALLOC then usz ((sdslen s + n) * 2)
      else usz (sdslen s + n + SDS_MAX_PREALLOC)) = m"
    using lim m by (auto simp: m_def size_limit_def)
  have run: "sdsMakeRoomFor A s n = sds_resize A s ty m"
    using False unfolding sdsMakeRoomFor_def Let_def w by (simp add: ty_def)
  have ty: "type_fits ty m" "ty \<noteq> SDS_TYPE_5"
    using type_fits_ReqType [of m] m by (auto simp: ty_def type_fits_def sds_type_defs hdr_bits_def)
  obtain r where "sds_resize A s ty m = Some r"
    and r: "ptr_all (\<lambda>s'. sds_wf s' \<and> sds_content s' = sds_content s \<and> sdslen s' = sdslen s \<and>
      buf s' ! sdslen s = buf s ! sdslen s \<and> sdstype s' = ty \<and> length (buf s') = m + 1) r"
    and g: "grant A (sdsHdrSize ty + m + 1) \<longrightarrow> r \<noteq> Nullp"
    using sds_resize_spec [OF ok ty(1), of A] m by auto
  moreover have "ptr_all (\<lambda>s'. sds_wf s' \<and> sds_content s' = sds_content s \<and>
      sdslen s' = sdslen s \<and> buf s' ! sdslen s = buf s ! sdslen s \<and> n \<le> sdsavail s') r"
  proof (rule ptr_all_mono [OF r], elim conjE, intro conjI)
    fix s' assume "sds_wf s'" "sdslen s' = sdslen s" "sdstype s' = ty" "length (buf s') = m + 1"
    moreover from this have "halloc s' = m" using ty by (simp add: sds_wf_def)
    ultimately show "n \<le> sdsavail s'" using ty m by (simp add: sdsavail_ok)
  qed
  ultimately show ?thesis unfolding run yields_def using g by blast
qed

lemma sdsMakeRoomFor_spec:
  assumes ok: "sds_ok s" and lim: "sdslen s + n < size_limit"
  shows "yields A (sdsMakeRoomFor A s n) (\<lambda>s'. sds_ok s' \<and> sds_content s' = sds_content s \<and>
    sdslen s' = sdslen s \<and> n \<le> sdsavail s')"
  by (rule yields_mono [OF sdsMakeRoomFor_wf]) (use assms in \<open>auto simp: sds_ok_def\<close>)

lemma sdsRemoveFreeSpace_spec:
  assumes ok: "sds_ok s" and lim: "sdslen s < size_limit"
  shows "yields A (sdsRemoveFreeSpace A s) (\<lambda>s'. sds_ok s' \<and> sds_content s' = sds_content s \<and>
    length (buf s') = sdslen s + 1 \<and> sdsavail s' = 0)"
proof -
  let ?n = "sdslen s"
  have n: "?n < 2 ^ 63" using lim by (simp add: size_limit_def)
  obtain r where "sds_resize A s (sdsReqType ?n) ?n = Some r"
    and r: "ptr_all (\<lambda>s'. sds_wf s' \<and> sds_content s' = sds_content s \<and> sdslen s' = sdslen s \<and>
      buf s' ! ?n = buf s ! ?n \<and> sdstype s' = sdsReqType ?n \<and> length (buf s') = ?n + 1) r"
    and g: "grant A (sdsHdrSize (sdsReqType ?n) + ?n + 1) \<longrightarrow> r \<noteq> Nullp"
    using sds_resize_spec [OF sds_ok_wf [OF ok] type_fits_ReqType, of ?n A] n by auto
  moreover have "ptr_all (\<lambda>s'. sds_ok s' \<and> sds_content s' = sds_content s \<and>
      length (buf s') = ?n + 1 \<and> sdsavail s' = 0) r"
    by (rule ptr_all_mono [OF r]) (use ok in \<open>auto simp: sdsavail_ok sds_ok_def sds_wf_def\<close>)
  ultimately show ?thesis
    unfolding sdsRemoveFreeSpace_def Let_def yields_def using g by blast
qed

text \<open>Writing \<open>c\<close> after the first \<open>k\<close> bytes, terminating, and setting the length.\<close>

lemma sds_write_at:
  assumes ok: "sds_wf s" and k: "k \<le> sdslen s" and fits: "sds_fits s (k + length c)"
  shows "\<exists>b b'. put (buf s) k c = Some b \<and> poke b (k + length c) NUL = Some b' \<and>
     sds_ok (sdssetlen (s\<lparr>buf := b'\<rparr>) (k + length c)) \<and>
     sds_content (sdssetlen (s\<lparr>buf := b'\<rparr>) (k + length c)) = take k (sds_content s) @ c \<and>
     sdslen (sdssetlen (s\<lparr>buf := b'\<rparr>) (k + length c)) = k + length c"
proof -
  let ?n = "k + length c"
  have n: "?n < length (buf s)" using fits by (simp add: sds_fits_def)
  let ?b = "take k (buf s) @ c @ drop ?n (buf s)"
  let ?b' = "take k (buf s) @ c @ NUL # drop (Suc ?n) (buf s)"
  have put: "put (buf s) k c = Some ?b" using n by (simp add: put_def)
  have "drop ?n (buf s) = buf s ! ?n # drop (Suc ?n) (buf s)"
    using n by (simp add: Cons_nth_drop_Suc)
  then have poke: "poke ?b ?n NUL = Some ?b'"
    using n by (simp add: poke_def list_update_append)
  have "length ?b' = length (buf s)" "?b' ! ?n = NUL"
    using n by (simp_all add: nth_append)
  note over = sds_overwrite [OF ok fits this]
  have cont: "take ?n ?b' = take k (sds_content s) @ c"
    using n k by (simp add: sds_content_def min_def)
  show ?thesis
    by (rule exI [of _ ?b], rule exI [of _ ?b']) (use put poke over cont in simp)
qed


section \<open>Appending and overwriting\<close>

lemma sdscatlen_spec:
  assumes ok: "sds_ok s" and lim: "sdslen s + n < size_limit" and n: "n \<le> length t"
  shows "yields A (sdscatlen A s t n) (\<lambda>s'. sds_ok s' \<and>
     sds_content s' = sds_content s @ take n t \<and> sdslen s' = sdslen s + n)"
proof -
  have w: "usz (sdslen s + n) = sdslen s + n" using lim by (simp add: size_limit_def)
  show ?thesis
    unfolding sdscatlen_def Let_def w
  proof (rule yields_bind [OF sdsMakeRoomFor_spec [OF ok lim]], elim conjE)
    fix s' assume s': "sds_ok s'" "sds_content s' = sds_content s" "sdslen s' = sdslen s"
      "n \<le> sdsavail s'"
    have src: "get_bytes t 0 n = Some (take n t)" "length (take n t) = n"
      using n by (simp_all add: get_bytes_Some)
    have fits: "sds_fits s' (sdslen s + length (take n t))"
      using sds_fits_avail [OF sds_ok_wf [OF s'(1)] s'(4)] s'(3) src(2) by simp
    from sds_write_at [OF sds_ok_wf [OF s'(1)] _ fits] s'(3) obtain b b' where
      b: "put (buf s') (sdslen s) (take n t) = Some b" "poke b (sdslen s + n) NUL = Some b'"
      "sds_ok (sdssetlen (s'\<lparr>buf := b'\<rparr>) (sdslen s + n))"
      "sds_content (sdssetlen (s'\<lparr>buf := b'\<rparr>) (sdslen s + n)) =
         take (sdslen s) (sds_content s') @ take n t"
      "sdslen (sdssetlen (s'\<lparr>buf := b'\<rparr>) (sdslen s + n)) = sdslen s + n"
      using src(2) by auto
    moreover have "take (sdslen s) (sds_content s') = sds_content s"
      using s' length_sds_content [OF sds_ok_wf [OF ok]] by simp
    ultimately show "yields A (do {
         src \<leftarrow> get_bytes t 0 n;
         b \<leftarrow> put (buf s') (sdslen s) src;
         b' \<leftarrow> poke b (sdslen s + n) NUL;
         Some (Ptr (sdssetlen (s'\<lparr>buf := b'\<rparr>) (sdslen s + n))) })
       (\<lambda>s'. sds_ok s' \<and> sds_content s' = sds_content s @ take n t \<and>
          sdslen s' = sdslen s + n)"
      using src(1) by simp
  qed
qed

lemma sdscat_spec:
  assumes "sds_ok s" and "sdslen s + cstrlen t < size_limit"
  shows "yields A (sdscat A s t) (\<lambda>s'. sds_ok s' \<and> sds_content s' = sds_content s @ cstr t \<and>
     sdslen s' = sdslen s + cstrlen t)"
  unfolding sdscat_def
  by (rule yields_mono [OF sdscatlen_spec]) (use assms in \<open>auto simp: cstrlen_def\<close>)

lemma sdscatsds_spec:
  assumes "sds_ok s" and "sds_ok t" and "sdslen s + sdslen t < size_limit"
  shows "yields A (sdscatsds A s t) (\<lambda>s'. sds_ok s' \<and>
     sds_content s' = sds_content s @ sds_content t \<and> sdslen s' = sdslen s + sdslen t)"
  unfolding sdscatsds_def
  by (rule yields_mono [OF sdscatlen_spec]) (use assms in \<open>auto simp: sds_content_def sds_ok_def sds_wf_def\<close>)

lemma sds_fits_alloc: "sds_wf s \<Longrightarrow> n \<le> sdsalloc s \<Longrightarrow> sds_fits s n"
  using SDS_TYPE_5_LEN_bound [of "flags s"]
  by (auto simp: sds_fits_def sds_ok_def sds_wf_def sdsalloc_def sdslen_def split: if_splits)

lemma sdscpylen_spec:
  assumes ok: "sds_ok s" and lim: "n < size_limit" and n: "n \<le> length t"
  shows "yields A (sdscpylen A s t n) (\<lambda>s'. sds_ok s' \<and> sds_content s' = take n t)"
  unfolding sdscpylen_def
proof (rule yields_bind)
  show "yields A (if sdsalloc s < n
      then sdsMakeRoomFor A s (usz_of_int (int n - int (sdslen s))) else Some (Ptr s))
      (\<lambda>s'. sds_ok s' \<and> sds_fits s' n)"
  proof (cases "sdsalloc s < n")
    case True
    have "sdslen s \<le> sdsalloc s"
      using ok by (auto simp: sds_ok_def sds_wf_def sdsalloc_def sdslen_def)
    with True lim have d: "usz_of_int (int n - int (sdslen s)) = n - sdslen s"
      and l: "sdslen s + (n - sdslen s) < size_limit" and e: "sdslen s + (n - sdslen s) = n"
      by (simp_all add: usz_of_int_id size_limit_def nat_diff_distrib)
    have "yields A (sdsMakeRoomFor A s (n - sdslen s)) (\<lambda>s'. sds_ok s' \<and> sds_fits s' n)"
      by (rule yields_mono [OF sdsMakeRoomFor_spec [OF ok l]]) (metis e sds_fits_avail sds_ok_wf)
    with True d show ?thesis by simp
  next
    case False
    then show ?thesis using ok by (simp add: sds_fits_alloc sds_ok_wf)
  qed
next
  fix s' assume s': "sds_ok s' \<and> sds_fits s' n"
  have src: "get_bytes t 0 n = Some (take n t)" "length (take n t) = n"
    using n by (simp_all add: get_bytes_Some)
  with sds_write_at [of s' 0 "take n t"] s' sds_ok_wf show "yields A (do {
       src \<leftarrow> get_bytes t 0 n;
       b \<leftarrow> put (buf s') 0 src;
       b' \<leftarrow> poke b n NUL;
       Some (Ptr (sdssetlen (s'\<lparr>buf := b'\<rparr>) n)) })
     (\<lambda>s'. sds_ok s' \<and> sds_content s' = take n t)"
    by auto
qed

lemma sdscpy_spec:
  assumes "sds_ok s" and "cstrlen t < size_limit"
  shows "yields A (sdscpy A s t) (\<lambda>s'. sds_ok s' \<and> sds_content s' = cstr t)"
  unfolding sdscpy_def
  by (rule yields_mono [OF sdscpylen_spec]) (use assms in \<open>auto simp: cstrlen_def\<close>)

lemma sdsgrowzero_spec:
  assumes ok: "sds_ok s" and lim: "n < size_limit"
  shows "yields A (sdsgrowzero A s n) (\<lambda>s'. sds_ok s' \<and>
     sds_content s' = sds_content s @ replicate (n - sdslen s) NUL)"
proof (cases "n \<le> sdslen s")
  case True
  with ok show ?thesis by (simp add: sdsgrowzero_def)
next
  case False
  let ?d = "n - sdslen s"
  from False have d: "sdslen s + ?d = n" by simp
  with lim have l: "sdslen s + ?d < size_limit" by simp
  have run: "sdsgrowzero A s n = ptr_bind (sdsMakeRoomFor A s ?d) (\<lambda>s'. do {
      b \<leftarrow> put (buf s') (sdslen s) (replicate (?d + 1) NUL);
      Some (Ptr (sdssetlen (s'\<lparr>buf := b\<rparr>) n)) })"
    using False by (simp add: sdsgrowzero_def Let_def)
  show ?thesis
    unfolding run
  proof (rule yields_bind [OF sdsMakeRoomFor_spec [OF ok l]], elim conjE)
    fix s' assume s': "sds_ok s'" "sds_content s' = sds_content s" "sdslen s' = sdslen s"
      "?d \<le> sdsavail s'"
    have fits: "sds_fits s' n" using sds_fits_avail [OF sds_ok_wf [OF s'(1)] s'(4)] s'(3) d by simp
    then have nl: "n < length (buf s')" by (simp add: sds_fits_def)
    define b where "b = take (sdslen s) (buf s') @ replicate (?d + 1) NUL @ drop (n + 1) (buf s')"
    have put: "put (buf s') (sdslen s) (replicate (?d + 1) NUL) = Some b"
      unfolding b_def using nl d by (simp add: put_def del: replicate_Suc)
    have len: "length b = length (buf s')" using nl d by (simp add: b_def)
    have nul: "b ! n = NUL"
      unfolding b_def using nl d by (simp add: nth_append del: replicate_Suc)
    have "take (sdslen s) (buf s') = sds_content s" using s'(2,3) by (simp add: sds_content_def)
    moreover have "length (take (sdslen s) (buf s')) = sdslen s" using nl d by simp
    ultimately have "take n b = sds_content s @ replicate ?d NUL"
      unfolding b_def using False by (simp del: replicate_Suc length_take)
    then show "yields A (do {
        b \<leftarrow> put (buf s') (sdslen s) (replicate (?d + 1) NUL);
        Some (Ptr (sdssetlen (s'\<lparr>buf := b\<rparr>) n)) })
      (\<lambda>s'. sds_ok s' \<and> sds_content s' = sds_content s @ replicate ?d NUL)"
      unfolding put using sds_overwrite [OF sds_ok_wf [OF s'(1)] fits len nul] by simp
  qed
qed

section \<open>Lengths set by hand\<close>

lemma sdsclear_spec:
  assumes "sds_ok s"
  shows "\<exists>s'. sdsclear s = Some s' \<and> sds_ok s' \<and> sds_content s' = [] \<and> sdsalloc s \<le> sdsavail s' + sdslen s"
proof -
  have fits: "sds_fits s 0" using sds_fits_len [OF sds_ok_wf [OF assms]] by (rule sds_fits_le) simp
  then have l: "0 < length (buf s)" by (simp add: sds_fits_def)
  let ?b = "(buf s)[0 := NUL]"
  have run: "sdsclear s = Some (sdssetlen (s\<lparr>buf := ?b\<rparr>) 0)"
    unfolding sdsclear_def Let_def using l by (simp add: poke_Some setlen_buf)
  have b: "length ?b = length (buf s)" "?b ! 0 = NUL" using l by simp_all
  note over = sds_overwrite [OF sds_ok_wf [OF assms] fits b]
  have "sdsalloc s \<le> sdsavail (sdssetlen (s\<lparr>buf := ?b\<rparr>) 0) + sdslen s"
    using over sdsavail_ok [OF sds_ok_wf [OF over(1)]]
    by (auto simp: sdsalloc_def sdslen_def [of s])
  with run over show ?thesis by simp
qed

text \<open>
  The bytes a caller stores in the free space become part of the string with \<open>sdsIncrLen\<close>; a
  negative increment trims the string on the right.
\<close>

lemma sdsIncrLen_spec:
  assumes ok: "sds_ok s" and i: "incr \<noteq> 0"
    and lo: "- int (sdslen s) \<le> incr" and hi: "incr \<le> int (sdsavail s)"
  shows "\<exists>s'. sdsIncrLen s incr = Some s' \<and> sds_ok s' \<and>
     sds_content s' = take (nat (int (sdslen s) + incr)) (buf s)"
proof -
  let ?n = "nat (int (sdslen s) + incr)"
  have fits: "sds_fits s ?n"
  proof (cases "incr \<le> 0")
    case True
    then show ?thesis using sds_fits_le [OF sds_fits_len [OF sds_ok_wf [OF ok]]] lo by simp
  next
    case False
    then show ?thesis using sds_fits_avail [OF sds_ok_wf [OF ok], of "nat incr"] hi by (simp add: nat_add_distrib)
  qed
  then have l: "?n < length (buf s)" by (simp add: sds_fits_def)
  let ?b = "(buf s)[?n := NUL]"
  have b: "length ?b = length (buf s)" "?b ! ?n = NUL" using l by simp_all
  have "sdsIncrLen s incr = Some (sdssetlen (s\<lparr>buf := ?b\<rparr>) ?n)"
  proof (cases "sdstype s = SDS_TYPE_5")
    case True
    then have "sdslen s = SDS_TYPE_5_LEN (flags s)" by (simp add: sdslen_def)
    with True i lo hi l ok show ?thesis
      unfolding sdsIncrLen_def Let_def
      by (auto simp: sdsavail_ok [OF sds_ok_wf] poke_Some sdssetlen_def Let_def)
  next
    case False
    have len: "sdslen s = hlen s" and t: "sdstype s \<le> SDS_TYPE_64"
      and al: "hlen s \<le> halloc s" "halloc s < 2 ^ hdr_bits (sdstype s)"
      using ok False by (auto simp: sds_ok_def sds_wf_def sdslen_def)
    have av: "incr \<le> int (halloc s) - int (hlen s)"
      using hi len al False by (simp add: sdsavail_ok [OF sds_ok_wf [OF ok]])
    have hb: "int (halloc s) < 2 ^ hdr_bits (sdstype s)"
      using of_nat_less_iff [where 'a = int, THEN iffD2, OF al(2)] unfolding of_nat_power of_nat_numeral .
    have m: "(int (halloc s) - int (hlen s)) mod 2 ^ hdr_bits (sdstype s) = int (halloc s) - int (hlen s)"
    proof (rule mod_pos_pos_trivial)
      show "int (halloc s) - int (hlen s) < 2 ^ hdr_bits (sdstype s)" using hb by linarith
    qed (use al in simp)
    have n: "(int (hlen s) + incr) mod 2 ^ hdr_bits (sdstype s) = int (hlen s) + incr"
    proof (rule mod_pos_pos_trivial)
      show "int (hlen s) + incr < 2 ^ hdr_bits (sdstype s)" using hb av by linarith
    qed (use lo len in simp)
    have lt: "nat (int (hlen s) + incr) < 2 ^ hdr_bits (sdstype s)"
      using av al by linarith
    have c: "0 \<le> incr \<and> incr \<le> (if sdstype s = SDS_TYPE_8 \<or> sdstype s = SDS_TYPE_16
        then int (halloc s) - int (hlen s)
        else (int (halloc s) - int (hlen s)) mod 2 ^ hdr_bits (sdstype s)) \<or>
        incr < 0 \<and> nat (- incr) \<le> hlen s"
      using av lo len unfolding m by auto
    show ?thesis
      unfolding sdsIncrLen_def Let_def n
      using False t c l lt len by (simp add: poke_Some sdssetlen_def Let_def)
  qed
  then show ?thesis using sds_overwrite [OF sds_ok_wf [OF ok] fits b] l by simp
qed


section \<open>The interface other components use\<close>

text \<open>
  The reader, the command formatter and the connection only append to strings. A \<open>byte_buffer\<close> is
  anything that can be appended to with the contract of \<open>sdscatlen\<close>; \<open>cat_chunks\<close> is a caller that
  appends one piece after the other and uses each result without a NULL check.
\<close>

primrec cat_chunks :: "('b \<Rightarrow> bytes \<Rightarrow> 'b ptr option) \<Rightarrow> 'b ptr \<Rightarrow> bytes list \<Rightarrow> 'b ptr option" where
  "cat_chunks app p [] = Some p"
| "cat_chunks app p (t # ts) = do { b \<leftarrow> deref p; p' \<leftarrow> app b t; cat_chunks app p' ts }"

locale byte_buffer =
  fixes A :: allocator
    and ok :: "'b \<Rightarrow> bool"
    and content :: "'b \<Rightarrow> bytes"
    and append :: "'b \<Rightarrow> bytes \<Rightarrow> 'b ptr option"
  assumes append_yields:
    "ok b \<Longrightarrow> length (content b) + length t < size_limit \<Longrightarrow>
       yields A (append b t) (\<lambda>b'. ok b' \<and> content b' = content b @ t)"
begin

lemma append_granted:
  assumes "\<forall>n. grant A n" and "ok b" and "length (content b) + length t < size_limit"
  obtains b' where "append b t = Some (Ptr b')" "ok b'" "content b' = content b @ t"
  using yields_granted [OF append_yields] assms by metis

lemma cat_chunks_granted:
  assumes "\<forall>n. grant A n" and "ok b"
    and "length (content b) + length (concat ts) < size_limit"
  shows "\<exists>b'. cat_chunks append (Ptr b) ts = Some (Ptr b') \<and> ok b' \<and>
           content b' = content b @ concat ts"
  using assms(2,3)
proof (induction ts arbitrary: b)
  case Nil
  then show ?case by simp
next
  case (Cons t ts)
  from assms(1) Cons.prems obtain b1 where
    b1: "append b t = Some (Ptr b1)" "ok b1" "content b1 = content b @ t"
    by (elim append_granted) auto
  moreover from this Cons.prems obtain b' where
    "cat_chunks append (Ptr b1) ts = Some (Ptr b')" "ok b'" "content b' = content b1 @ concat ts"
    using Cons.IH [of b1] by auto
  ultimately show ?case by simp
qed

end

interpretation sdsbuf: byte_buffer A sds_ok sds_content "\<lambda>s t. sdscatlen A s t (length t)"
  for A :: allocator
  by unfold_locales
     (rule yields_mono [OF sdscatlen_spec], auto simp: length_sds_content sds_ok_wf)

end
