(* ===== verification/Sds_Text.thy ===== *)
theory Sds_Text
  imports Sds_Append "HOL-Library.Char_ord" "HOL-Library.List_Lexorder"
begin

text \<open>
  The text operations of \<open>sds.c\<close>: number conversion, the two formatted appends, trimming, ranges,
  case mapping, comparison, splitting, quoting, argument parsing, character mapping and joining.

  What \<open>vsnprintf\<close> would print for a format and its arguments is given to \<open>sdscatvprintf\<close> as a
  byte list; the buffer-doubling loop around it is modelled. Array allocations for token vectors
  only consult the allocator.
\<close>

section \<open>Character classes of the C locale\<close>

definition isspace :: "char \<Rightarrow> bool" where
  "isspace c \<longleftrightarrow> c = CHR '' '' \<or> (9 \<le> uch c \<and> uch c \<le> 13)"

definition isprint :: "char \<Rightarrow> bool" where
  "isprint c \<longleftrightarrow> 32 \<le> uch c \<and> uch c \<le> 126"

definition tolower :: "char \<Rightarrow> char" where
  "tolower c = (if 65 \<le> uch c \<and> uch c \<le> 90 then byte_of (uch c + 32) else c)"

definition toupper :: "char \<Rightarrow> char" where
  "toupper c = (if 97 \<le> uch c \<and> uch c \<le> 122 then byte_of (uch c - 32) else c)"

section \<open>Numbers to text\<close>

text \<open>The \<open>do ... while (v)\<close> loop writes the digits, least significant first.\<close>

fun write_digits :: "bytes \<Rightarrow> nat \<Rightarrow> nat \<Rightarrow> (bytes \<times> nat) option" where
  "write_digits b p v = do {
     b' \<leftarrow> poke b p (byte_of (48 + v mod 10));
     (if v div 10 = 0 then Some (b', Suc p) else write_digits b' (Suc p) (v div 10)) }"

declare write_digits.simps [simp del]

text \<open>The loop that swaps the two ends of the written part until they meet.\<close>

function swap_ends :: "bytes \<Rightarrow> nat \<Rightarrow> nat \<Rightarrow> bytes option" where
  "swap_ends b i j =
     (if i < j then do {
        x \<leftarrow> peek b i;
        y \<leftarrow> peek b j;
        b1 \<leftarrow> poke b i y;
        b2 \<leftarrow> poke b1 j x;
        swap_ends b2 (i + 1) (j - 1) }
      else Some b)"
  by pat_completeness auto
termination by (relation "measure (\<lambda>(b, i, j). j - i)") auto

declare swap_ends.simps [simp del]

definition SDS_LLSTR_SIZE :: nat where "SDS_LLSTR_SIZE = 21"

definition sdsll2str :: "bytes \<Rightarrow> int \<Rightarrow> (bytes \<times> nat) option" where
  "sdsll2str s value =
     (let v = usz_of_int (if value < 0 then int64 (- value) else value) in do {
        (b, p) \<leftarrow> write_digits s 0 v;
        (b, p) \<leftarrow> (if value < 0 then do { b \<leftarrow> poke b p (CHR ''-''); Some (b, Suc p) } else Some (b, p));
        b \<leftarrow> poke b p NUL;
        b \<leftarrow> swap_ends b 0 (p - 1);
        Some (b, p) })"

definition sdsull2str :: "bytes \<Rightarrow> nat \<Rightarrow> (bytes \<times> nat) option" where
  "sdsull2str s v = do {
     (b, p) \<leftarrow> write_digits s 0 v;
     b \<leftarrow> poke b p NUL;
     b \<leftarrow> swap_ends b 0 (p - 1);
     Some (b, p) }"

text \<open>A local array of \<open>SDS_LLSTR_SIZE\<close> characters; its initial bytes are indeterminate.\<close>

definition ll_buffer :: "allocator \<Rightarrow> bytes" where
  "ll_buffer A = map (junk A) [0..<SDS_LLSTR_SIZE]"

definition sdsfromlonglong :: "allocator \<Rightarrow> int \<Rightarrow> sds ptr option" where
  "sdsfromlonglong A value = do {
     (b, len) \<leftarrow> sdsll2str (ll_buffer A) value;
     sdsnewlen A (Ptr b) len }"

section \<open>Formatted appends\<close>

text \<open>
  \<open>sdscatvprintf\<close> prints into a buffer of \<open>buflen\<close> bytes and takes a non-NUL byte at position
  \<open>buflen - 2\<close> as the sign that the output did not fit. The output \<open>out\<close> is what an unbounded
  \<open>vsnprintf\<close> would print; a bounded one keeps its first \<open>buflen - 1\<close> bytes.
\<close>

function vprintf_loop :: "allocator \<Rightarrow> sds \<Rightarrow> nat \<Rightarrow> bytes \<Rightarrow> sds ptr option" where
  "vprintf_loop A s buflen out =
     (if buflen < 2 then None
      else if buflen - 1 \<le> length out \<and> out ! (buflen - 2) \<noteq> NUL then
        (if grant A (buflen * 2) then vprintf_loop A s (buflen * 2) out else Some Nullp)
      else sdscat A s (take (buflen - 1) out))"
  by pat_completeness auto
termination by (relation "measure (\<lambda>(A, s, buflen, out). length out + 2 - buflen)") auto

declare vprintf_loop.simps [simp del]

definition sdscatvprintf :: "allocator \<Rightarrow> sds \<Rightarrow> bytes \<Rightarrow> bytes \<Rightarrow> sds ptr option" where
  "sdscatvprintf A s fmt out =
     (let buflen = cstrlen fmt * 2 in
      if 1024 < buflen
      then (if grant A buflen then vprintf_loop A s buflen out else Some Nullp)
      else vprintf_loop A s 1024 out)"

text \<open>The variadic arguments \<open>sdscatfmt\<close> reads with \<open>va_arg\<close>.\<close>

datatype fmt_arg =
    ArgStr bytes
  | ArgSds sds
  | ArgInt int
  | ArgLongLong int
  | ArgUInt nat
  | ArgULongLong nat

text \<open>\<open>memcpy(s+i,str,l); sdsinclen(s,l); i += l;\<close> after making room; \<open>i\<close> is an \<open>int\<close>.\<close>

definition fmt_put :: "allocator \<Rightarrow> sds \<Rightarrow> int \<Rightarrow> bytes \<Rightarrow> nat \<Rightarrow> (sds \<times> int) option" where
  "fmt_put A s i str l = do {
     r \<leftarrow> (if sdsavail s < l then sdsMakeRoomFor A s l else Some (Ptr s));
     s \<leftarrow> deref r;
     src \<leftarrow> get_bytes str 0 l;
     b \<leftarrow> (if i < 0 then None else put (buf s) (nat i) src);
     Some (sdsinclen (s\<lparr>buf := b\<rparr>) l, int32 (i + int l)) }"

text \<open>\<open>s[i++] = c; sdsinclen(s,1);\<close>\<close>

definition fmt_putc :: "sds \<Rightarrow> int \<Rightarrow> char \<Rightarrow> (sds \<times> int) option" where
  "fmt_putc s i c = do {
     b \<leftarrow> (if i < 0 then None else poke (buf s) (nat i) c);
     Some (sdsinclen (s\<lparr>buf := b\<rparr>) 1, int32 (i + 1)) }"

fun fmt_spec :: "allocator \<Rightarrow> sds \<Rightarrow> int \<Rightarrow> char \<Rightarrow> fmt_arg list
    \<Rightarrow> (sds \<times> int \<times> fmt_arg list) option" where
  "fmt_spec A s i next ap =
     (if next = CHR ''s'' then
        (case ap of ArgStr str # ap \<Rightarrow>
           do { (s, i) \<leftarrow> fmt_put A s i (cstr str) (cstrlen str); Some (s, i, ap) }
         | _ \<Rightarrow> None)
      else if next = CHR ''S'' then
        (case ap of ArgSds str # ap \<Rightarrow>
           do { (s, i) \<leftarrow> fmt_put A s i (buf str) (sdslen str); Some (s, i, ap) }
         | _ \<Rightarrow> None)
      else if next = CHR ''i'' \<or> next = CHR ''I'' then
        (case ap of a # ap \<Rightarrow>
           (case (next = CHR ''i'', a) of
              (True, ArgInt n) \<Rightarrow> do { (b, l) \<leftarrow> sdsll2str (ll_buffer A) n;
                                   (s, i) \<leftarrow> fmt_put A s i b l; Some (s, i, ap) }
            | (False, ArgLongLong n) \<Rightarrow> do { (b, l) \<leftarrow> sdsll2str (ll_buffer A) n;
                                        (s, i) \<leftarrow> fmt_put A s i b l; Some (s, i, ap) }
            | _ \<Rightarrow> None)
         | [] \<Rightarrow> None)
      else if next = CHR ''u'' \<or> next = CHR ''U'' then
        (case ap of a # ap \<Rightarrow>
           (case (next = CHR ''u'', a) of
              (True, ArgUInt n) \<Rightarrow> do { (b, l) \<leftarrow> sdsull2str (ll_buffer A) n;
                                    (s, i) \<leftarrow> fmt_put A s i b l; Some (s, i, ap) }
            | (False, ArgULongLong n) \<Rightarrow> do { (b, l) \<leftarrow> sdsull2str (ll_buffer A) n;
                                         (s, i) \<leftarrow> fmt_put A s i b l; Some (s, i, ap) }
            | _ \<Rightarrow> None)
         | [] \<Rightarrow> None)
      else do { (s, i) \<leftarrow> fmt_putc s i next; Some (s, i, ap) })"

text \<open>
  The loop over the format. After a \<open>%\<close> that ends the format, the pointer is advanced past the
  terminating NUL and the next test of the loop reads outside the string.
\<close>

fun fmt_loop :: "allocator \<Rightarrow> sds \<Rightarrow> int \<Rightarrow> bytes \<Rightarrow> fmt_arg list \<Rightarrow> (sds \<times> int) option" where
  "fmt_loop A s i [] ap = Some (s, i)"
| "fmt_loop A s i (c # f) ap = do {
     r \<leftarrow> (if sdsavail s = 0 then sdsMakeRoomFor A s 1 else Some (Ptr s));
     s \<leftarrow> deref r;
     (if c = CHR ''%'' then
        (case f of
           [] \<Rightarrow> None
         | next # f \<Rightarrow> do { (s, i, ap) \<leftarrow> fmt_spec A s i next ap; fmt_loop A s i f ap })
      else do { (s, i) \<leftarrow> fmt_putc s i c; fmt_loop A s i f ap }) }"

definition sdscatfmt :: "allocator \<Rightarrow> sds \<Rightarrow> bytes \<Rightarrow> fmt_arg list \<Rightarrow> sds option" where
  "sdscatfmt A s fmt ap = do {
     (s, i) \<leftarrow> fmt_loop A s (int32 (int (sdslen s))) (cstr fmt) ap;
     b \<leftarrow> (if i < 0 then None else poke (buf s) (nat i) NUL);
     Some (s\<lparr>buf := b\<rparr>) }"

section \<open>Trimming and ranges\<close>

text \<open>\<open>strchr(cset,c)\<close> also finds the NUL that ends \<open>cset\<close>.\<close>

definition in_cset :: "bytes \<Rightarrow> char \<Rightarrow> bool" where
  "in_cset cset c \<longleftrightarrow> c \<in> set (cstr cset) \<or> c = NUL"

function trim_sp :: "bytes \<Rightarrow> bytes \<Rightarrow> int \<Rightarrow> int \<Rightarrow> int option" where
  "trim_sp b cset sp en =
     (if sp \<le> en then do {
        c \<leftarrow> peek b (nat sp);
        (if in_cset cset c then trim_sp b cset (sp + 1) en else Some sp) }
      else Some sp)"
  by pat_completeness auto
termination by (relation "measure (\<lambda>(b, cset, sp, en). nat (en + 1 - sp))") auto

function trim_ep :: "bytes \<Rightarrow> bytes \<Rightarrow> int \<Rightarrow> int \<Rightarrow> int option" where
  "trim_ep b cset sp ep =
     (if sp < ep then do {
        c \<leftarrow> peek b (nat ep);
        (if in_cset cset c then trim_ep b cset sp (ep - 1) else Some ep) }
      else Some ep)"
  by pat_completeness auto
termination by (relation "measure (\<lambda>(b, cset, sp, ep). nat (ep - sp))") auto

declare trim_sp.simps [simp del] trim_ep.simps [simp del]

definition sdstrim :: "sds \<Rightarrow> bytes \<Rightarrow> sds option" where
  "sdstrim s cset =
     (let en = int (sdslen s) - 1 in do {
        sp \<leftarrow> trim_sp (buf s) cset 0 en;
        ep \<leftarrow> trim_ep (buf s) cset sp en;
        let len = (if ep < sp then 0 else nat (ep - sp) + 1);
        b \<leftarrow> (if sp \<noteq> 0 then memmove (buf s) 0 (nat sp) len else Some (buf s));
        b' \<leftarrow> poke b len NUL;
        Some (sdssetlen (s\<lparr>buf := b'\<rparr>) len) })"

text \<open>
  \<open>sdsrange\<close> takes \<open>int\<close> positions; \<open>len+start\<close> is computed in \<open>size_t\<close> and converted back to \<open>int\<close>,
  and the lengths are compared as \<open>int\<close>.
\<close>

definition range_pos :: "nat \<Rightarrow> int \<Rightarrow> int" where
  "range_pos len k =
     (if k < 0 then (let k' = int32 (int len + k) in if k' < 0 then 0 else k') else k)"

definition range_len :: "int \<Rightarrow> int \<Rightarrow> nat" where
  "range_len start en = (if en < start then 0 else usz_of_int (int32 (en - start + 1)))"

definition sdsrange :: "sds \<Rightarrow> int \<Rightarrow> int \<Rightarrow> sds option" where
  "sdsrange s start en =
     (let len = sdslen s in
      if len = 0 then Some s
      else
        (let start = range_pos len start;
             en = range_pos len en;
             newlen = range_len start en;
             slen = int32 (int len);
             (start, newlen) =
               (if newlen \<noteq> 0 then
                  (if slen \<le> start then (start, 0)
                   else if slen \<le> en then (start, range_len start (int32 (int len - 1)))
                   else (start, newlen))
                else (0, newlen))
         in do {
              b \<leftarrow> (if start \<noteq> 0 \<and> newlen \<noteq> 0 then memmove (buf s) 0 (nat start) newlen else Some (buf s));
              b' \<leftarrow> poke b newlen NUL;
              Some (sdssetlen (s\<lparr>buf := b'\<rparr>) newlen) }))"

definition map_prefix :: "(char \<Rightarrow> char) \<Rightarrow> int \<Rightarrow> bytes \<Rightarrow> bytes option" where
  "map_prefix f len b =
     (if nat len \<le> length b then Some (map f (take (nat len) b) @ drop (nat len) b) else None)"

definition sdstolower :: "sds \<Rightarrow> sds option" where
  "sdstolower s = do {
     b \<leftarrow> map_prefix tolower (int32 (int (sdslen s))) (buf s); Some (s\<lparr>buf := b\<rparr>) }"

definition sdstoupper :: "sds \<Rightarrow> sds option" where
  "sdstoupper s = do {
     b \<leftarrow> map_prefix toupper (int32 (int (sdslen s))) (buf s); Some (s\<lparr>buf := b\<rparr>) }"


section \<open>Comparison\<close>

text \<open>
  The C standard fixes only the sign of \<open>memcmp\<close>; the model uses \<open>-1\<close>, \<open>0\<close>, \<open>1\<close>. Bytes are compared
  as \<open>unsigned char\<close>.
\<close>

fun memcmp :: "bytes \<Rightarrow> bytes \<Rightarrow> int" where
  "memcmp (x # xs) (y # ys) =
     (if uch x < uch y then -1 else if uch y < uch x then 1 else memcmp xs ys)"
| "memcmp _ _ = 0"

definition sdscmp :: "sds \<Rightarrow> sds \<Rightarrow> int option" where
  "sdscmp s1 s2 =
     (let l1 = sdslen s1; l2 = sdslen s2; minlen = (if l1 < l2 then l1 else l2) in do {
        x \<leftarrow> get_bytes (buf s1) 0 minlen;
        y \<leftarrow> get_bytes (buf s2) 0 minlen;
        let cmp = memcmp x y;
        Some (if cmp = 0 then int32 (int l1 - int l2) else cmp) })"

section \<open>Splitting and joining\<close>

text \<open>
  One iteration of \<open>sdssplitlen\<close>: \<open>Inl\<close> is the jump to \<open>cleanup\<close> (out of memory), which frees the
  tokens and returns NULL with \<open>*count = 0\<close>. The token array has \<open>slots\<close> entries.
\<close>

definition sep_at :: "bytes \<Rightarrow> nat \<Rightarrow> bytes \<Rightarrow> nat \<Rightarrow> bool option" where
  "sep_at s j sep seplen = do {
     c \<leftarrow> peek s j;
     d \<leftarrow> peek sep 0;
     (if seplen = 1 \<and> c = d then Some True
      else do {
        x \<leftarrow> get_bytes s j seplen;
        y \<leftarrow> get_bytes sep 0 seplen;
        Some (memcmp x y = 0) }) }"

definition add_token :: "allocator \<Rightarrow> sds list \<Rightarrow> nat \<Rightarrow> bytes \<Rightarrow> nat \<Rightarrow> nat \<Rightarrow> sds list ptr option" where
  "add_token A tokens slots s start n =
     (if slots \<le> length tokens then None
      else ptr_bind (sdsnewlen A (Ptr (drop start s)) n) (\<lambda>t. Some (Ptr (tokens @ [t]))))"

function split_loop :: "allocator \<Rightarrow> bytes \<Rightarrow> nat \<Rightarrow> bytes \<Rightarrow> nat \<Rightarrow> nat \<Rightarrow> nat \<Rightarrow> nat \<Rightarrow> sds list
    \<Rightarrow> sds list ptr option" where
  "split_loop A s len sep seplen j start slots tokens =
     (if j + (seplen - 1) < len then
        (let grow = slots < length tokens + 2;
             slots = (if grow then slots * 2 else slots)
         in if grow \<and> \<not> grant A (8 * slots) then Some Nullp
            else do {
              hit \<leftarrow> sep_at s j sep seplen;
              (if hit
               then ptr_bind (add_token A tokens slots s start (j - start)) (\<lambda>tokens.
                      split_loop A s len sep seplen (j + (seplen - 1) + 1) (j + seplen) slots tokens)
               else split_loop A s len sep seplen (j + 1) start slots tokens) })
      else add_token A tokens slots s start (len - start))"
  by pat_completeness auto
termination
  by (relation "measure (\<lambda>(A, s, len, sep, seplen, j, start, slots, tokens). len - j)") auto

declare split_loop.simps [simp del]

definition sdssplitlen :: "allocator \<Rightarrow> bytes \<Rightarrow> int \<Rightarrow> bytes \<Rightarrow> int \<Rightarrow> sds list ptr option" where
  "sdssplitlen A s len sep seplen =
     (if seplen < 1 \<or> len < 0 then Some Nullp
      else if \<not> grant A (8 * 5) then Some Nullp
      else if len = 0 then Some (Ptr [])
      else split_loop A s (nat len) sep (nat seplen) 0 0 5 [])"

fun join_loop :: "allocator \<Rightarrow> sds ptr \<Rightarrow> bytes list \<Rightarrow> bytes \<Rightarrow> sds ptr option" where
  "join_loop A join [] sep = Some join"
| "join_loop A join (a # argv) sep = do {
     s \<leftarrow> deref join;
     join \<leftarrow> sdscat A s a;
     join \<leftarrow> (if argv \<noteq> [] then do { s \<leftarrow> deref join; sdscat A s sep } else Some join);
     join_loop A join argv sep }"

definition sdsjoin :: "allocator \<Rightarrow> bytes list \<Rightarrow> bytes \<Rightarrow> sds ptr option" where
  "sdsjoin A argv sep = do { join \<leftarrow> sdsempty A; join_loop A join argv sep }"

fun join_loop_sds :: "allocator \<Rightarrow> sds ptr \<Rightarrow> sds list \<Rightarrow> bytes \<Rightarrow> nat \<Rightarrow> sds ptr option" where
  "join_loop_sds A join [] sep seplen = Some join"
| "join_loop_sds A join (a # argv) sep seplen = do {
     s \<leftarrow> deref join;
     join \<leftarrow> sdscatsds A s a;
     join \<leftarrow> (if argv \<noteq> [] then do { s \<leftarrow> deref join; sdscatlen A s sep seplen } else Some join);
     join_loop_sds A join argv sep seplen }"

definition sdsjoinsds :: "allocator \<Rightarrow> sds list \<Rightarrow> bytes \<Rightarrow> nat \<Rightarrow> sds ptr option" where
  "sdsjoinsds A argv sep seplen = do { join \<leftarrow> sdsempty A; join_loop_sds A join argv sep seplen }"

section \<open>Quoting and argument parsing\<close>

definition hex_digit :: "nat \<Rightarrow> char" where
  "hex_digit n = (if n < 10 then byte_of (48 + n) else byte_of (87 + n))"

text \<open>What \<open>%c\<close>, \<open>\\%c\<close> and \<open>\\x%02x\<close> print for a byte.\<close>

definition hex_escape :: "char \<Rightarrow> bytes" where
  "hex_escape c = [BSL, CHR ''x'', hex_digit (uch c div 16), hex_digit (uch c mod 16)]"

definition repr_char :: "allocator \<Rightarrow> sds \<Rightarrow> char \<Rightarrow> sds ptr option" where
  "repr_char A s c =
     (if c = BSL \<or> c = QUOT then sdscatvprintf A s [BSL, CHR ''%'', CHR ''c''] [BSL, c]
      else if c = LF then sdscatlen A s [BSL, CHR ''n''] 2
      else if c = CR then sdscatlen A s [BSL, CHR ''r''] 2
      else if c = TAB then sdscatlen A s [BSL, CHR ''t''] 2
      else if c = BEL then sdscatlen A s [BSL, CHR ''a''] 2
      else if c = BS then sdscatlen A s [BSL, CHR ''b''] 2
      else if isprint c then sdscatvprintf A s ''%c'' [c]
      else sdscatvprintf A s [BSL, CHR ''x'', CHR ''%'', CHR ''0'', CHR ''2'', CHR ''x''] (hex_escape c))"

fun repr_loop :: "allocator \<Rightarrow> sds ptr \<Rightarrow> bytes \<Rightarrow> sds ptr option" where
  "repr_loop A p [] = Some p"
| "repr_loop A p (c # t) = do { s \<leftarrow> deref p; p \<leftarrow> repr_char A s c; repr_loop A p t }"

definition sdscatrepr :: "allocator \<Rightarrow> sds \<Rightarrow> bytes \<Rightarrow> nat \<Rightarrow> sds ptr option" where
  "sdscatrepr A s p len = do {
     s \<leftarrow> sdscatlen A s [QUOT] 1;
     t \<leftarrow> get_bytes p 0 len;
     s \<leftarrow> repr_loop A s t;
     s \<leftarrow> deref s;
     sdscatlen A s [QUOT] 1 }"

definition is_hex_digit :: "char \<Rightarrow> bool" where
  "is_hex_digit c \<longleftrightarrow>
     (uch (CHR ''0'') \<le> uch c \<and> uch c \<le> uch (CHR ''9'')) \<or>
     (uch (CHR ''a'') \<le> uch c \<and> uch c \<le> uch (CHR ''f'')) \<or>
     (uch (CHR ''A'') \<le> uch c \<and> uch c \<le> uch (CHR ''F''))"

definition hex_digit_to_int :: "char \<Rightarrow> nat" where
  "hex_digit_to_int c =
     (if is_digit c then uch c - 48
      else if c = CHR ''a'' \<or> c = CHR ''A'' then 10
      else if c = CHR ''b'' \<or> c = CHR ''B'' then 11
      else if c = CHR ''c'' \<or> c = CHR ''C'' then 12
      else if c = CHR ''d'' \<or> c = CHR ''D'' then 13
      else if c = CHR ''e'' \<or> c = CHR ''E'' then 14
      else if c = CHR ''f'' \<or> c = CHR ''F'' then 15
      else 0)"

text \<open>
  \<open>sdssplitargs\<close> walks a C string; the model keeps the part of it that is still to be read. Reading
  at the end gives the terminating NUL. The three states are \<open>inq = insq = 0\<close>, \<open>inq = 1\<close> and
  \<open>insq = 1\<close>. A NULL result stands for \<open>goto err\<close>.
\<close>

datatype quoting = Unquoted | In_Quotes | In_Single

definition at :: "bytes \<Rightarrow> nat \<Rightarrow> char" where
  "at p k = (if k < length p then p ! k else NUL)"

definition unescape :: "char \<Rightarrow> char" where
  "unescape c =
     (if c = CHR ''n'' then LF else if c = CHR ''r'' then CR else if c = CHR ''t'' then TAB
      else if c = CHR ''b'' then BS else if c = CHR ''a'' then BEL else c)"

definition cat1 :: "allocator \<Rightarrow> sds ptr \<Rightarrow> char \<Rightarrow> sds ptr option" where
  "cat1 A cur c = do { s \<leftarrow> deref cur; sdscatlen A s [c] 1 }"

function scan_arg :: "allocator \<Rightarrow> quoting \<Rightarrow> bytes \<Rightarrow> sds ptr \<Rightarrow> (bytes \<times> sds ptr) ptr option" where
  "scan_arg A In_Quotes p cur =
     (if at p 0 = BSL \<and> at p 1 = CHR ''x'' \<and> is_hex_digit (at p 2) \<and> is_hex_digit (at p 3) then do {
        cur \<leftarrow> cat1 A cur (byte_of (hex_digit_to_int (at p 2) * 16 + hex_digit_to_int (at p 3)));
        scan_arg A In_Quotes (drop 4 p) cur }
      else if at p 0 = BSL \<and> at p 1 \<noteq> NUL then do {
        cur \<leftarrow> cat1 A cur (unescape (at p 1));
        scan_arg A In_Quotes (drop 2 p) cur }
      else if at p 0 = QUOT then
        (if at p 1 \<noteq> NUL \<and> \<not> isspace (at p 1) then Some Nullp else Some (Ptr (drop 1 p, cur)))
      else if at p 0 = NUL then Some Nullp
      else do { cur \<leftarrow> cat1 A cur (at p 0); scan_arg A In_Quotes (drop 1 p) cur })"
| "scan_arg A In_Single p cur =
     (if at p 0 = BSL \<and> at p 1 = APOS then do {
        cur \<leftarrow> cat1 A cur APOS;
        scan_arg A In_Single (drop 2 p) cur }
      else if at p 0 = APOS then
        (if at p 1 \<noteq> NUL \<and> \<not> isspace (at p 1) then Some Nullp else Some (Ptr (drop 1 p, cur)))
      else if at p 0 = NUL then Some Nullp
      else do { cur \<leftarrow> cat1 A cur (at p 0); scan_arg A In_Single (drop 1 p) cur })"
| "scan_arg A Unquoted p cur =
     (if at p 0 = CHR '' '' \<or> at p 0 = LF \<or> at p 0 = CR \<or> at p 0 = TAB \<or> at p 0 = NUL
      then Some (Ptr (if at p 0 \<noteq> NUL then drop 1 p else p, cur))
      else if at p 0 = QUOT then scan_arg A In_Quotes (drop 1 p) cur
      else if at p 0 = APOS then scan_arg A In_Single (drop 1 p) cur
      else do { cur \<leftarrow> cat1 A cur (at p 0); scan_arg A Unquoted (drop 1 p) cur })"
  by pat_completeness auto
termination
  by (relation "measure (\<lambda>(A, q, p, cur). length p)") (auto simp: at_def split: if_splits)

declare scan_arg.simps [simp del]

text \<open>
  The outer loop, with fuel for its iterations. The vector is grown by \<open>realloc\<close> without a check of
  the result.
\<close>

fun splitargs_loop :: "nat \<Rightarrow> allocator \<Rightarrow> bytes \<Rightarrow> sds ptr list \<Rightarrow> sds ptr list ptr option" where
  "splitargs_loop 0 A p vector = None"
| "splitargs_loop (Suc fuel) A p vector =
     (let p = dropWhile isspace p in
      if p \<noteq> [] then do {
        current \<leftarrow> sdsempty A;
        r \<leftarrow> scan_arg A Unquoted p current;
        (case r of
           Nullp \<Rightarrow> Some Nullp
         | Ptr (p, current) \<Rightarrow>
             (if grant A ((length vector + 1) * 8)
              then splitargs_loop fuel A p (vector @ [current]) else None)) }
      else if vector = [] then Some (if grant A 8 then Ptr [] else Nullp) else Some (Ptr vector))"

definition sdssplitargs :: "allocator \<Rightarrow> bytes \<Rightarrow> sds ptr list ptr option" where
  "sdssplitargs A line = splitargs_loop (Suc (length (cstr line))) A (cstr line) []"

section \<open>Character mapping\<close>

fun map_char :: "bytes \<Rightarrow> bytes \<Rightarrow> nat \<Rightarrow> char \<Rightarrow> char option" where
  "map_char src dst 0 c = Some c"
| "map_char src dst (Suc n) c = do {
     f \<leftarrow> peek src 0;
     (if c = f then peek dst 0 else map_char (drop 1 src) (drop 1 dst) n c) }"

fun mapchars_loop :: "bytes \<Rightarrow> nat \<Rightarrow> nat \<Rightarrow> bytes \<Rightarrow> bytes \<Rightarrow> nat \<Rightarrow> bytes option" where
  "mapchars_loop b j 0 src dst setlen = Some b"
| "mapchars_loop b j (Suc n) src dst setlen = do {
     c \<leftarrow> peek b j;
     d \<leftarrow> map_char src dst setlen c;
     b \<leftarrow> poke b j d;
     mapchars_loop b (Suc j) n src dst setlen }"

definition sdsmapchars :: "sds \<Rightarrow> bytes \<Rightarrow> bytes \<Rightarrow> nat \<Rightarrow> sds option" where
  "sdsmapchars s src dst setlen = do {
     b \<leftarrow> mapchars_loop (buf s) 0 (sdslen s) src dst setlen;
     Some (s\<lparr>buf := b\<rparr>) }"

end
