(* ===== verification/Sds_Numbers.thy ===== *)
theory Sds_Numbers
  imports Sds_Text
begin

text \<open>
  Number conversion: the digit loop, the in-place reversal and the two conversion routines agree
  with the decimal numerals of the prelude and stay inside the 21-byte buffers they are given.
\<close>

section \<open>Decimal numerals\<close>

lemma rev_dec_nat:
  "rev (dec_nat v) = byte_of (48 + v mod 10) # (if v div 10 = 0 then [] else rev (dec_nat (v div 10)))"
  by (subst dec_nat.simps) auto

lemma length_dec_nat:
  "n < 10 ^ k \<Longrightarrow> 0 < k \<Longrightarrow> length (dec_nat n) \<le> k"
proof (induction k arbitrary: n)
  case 0
  then show ?case by simp
next
  case (Suc k)
  show ?case
  proof (cases "n < 10")
    case True
    then show ?thesis by (subst dec_nat.simps) simp
  next
    case False
    with Suc.prems have k: "0 < k" by (cases k) auto
    from Suc.prems have "n div 10 < 10 ^ k" by (simp add: less_mult_imp_div_less mult.commute)
    with Suc.IH k have "length (dec_nat (n div 10)) \<le> k" by blast
    with False show ?thesis by (subst dec_nat.simps) simp
  qed
qed

lemma length_dec_nat_64: "n < 2 ^ 64 \<Longrightarrow> length (dec_nat n) \<le> 20"
  by (rule length_dec_nat) simp_all

lemma length_dec_int:
  assumes "- (2 ^ 63) \<le> i" and "i < 2 ^ 63"
  shows "length (dec_int i) \<le> 20"
proof -
  have "nat i < 10 ^ 19" "nat (- i) < 10 ^ 19"
    using assms by (simp_all add: nat_less_iff)
  then show ?thesis
    using length_dec_nat [of "nat i" 19] length_dec_nat [of "nat (- i)" 19] by (simp add: dec_int_def)
qed

section \<open>The digit loop and the reversal\<close>

lemma write_digits_eq:
  "p + length (dec_nat v) \<le> length b \<Longrightarrow>
     write_digits b p v =
       Some (take p b @ rev (dec_nat v) @ drop (p + length (dec_nat v)) b, p + length (dec_nat v))"
proof (induction b p v rule: write_digits.induct)
  case (1 b p v)
  let ?d = "byte_of (48 + v mod 10)"
  have len: "length (dec_nat v) = Suc (if v div 10 = 0 then 0 else length (dec_nat (v div 10)))"
    by (subst dec_nat.simps) auto
  with 1 have p: "p < length b" by simp
  have b': "b[p := ?d] = take p b @ ?d # drop (Suc p) b" using p by (simp add: upd_conv_take_nth_drop)
  show ?case
  proof (cases "v div 10 = 0")
    case True
    with p len b' show ?thesis
      by (subst write_digits.simps) (simp add: poke_Some rev_dec_nat [of v])
  next
    case False
    have "write_digits (b[p := ?d]) (Suc p) (v div 10) =
        Some (take (Suc p) (b[p := ?d]) @ rev (dec_nat (v div 10)) @
              drop (Suc p + length (dec_nat (v div 10))) (b[p := ?d]),
              Suc p + length (dec_nat (v div 10)))"
      by (rule "1.IH" [OF poke_Some [OF p] False]) (use "1.prems" len False in simp)
    then show ?thesis
      using False p len b'
      by (subst write_digits.simps) (simp add: poke_Some rev_dec_nat [of v] min_def add.commute)
  qed
qed

lemma swap_ends_eq:
  "j + 1 = length x + length m \<Longrightarrow> swap_ends (x @ m @ y) (length x) j = Some (x @ rev m @ y)"
proof (induction "length m" arbitrary: x m y j rule: less_induct)
  case less
  show ?case
  proof (cases "length m \<le> 1")
    case True
    then have "m = [] \<or> (\<exists>a. m = [a])" by (cases m) auto
    with less.prems show ?thesis by (subst swap_ends.simps) auto
  next
    case False
    then obtain a m1 where "m = a # m1" "m1 \<noteq> []" by (cases m) auto
    then obtain m' z where m: "m = a # m' @ [z]" by (metis rev_exhaust)
    have j: "j = length x + 1 + length m'" using less.prems m by simp
    have z: "(x @ m @ y) ! j = z" "(x @ m @ y) ! length x = a"
      using j m by (simp_all add: nth_append)
    have step: "(x @ m @ y)[length x := z, j := a] = (x @ [z]) @ m' @ (a # y)"
      using j m by (simp add: list_update_append)
    have "swap_ends ((x @ [z]) @ m' @ (a # y)) (length (x @ [z])) (j - 1) =
        Some ((x @ [z]) @ rev m' @ (a # y))"
      by (rule less.hyps) (use m j in simp_all)
    then show ?thesis
      using j m step z
      by (subst swap_ends.simps) (simp add: peek_Some poke_Some)
  qed
qed

lemma swap_ends_prefix:
  "x \<noteq> [] \<Longrightarrow> swap_ends (x @ y) 0 (length x - Suc 0) = Some (rev x @ y)"
  using swap_ends_eq [of "length x - 1" "[]" x y] by simp

section \<open>The conversion routines\<close>

lemma poke_append_Cons: "n = length x \<Longrightarrow> poke (x @ a # y) n c = Some (x @ c # y)"
  by (simp add: poke_def)

lemma poke_append_drop:
  "n = length x \<Longrightarrow> k < length b \<Longrightarrow> poke (x @ drop k b) n c = Some (x @ c # drop (Suc k) b)"
  by (simp add: poke_append_Cons flip: Cons_nth_drop_Suc)

lemma sdsull2str_eq:
  assumes v: "v < 2 ^ 64" and s: "length s = SDS_LLSTR_SIZE"
  shows "sdsull2str s v =
    Some (dec_nat v @ NUL # drop (length (dec_nat v) + 1) s, length (dec_nat v))"
proof -
  let ?d = "dec_nat v"
  have l: "length ?d < length s" using length_dec_nat_64 [OF v] s by (simp add: SDS_LLSTR_SIZE_def)
  then have w: "write_digits s 0 v = Some (rev ?d @ drop (length ?d) s, length ?d)"
    by (simp add: write_digits_eq)
  have p: "poke (rev ?d @ drop (length ?d) s) (length ?d) NUL =
      Some (rev ?d @ NUL # drop (Suc (length ?d)) s)"
    using l by (intro poke_append_drop) simp_all
  have r: "swap_ends (rev ?d @ NUL # drop (Suc (length ?d)) s) 0 (length ?d - Suc 0) =
      Some (?d @ NUL # drop (Suc (length ?d)) s)"
    using swap_ends_prefix [of "rev ?d" "NUL # drop (Suc (length ?d)) s"] by simp
  show ?thesis by (simp add: sdsull2str_def w p r)
qed

lemma sdsll2str_eq:
  assumes v: "- (2 ^ 63) \<le> value" "value < 2 ^ 63" and s: "length s = SDS_LLSTR_SIZE"
  shows "sdsll2str s value =
    Some (dec_int value @ NUL # drop (length (dec_int value) + 1) s, length (dec_int value))"
proof (cases "value < 0")
  case False
  then have u: "usz_of_int value = nat value" using v by (simp add: usz_of_int_id)
  have "nat value < 2 ^ 64" using v by (simp add: nat_less_iff)
  from sdsull2str_eq [OF this s] False u show ?thesis
    by (simp add: sdsll2str_def sdsull2str_def dec_int_def)
next
  case True
  have u: "usz_of_int (int64 (- value)) = nat (- value)"
  proof (cases "value = - (2 ^ 63)")
    case True
    then show ?thesis by (simp add: int64_def usz_of_int_def)
  next
    case False
    with v True show ?thesis by (simp add: int64_id usz_of_int_id)
  qed
  let ?d = "dec_nat (nat (- value))"
  have l: "Suc (length ?d) < length s"
    using length_dec_int [OF v] True s by (simp add: SDS_LLSTR_SIZE_def dec_int_def)
  then have w: "write_digits s 0 (nat (- value)) = Some (rev ?d @ drop (length ?d) s, length ?d)"
    by (simp add: write_digits_eq)
  have p1: "poke (rev ?d @ drop (length ?d) s) (length ?d) (CHR ''-'') =
      Some ((rev ?d @ [CHR ''-'']) @ drop (Suc (length ?d)) s)"
    using l by (simp add: poke_append_drop)
  have p2: "poke ((rev ?d @ [CHR ''-'']) @ drop (Suc (length ?d)) s) (Suc (length ?d)) NUL =
      Some ((rev ?d @ [CHR ''-'']) @ NUL # drop (Suc (Suc (length ?d))) s)"
    using l by (intro poke_append_drop) simp_all
  have r: "swap_ends ((rev ?d @ [CHR ''-'']) @ NUL # drop (Suc (Suc (length ?d))) s) 0 (length ?d) =
      Some ((CHR ''-'' # ?d) @ NUL # drop (Suc (Suc (length ?d))) s)"
    using swap_ends_prefix [of "rev ?d @ [CHR ''-'']" "NUL # drop (Suc (Suc (length ?d))) s"] by simp
  show ?thesis
    using True l by (simp add: sdsll2str_def u w dec_int_def p1 [simplified] p2 [simplified] r [simplified])
qed

lemma length_ll_buffer [simp]: "length (ll_buffer A) = SDS_LLSTR_SIZE"
  by (simp add: ll_buffer_def)

lemma sdsfromlonglong_spec:
  assumes "- (2 ^ 63) \<le> value" and "value < 2 ^ 63"
  shows "yields A (sdsfromlonglong A value) (\<lambda>s. sds_ok s \<and> sds_content s = dec_int value)"
  unfolding sdsfromlonglong_def using length_dec_int [OF assms]
  by (simp add: sdsll2str_eq [OF assms] size_limit_def)
     (rule yields_mono [OF sdsnewlen_spec], auto simp: size_limit_def)

end
