(* ===== verification/Sds_Format.thy ===== *)
theory Sds_Format
  imports Sds_Numbers
begin

text \<open>
  The formatted appends: \<open>sdscatvprintf\<close> appends the whole output whatever its length, and
  \<open>sdscatfmt\<close> appends what its format and arguments denote (\<open>fmt_render\<close>).
\<close>

section \<open>sdscatvprintf\<close>

lemma vprintf_loop_spec:
  assumes "NUL \<notin> set out" and "sds_ok s" and "sdslen s + length out < size_limit" and "2 \<le> buflen"
  shows "yields A (vprintf_loop A s buflen out)
     (\<lambda>s'. sds_ok s' \<and> sds_content s' = sds_content s @ out \<and> sdslen s' = sdslen s + length out)"
  using assms
proof (induction A s buflen out rule: vprintf_loop.induct)
  case (1 A s buflen out)
  show ?case
  proof (cases "buflen - 1 \<le> length out")
    case True
    with "1.prems"(4) have lt: "buflen - 2 < length out" by simp
    have "out ! (buflen - 2) \<noteq> NUL"
      using "1.prems"(1) nth_mem [OF lt] by metis
    with True "1.IH" "1.prems" show ?thesis
      by (subst vprintf_loop.simps) (auto simp: yields_def)
  next
    case False
    then have "cstr (take (buflen - 1) out) = out" using "1.prems"(1) by simp
    with False "1.prems" sdscat_spec [of s "take (buflen - 1) out" A] show ?thesis
      by (subst vprintf_loop.simps) (simp add: cstrlen_def)
  qed
qed

lemma sdscatvprintf_spec:
  assumes "NUL \<notin> set out" and "sds_ok s" and "sdslen s + length out < size_limit"
  shows "yields A (sdscatvprintf A s fmt out)
     (\<lambda>s'. sds_ok s' \<and> sds_content s' = sds_content s @ out \<and> sdslen s' = sdslen s + length out)"
proof -
  have null: "yields A (Some Nullp) P" if "\<not> grant A n" for P n
    using that by (auto simp: yields_def)
  show ?thesis
    unfolding sdscatvprintf_def Let_def
    using vprintf_loop_spec [OF assms] by (auto intro: null)
qed

section \<open>sdscatfmt\<close>

text \<open>What one conversion denotes, with the arguments left; \<open>None\<close> for a missing or wrong argument.\<close>

definition take_arg :: "(fmt_arg \<Rightarrow> bytes option) \<Rightarrow> fmt_arg list \<Rightarrow> (bytes \<times> fmt_arg list) option" where
  "take_arg text ap = (case ap of [] \<Rightarrow> None | a # ap' \<Rightarrow> map_option (\<lambda>t. (t, ap')) (text a))"

definition spec_text :: "char \<Rightarrow> fmt_arg \<Rightarrow> bytes option" where
  "spec_text next a =
     (case a of
        ArgStr t \<Rightarrow> (if next = CHR ''s'' then Some (cstr t) else None)
      | ArgSds t \<Rightarrow> (if next = CHR ''S'' \<and> sds_wf t then Some (sds_content t) else None)
      | ArgInt n \<Rightarrow> (if next = CHR ''i'' \<and> - (2 ^ 31) \<le> n \<and> n < 2 ^ 31 then Some (dec_int n) else None)
      | ArgLongLong n \<Rightarrow> (if next = CHR ''I'' \<and> - (2 ^ 63) \<le> n \<and> n < 2 ^ 63 then Some (dec_int n) else None)
      | ArgUInt n \<Rightarrow> (if next = CHR ''u'' \<and> n < 2 ^ 32 then Some (dec_nat n) else None)
      | ArgULongLong n \<Rightarrow> (if next = CHR ''U'' \<and> n < 2 ^ 64 then Some (dec_nat n) else None))"

definition conversion :: "char \<Rightarrow> bool" where
  "conversion c \<longleftrightarrow> c \<in> {CHR ''s'', CHR ''S'', CHR ''i'', CHR ''I'', CHR ''u'', CHR ''U''}"

definition spec_render :: "char \<Rightarrow> fmt_arg list \<Rightarrow> (bytes \<times> fmt_arg list) option" where
  "spec_render next ap =
     (if conversion next then take_arg (spec_text next) ap else Some ([next], ap))"

fun fmt_render :: "bytes \<Rightarrow> fmt_arg list \<Rightarrow> bytes option" where
  "fmt_render [] ap = Some []"
| "fmt_render (c # f) ap =
     (if c = CHR ''%'' then
        (case f of
           [] \<Rightarrow> None
         | next # f' \<Rightarrow> do { (t, ap') \<leftarrow> spec_render next ap; map_option ((@) t) (fmt_render f' ap') })
      else map_option ((#) c) (fmt_render f ap))"

subsection \<open>One step of the loop\<close>

lemma sdsinclen_spec:
  assumes wf: "sds_wf s" and b: "length b = length (buf s)" and l: "l \<le> sdsavail s"
  shows "sds_wf (sdsinclen (s\<lparr>buf := b\<rparr>) l)"
    and "sdslen (sdsinclen (s\<lparr>buf := b\<rparr>) l) = sdslen s + l"
    and "buf (sdsinclen (s\<lparr>buf := b\<rparr>) l) = b"
proof -
  let ?s = "sdsinclen (s\<lparr>buf := b\<rparr>) l"
  show bf: "buf ?s = b" by (simp add: sdsinclen_def Let_def)
  have ty: "sdstype ?s = sdstype s"
    by (simp add: sdsinclen_def Let_def) (simp add: sdstype_def)
  have fits: "sds_fits s (sdslen s + l)" by (rule sds_fits_avail [OF wf l])
  have al: "halloc ?s = halloc s" by (simp add: sdsinclen_def Let_def)
  show len: "sdslen ?s = sdslen s + l"
  proof (cases "sdstype s = SDS_TYPE_5")
    case True
    with fits show ?thesis
      unfolding sdslen_def ty by (simp add: sdsinclen_def Let_def sds_fits_def sdslen_def)
  next
    case False
    with wf fits have "hlen s + l < 2 ^ hdr_bits (sdstype s)" "sdstype s \<le> SDS_TYPE_64"
      by (auto simp: sds_wf_def sds_fits_def sdslen_def)
    with False show ?thesis
      unfolding sdslen_def ty by (simp add: sdsinclen_def Let_def)
  qed
  show "sds_wf ?s"
    using wf b fits by (simp add: sds_wf_def ty len bf al sds_fits_def)
qed

text \<open>The state of the loop: the string without its final NUL and the write position.\<close>

definition fmt_state :: "bytes \<Rightarrow> sds \<Rightarrow> int \<Rightarrow> bool" where
  "fmt_state out s i \<longleftrightarrow> sds_wf s \<and> sds_content s = out \<and> i = int (length out) \<and> length out < 2 ^ 31"

lemma fmt_state_len: "fmt_state out s i \<Longrightarrow> sdslen s = length out"
  by (metis fmt_state_def length_sds_content)

lemma fmt_store:
  assumes st: "fmt_state out s i" and lim: "length out + length c < 2 ^ 31"
    and l: "length c \<le> sdsavail s"
  shows "\<exists>b. put (buf s) (nat i) c = Some b \<and>
    fmt_state (out @ c) (sdsinclen (s\<lparr>buf := b\<rparr>) (length c)) (int32 (i + int (length c)))"
proof -
  let ?n = "length out"
  let ?b = "take ?n (buf s) @ c @ drop (?n + length c) (buf s)"
  have wf: "sds_wf s" and len: "sdslen s = ?n" and i: "i = int ?n"
    using st by (auto simp: fmt_state_def fmt_state_len [OF st])
  have "sds_fits s (?n + length c)" using sds_fits_avail [OF wf l] len by simp
  then have n: "?n + length c < length (buf s)" by (simp add: sds_fits_def)
  then have put: "put (buf s) (nat i) c = Some ?b" by (simp add: put_def i)
  have b: "length ?b = length (buf s)" using n by simp
  have "take (?n + length c) ?b = out @ c"
    using st len n by (simp add: fmt_state_def sds_content_def)
  with sdsinclen_spec [OF wf b l] put lim show ?thesis
    by (simp add: fmt_state_def sds_content_def len i int32_id)
qed

lemma fmt_putc_spec:
  assumes "fmt_state out s i" and "length out + 1 < 2 ^ 31" and "1 \<le> sdsavail s"
  shows "\<exists>s' i'. fmt_putc s i c = Some (s', i') \<and> fmt_state (out @ [c]) s' i'"
proof -
  from fmt_store [of out s i "[c]"] assms obtain b where
    b: "put (buf s) (nat i) [c] = Some b"
      "fmt_state (out @ [c]) (sdsinclen (s\<lparr>buf := b\<rparr>) 1) (int32 (i + 1))"
    by auto
  then have "nat i < length (buf s)" "b = (buf s)[nat i := c]"
    by (auto simp: put_def upd_conv_take_nth_drop split: if_splits)
  moreover have "\<not> i < 0" using assms(1) by (simp add: fmt_state_def)
  ultimately have "fmt_putc s i c = Some (sdsinclen (s\<lparr>buf := b\<rparr>) 1, int32 (i + 1))"
    by (simp add: fmt_putc_def poke_Some)
  with b show ?thesis by blast
qed

lemma fmt_room:
  assumes g: "\<forall>n. grant A n" and st: "fmt_state out s i" and lim: "length out + l < 2 ^ 31"
  shows "\<exists>s'. (if sdsavail s < l then sdsMakeRoomFor A s l else Some (Ptr s)) = Some (Ptr s') \<and>
    fmt_state out s' i \<and> l \<le> sdsavail s'"
proof (cases "sdsavail s < l")
  case True
  have "sds_wf s" "sdslen s + l < size_limit"
    using st lim fmt_state_len [OF st] by (auto simp: fmt_state_def size_limit_def)
  from yields_granted [OF sdsMakeRoomFor_wf [OF this] g] obtain s' where
    "sdsMakeRoomFor A s l = Some (Ptr s')" "sds_wf s'" "sds_content s' = sds_content s" "l \<le> sdsavail s'"
    by blast
  with True st show ?thesis by (auto simp: fmt_state_def)
next
  case False
  with st show ?thesis by auto
qed

lemma fmt_put_spec:
  assumes g: "\<forall>n. grant A n" and st: "fmt_state out s i" and l: "l \<le> length str"
    and lim: "length out + l < 2 ^ 31"
  shows "\<exists>s' i'. fmt_put A s i str l = Some (s', i') \<and> fmt_state (out @ take l str) s' i'"
proof -
  from fmt_room [OF g st lim] obtain s1 where
    room: "(if sdsavail s < l then sdsMakeRoomFor A s l else Some (Ptr s)) = Some (Ptr s1)"
    and s1: "fmt_state out s1 i" "l \<le> sdsavail s1"
    by blast
  have src: "get_bytes str 0 l = Some (take l str)" "length (take l str) = l"
    using l by (simp_all add: get_bytes_Some)
  from fmt_store [OF s1(1), of "take l str"] lim s1(2) src(2) obtain b where
    "put (buf s1) (nat i) (take l str) = Some b"
    "fmt_state (out @ take l str) (sdsinclen (s1\<lparr>buf := b\<rparr>) l) (int32 (i + int l))"
    by auto
  moreover have "\<not> i < 0" using st by (simp add: fmt_state_def)
  ultimately show ?thesis unfolding fmt_put_def room using src by simp
qed


subsection \<open>Conversions and the loop\<close>

lemma take_dec [simp]: "take (length (dec_int n)) (dec_int n @ z) = dec_int n"
  "take (length (dec_nat m)) (dec_nat m @ z) = dec_nat m"
  by simp_all

lemma fmt_spec_conversion:
  assumes g: "\<forall>n. grant A n" and st: "fmt_state out s i" and t: "spec_text next a = Some t"
    and lim: "length out + length t < 2 ^ 31"
  shows "\<exists>s' i'. fmt_spec A s i next (a # ap) = Some (s', i', ap) \<and> fmt_state (out @ t) s' i'"
proof (cases a)
  case (ArgStr x)
  with t have "next = CHR ''s''" "t = cstr x" by (auto simp: spec_text_def split: if_splits)
  with fmt_put_spec [OF g st, of "cstrlen x" "cstr x"] lim ArgStr show ?thesis
    by (auto simp: cstrlen_def)
next
  case (ArgSds x)
  with t have "next = CHR ''S''" "t = sds_content x" "sds_wf x"
    by (auto simp: spec_text_def split: if_splits)
  moreover from this have "sdslen x \<le> length (buf x)" "take (sdslen x) (buf x) = t"
    by (auto simp: sds_wf_def sds_content_def)
  ultimately show ?thesis
    using fmt_put_spec [OF g st, of "sdslen x" "buf x"] lim ArgSds length_sds_content [of x] by auto
next
  case (ArgInt n)
  with t have n: "next = CHR ''i''" "t = dec_int n" "- (2 ^ 63) \<le> n" "n < 2 ^ 63"
    by (auto simp: spec_text_def split: if_splits)
  have "sdsll2str (ll_buffer A) n =
      Some (dec_int n @ NUL # drop (length (dec_int n) + 1) (ll_buffer A), length (dec_int n))"
    by (rule sdsll2str_eq [OF n(3,4)]) simp
  with fmt_put_spec [OF g st, of "length (dec_int n)" "dec_int n @ NUL # drop (length (dec_int n) + 1) (ll_buffer A)"]
    n lim ArgInt show ?thesis by auto
next
  case (ArgLongLong n)
  with t have n: "next = CHR ''I''" "t = dec_int n" "- (2 ^ 63) \<le> n" "n < 2 ^ 63"
    by (auto simp: spec_text_def split: if_splits)
  have "sdsll2str (ll_buffer A) n =
      Some (dec_int n @ NUL # drop (length (dec_int n) + 1) (ll_buffer A), length (dec_int n))"
    by (rule sdsll2str_eq [OF n(3,4)]) simp
  with fmt_put_spec [OF g st, of "length (dec_int n)" "dec_int n @ NUL # drop (length (dec_int n) + 1) (ll_buffer A)"]
    n lim ArgLongLong show ?thesis by auto
next
  case (ArgUInt n)
  with t have n: "next = CHR ''u''" "t = dec_nat n" "n < 2 ^ 64"
    by (auto simp: spec_text_def split: if_splits)
  have "sdsull2str (ll_buffer A) n =
      Some (dec_nat n @ NUL # drop (length (dec_nat n) + 1) (ll_buffer A), length (dec_nat n))"
    by (rule sdsull2str_eq [OF n(3)]) simp
  with fmt_put_spec [OF g st, of "length (dec_nat n)" "dec_nat n @ NUL # drop (length (dec_nat n) + 1) (ll_buffer A)"]
    n lim ArgUInt show ?thesis by auto
next
  case (ArgULongLong n)
  with t have n: "next = CHR ''U''" "t = dec_nat n" "n < 2 ^ 64"
    by (auto simp: spec_text_def split: if_splits)
  have "sdsull2str (ll_buffer A) n =
      Some (dec_nat n @ NUL # drop (length (dec_nat n) + 1) (ll_buffer A), length (dec_nat n))"
    by (rule sdsull2str_eq [OF n(3)]) simp
  with fmt_put_spec [OF g st, of "length (dec_nat n)" "dec_nat n @ NUL # drop (length (dec_nat n) + 1) (ll_buffer A)"]
    n lim ArgULongLong show ?thesis by auto
qed

lemma fmt_spec_spec:
  assumes g: "\<forall>n. grant A n" and st: "fmt_state out s i" and av: "1 \<le> sdsavail s"
    and t: "spec_render next ap = Some (t, ap')" and lim: "length out + length t < 2 ^ 31"
  shows "\<exists>s' i'. fmt_spec A s i next ap = Some (s', i', ap') \<and> fmt_state (out @ t) s' i'"
proof (cases "conversion next")
  case True
  with t obtain a where "ap = a # ap'" "spec_text next a = Some t"
    by (auto simp: spec_render_def take_arg_def split: list.splits)
  with fmt_spec_conversion [OF g st _ lim] show ?thesis by auto
next
  case False
  with t have t: "t = [next]" "ap' = ap" by (simp_all add: spec_render_def)
  from fmt_putc_spec [OF st _ av, of "next"] lim t(1) obtain s' i' where
    "fmt_putc s i next = Some (s', i')" "fmt_state (out @ [next]) s' i'" by auto
  with False t show ?thesis by (auto simp: conversion_def)
qed

lemma fmt_loop_spec:
  assumes g: "\<forall>n. grant A n"
  shows "fmt_state out s i \<Longrightarrow> fmt_render f ap = Some t \<Longrightarrow> length out + length t + 1 < 2 ^ 31 \<Longrightarrow>
    \<exists>s' i'. fmt_loop A s i f ap = Some (s', i') \<and> fmt_state (out @ t) s' i'"
proof (induction f ap arbitrary: out s i t rule: fmt_render.induct)
  case (1 ap)
  then show ?case by auto
next
  case (2 c f ap)
  from fmt_room [OF g "2.prems"(1), of 1] "2.prems"(3) obtain s1 where
    room: "(if sdsavail s = 0 then sdsMakeRoomFor A s 1 else Some (Ptr s)) = Some (Ptr s1)"
    and s1: "fmt_state out s1 i" "1 \<le> sdsavail s1"
    by auto
  show ?case
  proof (cases "c = CHR ''%''")
    case False
    with "2.prems"(2) obtain t' where t': "fmt_render f ap = Some t'" "t = c # t'" by auto
    from fmt_putc_spec [OF s1(1) _ s1(2), of c] "2.prems"(3) t'(2) obtain s2 i2 where
      "fmt_putc s1 i c = Some (s2, i2)" "fmt_state (out @ [c]) s2 i2" by auto
    with "2.IH"(2) [OF False this(2) t'(1)] "2.prems"(3) t'(2) room False show ?thesis by simp
  next
    case True
    with "2.prems"(2) obtain n f' u ap' t' where f: "f = n # f'" "spec_render n ap = Some (u, ap')"
      "fmt_render f' ap' = Some t'" "t = u @ t'"
      by (auto split: list.splits bind_splits)
    from fmt_spec_spec [OF g s1 f(2)] "2.prems"(3) f(4) obtain s2 i2 where
      s2: "fmt_spec A s1 i n ap = Some (s2, i2, ap')" "fmt_state (out @ u) s2 i2" by auto
    from "2.IH"(1) [OF True f(1) f(2) refl s2(2) f(3)] "2.prems"(3) f(4) obtain s3 i3 where
      "fmt_loop A s2 i2 f' ap' = Some (s3, i3)" "fmt_state (out @ t) s3 i3" by auto
    with room True f(1) s2(1) show ?thesis by simp
  qed
qed

lemma sdscatfmt_spec:
  assumes g: "\<forall>n. grant A n" and ok: "sds_ok s" and t: "fmt_render (cstr fmt) ap = Some t"
    and lim: "sdslen s + length t + 1 < 2 ^ 31"
  shows "\<exists>s'. sdscatfmt A s fmt ap = Some s' \<and> sds_ok s' \<and> sds_content s' = sds_content s @ t"
proof -
  have len: "length (sds_content s) = sdslen s" using ok by (rule sds_ok_facts)
  have "fmt_state (sds_content s) s (int (sdslen s))"
    using ok lim len by (simp add: fmt_state_def sds_ok_def)
  from fmt_loop_spec [OF g this t] lim len obtain s1 i1 where
    run: "fmt_loop A s (int (sdslen s)) (cstr fmt) ap = Some (s1, i1)"
    and s1: "fmt_state (sds_content s @ t) s1 i1" by auto
  let ?b = "(buf s1)[sdslen s1 := NUL]"
  have wf: "sds_wf s1" and i1: "i1 = int (sdslen s1)" and c1: "sds_content s1 = sds_content s @ t"
    using s1 fmt_state_len [OF s1] by (auto simp: fmt_state_def)
  have l1: "sdslen s1 < length (buf s1)" using wf by (simp add: sds_wf_def)
  have i: "int32 (int (sdslen s)) = int (sdslen s)" using lim by (simp add: int32_id)
  have "sdscatfmt A s fmt ap = Some (s1\<lparr>buf := ?b\<rparr>)"
    unfolding sdscatfmt_def i using run l1 by (simp add: i1 poke_Some)
  moreover have "sds_ok (s1\<lparr>buf := ?b\<rparr>)"
    using wf l1 by (simp add: sds_ok_def sds_wf_def)
  moreover have "sds_content (s1\<lparr>buf := ?b\<rparr>) = sds_content s @ t"
    using c1 by (simp add: sds_content_def)
  ultimately show ?thesis by blast
qed

text \<open>A format that ends in a single \<open>%\<close> is read past its end.\<close>

lemma sdscatfmt_trailing_percent:
  "NUL \<notin> set f \<Longrightarrow> CHR ''%'' \<notin> set f \<Longrightarrow> sdscatfmt A s (f @ ''%'') ap = None"
proof -
  assume "NUL \<notin> set f" "CHR ''%'' \<notin> set f"
  moreover have "CHR ''%'' \<notin> set f \<Longrightarrow> fmt_loop A s i (f @ ''%'') ap = None" for s i
  proof (induction f arbitrary: s i)
    case Nil
    show ?case by (simp add: bind_eq_None_conv)
  next
    case (Cons c f)
    then show ?case by (auto simp: bind_eq_None_conv)
  qed
  ultimately show ?thesis by (simp add: sdscatfmt_def)
qed

end
