(* ===== verification/Sds_Tokens.thy ===== *)
theory Sds_Tokens
  imports Sds_Format "HOL-Library.Sublist"
begin

text \<open>
  Splitting, joining, quoting and argument parsing of \<open>sds.c\<close> against reference functions on byte
  lists: \<open>split_ref\<close> is the leftmost split at a separator, \<open>intercalate\<close> its inverse, \<open>quoted\<close> the
  printable form \<open>sdscatrepr\<close> writes and \<open>sdssplitargs\<close> reads back.
\<close>

section \<open>The reference split\<close>

function split_ref :: "bytes \<Rightarrow> bytes \<Rightarrow> bytes \<Rightarrow> bytes list" where
  "split_ref sep cur s =
     (if sep = [] \<or> length s < length sep then [cur @ s]
      else if take (length sep) s = sep then cur # split_ref sep [] (drop (length sep) s)
      else split_ref sep (cur @ [hd s]) (tl s))"
  by pat_completeness auto
termination by (relation "measure (\<lambda>(sep, cur, s). length s)") (auto simp: neq_Nil_conv)

declare split_ref.simps [simp del]

fun intercalate :: "bytes \<Rightarrow> bytes list \<Rightarrow> bytes" where
  "intercalate sep [] = []"
| "intercalate sep [t] = t"
| "intercalate sep (t # ts) = t @ sep @ intercalate sep ts"

lemma intercalate_Cons: "ts \<noteq> [] \<Longrightarrow> intercalate sep (t # ts) = t @ sep @ intercalate sep ts"
  by (cases ts) simp_all

lemma split_ref_nonempty [simp]: "split_ref sep cur s \<noteq> []"
  by (induction sep cur s rule: split_ref.induct) (subst split_ref.simps, auto)

lemma intercalate_split_ref: "intercalate sep (split_ref sep cur s) = cur @ s"
proof (induction sep cur s rule: split_ref.induct)
  case (1 sep cur s)
  show ?case
  proof (cases "sep = [] \<or> length s < length sep")
    case True
    then show ?thesis by (subst split_ref.simps) simp
  next
    case False
    then have "s \<noteq> []" by auto
    moreover have "sep @ drop (length sep) s = s" if "take (length sep) s = sep"
      using that by (metis append_take_drop_id)
    ultimately show ?thesis
      using 1 False by (subst split_ref.simps) (auto simp: intercalate_Cons)
  qed
qed

text \<open>No token of a split holds the separator: there is no occurrence before the first match.\<close>

definition no_match :: "bytes \<Rightarrow> bytes \<Rightarrow> nat \<Rightarrow> bool" where
  "no_match sep t k \<longleftrightarrow> (\<forall>i < k. take (length sep) (drop i t) \<noteq> sep)"

lemma no_match_sublist:
  assumes "no_match sep t k" and "length t < k + length sep"
  shows "\<not> sublist sep t"
proof
  assume "sublist sep t"
  then obtain xs ys where t: "t = xs @ sep @ ys" by (auto simp: sublist_def)
  with assms(2) have "length xs < k" by simp
  moreover from t have "take (length sep) (drop (length xs) t) = sep" by simp
  ultimately show False using assms(1) by (auto simp: no_match_def)
qed

lemma no_match_prefix:
  assumes "no_match sep (cur @ s) (length cur)" and "sep \<noteq> []"
  shows "\<not> sublist sep cur"
proof
  assume "sublist sep cur"
  then obtain xs ys where c: "cur = xs @ sep @ ys" by (auto simp: sublist_def)
  with assms(2) have "length xs < length cur" by simp
  moreover from c have "take (length sep) (drop (length xs) (cur @ s)) = sep" by simp
  ultimately show False using assms(1) by (auto simp: no_match_def)
qed

lemma split_ref_tokens:
  assumes "sep \<noteq> []" and "no_match sep (cur @ s) (length cur)" and "t \<in> set (split_ref sep cur s)"
  shows "\<not> sublist sep t"
  using assms
proof (induction sep cur s rule: split_ref.induct)
  case (1 sep cur s)
  consider (short) "length s < length sep"
    | (hit) "\<not> length s < length sep" "take (length sep) s = sep"
    | (miss) "\<not> length s < length sep" "take (length sep) s \<noteq> sep" by blast
  then show ?case
  proof cases
    case short
    with "1.prems" have "t = cur @ s" by (subst (asm) split_ref.simps) simp
    with "1.prems" short show ?thesis using no_match_sublist [of sep "cur @ s" "length cur"] by simp
  next
    case hit
    with "1.prems" have "t = cur \<or> t \<in> set (split_ref sep [] (drop (length sep) s))"
      by (subst (asm) split_ref.simps) auto
    then show ?thesis
    proof
      assume "t = cur"
      with "1.prems" show ?thesis using no_match_prefix by simp
    next
      assume "t \<in> set (split_ref sep [] (drop (length sep) s))"
      with "1.prems" hit show ?thesis using "1.IH"(1) by (simp add: no_match_def)
    qed
  next
    case miss
    with "1.prems"(1) have s: "s = hd s # tl s" by (cases s) auto
    have "no_match sep ((cur @ [hd s]) @ tl s) (length (cur @ [hd s]))"
    proof -
      have e: "(cur @ [hd s]) @ tl s = cur @ s" using s by simp
      have "take (length sep) (drop i (cur @ s)) \<noteq> sep" if "i < Suc (length cur)" for i
        using that "1.prems"(2) miss by (cases "i = length cur") (auto simp: no_match_def)
      then show ?thesis unfolding e by (simp add: no_match_def)
    qed
    moreover have "t \<in> set (split_ref sep (cur @ [hd s]) (tl s))"
      using "1.prems" miss by (subst (asm) split_ref.simps) auto
    ultimately show ?thesis using "1.IH"(2) "1.prems"(1) miss by simp
  qed
qed

section \<open>sdssplitlen\<close>

lemma memcmp_zero: "length x = length y \<Longrightarrow> memcmp x y = 0 \<longleftrightarrow> x = y"
  by (induction x y rule: list_induct2) (auto simp: uch_eq_iff [symmetric] simp del: uch_eq_iff)

lemma sep_at_spec:
  assumes "j + length sep \<le> length s" and "sep \<noteq> []"
  shows "sep_at s j sep (length sep) = Some (take (length sep) (drop j s) = sep)"
proof -
  obtain d ds where sep: "sep = d # ds" using assms(2) by (cases sep) auto
  with assms(1) have j: "j < length s" by simp
  then have "take 1 (drop j s) = [s ! j]" by (simp add: take_Suc_conv_app_nth hd_drop_conv_nth take_Suc)
  then have "take (Suc 0) (drop j s) = [s ! j]" by simp
  with assms j sep show ?thesis
    by (auto simp: sep_at_def peek_def get_bytes_def memcmp_zero)
qed

lemma add_token_spec:
  assumes "length tokens < slots" and "start + n \<le> length s" and "n < size_limit"
    and "\<forall>t \<in> set tokens. sds_ok t"
  shows "yields A (add_token A tokens slots s start n) (\<lambda>ts. (\<forall>t \<in> set ts. sds_ok t) \<and>
     map sds_content ts = map sds_content tokens @ [take n (drop start s)] \<and>
     length ts = Suc (length tokens))"
  unfolding add_token_def using assms
  by (auto intro!: yields_bind [OF sdsnewlen_spec])

text \<open>The state of the loop: the unread bytes and the bytes of the token being read.\<close>

lemma split_loop_spec:
  assumes "sep \<noteq> []" and "start \<le> j" and "j \<le> length s" and "length s < size_limit"
    and "length tokens < slots" and "\<forall>t \<in> set tokens. sds_ok t"
  shows "yields A (split_loop A s (length s) sep (length sep) j start slots tokens) (\<lambda>ts.
     (\<forall>t \<in> set ts. sds_ok t) \<and> map sds_content ts =
       map sds_content tokens @ split_ref sep (take (j - start) (drop start s)) (drop j s))"
  using assms
proof (induction "length s - j" arbitrary: j start slots tokens rule: less_induct)
  case less
  let ?slots = "if slots < length tokens + 2 then slots * 2 else slots"
  let ?cur = "take (j - start) (drop start s)"
  have seplen: "Suc (length sep - 1) = length sep" using less.prems(1) by (cases sep) auto
  show ?case
  proof (cases "j + (length sep - 1) < length s")
    case False
    then have short: "length (drop j s) < length sep" using seplen less.prems(3) by simp
    have "?cur @ drop j s = drop start s"
      using less.prems(2) by (metis append_take_drop_id drop_drop le_add_diff_inverse2)
    with short have "split_ref sep ?cur (drop j s) = [drop start s]"
      by (subst split_ref.simps) simp
    with False less.prems show ?thesis
      by (subst split_loop.simps)
         (auto intro!: yields_mono [OF add_token_spec])
  next
    case True
    have sl: "length tokens + 1 < ?slots" using less.prems(5) by auto
    have fit: "j + length sep \<le> length s" using True seplen by simp
    note hit = sep_at_spec [OF fit less.prems(1)]
    show ?thesis
    proof (cases "slots < length tokens + 2 \<and> \<not> grant A (8 * ?slots)")
      case True
      then show ?thesis
        using \<open>j + (length sep - 1) < length s\<close>
        by (subst split_loop.simps) (auto simp: yields_def Let_def)
    next
      case granted: False
      show ?thesis
      proof (cases "take (length sep) (drop j s) = sep")
        case True
        have ref: "split_ref sep ?cur (drop j s) =
            ?cur # split_ref sep [] (drop (j + length sep) s)"
        proof -
          have "\<not> length (drop j s) < length sep" using fit by simp
          then show ?thesis using True less.prems(1) by (subst split_ref.simps) (simp add: add.commute)
        qed
        have step: "j + (length sep - 1) + 1 = j + length sep" using seplen by simp
        have run: "split_loop A s (length s) sep (length sep) j start slots tokens =
            ptr_bind (add_token A tokens ?slots s start (j - start))
              (split_loop A s (length s) sep (length sep) (j + length sep) (j + length sep) ?slots)"
          using \<open>j + (length sep - 1) < length s\<close> granted hit True
          by (subst split_loop.simps, subst step) (auto simp: Let_def)
        have "0 < length sep" using less.prems(1) by simp
        then have dec: "length s - (j + length sep) < length s - j" using fit by linarith
        show ?thesis
          unfolding run
        proof (rule yields_bind [OF add_token_spec], goal_cases)
          case (5 ts)
          then have ts: "length ts < ?slots" "\<forall>t \<in> set ts. sds_ok t" using sl by auto
          show ?case
            by (rule yields_mono [OF less.hyps [OF dec less.prems(1) order_refl fit less.prems(4) ts]])
               (use 5 ref in auto)
        qed (use less.prems sl fit in auto)
      next
        case False
        have j: "j < length s" using fit less.prems(1) by (cases sep) auto
        then have hdtl: "hd (drop j s) = s ! j" "tl (drop j s) = drop (Suc j) s"
          by (simp_all add: hd_drop_conv_nth tl_drop drop_Suc)
        have "take (Suc j - start) (drop start s) = ?cur @ [s ! j]"
          using j less.prems(2) by (simp add: take_Suc_conv_app_nth Suc_diff_le)
        then have ref: "split_ref sep ?cur (drop j s) =
            split_ref sep (take (Suc j - start) (drop start s)) (drop (Suc j) s)"
          using False fit less.prems(1) hdtl by (subst split_ref.simps) auto
        have run: "split_loop A s (length s) sep (length sep) j start slots tokens =
            split_loop A s (length s) sep (length sep) (Suc j) start ?slots tokens"
          using \<open>j + (length sep - 1) < length s\<close> granted hit False
          by (subst split_loop.simps) (auto simp: Let_def)
        show ?thesis
          unfolding run ref using j less.prems sl by (intro less.hyps) auto
      qed
    qed
  qed
qed

lemma sdssplitlen_spec:
  assumes "sep \<noteq> []" and "length s < size_limit"
  shows "yields A (sdssplitlen A s (int (length s)) sep (int (length sep))) (\<lambda>ts.
     (\<forall>t \<in> set ts. sds_ok t) \<and>
     map sds_content ts = (if s = [] then [] else split_ref sep [] s))"
proof -
  have null: "yields A (Some Nullp) P" if "\<not> grant A n" for P n
    using that by (auto simp: yields_def)
  show ?thesis
    using assms split_loop_spec [of sep 0 0 s "[]" 5 A]
    by (auto simp: sdssplitlen_def Suc_le_eq int_one_le_iff_zero_less linorder_not_less intro: null)
qed

section \<open>Joining\<close>

lemma join_loop_granted:
  assumes "\<forall>n. grant A n" and "sds_ok j"
    and "sdslen j + length (intercalate (cstr sep) (map cstr argv)) < size_limit"
  shows "\<exists>j'. join_loop A (Ptr j) argv sep = Some (Ptr j') \<and> sds_ok j' \<and>
     sds_content j' = sds_content j @ intercalate (cstr sep) (map cstr argv)"
  using assms(2,3)
proof (induction argv arbitrary: j)
  case Nil
  then show ?case by simp
next
  case (Cons a argv)
  have la: "sdslen j + cstrlen a < size_limit"
    using Cons.prems by (cases argv) (auto simp: cstrlen_def)
  obtain j1 where j1: "sdscat A j a = Some (Ptr j1)" "sds_ok j1"
      "sds_content j1 = sds_content j @ cstr a" "sdslen j1 = sdslen j + cstrlen a"
    using yields_granted [OF sdscat_spec [OF Cons.prems(1) la] assms(1)] by auto
  show ?case
  proof (cases argv)
    case Nil
    with j1 show ?thesis by simp
  next
    case (Cons b argv')
    then have ls: "sdslen j1 + cstrlen sep < size_limit"
      using Cons.prems(2) j1(4) by (simp add: cstrlen_def)
    obtain j2 where j2: "sdscat A j1 sep = Some (Ptr j2)" "sds_ok j2"
        "sds_content j2 = sds_content j1 @ cstr sep" "sdslen j2 = sdslen j1 + cstrlen sep"
      using yields_granted [OF sdscat_spec [OF j1(2) ls] assms(1)] by auto
    have "sdslen j2 + length (intercalate (cstr sep) (map cstr argv)) < size_limit"
      using Cons.prems(2) j1(4) j2(4) Cons by (simp add: cstrlen_def)
    from Cons.IH [OF j2(2) this] j1 j2 Cons show ?thesis by auto
  qed
qed

lemma sdsjoin_spec:
  assumes "\<forall>n. grant A n" and "length (intercalate (cstr sep) (map cstr argv)) < size_limit"
  shows "\<exists>j. sdsjoin A argv sep = Some (Ptr j) \<and> sds_ok j \<and>
     sds_content j = intercalate (cstr sep) (map cstr argv)"
proof -
  obtain e where e: "sdsempty A = Some (Ptr e)" "sds_ok e" "sds_content e = []"
    using yields_granted [OF sdsempty_spec assms(1)] by auto
  then have "sdslen e = 0" using length_sds_content [of e] sds_ok_wf by simp
  with join_loop_granted [OF assms(1) e(2), of sep argv] assms(2) e show ?thesis
    by (simp add: sdsjoin_def)
qed

lemma join_loop_sds_granted:
  assumes "\<forall>n. grant A n" and "sds_ok j" and "\<forall>t \<in> set argv. sds_ok t"
    and "sdslen j + length (intercalate sep (map sds_content argv)) < size_limit"
  shows "\<exists>j'. join_loop_sds A (Ptr j) argv sep (length sep) = Some (Ptr j') \<and> sds_ok j' \<and>
     sds_content j' = sds_content j @ intercalate sep (map sds_content argv)"
  using assms(2-)
proof (induction argv arbitrary: j)
  case Nil
  then show ?case by simp
next
  case (Cons a argv)
  have a: "sds_ok a" "length (sds_content a) = sdslen a"
    using Cons.prems by (auto simp: length_sds_content sds_ok_wf)
  have la: "sdslen j + sdslen a < size_limit"
    using Cons.prems a by (cases argv) auto
  obtain j1 where j1: "sdscatsds A j a = Some (Ptr j1)" "sds_ok j1"
      "sds_content j1 = sds_content j @ sds_content a" "sdslen j1 = sdslen j + sdslen a"
    using yields_granted [OF sdscatsds_spec [OF Cons.prems(1) a(1) la] assms(1)] by auto
  show ?case
  proof (cases argv)
    case Nil
    with j1 show ?thesis by simp
  next
    case (Cons b argv')
    then have ls: "sdslen j1 + length sep < size_limit"
      using Cons.prems(3) j1(4) a by simp
    obtain j2 where j2: "sdscatlen A j1 sep (length sep) = Some (Ptr j2)" "sds_ok j2"
        "sds_content j2 = sds_content j1 @ sep" "sdslen j2 = sdslen j1 + length sep"
      using yields_granted [OF sdscatlen_spec [where t = sep, OF j1(2) ls] assms(1)] by auto
    have "sdslen j2 + length (intercalate sep (map sds_content argv)) < size_limit"
      using Cons.prems(3) j1(4) j2(4) Cons a by simp
    moreover have "\<forall>t \<in> set argv. sds_ok t" using Cons.prems(2) by simp
    ultimately show ?thesis using Cons.IH [OF j2(2)] j1 j2 Cons by auto
  qed
qed

lemma sdsjoinsds_spec:
  assumes "\<forall>n. grant A n" and "\<forall>t \<in> set argv. sds_ok t"
    and "length (intercalate sep (map sds_content argv)) < size_limit"
  shows "\<exists>j. sdsjoinsds A argv sep (length sep) = Some (Ptr j) \<and> sds_ok j \<and>
     sds_content j = intercalate sep (map sds_content argv)"
proof -
  obtain e where e: "sdsempty A = Some (Ptr e)" "sds_ok e" "sds_content e = []"
    using yields_granted [OF sdsempty_spec assms(1)] by auto
  then have "sdslen e = 0" using length_sds_content [of e] sds_ok_wf by simp
  with join_loop_sds_granted [OF assms(1) e(2) assms(2), of sep] assms(3) e show ?thesis
    by (simp add: sdsjoinsds_def)
qed

section \<open>Quoting\<close>

definition repr_byte :: "char \<Rightarrow> bytes" where
  "repr_byte c =
     (if c = BSL \<or> c = QUOT then [BSL, c]
      else if c = LF then [BSL, CHR ''n'']
      else if c = CR then [BSL, CHR ''r'']
      else if c = TAB then [BSL, CHR ''t'']
      else if c = BEL then [BSL, CHR ''a'']
      else if c = BS then [BSL, CHR ''b'']
      else if isprint c then [c]
      else hex_escape c)"

definition quoted :: "bytes \<Rightarrow> bytes" where
  "quoted t = QUOT # concat (map repr_byte t) @ [QUOT]"

lemma hex_digit_cases:
  assumes "n < 16"
  shows "hex_digit n \<in> set ''0123456789abcdef'' \<and> is_hex_digit (hex_digit n) \<and>
    hex_digit_to_int (hex_digit n) = n"
proof -
  from assms have "n \<in> set [0..<16]" by simp
  moreover have "list_all (\<lambda>n. hex_digit n \<in> set ''0123456789abcdef'' \<and> is_hex_digit (hex_digit n) \<and>
      hex_digit_to_int (hex_digit n) = n) [0..<16]"
    by code_simp
  ultimately show ?thesis by (simp only: list_all_iff)
qed

lemma hex_escape_no_NUL: "NUL \<notin> set (hex_escape c)"
proof -
  have "uch c div 16 < 16" using uch_less [of c] by linarith
  with hex_digit_cases [of "uch c div 16"] hex_digit_cases [of "uch c mod 16"]
  show ?thesis by (auto simp: hex_escape_def)
qed

lemma repr_byte_no_NUL: "NUL \<notin> set (repr_byte c)"
  using hex_escape_no_NUL [of c] by (auto simp: repr_byte_def isprint_def uch_def)

lemma length_repr_byte: "0 < length (repr_byte c) \<and> length (repr_byte c) \<le> 4"
  by (simp add: repr_byte_def hex_escape_def)

lemma quoted_no_NUL: "NUL \<notin> set (quoted t)"
  using repr_byte_no_NUL by (auto simp: quoted_def)

lemma repr_char_spec:
  assumes "sds_ok s" and "sdslen s + length (repr_byte c) < size_limit"
  shows "yields A (repr_char A s c) (\<lambda>s'. sds_ok s' \<and> sds_content s' = sds_content s @ repr_byte c \<and>
     sdslen s' = sdslen s + length (repr_byte c))"
proof -
  have nn: "NUL \<notin> set (hex_escape c)" by (rule hex_escape_no_NUL)
  consider "c = BSL \<or> c = QUOT" | "c \<in> {LF, CR, TAB, BEL, BS}"
    | "c \<notin> {BSL, QUOT, LF, CR, TAB, BEL, BS}" "isprint c"
    | "c \<notin> {BSL, QUOT, LF, CR, TAB, BEL, BS}" "\<not> isprint c" by blast
  then show ?thesis
  proof cases
    case 1
    then have r: "repr_byte c = [BSL, c]" "NUL \<notin> set [BSL, c]" by (auto simp: repr_byte_def)
    show ?thesis
      using 1 sdscatvprintf_spec [OF r(2) assms(1)] assms(2) r(1) by (simp add: repr_char_def)
  next
    case 2
    then obtain d where d: "repr_char A s c = sdscatlen A s [BSL, d] 2" "repr_byte c = [BSL, d]"
      by (auto simp: repr_char_def repr_byte_def)
    show ?thesis
      unfolding d by (rule yields_mono [OF sdscatlen_spec]) (use assms d in auto)
  next
    case 3
    then have r: "repr_byte c = [c]" "NUL \<notin> set [c]" by (auto simp: repr_byte_def isprint_def uch_def)
    show ?thesis
      using 3 sdscatvprintf_spec [OF r(2) assms(1)] assms(2) r(1) by (simp add: repr_char_def)
  next
    case 4
    then have r: "repr_byte c = hex_escape c" by (simp add: repr_byte_def)
    show ?thesis
      using 4 sdscatvprintf_spec [OF nn assms(1)] assms(2) r by (simp add: repr_char_def)
  qed
qed

lemma repr_loop_granted:
  assumes "\<forall>n. grant A n" and "sds_ok s" and "sdslen s + length (concat (map repr_byte t)) < size_limit"
  shows "\<exists>s'. repr_loop A (Ptr s) t = Some (Ptr s') \<and> sds_ok s' \<and>
     sds_content s' = sds_content s @ concat (map repr_byte t) \<and>
     sdslen s' = sdslen s + length (concat (map repr_byte t))"
  using assms(2,3)
proof (induction t arbitrary: s)
  case Nil
  then show ?case by simp
next
  case (Cons c t)
  then have l: "sdslen s + length (repr_byte c) < size_limit" by simp
  obtain s1 where s1: "repr_char A s c = Some (Ptr s1)" "sds_ok s1"
      "sds_content s1 = sds_content s @ repr_byte c" "sdslen s1 = sdslen s + length (repr_byte c)"
    using yields_granted [OF repr_char_spec [OF Cons.prems(1) l] assms(1)] by auto
  with Cons.IH [OF s1(2)] Cons.prems(2) show ?case by auto
qed

lemma sdscatrepr_granted:
  assumes A: "\<forall>n. grant A n" and ok: "sds_ok s" and lim: "sdslen s + length (quoted t) < size_limit"
  shows "\<exists>s'. sdscatrepr A s t (length t) = Some (Ptr s') \<and> sds_ok s' \<and>
     sds_content s' = sds_content s @ quoted t"
proof -
  have l1: "sdslen s + 1 < size_limit" using lim by (simp add: quoted_def)
  obtain s1 where s1: "sdscatlen A s [QUOT] 1 = Some (Ptr s1)" "sds_ok s1"
      "sds_content s1 = sds_content s @ [QUOT]" "sdslen s1 = sdslen s + 1"
    using yields_granted [OF sdscatlen_spec [where t = "[QUOT]", OF ok l1] A] by auto
  then have l2: "sdslen s1 + length (concat (map repr_byte t)) < size_limit"
    using lim by (simp add: quoted_def)
  obtain s2 where s2: "repr_loop A (Ptr s1) t = Some (Ptr s2)" "sds_ok s2"
      "sds_content s2 = sds_content s1 @ concat (map repr_byte t)"
      "sdslen s2 = sdslen s1 + length (concat (map repr_byte t))"
    using repr_loop_granted [OF A s1(2) l2] by blast
  then have l3: "sdslen s2 + 1 < size_limit" using lim s1(4) by (simp add: quoted_def)
  obtain s3 where s3: "sdscatlen A s2 [QUOT] 1 = Some (Ptr s3)" "sds_ok s3"
      "sds_content s3 = sds_content s2 @ [QUOT]"
    using yields_granted [OF sdscatlen_spec [where t = "[QUOT]", OF s2(2) l3] A] by auto
  from s1 s2 s3 show ?thesis by (simp add: sdscatrepr_def quoted_def)
qed

section \<open>Argument parsing\<close>

lemma cat1_granted:
  assumes "\<forall>n. grant A n" and "sds_ok s" and "sdslen s + 1 < size_limit"
  shows "\<exists>s'. cat1 A (Ptr s) c = Some (Ptr s') \<and> sds_ok s' \<and>
     sds_content s' = sds_content s @ [c] \<and> sdslen s' = sdslen s + 1"
  using yields_granted [OF sdscatlen_spec [where t = "[c]", OF assms(2,3)] assms(1)]
  by (auto simp: cat1_def)

lemma at_simps [simp]:
  "at [] k = NUL" "at (c # p) 0 = c" "at (c # p) (Suc k) = at p k"
  by (simp_all add: at_def)

lemma at_numeral [simp]:
  "at (c # p) (numeral n) = at p (pred_numeral n)" "at (c # p) 1 = at p 0"
  by (simp_all add: at_def numeral_eq_Suc)

lemma scan_quoted_byte:
  assumes A: "\<forall>n. grant A n" and ok: "sds_ok s" and lim: "sdslen s + 1 < size_limit"
  shows "\<exists>s'. scan_arg A In_Quotes (repr_byte c @ p) (Ptr s) = scan_arg A In_Quotes p (Ptr s') \<and>
     sds_ok s' \<and> sds_content s' = sds_content s @ [c] \<and> sdslen s' = sdslen s + 1"
proof -
  note cat = cat1_granted [OF A ok lim]
  show ?thesis
  proof (cases "length (repr_byte c) = 4")
    case True
    then have r: "repr_byte c = hex_escape c"
      by (auto simp: repr_byte_def hex_escape_def split: if_splits)
    have b: "uch c div 16 < 16" "uch c mod 16 < 16" using uch_less [of c] by linarith+
    have "uch c div 16 * 16 + uch c mod 16 = uch c" by simp
    then have "byte_of (uch c div 16 * 16 + uch c mod 16) = c" by (simp only: byte_of_uch)
    then show ?thesis
      using cat [of c] hex_digit_cases [OF b(1)] hex_digit_cases [OF b(2)] unfolding r
      by (subst scan_arg.simps) (auto simp: hex_escape_def)
  next
    case False
    moreover have "isprint c \<Longrightarrow> c \<noteq> NUL" by (auto simp: isprint_def uch_def)
    ultimately consider d where "repr_byte c = [BSL, d]" "d \<noteq> CHR ''x''" "d \<noteq> NUL" "unescape d = c"
      | "repr_byte c = [c]" "c \<noteq> BSL" "c \<noteq> QUOT" "c \<noteq> NUL"
      by (auto simp: repr_byte_def hex_escape_def unescape_def split: if_splits)
    then show ?thesis
      using cat [of c] by cases (subst scan_arg.simps, auto)+
  qed
qed

lemma scan_quoted_text:
  assumes A: "\<forall>n. grant A n" and "sds_ok s" and "sdslen s + length t < size_limit"
  shows "\<exists>s'. scan_arg A In_Quotes (concat (map repr_byte t) @ p) (Ptr s) = scan_arg A In_Quotes p (Ptr s') \<and>
     sds_ok s' \<and> sds_content s' = sds_content s @ t"
  using assms(2,3)
proof (induction t arbitrary: s)
  case Nil
  then show ?case by auto
next
  case (Cons c t)
  then have "sdslen s + 1 < size_limit" by simp
  from scan_quoted_byte [OF A Cons.prems(1) this, of c "concat (map repr_byte t) @ p"] obtain s1 where
    s1: "scan_arg A In_Quotes (repr_byte c @ concat (map repr_byte t) @ p) (Ptr s) =
        scan_arg A In_Quotes (concat (map repr_byte t) @ p) (Ptr s1)"
      "sds_ok s1" "sds_content s1 = sds_content s @ [c]" "sdslen s1 = sdslen s + 1" by blast
  with Cons.IH [OF s1(2)] Cons.prems(2) show ?case by auto
qed

lemma scan_quoted:
  assumes A: "\<forall>n. grant A n" and "sds_ok s" and "sds_content s = []" and "length t < size_limit"
    and "p = [] \<or> isspace (hd p)"
  shows "\<exists>s'. scan_arg A Unquoted (quoted t @ p) (Ptr s) = Some (Ptr (p, Ptr s')) \<and>
     sds_ok s' \<and> sds_content s' = t"
proof -
  have "sdslen s = 0" using assms length_sds_content [of s] sds_ok_wf by simp
  then obtain s' where s': "scan_arg A In_Quotes (concat (map repr_byte t) @ QUOT # p) (Ptr s) =
      scan_arg A In_Quotes (QUOT # p) (Ptr s')" "sds_ok s'" "sds_content s' = t"
    using scan_quoted_text [OF A assms(2), of t "QUOT # p"] assms by auto
  moreover have "scan_arg A In_Quotes (QUOT # p) (Ptr s') = Some (Ptr (p, Ptr s'))"
    using assms(5) by (subst scan_arg.simps) (cases p; auto)
  moreover have "scan_arg A Unquoted (quoted t @ p) (Ptr s) =
      scan_arg A In_Quotes (concat (map repr_byte t) @ QUOT # p) (Ptr s)"
    by (subst scan_arg.simps) (simp add: quoted_def)
  ultimately show ?thesis by auto
qed

text \<open>Every scanned argument consumes input, so fuel for the length of the line is enough.\<close>

lemma splitargs_skip:
  "isspace c \<Longrightarrow> splitargs_loop f A (c # p) w = splitargs_loop f A p w"
  by (cases f) (simp_all only: splitargs_loop.simps dropWhile.simps if_True)

lemma isspace_blank [simp]: "isspace (CHR '' '')"
  by (simp add: isspace_def)

lemma splitargs_loop_quoted:
  assumes A: "\<forall>n. grant A n" and "\<forall>t \<in> set ts. length t < size_limit"
    and "length ts < fuel" and "ts \<noteq> [] \<or> v \<noteq> []"
  shows "\<exists>v'. splitargs_loop fuel A (intercalate '' '' (map quoted ts)) (map Ptr v) = Some (Ptr (map Ptr (v @ v'))) \<and>
     map sds_content v' = ts \<and> (\<forall>s \<in> set v'. sds_ok s)"
  using assms(2-)
proof (induction ts arbitrary: v fuel)
  case Nil
  then show ?case by (cases fuel) auto
next
  case (Cons t ts)
  then obtain f where f: "fuel = Suc f" by (cases fuel) auto
  define rest where "rest = (if ts = [] then [] else CHR '' '' # intercalate '' '' (map quoted ts))"
  have line: "intercalate '' '' (map quoted (t # ts)) = quoted t @ rest"
    by (cases ts) (simp_all add: rest_def)
  have q: "quoted t @ rest \<noteq> []" "dropWhile isspace (quoted t @ rest) = quoted t @ rest"
    by (simp_all add: quoted_def isspace_def uch_def)
  obtain e where e: "sdsempty A = Some (Ptr e)" "sds_ok e" "sds_content e = []"
    using yields_granted [OF sdsempty_spec A] by auto
  have "rest = [] \<or> isspace (hd rest)" by (simp add: rest_def isspace_def)
  then obtain s where s: "scan_arg A Unquoted (quoted t @ rest) (Ptr e) = Some (Ptr (rest, Ptr s))"
      "sds_ok s" "sds_content s = t"
    using scan_quoted [OF A e(2,3)] Cons.prems(1) by auto
  have step: "splitargs_loop fuel A (quoted t @ rest) (map Ptr v) =
      splitargs_loop f A rest (map Ptr (v @ [s]))"
    using q e(1) s(1) A f by simp
  have skip: "splitargs_loop f A rest w = splitargs_loop f A (intercalate '' '' (map quoted ts)) w" for w
    by (simp add: rest_def splitargs_skip)
  obtain v' where "splitargs_loop f A (intercalate '' '' (map quoted ts)) (map Ptr (v @ [s])) =
      Some (Ptr (map Ptr ((v @ [s]) @ v')))" "map sds_content v' = ts" "\<forall>s \<in> set v'. sds_ok s"
    using Cons.IH [of f "v @ [s]"] Cons.prems f by auto
  then show ?case
    unfolding line step skip using s by (intro exI [of _ "s # v'"]) simp
qed

lemma length_intercalate_quoted: "length ts \<le> length (intercalate sep (map quoted ts))"
  by (induction ts rule: induct_list012) (auto simp: quoted_def)

lemma intercalate_no_NUL:
  "NUL \<notin> set sep \<Longrightarrow> NUL \<notin> set (intercalate sep (map quoted ts))"
  using quoted_no_NUL by (induction ts rule: induct_list012) auto

lemma sdssplitargs_quoted:
  assumes "\<forall>n. grant A n" and "\<forall>t \<in> set ts. length t < size_limit" and "ts \<noteq> []"
  shows "\<exists>v. sdssplitargs A (intercalate '' '' (map quoted ts)) = Some (Ptr (map Ptr v)) \<and>
     map sds_content v = ts \<and> (\<forall>s \<in> set v. sds_ok s)"
proof -
  have l: "cstr (intercalate '' '' (map quoted ts)) = intercalate '' '' (map quoted ts)"
    by (rule cstr_id) (simp add: intercalate_no_NUL)
  from splitargs_loop_quoted [OF assms(1,2), of "Suc (length (intercalate '' '' (map quoted ts)))" "[]"]
  show ?thesis unfolding sdssplitargs_def l
    using assms(3) length_intercalate_quoted [of ts "'' ''"] by simp
qed

text \<open>
  The four things the scanner may do at a place: copy a byte and go on, change its state and go on, find
  a syntax error, or end the argument.
\<close>

definition scan_move :: "allocator \<Rightarrow> quoting \<Rightarrow> bytes \<Rightarrow> sds \<Rightarrow> bool" where
  "scan_move A q p s \<longleftrightarrow>
     p \<noteq> [] \<and> (\<exists>c q' k. scan_arg A q p (Ptr s) = do { cur \<leftarrow> cat1 A (Ptr s) c; scan_arg A q' (drop (Suc k) p) cur }) \<or>
     p \<noteq> [] \<and> (\<exists>q'. scan_arg A q p (Ptr s) = scan_arg A q' (drop 1 p) (Ptr s)) \<or>
     scan_arg A q p (Ptr s) = Some Nullp \<or>
     (\<exists>p'. scan_arg A q p (Ptr s) = Some (Ptr (p', Ptr s)) \<and> length p' \<le> length p \<and>
        (q \<noteq> Unquoted \<or> p \<noteq> [] \<and> hd p \<noteq> NUL \<longrightarrow> length p' < length p))"

lemma scan_copies: "p \<noteq> [] \<Longrightarrow> scan_arg A q p (Ptr s) = do { cur \<leftarrow> cat1 A (Ptr s) c; scan_arg A q' (drop (Suc k) p) cur } \<Longrightarrow>
    scan_move A q p s"
  unfolding scan_move_def by blast

lemma scan_jumps: "p \<noteq> [] \<Longrightarrow> scan_arg A q p (Ptr s) = scan_arg A q' (drop 1 p) (Ptr s) \<Longrightarrow> scan_move A q p s"
  unfolding scan_move_def by blast

lemma at_some: "at p 0 \<noteq> NUL \<Longrightarrow> p \<noteq> []"
  by (cases p) auto

lemma scan_move_quotes: "scan_move A In_Quotes p s"
proof -
  consider (hex) "at p 0 = BSL" "at p 1 = CHR ''x''" "is_hex_digit (at p 2)" "is_hex_digit (at p 3)"
    | (esc) "at p 0 = BSL" "\<not> (at p 1 = CHR ''x'' \<and> is_hex_digit (at p 2) \<and> is_hex_digit (at p 3))"
        "at p 1 \<noteq> NUL"
    | (quot) "at p 0 = QUOT" | (nul) "at p 0 = NUL"
    | (other) "at p 0 \<noteq> QUOT" "at p 0 \<noteq> NUL" "at p 0 = BSL \<longrightarrow> at p 1 = NUL"
    by fastforce
  then show ?thesis
  proof cases
    case hex
    show ?thesis
      by (rule scan_copies [where k = 3]) (use hex at_some [of p] in \<open>auto simp: scan_arg.simps(1) [of A p]\<close>)
  next
    case esc
    show ?thesis
      by (rule scan_copies [where k = 1]) (use esc at_some [of p] in \<open>auto simp: scan_arg.simps(1) [of A p] numeral_2_eq_2\<close>)
  next
    case other
    show ?thesis
      by (rule scan_copies [where k = 0]) (use other at_some [of p] in \<open>auto simp: scan_arg.simps(1) [of A p] is_hex_digit_def\<close>)
  next
    case quot
    then have "scan_arg A In_Quotes p (Ptr s) = Some Nullp \<or> scan_arg A In_Quotes p (Ptr s) = Some (Ptr (drop 1 p, Ptr s))"
      by (simp add: scan_arg.simps(1) [of A p])
    moreover have "length (drop 1 p) < length p" using quot by (cases p) auto
    ultimately show ?thesis by (auto simp: scan_move_def)
  next
    case nul
    then have "scan_arg A In_Quotes p (Ptr s) = Some Nullp" by (simp add: scan_arg.simps(1) [of A p])
    then show ?thesis by (simp add: scan_move_def)
  qed
qed

lemma scan_move_single: "scan_move A In_Single p s"
proof -
  consider (esc) "at p 0 = BSL" "at p 1 = APOS" | (quot) "at p 0 = APOS" | (nul) "at p 0 = NUL"
    | (other) "at p 0 \<noteq> APOS" "at p 0 \<noteq> NUL" "\<not> (at p 0 = BSL \<and> at p 1 = APOS)" by blast
  then show ?thesis
  proof cases
    case esc
    show ?thesis
      by (rule scan_copies [where k = 1]) (use esc at_some [of p] in \<open>auto simp: scan_arg.simps(2) [of A p] numeral_2_eq_2\<close>)
  next
    case other
    show ?thesis
      by (rule scan_copies [where k = 0]) (use other at_some [of p] in \<open>auto simp: scan_arg.simps(2) [of A p]\<close>)
  next
    case quot
    then have "scan_arg A In_Single p (Ptr s) = Some Nullp \<or> scan_arg A In_Single p (Ptr s) = Some (Ptr (drop 1 p, Ptr s))"
      by (simp add: scan_arg.simps(2) [of A p])
    moreover have "length (drop 1 p) < length p" using quot by (cases p) auto
    ultimately show ?thesis by (auto simp: scan_move_def)
  next
    case nul
    then have "scan_arg A In_Single p (Ptr s) = Some Nullp" by (simp add: scan_arg.simps(2) [of A p])
    then show ?thesis by (simp add: scan_move_def)
  qed
qed

lemma scan_move_unquoted: "scan_move A Unquoted p s"
proof -
  let ?stop = "at p 0 = CHR '' '' \<or> at p 0 = LF \<or> at p 0 = CR \<or> at p 0 = TAB \<or> at p 0 = NUL"
  consider (stop) ?stop | (quot) "at p 0 = QUOT" | (single) "at p 0 = APOS"
    | (other) "\<not> ?stop" "at p 0 \<noteq> QUOT" "at p 0 \<noteq> APOS" by blast
  then show ?thesis
  proof cases
    case stop
    then have "scan_arg A Unquoted p (Ptr s) = Some (Ptr (if at p 0 \<noteq> NUL then drop 1 p else p, Ptr s))"
      by (simp add: scan_arg.simps(3) [of A p])
    then show ?thesis by (cases p) (auto simp: scan_move_def)
  next
    case quot
    show ?thesis by (rule scan_jumps) (use quot at_some [of p] in \<open>auto simp: scan_arg.simps(3) [of A p]\<close>)
  next
    case single
    show ?thesis by (rule scan_jumps) (use single at_some [of p] in \<open>auto simp: scan_arg.simps(3) [of A p]\<close>)
  next
    case other
    show ?thesis
      by (rule scan_copies [where k = 0]) (use other at_some [of p] in \<open>auto simp: scan_arg.simps(3) [of A p]\<close>)
  qed
qed

lemma scan_moves: "scan_move A q p s"
  by (cases q) (simp_all add: scan_move_quotes scan_move_single scan_move_unquoted)

lemma scan_arg_total:
  assumes A: "\<forall>n. grant A n" and "sds_ok s" and "sdslen s + length p < size_limit"
  shows "scan_arg A q p (Ptr s) = Some Nullp \<or>
    (\<exists>p' s'. scan_arg A q p (Ptr s) = Some (Ptr (p', Ptr s')) \<and> sds_ok s' \<and> length p' \<le> length p \<and>
      (q \<noteq> Unquoted \<or> p \<noteq> [] \<and> hd p \<noteq> NUL \<longrightarrow> length p' < length p))"
  using assms(2,3)
proof (induction "length p" arbitrary: q p s rule: less_induct)
  case less
  have shorter: "length (drop (Suc k) p) < length p" if "p \<noteq> []" for k using that by (cases p) auto
  from scan_moves [of A q p s] consider
      (copy) c q' k where "p \<noteq> []" "scan_arg A q p (Ptr s) = do { cur \<leftarrow> cat1 A (Ptr s) c; scan_arg A q' (drop (Suc k) p) cur }"
    | (jump) q' where "p \<noteq> []" "scan_arg A q p (Ptr s) = scan_arg A q' (drop 1 p) (Ptr s)"
    | (ends) "scan_arg A q p (Ptr s) = Some Nullp \<or> (\<exists>p'. scan_arg A q p (Ptr s) = Some (Ptr (p', Ptr s)) \<and> length p' \<le> length p \<and>
        (q \<noteq> Unquoted \<or> p \<noteq> [] \<and> hd p \<noteq> NUL \<longrightarrow> length p' < length p))"
    unfolding scan_move_def by blast
  then show ?case
  proof cases
    case copy
    note sh = shorter [OF copy(1), of k]
    have "sdslen s + 1 < size_limit" using less.prems(2) copy(1) by (cases p) auto
    from cat1_granted [OF A less.prems(1) this, of c] obtain s1 where
      s1: "cat1 A (Ptr s) c = Some (Ptr s1)" "sds_ok s1" "sdslen s1 = sdslen s + 1" by blast
    with less.prems(2) sh have "sdslen s1 + length (drop (Suc k) p) < size_limit" by linarith
    from less.hyps [OF sh s1(2) this, of q'] copy(2) s1(1) show ?thesis
      by (elim disjE exE conjE) (use sh in \<open>fastforce dest: le_less_trans\<close>)+
  next
    case jump
    have sh: "length (drop 1 p) < length p" using shorter [OF jump(1), of 0] by simp
    with less.prems(2) have "sdslen s + length (drop 1 p) < size_limit" by linarith
    from less.hyps [OF sh less.prems(1) this, of q'] jump(2) show ?thesis
      by (elim disjE exE conjE) (use sh in \<open>fastforce dest: le_less_trans\<close>)+
  next
    case ends
    then show ?thesis using less.prems(1) by blast
  qed
qed

lemma scan_arg_suffix:
  "scan_arg A q p cur = Some (Ptr (p', cur')) \<Longrightarrow> suffix p' p"
proof (induction A q p cur rule: scan_arg.induct)
  case (1 A p cur)
  have "suffix p' (drop k p) \<Longrightarrow> suffix p' p" for k
    using suffix_drop suffix_order.trans by blast
  with 1 show ?case
    by (subst (asm) scan_arg.simps(1)) (auto split: if_splits bind_splits simp: suffix_drop)
next
  case (2 A p cur)
  have "suffix p' (drop k p) \<Longrightarrow> suffix p' p" for k
    using suffix_drop suffix_order.trans by blast
  with 2 show ?case
    by (subst (asm) scan_arg.simps(2)) (auto split: if_splits bind_splits simp: suffix_drop)
next
  case (3 A p cur)
  have "suffix p' (drop k p) \<Longrightarrow> suffix p' p" for k
    using suffix_drop suffix_order.trans by blast
  with 3 show ?case
    by (subst (asm) scan_arg.simps(3)) (auto split: if_splits bind_splits simp: suffix_drop)
qed

lemma splitargs_loop_total:
  assumes A: "\<forall>n. grant A n" and "length p < fuel" and "NUL \<notin> set p" and "length p < size_limit"
    and "\<forall>t \<in> set v. sds_ok t"
  shows "\<exists>r. splitargs_loop fuel A p (map Ptr v) = Some r \<and>
     (\<forall>w. r = Ptr w \<longrightarrow> (\<exists>ts. w = map Ptr ts \<and> (\<forall>t \<in> set ts. sds_ok t)))"
  using assms(2-)
proof (induction fuel arbitrary: p v)
  case 0
  then show ?case by simp
next
  case (Suc fuel)
  define p1 where "p1 = dropWhile isspace p"
  have len1: "length p1 \<le> length p" by (simp add: p1_def length_dropWhile_le)
  have nn: "NUL \<notin> set p1" using Suc.prems(2) by (auto simp: p1_def dest: set_dropWhileD)
  show ?case
  proof (cases "p1 = []")
    case True
    then show ?thesis
      using A Suc.prems(4) by (auto simp: p1_def Let_def intro!: exI [of _ "v"])
  next
    case False
    obtain e where e: "sdsempty A = Some (Ptr e)" "sds_ok e" "sds_content e = []"
      using yields_granted [OF sdsempty_spec A] by auto
    then have "sdslen e + length p1 < size_limit"
      using length_sds_content [of e] sds_ok_wf len1 Suc.prems(3) by simp
    note tot = scan_arg_total [OF A e(2) this, of Unquoted]
    have hd1: "hd p1 \<noteq> NUL" using nn False by (metis list.set_sel(1))
    from tot show ?thesis
    proof (elim disjE exE conjE)
      assume "scan_arg A Unquoted p1 (Ptr e) = Some Nullp"
      with False e(1) show ?thesis by (simp add: p1_def Let_def)
    next
      fix p' s' assume s': "scan_arg A Unquoted p1 (Ptr e) = Some (Ptr (p', Ptr s'))" "sds_ok s'"
        "Unquoted \<noteq> Unquoted \<or> p1 \<noteq> [] \<and> hd p1 \<noteq> NUL \<longrightarrow> length p' < length p1"
      have suf: "set p' \<subseteq> set p1" using scan_arg_suffix [OF s'(1)] set_mono_suffix by blast
      have run: "splitargs_loop (Suc fuel) A p (map Ptr v) = splitargs_loop fuel A p' (map Ptr (v @ [s']))"
        using False e(1) s'(1) A by (simp add: p1_def Let_def)
      show ?thesis
        unfolding run using s' False hd1 len1 Suc.prems suf nn
        by (intro Suc.IH) auto
    qed
  qed
qed

lemma sdssplitargs_total:
  assumes "\<forall>n. grant A n" and "cstrlen line < size_limit"
  shows "\<exists>r. sdssplitargs A line = Some r \<and>
     (\<forall>w. r = Ptr w \<longrightarrow> (\<exists>ts. w = map Ptr ts \<and> (\<forall>t \<in> set ts. sds_ok t)))"
  using splitargs_loop_total [OF assms(1), of "cstr line" "Suc (length (cstr line))" "[]"] assms(2)
  by (simp add: sdssplitargs_def cstrlen_def)

end
