(* ===== verification/Sds_Ranges.thy ===== *)
theory Sds_Ranges
  imports Sds_Text
begin

text \<open>
  In-place editing and comparison: \<open>sdstrim\<close>, \<open>sdsrange\<close>, the case and character mappings and
  \<open>sdscmp\<close>, each against the list function it implements.
\<close>

section \<open>Moving a part of the content to the front\<close>

lemma memmove_front:
  "k + n \<le> length b \<Longrightarrow> memmove b 0 k n = Some (take n (drop k b) @ drop n b)"
proof -
  assume "k + n \<le> length b"
  then have "length (take n (drop k b)) = n" "get_bytes b k n = Some (take n (drop k b))"
    by (simp_all add: get_bytes_Some)
  then show ?thesis
    using \<open>k + n \<le> length b\<close> by (simp add: memmove_def put_def del: length_take)
qed

lemma sds_keep_part:
  assumes ok: "sds_ok s" and n: "k + n \<le> sdslen s"
  shows "\<exists>b. poke (take n (drop k (buf s)) @ drop n (buf s)) n NUL = Some b \<and>
    sds_ok (sdssetlen (s\<lparr>buf := b\<rparr>) n) \<and>
    sds_content (sdssetlen (s\<lparr>buf := b\<rparr>) n) = take n (drop k (sds_content s))"
proof -
  let ?b0 = "take n (drop k (buf s)) @ drop n (buf s)"
  let ?b = "?b0[n := NUL]"
  have l: "sdslen s < length (buf s)" using ok by (simp add: sds_ok_def sds_wf_def)
  have fits: "sds_fits s n"
    using sds_fits_le [OF sds_fits_len [OF sds_ok_wf [OF ok]]] n by simp
  have len: "length ?b0 = length (buf s)" using n l by simp
  have "length ?b = length (buf s)" "?b ! n = NUL" using len n l by simp_all
  note over = sds_overwrite [OF sds_ok_wf [OF ok] fits this]
  have "take n ?b = take n (drop k (sds_content s))"
    using n l by (simp add: sds_content_def take_drop min_def)
  then show ?thesis
    using over len n l by (intro exI [of _ ?b]) (simp add: poke_Some)
qed

section \<open>sdstrim\<close>

lemma trim_sp_eq:
  assumes "k \<le> n" and "n \<le> length b"
  shows "trim_sp b cset (int k) (int n - 1) =
     Some (int (k + length (takeWhile (in_cset cset) (drop k (take n b)))))"
  using assms
proof (induction "n - k" arbitrary: k)
  case 0
  then show ?case by (subst trim_sp.simps) simp
next
  case (Suc m)
  then have k: "k < n" "k < length b" by auto
  then have d: "drop k (take n b) = b ! k # drop (Suc k) (take n b)"
    by (simp add: Cons_nth_drop_Suc [symmetric])
  have "trim_sp b cset (int (Suc k)) (int n - 1) =
      Some (int (Suc k + length (takeWhile (in_cset cset) (drop (Suc k) (take n b)))))"
    by (rule Suc.hyps(1)) (use Suc k in auto)
  then show ?case using k d
    by (subst trim_sp.simps) (simp add: peek_Some add.commute)
qed

lemma trim_ep_eq:
  assumes "sp < n" and "n \<le> length b" and "\<not> in_cset cset (b ! sp)"
  shows "\<exists>m. sp < m \<and> m \<le> n \<and> trim_ep b cset (int sp) (int n - 1) = Some (int m - 1) \<and>
    drop sp (take m b) = rev (dropWhile (in_cset cset) (rev (drop sp (take n b))))"
  using assms
proof (induction n)
  case 0
  then show ?case by simp
next
  case (Suc n)
  then have d: "drop sp (take (Suc n) b) = drop sp (take n b) @ [b ! n]"
    by (simp add: take_Suc_conv_app_nth)
  show ?case
  proof (cases "sp < n \<and> in_cset cset (b ! n)")
    case True
    then show ?thesis using Suc d
      by (subst trim_ep.simps) (auto simp: peek_Some less_Suc_eq_le intro: le_SucI)
  next
    case False
    with Suc.prems have "\<not> in_cset cset (b ! n)" by (cases "sp = n") auto
    with Suc.prems d have "drop sp (take (Suc n) b) =
        rev (dropWhile (in_cset cset) (rev (drop sp (take (Suc n) b))))"
      by simp
    moreover have "trim_ep b cset (int sp) (int (Suc n) - 1) = Some (int (Suc n) - 1)"
      using False Suc.prems by (subst trim_ep.simps) (simp add: peek_Some)
    ultimately show ?thesis using Suc.prems by blast
  qed
qed

definition trim_text :: "bytes \<Rightarrow> bytes \<Rightarrow> bytes" where
  "trim_text cset t =
     rev (dropWhile (in_cset cset) (rev (dropWhile (in_cset cset) t)))"

lemma sdstrim_spec:
  assumes ok: "sds_ok s"
  shows "\<exists>s'. sdstrim s cset = Some s' \<and> sds_ok s' \<and>
    sds_content s' = trim_text cset (sds_content s)"
proof -
  let ?n = "sdslen s" and ?c = "sds_content s" and ?P = "in_cset cset"
  have l: "?n < length (buf s)" using ok by (simp add: sds_ok_def sds_wf_def)
  have c: "take ?n (buf s) = ?c" "length ?c = ?n" using sds_ok_facts(3) [OF ok] by (auto simp: sds_content_def)
  define k where "k = length (takeWhile ?P ?c)"
  have k: "k \<le> ?n" using length_takeWhile_le [of ?P ?c] c by (simp add: k_def)
  have dk: "drop k ?c = dropWhile ?P ?c" by (simp add: k_def dropWhile_eq_drop)
  have sp: "trim_sp (buf s) cset 0 (int ?n - 1) = Some (int k)"
    using trim_sp_eq [of 0 ?n "buf s" cset] l c by (simp add: k_def)
  have "\<exists>m. k \<le> m \<and> m \<le> ?n \<and> trim_ep (buf s) cset (int k) (int ?n - 1) = Some (int m - 1) \<and>
      drop k (take m (buf s)) = trim_text cset ?c"
  proof (cases "k = ?n")
    case True
    have "trim_ep (buf s) cset (int ?n) (int ?n - 1) = Some (int ?n - 1)"
      by (subst trim_ep.simps) simp
    with True dk c show ?thesis by (auto simp: trim_text_def intro!: exI [of _ ?n])
  next
    case False
    with k have kn: "k < ?n" by simp
    have "\<not> ?P (?c ! k)"
      using kn c nth_length_takeWhile [of ?P ?c] by (simp add: k_def)
    moreover have "?c ! k = buf s ! k" using kn by (simp add: sds_content_def)
    ultimately show ?thesis
      using trim_ep_eq [OF kn, of "buf s" cset] l c dk
      by (auto simp: trim_text_def intro: less_imp_le)
  qed
  then obtain m where m: "k \<le> m" "m \<le> ?n" "drop k (take m (buf s)) = trim_text cset ?c"
    and ep: "trim_ep (buf s) cset (int k) (int ?n - 1) = Some (int m - 1)" by blast
  let ?len = "m - k"
  have len: "(if int m - 1 < int k then 0 else nat (int m - 1 - int k) + 1) = ?len"
    using m by auto
  have mv: "(if int k \<noteq> 0 then memmove (buf s) 0 (nat (int k)) ?len else Some (buf s)) =
      Some (take ?len (drop k (buf s)) @ drop ?len (buf s))"
    using m l by (auto simp: memmove_front)
  from sds_keep_part [OF ok, of k ?len] m obtain b where
    b: "poke (take ?len (drop k (buf s)) @ drop ?len (buf s)) ?len NUL = Some b"
      "sds_ok (sdssetlen (s\<lparr>buf := b\<rparr>) ?len)"
      "sds_content (sdssetlen (s\<lparr>buf := b\<rparr>) ?len) = take ?len (drop k ?c)"
    by auto
  have "take ?len (drop k ?c) = trim_text cset ?c"
    using m by (simp add: sds_content_def take_drop min_def)
  moreover have "sdstrim s cset = Some (sdssetlen (s\<lparr>buf := b\<rparr>) ?len)"
    unfolding sdstrim_def Let_def using sp ep b(1) by (simp only: len mv Option.bind.simps)
  ultimately show ?thesis using b by simp
qed


section \<open>sdsrange\<close>

text \<open>The range \<open>start..end\<close>, inclusive, negative positions counting from the end.\<close>

definition norm_pos :: "nat \<Rightarrow> int \<Rightarrow> int" where
  "norm_pos n k = (if k < 0 then max 0 (int n + k) else k)"

definition range_text :: "int \<Rightarrow> int \<Rightarrow> bytes \<Rightarrow> bytes" where
  "range_text start en t =
     (let st = norm_pos (length t) start; e = norm_pos (length t) en
      in take (nat (e - st + 1)) (drop (nat st) t))"

lemma range_pos_norm:
  "n < 2 ^ 31 \<Longrightarrow> - (2 ^ 31) \<le> k \<Longrightarrow> k < 2 ^ 31 \<Longrightarrow> range_pos n k = norm_pos n k"
  by (simp add: range_pos_def norm_pos_def Let_def int32_id)

lemma norm_pos_bounds:
  "n < 2 ^ 31 \<Longrightarrow> k < 2 ^ 31 \<Longrightarrow> 0 \<le> norm_pos n k \<and> norm_pos n k < 2 ^ 31"
  by (simp add: norm_pos_def)

lemma range_len_eq:
  assumes "0 \<le> st" and "e < 2 ^ 31 - 1"
  shows "range_len st e = nat (e - st + 1)"
proof (cases "e < st")
  case False
  with assms have "int32 (e - st + 1) = e - st + 1" by (intro int32_id) simp_all
  with assms False show ?thesis by (simp add: range_len_def usz_of_int_id)
qed (simp add: range_len_def)

lemma range_len_zero:
  assumes "0 \<le> st" and "e < 2 ^ 31"
  shows "range_len st e = 0 \<longleftrightarrow> e < st"
proof (cases "e = 2 ^ 31 - 1 \<and> st = 0")
  case True
  then show ?thesis by (simp add: range_len_def int32_def usz_of_int_def)
next
  case False
  show ?thesis
  proof (cases "e < st")
    case True
    then show ?thesis by (simp add: range_len_def)
  next
    case le: False
    with False assms have "int32 (e - st + 1) = e - st + 1" by (intro int32_id) auto
    with assms le False show ?thesis by (simp add: range_len_def usz_of_int_id)
  qed
qed

lemma sdsrange_spec:
  assumes ok: "sds_ok s" and lim: "sdslen s < 2 ^ 31 - 1"
    and st: "- (2 ^ 31) \<le> start" "start < 2 ^ 31" and en: "- (2 ^ 31) \<le> en" "en < 2 ^ 31"
  shows "\<exists>s'. sdsrange s start en = Some s' \<and> sds_ok s' \<and>
    sds_content s' = range_text start en (sds_content s)"
proof (cases "sdslen s = 0")
  case True
  then show ?thesis using ok by (simp add: sdsrange_def range_text_def sds_content_def Let_def)
next
  case False
  define n where "n = sdslen s"
  have n: "n < 2 ^ 31" "0 < n" using lim False by (simp_all add: n_def)
  have lc: "length (sds_content s) = n" using sds_ok_facts(3) [OF ok] by (simp add: n_def)
  have lb: "n < length (buf s)" using ok by (simp add: sds_ok_def sds_wf_def n_def)
  define a where "a = norm_pos n start"
  define e where "e = norm_pos n en"
  have pos: "range_pos n start = a" "range_pos n en = e"
    using range_pos_norm n st en by (simp_all add: a_def e_def)
  have a: "0 \<le> a" "a < 2 ^ 31" and e: "0 \<le> e" "e < 2 ^ 31"
    using norm_pos_bounds n st en by (simp_all add: a_def e_def)
  define m where "m = (if e < a \<or> int n \<le> a then 0 else nat (min e (int n - 1) - a + 1))"
  define k where "k = (if e < a then 0 else a)"
  have sl: "int32 (int n) = int n" "int32 (int n - 1) = int n - 1"
    using n by (simp_all add: int32_id)
  have sel: "(if range_len a e \<noteq> 0 then
        (if int n \<le> a then (a, 0)
         else if int n \<le> e then (a, range_len a (int n - 1)) else (a, range_len a e))
      else (0, range_len a e)) = (k, m)"
    using range_len_zero [OF a(1) e(2)] range_len_eq [OF a(1), of "int n - 1"]
      range_len_eq [OF a(1), of e] n lim
    by (auto simp: k_def m_def n_def min_def)
  define j where "j = (if m = 0 then 0 else nat k)"
  have jm: "j + m \<le> n" using a n by (auto simp: j_def k_def m_def)
  have mv: "(if k \<noteq> 0 \<and> m \<noteq> 0 then memmove (buf s) 0 (nat k) m else Some (buf s)) =
      Some (take m (drop j (buf s)) @ drop m (buf s))"
    using jm lb a by (auto simp: memmove_front j_def)
  from sds_keep_part [OF ok, of j m] jm obtain b where
    b: "poke (take m (drop j (buf s)) @ drop m (buf s)) m NUL = Some b"
      "sds_ok (sdssetlen (s\<lparr>buf := b\<rparr>) m)"
      "sds_content (sdssetlen (s\<lparr>buf := b\<rparr>) m) = take m (drop j (sds_content s))"
    by (auto simp: n_def)
  have "sdsrange s start en = Some (sdssetlen (s\<lparr>buf := b\<rparr>) m)"
    using n b(1) unfolding sdsrange_def n_def [symmetric] Let_def pos sl sel
    by (simp only: mv Option.bind.simps prod.case) simp
  moreover have "take m (drop j (sds_content s)) = range_text start en (sds_content s)"
    unfolding range_text_def Let_def lc a_def [symmetric] e_def [symmetric]
    using a e lc by (auto simp: j_def k_def m_def min_def)
  ultimately show ?thesis using b by simp
qed

section \<open>Mapping characters\<close>

lemma map_prefix_spec:
  assumes ok: "sds_ok s" and lim: "sdslen s < 2 ^ 31"
  shows "\<exists>b. map_prefix f (int32 (int (sdslen s))) (buf s) = Some b \<and> sds_ok (s\<lparr>buf := b\<rparr>) \<and>
    sds_content (s\<lparr>buf := b\<rparr>) = map f (sds_content s)"
proof -
  have l: "sdslen s < length (buf s)" using ok by (simp add: sds_ok_def sds_wf_def)
  have i: "int32 (int (sdslen s)) = int (sdslen s)" using lim by (simp add: int32_id)
  show ?thesis
    unfolding map_prefix_def i using l ok
    by (auto simp: sds_ok_def sds_wf_def sds_content_def nth_append)
qed

lemma sdstolower_spec:
  "sds_ok s \<Longrightarrow> sdslen s < 2 ^ 31 \<Longrightarrow>
     \<exists>s'. sdstolower s = Some s' \<and> sds_ok s' \<and> sds_content s' = map tolower (sds_content s)"
  using map_prefix_spec [of s tolower] by (auto simp: sdstolower_def)

lemma sdstoupper_spec:
  "sds_ok s \<Longrightarrow> sdslen s < 2 ^ 31 \<Longrightarrow>
     \<exists>s'. sdstoupper s = Some s' \<and> sds_ok s' \<and> sds_content s' = map toupper (sds_content s)"
  using map_prefix_spec [of s toupper] by (auto simp: sdstoupper_def)

text \<open>The first pair of the table whose source character is the given one decides.\<close>

definition table_char :: "(char \<times> char) list \<Rightarrow> char \<Rightarrow> char" where
  "table_char tab c = (case map_of tab c of None \<Rightarrow> c | Some d \<Rightarrow> d)"

lemma map_char_eq:
  "n \<le> length src \<Longrightarrow> n \<le> length dst \<Longrightarrow>
     map_char src dst n c = Some (table_char (zip (take n src) (take n dst)) c)"
proof (induction src dst n c rule: map_char.induct)
  case (1 src dst c)
  then show ?case by (simp add: table_char_def)
next
  case (2 src dst n c)
  then obtain x xs y ys where "src = x # xs" "dst = y # ys"
    by (cases src; cases dst) auto
  with 2 show ?case by (auto simp: peek_Some table_char_def)
qed

lemma mapchars_loop_eq:
  assumes "setlen \<le> length src" and "setlen \<le> length dst"
  shows "j + n \<le> length b \<Longrightarrow> mapchars_loop b j n src dst setlen =
    Some (take j b @ map (table_char (zip (take setlen src) (take setlen dst))) (take n (drop j b)) @
      drop (j + n) b)"
proof (induction n arbitrary: b j)
  case 0
  then show ?case by simp
next
  case (Suc n)
  let ?f = "table_char (zip (take setlen src) (take setlen dst))"
  have j: "j < length b" using Suc.prems by simp
  have b: "b[j := ?f (b ! j)] = take j b @ ?f (b ! j) # drop (Suc j) b"
    using j by (rule upd_conv_take_nth_drop)
  have d: "take (Suc n) (drop j b) = b ! j # take n (drop (Suc j) b)"
    using j by (simp add: Cons_nth_drop_Suc [symmetric])
  show ?case
    using Suc.IH [of "Suc j" "b[j := ?f (b ! j)]"] Suc.prems j d
    by (simp add: peek_Some poke_Some map_char_eq [OF assms] b add.commute)
qed

lemma sdsmapchars_spec:
  assumes ok: "sds_ok s" and t: "setlen \<le> length src" "setlen \<le> length dst"
  shows "\<exists>s'. sdsmapchars s src dst setlen = Some s' \<and> sds_ok s' \<and>
    sds_content s' = map (table_char (zip (take setlen src) (take setlen dst))) (sds_content s)"
proof -
  have l: "sdslen s < length (buf s)" using ok by (simp add: sds_ok_def sds_wf_def)
  then show ?thesis
    using ok mapchars_loop_eq [OF t, of 0 "sdslen s" "buf s"]
    by (auto simp: sdsmapchars_def sds_ok_def sds_wf_def sds_content_def nth_append)
qed

section \<open>Comparison\<close>

lemma memcmp_order:
  assumes "length x = length y"
  shows "memcmp x y = 0 \<longleftrightarrow> x = y" and "memcmp x y < 0 \<longleftrightarrow> x < y"
  using assms
  by (induction x y rule: list_induct2) (auto simp: uch_def less_char_def)

lemma less_list_take:
  assumes "length x = length y" and "x \<noteq> y"
  shows "x @ u < y @ v \<longleftrightarrow> x < (y :: char list)"
  using assms by (induction x y rule: list_induct2) auto

lemma less_list_prefix: "x @ u < x @ v \<longleftrightarrow> u < (v :: char list)"
  by (induction x) auto

lemma Nil_less_iff: "[] < xs \<longleftrightarrow> xs \<noteq> ([] :: char list)" "\<not> ys < ([] :: char list)"
  by (cases xs; cases ys; auto)+

lemma sdscmp_spec:
  assumes ok: "sds_ok s1" "sds_ok s2" and lim: "sdslen s1 < 2 ^ 31" "sdslen s2 < 2 ^ 31"
  shows "\<exists>r. sdscmp s1 s2 = Some r \<and> (r = 0 \<longleftrightarrow> sds_content s1 = sds_content s2) \<and>
    (r < 0 \<longleftrightarrow> sds_content s1 < sds_content s2)"
proof -
  define m where "m = min (sdslen s1) (sdslen s2)"
  let ?c1 = "sds_content s1" and ?c2 = "sds_content s2"
  have l: "length ?c1 = sdslen s1" "length ?c2 = sdslen s2" using sds_ok_facts(3) ok by auto
  have lb: "sdslen s1 < length (buf s1)" "sdslen s2 < length (buf s2)"
    using ok by (auto simp: sds_ok_def sds_wf_def)
  have min: "(if sdslen s1 < sdslen s2 then sdslen s1 else sdslen s2) = m" by (simp add: m_def)
  have g: "get_bytes (buf s1) 0 m = Some (take m ?c1)" "get_bytes (buf s2) 0 m = Some (take m ?c2)"
    using lb by (auto simp: get_bytes_def m_def sds_content_def)
  have tl: "length (take m ?c1) = m" "length (take m ?c2) = m" using l by (auto simp: m_def)
  define r where "r = (if memcmp (take m ?c1) (take m ?c2) = 0
    then int32 (int (sdslen s1) - int (sdslen s2)) else memcmp (take m ?c1) (take m ?c2))"
  have run: "sdscmp s1 s2 = Some r"
    unfolding sdscmp_def Let_def min using g by (simp add: r_def)
  have split: "?c1 = take m ?c1 @ drop m ?c1" "?c2 = take m ?c2 @ drop m ?c2" by simp_all
  show ?thesis
  proof (cases "take m ?c1 = take m ?c2")
    case True
    have d: "int32 (int (sdslen s1) - int (sdslen s2)) = int (sdslen s1) - int (sdslen s2)"
      using lim by (simp add: int32_id)
    have r: "r = int (sdslen s1) - int (sdslen s2)"
      using True memcmp_order(1) [of "take m ?c1" "take m ?c2"] tl d by (simp add: r_def)
    have e: "?c1 = ?c2 \<longleftrightarrow> drop m ?c1 = drop m ?c2" "?c1 < ?c2 \<longleftrightarrow> drop m ?c1 < drop m ?c2"
    proof -
      show "?c1 = ?c2 \<longleftrightarrow> drop m ?c1 = drop m ?c2" using True split by metis
      show "?c1 < ?c2 \<longleftrightarrow> drop m ?c1 < drop m ?c2" using True split less_list_prefix by metis
    qed
    have "drop m ?c1 = [] \<or> drop m ?c2 = []" using l by (auto simp: m_def)
    then have "(drop m ?c1 = drop m ?c2 \<longleftrightarrow> sdslen s1 = sdslen s2) \<and>
        (drop m ?c1 < drop m ?c2 \<longleftrightarrow> sdslen s1 < sdslen s2)"
      using l by (auto simp: m_def Nil_less_iff min_def split: if_splits)
    with run r e show ?thesis by auto
  next
    case False
    then have "r = memcmp (take m ?c1) (take m ?c2)" "?c1 \<noteq> ?c2"
      using memcmp_order(1) [of "take m ?c1" "take m ?c2"] tl by (auto simp: r_def)
    moreover have "?c1 < ?c2 \<longleftrightarrow> take m ?c1 < take m ?c2"
      using less_list_take [OF trans [OF tl(1) tl(2) [symmetric]] False, of "drop m ?c1" "drop m ?c2"] by simp
    ultimately show ?thesis
      using run memcmp_order [of "take m ?c1" "take m ?c2"] tl False by simp
  qed
qed

end
