(* ===== verification/Sds_Theorems.thy ===== *)
theory Sds_Theorems
  imports Sds_Tokens Sds_Ranges
begin

text \<open>
  The properties of the string library. Each is stated for an arbitrary allocator, or for one that
  grants every request where the code uses a result without checking it; the witness applies it to
  concrete strings.
\<close>

section \<open>A concrete string\<close>

definition demo :: "bytes \<Rightarrow> sds" where
  "demo t = \<lparr>flags = 1, hlen = length t, halloc = length t, buf = t @ [NUL]\<rparr>"

lemma demo_facts:
  assumes "length t < 256"
  shows "sds_ok (demo t)" "sds_content (demo t) = t" "sdslen (demo t) = length t" "sdsavail (demo t) = 0"
    "buf (demo t) = t @ [NUL]"
proof -
  have ty: "sdstype (demo t) = SDS_TYPE_8" by (simp add: demo_def sdstype_def sds_type_defs)
  then show l: "sdslen (demo t) = length t" by (simp add: sdslen_def sds_type_defs demo_def)
  then have wf: "sds_wf (demo t)"
    using ty assms by (simp add: sds_wf_def sds_type_defs hdr_bits_def) (simp add: demo_def)
  then show "sds_ok (demo t)" using l by (simp add: sds_ok_def) (simp add: demo_def)
  show "sds_content (demo t) = t" using l by (simp add: sds_content_def) (simp add: demo_def)
  show "sdsavail (demo t) = 0" using sdsavail_ok [OF wf] l by (simp add: demo_def)
  show "buf (demo t) = t @ [NUL]" by (simp add: demo_def)
qed

section \<open>Properties\<close>

text \<open>
  C21. Appending: \<open>sdscatlen\<close> never leaves the bounds of the string or of its argument, keeps the
  header consistent and the terminator in place, and the result holds the old bytes followed by the
  appended ones. NULL is returned only when the allocator refuses a request.
\<close>

theorem sdscatlen_appends:
  assumes "sds_ok s" and "n \<le> length t" and "sdslen s + n < size_limit"
  shows "yields A (sdscatlen A s t n) (\<lambda>s'. sds_ok s' \<and> sds_content s' = sds_content s @ take n t)"
  by (rule yields_mono [OF sdscatlen_spec]) (use assms in auto)

theorem sdscatlen_appends_witness:
  "yields generous (sdscatlen generous (demo ''ab'') ''cde'' 2)
     (\<lambda>s'. sds_ok s' \<and> sds_content s' = ''abcd'')"
  using sdscatlen_appends [of "demo ''ab''" 2 "''cde''" generous] by (simp add: demo_facts size_limit_def)

text \<open>
  Growing: \<open>sdsMakeRoomFor\<close> keeps the bytes and the length and makes room for at least the bytes
  asked for, also when the string changes to a larger header type.
\<close>

theorem sdsMakeRoomFor_room:
  assumes "sds_ok s" and "sdslen s + n < size_limit"
  shows "yields A (sdsMakeRoomFor A s n) (\<lambda>s'. sds_ok s' \<and> sds_content s' = sds_content s \<and>
     sdslen s' = sdslen s \<and> n \<le> sdsavail s')"
  using assms by (rule sdsMakeRoomFor_spec)

theorem sdsMakeRoomFor_room_witness:
  "yields generous (sdsMakeRoomFor generous (demo ''ab'') 1000) (\<lambda>s'. sds_ok s' \<and> sds_content s' = ''ab'' \<and>
     sdslen s' = length ''ab'' \<and> 1000 \<le> sdsavail s')"
  using sdsMakeRoomFor_room [of "demo ''ab''" 1000 generous] by (simp add: demo_facts size_limit_def)

text \<open>
  Direct writing: after bytes were written behind the end of a string, \<open>sdsIncrLen\<close> takes them
  over, or drops bytes from the end for a negative increment, and terminates the string.
\<close>

theorem sdsIncrLen_adjusts:
  assumes "sds_ok s" and "incr \<noteq> 0" and "- int (sdslen s) \<le> incr" and "incr \<le> int (sdsavail s)"
  shows "\<exists>s'. sdsIncrLen s incr = Some s' \<and> sds_ok s' \<and>
     sds_content s' = take (nat (int (sdslen s) + incr)) (buf s)"
  using assms by (rule sdsIncrLen_spec)

theorem sdsIncrLen_adjusts_witness:
  "\<exists>s'. sdsIncrLen (demo ''abcd'') (-1) = Some s' \<and> sds_ok s' \<and> sds_content s' = ''abc''"
  using sdsIncrLen_adjusts [of "demo ''abcd''" "-1"] by (simp add: demo_facts)

text \<open>
  Numbers: \<open>sdsfromlonglong\<close> prints every value of a \<open>long long\<close>, the smallest one included, in
  decimal.
\<close>

theorem sdsfromlonglong_decimal:
  assumes "- (2 ^ 63) \<le> v" and "v < 2 ^ 63"
  shows "yields A (sdsfromlonglong A v) (\<lambda>s. sds_ok s \<and> sds_content s = dec_int v)"
  using assms by (rule sdsfromlonglong_spec)

theorem sdsfromlonglong_decimal_witness:
  "yields generous (sdsfromlonglong generous (- (2 ^ 63)))
     (\<lambda>s. sds_ok s \<and> sds_content s = dec_int (- (2 ^ 63)))"
  by (rule sdsfromlonglong_decimal) simp_all

text \<open>
  Formatting: \<open>sdscatfmt\<close> appends what its format denotes. The reference \<open>fmt_render\<close> replaces
  each conversion by the text of its argument; the result is within bounds whatever the lengths.
\<close>

theorem sdscatfmt_renders:
  assumes "\<forall>n. grant A n" and "sds_ok s" and "fmt_render (cstr fmt) ap = Some t"
    and "sdslen s + length t + 1 < 2 ^ 31"
  shows "\<exists>s'. sdscatfmt A s fmt ap = Some s' \<and> sds_ok s' \<and> sds_content s' = sds_content s @ t"
  using assms by (rule sdscatfmt_spec)

theorem sdscatfmt_renders_witness:
  "\<exists>s'. sdscatfmt generous (demo ''x'') ''%s=%%;'' [ArgStr ''key''] = Some s' \<and> sds_ok s' \<and>
     sds_content s' = ''xkey=%;''"
proof -
  have "fmt_render (cstr ''%s=%%;'') [ArgStr ''key''] = Some ''key=%;''" by code_simp
  from sdscatfmt_renders [OF _ demo_facts(1) this, of generous "''x''"] show ?thesis
    by (simp add: demo_facts)
qed

text \<open>
  A format that ends in a lone percent sign makes \<open>sdscatfmt\<close> step over the terminator of the
  format: the next character it looks at lies outside the string.
\<close>

theorem sdscatfmt_lone_percent:
  assumes "NUL \<notin> set f" and "CHR ''%'' \<notin> set f"
  shows "sdscatfmt A s (f @ ''%'') ap = None"
  using assms by (rule sdscatfmt_trailing_percent)

theorem sdscatfmt_lone_percent_witness: "sdscatfmt generous (demo ''x'') ''100%'' [] = None"
  using sdscatfmt_lone_percent [of "''100''" generous "demo ''x''" "[]"] by simp

text \<open>
  Trimming: \<open>sdstrim\<close> removes the longest prefix and the longest suffix made of the given
  characters (and NUL), in place and within bounds.
\<close>

theorem sdstrim_trims:
  assumes "sds_ok s"
  shows "\<exists>s'. sdstrim s cset = Some s' \<and> sds_ok s' \<and> sds_content s' = trim_text cset (sds_content s)"
  using assms by (rule sdstrim_spec)

theorem sdstrim_trims_witness:
  "\<exists>s'. sdstrim (demo ''xxhixoxx'') ''x'' = Some s' \<and> sds_ok s' \<and> sds_content s' = ''hixo''"
proof -
  have "trim_text ''x'' ''xxhixoxx'' = ''hixo''" by code_simp
  with sdstrim_trims [of "demo ''xxhixoxx''" "''x''"] show ?thesis by (simp add: demo_facts)
qed

text \<open>
  Ranges: \<open>sdsrange\<close> keeps the bytes between two inclusive positions, negative ones counted from
  the end and out-of-range ones clipped, for strings below 2 GB.
\<close>

theorem sdsrange_keeps:
  assumes "sds_ok s" and "sdslen s < 2 ^ 31 - 1"
    and "- (2 ^ 31) \<le> start" and "start < 2 ^ 31" and "- (2 ^ 31) \<le> en" and "en < 2 ^ 31"
  shows "\<exists>s'. sdsrange s start en = Some s' \<and> sds_ok s' \<and> sds_content s' = range_text start en (sds_content s)"
  using assms by (rule sdsrange_spec)

theorem sdsrange_keeps_witness:
  "\<exists>s'. sdsrange (demo ''hello'') 1 (-2) = Some s' \<and> sds_ok s' \<and> sds_content s' = ''ell''"
proof -
  have "range_text 1 (-2) ''hello'' = ''ell''" by code_simp
  with sdsrange_keeps [of "demo ''hello''" 1 "-2"] show ?thesis by (simp add: demo_facts)
qed

text \<open>
  Comparison: for strings below 2 GB the sign of \<open>sdscmp\<close> is the lexicographic order of the
  contents by unsigned bytes, and zero means equal contents.
\<close>

theorem sdscmp_orders:
  assumes "sds_ok s1" and "sds_ok s2" and "sdslen s1 < 2 ^ 31" and "sdslen s2 < 2 ^ 31"
  shows "\<exists>r. sdscmp s1 s2 = Some r \<and> (r = 0 \<longleftrightarrow> sds_content s1 = sds_content s2) \<and>
    (r < 0 \<longleftrightarrow> sds_content s1 < sds_content s2)"
  using assms by (rule sdscmp_spec)

theorem sdscmp_orders_witness:
  "\<exists>r. sdscmp (demo ''ab'') (demo ''b'') = Some r \<and> r < 0"
  using sdscmp_orders [of "demo ''ab''" "demo ''b''"] by (auto simp: demo_facts less_char_def)

text \<open>
  Splitting and joining are inverse: joining the tokens of \<open>sdssplitlen\<close> with the separator
  restores the text, and no token holds the separator.
\<close>

theorem split_then_join:
  assumes "\<forall>n. grant A n" and "sep \<noteq> []" and "s \<noteq> []" and "length s < size_limit"
  shows "\<exists>ts j. sdssplitlen A s (int (length s)) sep (int (length sep)) = Some (Ptr ts) \<and>
    sdsjoinsds A ts sep (length sep) = Some (Ptr j) \<and> sds_content j = s \<and>
    (\<forall>t \<in> set ts. \<not> sublist sep (sds_content t))"
proof -
  obtain ts where ts: "sdssplitlen A s (int (length s)) sep (int (length sep)) = Some (Ptr ts)"
      "\<forall>t \<in> set ts. sds_ok t" "map sds_content ts = split_ref sep [] s"
    using yields_granted [OF sdssplitlen_spec [OF assms(2,4)] assms(1)] assms(3) by auto
  have j: "intercalate sep (map sds_content ts) = s" by (simp add: ts(3) intercalate_split_ref)
  obtain b where "sdsjoinsds A ts sep (length sep) = Some (Ptr b)" "sds_content b = s"
    using sdsjoinsds_spec [OF assms(1) ts(2), of sep] j assms(4) by auto
  moreover have "\<not> sublist sep (sds_content t)" if "t \<in> set ts" for t
  proof -
    have "sds_content t \<in> set (split_ref sep [] s)" using that ts(3) by (metis image_eqI list.set_map)
    then show ?thesis using split_ref_tokens [OF assms(2), of "[]" s] by (simp add: no_match_def)
  qed
  ultimately show ?thesis using ts(1) by blast
qed

theorem split_then_join_witness:
  "\<exists>ts j. sdssplitlen generous ''a,b,,c'' 6 '','' 1 = Some (Ptr ts) \<and>
    sdsjoinsds generous ts '','' 1 = Some (Ptr j) \<and> sds_content j = ''a,b,,c''"
  using split_then_join [of generous "'',''" "''a,b,,c''"] by (auto simp: size_limit_def)

text \<open>
  C20. Quoting round trip: any byte strings, quoted by \<open>sdscatrepr\<close>'s escapes and written with
  blanks between them, are read back by \<open>sdssplitargs\<close> exactly.
\<close>

theorem quoted_args_roundtrip:
  assumes "\<forall>n. grant A n" and "\<forall>t \<in> set ts. length t < size_limit" and "ts \<noteq> []"
  shows "\<exists>v. sdssplitargs A (intercalate '' '' (map quoted ts)) = Some (Ptr (map Ptr v)) \<and> map sds_content v = ts"
  using sdssplitargs_quoted [OF assms] by blast

theorem quoted_args_roundtrip_witness:
  "\<exists>v. sdssplitargs generous (intercalate '' '' (map quoted [''a b'', [NUL, QUOT, BSL]])) = Some (Ptr (map Ptr v)) \<and>
    map sds_content v = [''a b'', [NUL, QUOT, BSL]]"
  using quoted_args_roundtrip [of generous "[''a b'', [NUL, QUOT, BSL]]"] by (simp add: size_limit_def)

text \<open>
  \<open>sdscatrepr\<close> appends the quoted form of its argument.
\<close>

theorem sdscatrepr_quotes:
  assumes "\<forall>n. grant A n" and "sds_ok s" and "sdslen s + length (quoted t) < size_limit"
  shows "\<exists>s'. sdscatrepr A s t (length t) = Some (Ptr s') \<and> sds_ok s' \<and>
    sds_content s' = sds_content s @ quoted t"
  using assms by (rule sdscatrepr_granted)

theorem sdscatrepr_quotes_witness:
  "\<exists>s'. sdscatrepr generous (demo ''x'') ''a'' 1 = Some (Ptr s') \<and> sds_ok s' \<and> sds_content s' = ''x'' @ quoted ''a''"
proof -
  have "length (quoted ''a'') = 3" by code_simp
  with sdscatrepr_quotes [of generous "demo ''x''" "''a''"] show ?thesis
    by (simp add: demo_facts size_limit_def)
qed

text \<open>
  C22. Totality: \<open>sdssplitargs\<close> returns for every line, either NULL or well-formed arguments; the
  loops end and no byte behind the terminator is read.
\<close>

theorem sdssplitargs_returns:
  assumes "\<forall>n. grant A n" and "cstrlen line < size_limit"
  shows "\<exists>r. sdssplitargs A line = Some r \<and>
     (\<forall>w. r = Ptr w \<longrightarrow> (\<exists>ts. w = map Ptr ts \<and> (\<forall>t \<in> set ts. sds_ok t)))"
  using assms by (rule sdssplitargs_total)

theorem sdssplitargs_returns_witness:
  "\<exists>r. sdssplitargs generous ''set k \"v'' = Some r"
  using sdssplitargs_returns [of generous "''set k \"v''"] by (auto simp: size_limit_def cstrlen_def cstr_def)

end
