(* ===== verification/Dict.thy ===== *)
theory Dict
  imports Prelude
begin

unbundle bit_operations_syntax

text \<open>
  The hash table of \<open>dict.c\<close> and \<open>dict.h\<close>: an array of chains whose length is a power of two. A chain
  is the list of its entries from the head; \<open>table = NULL\<close> is the empty array. The callbacks of a
  \<open>dictType\<close> are functions (their \<open>privdata\<close> argument is part of the function); the calls of the two
  destructors are recorded in order in \<open>keyFrees\<close> and \<open>valFrees\<close>. The results of \<open>malloc\<close> and
  \<open>calloc\<close> are used unchecked, as in the source.
\<close>

section \<open>Data\<close>

record ('k, 'v) dictEntry =
  ekey :: 'k
  eval :: 'v

record ('k, 'v) dictType =
  hashFunction :: "'k \<Rightarrow> 32 word"
  keyDup :: "('k \<Rightarrow> 'k) option"
  valDup :: "('v \<Rightarrow> 'v) option"
  keyCompare :: "('k \<Rightarrow> 'k \<Rightarrow> bool) option"
  keyDestructor :: bool
  valDestructor :: bool

record ('k, 'v) dict =
  table :: "('k, 'v) dictEntry list list"
  dtype :: "('k, 'v) dictType"
  ht_size :: nat
  sizemask :: nat
  used :: nat
  keyFrees :: "'k list"
  valFrees :: "'v list"

definition DICT_OK :: int where "DICT_OK = 0"
definition DICT_ERR :: int where "DICT_ERR = 1"
definition DICT_HT_INITIAL_SIZE :: nat where "DICT_HT_INITIAL_SIZE = 4"

definition dictFreeEntryVal :: "('k, 'v) dict \<Rightarrow> ('k, 'v) dictEntry \<Rightarrow> ('k, 'v) dict" where
  "dictFreeEntryVal ht e =
     (if valDestructor (dtype ht) then ht\<lparr>valFrees := valFrees ht @ [eval e]\<rparr> else ht)"

definition dictFreeEntryKey :: "('k, 'v) dict \<Rightarrow> ('k, 'v) dictEntry \<Rightarrow> ('k, 'v) dict" where
  "dictFreeEntryKey ht e =
     (if keyDestructor (dtype ht) then ht\<lparr>keyFrees := keyFrees ht @ [ekey e]\<rparr> else ht)"

definition dictSetHashVal :: "('k, 'v) dict \<Rightarrow> ('k, 'v) dictEntry \<Rightarrow> 'v \<Rightarrow> ('k, 'v) dictEntry" where
  "dictSetHashVal ht e v = e\<lparr>eval := (case valDup (dtype ht) of Some f \<Rightarrow> f v | None \<Rightarrow> v)\<rparr>"

definition dictSetHashKey :: "('k, 'v) dict \<Rightarrow> ('k, 'v) dictEntry \<Rightarrow> 'k \<Rightarrow> ('k, 'v) dictEntry" where
  "dictSetHashKey ht e k = e\<lparr>ekey := (case keyDup (dtype ht) of Some f \<Rightarrow> f k | None \<Rightarrow> k)\<rparr>"

definition dictCompareHashKeys :: "('k, 'v) dict \<Rightarrow> 'k \<Rightarrow> 'k \<Rightarrow> bool" where
  "dictCompareHashKeys ht k1 k2 =
     (case keyCompare (dtype ht) of Some f \<Rightarrow> f k1 k2 | None \<Rightarrow> k1 = k2)"

definition dictHashKey :: "('k, 'v) dict \<Rightarrow> 'k \<Rightarrow> nat" where
  "dictHashKey ht k = unat (hashFunction (dtype ht) k)"

text \<open>\<open>ht->table[i]\<close>, and the assignment to it.\<close>

definition chain :: "('k, 'v) dictEntry list list \<Rightarrow> nat \<Rightarrow> ('k, 'v) dictEntry list option" where
  "chain tb i = (if i < length tb then Some (tb ! i) else None)"

section \<open>The hash function\<close>

fun hash_loop :: "32 word \<Rightarrow> bytes \<Rightarrow> 32 word" where
  "hash_loop hash [] = hash"
| "hash_loop hash (c # buf) = hash_loop ((push_bit 5 hash + hash) + of_nat (uch c)) buf"

definition dictGenHashFunction :: "bytes \<Rightarrow> int \<Rightarrow> 32 word option" where
  "dictGenHashFunction buf len =
     (if len < 0 then None
      else do { t \<leftarrow> get_bytes buf 0 (nat len); Some (hash_loop 5381 t) })"

section \<open>Creation and growth\<close>

definition dictReset :: "('k, 'v) dict \<Rightarrow> ('k, 'v) dict" where
  "dictReset ht = ht\<lparr>table := [], ht_size := 0, sizemask := 0, used := 0\<rparr>"

definition dictInit :: "('k, 'v) dict \<Rightarrow> ('k, 'v) dictType \<Rightarrow> ('k, 'v) dict" where
  "dictInit ht ty = (dictReset ht)\<lparr>dtype := ty\<rparr>"

text \<open>A fresh block holds arbitrary values before \<open>_dictInit\<close>; \<open>fresh\<close> stands for them.\<close>

definition dictCreate :: "allocator \<Rightarrow> ('k, 'v) dict \<Rightarrow> ('k, 'v) dictType \<Rightarrow> ('k, 'v) dict option" where
  "dictCreate A fresh ty = (if grant A 48 then Some (dictInit fresh ty) else None)"

partial_function (option) next_power :: "nat \<Rightarrow> nat \<Rightarrow> nat option" where
  "next_power i n = (if n \<le> i then Some i else next_power (usz (i * 2)) n)"

declare next_power.simps [code]

definition dictNextPower :: "nat \<Rightarrow> nat option" where
  "dictNextPower n = (if LONG_MAX \<le> n then Some LONG_MAX else next_power DICT_HT_INITIAL_SIZE n)"

text \<open>The inner loop of \<open>dictExpand\<close> relinks one chain, the outer loop visits the old slots.\<close>

fun move_chain :: "('k, 'v) dict \<Rightarrow> nat \<Rightarrow> ('k, 'v) dictEntry list \<Rightarrow> ('k, 'v) dictEntry list list
    \<Rightarrow> nat \<Rightarrow> (('k, 'v) dictEntry list list \<times> nat) option" where
  "move_chain ht msk [] tb us = Some (tb, us)"
| "move_chain ht msk (he # next) tb us =
     (let h = (dictHashKey ht (ekey he) AND msk) mod 2 ^ 32 in do {
        c \<leftarrow> chain tb h;
        move_chain ht msk next (tb[h := he # c]) (usz_of_int (int us - 1)) })"

function expand_loop :: "('k, 'v) dict \<Rightarrow> nat \<Rightarrow> nat \<Rightarrow> ('k, 'v) dictEntry list list \<Rightarrow> nat
    \<Rightarrow> (('k, 'v) dictEntry list list \<times> nat) option" where
  "expand_loop ht msk i tb us =
     (if i < ht_size ht \<and> 0 < us then do {
        c \<leftarrow> chain (table ht) i;
        (tb, us) \<leftarrow> move_chain ht msk c tb us;
        expand_loop ht msk (i + 1) tb us }
      else Some (tb, us))"
  by pat_completeness auto
termination by (relation "measure (\<lambda>(ht, msk, i, tb, us). ht_size ht - i)") auto

declare expand_loop.simps [simp del]

definition dictExpand :: "allocator \<Rightarrow> ('k, 'v) dict \<Rightarrow> nat \<Rightarrow> (('k, 'v) dict \<times> int) option" where
  "dictExpand A ht sz = do {
     realsize \<leftarrow> dictNextPower sz;
     (if sz < used ht then Some (ht, DICT_ERR)
      else do {
        let tb = (if grant A (usz (realsize * 8)) then replicate realsize [] else []);
        (tb, us) \<leftarrow> expand_loop ht (realsize - 1) 0 tb (used ht);
        (if us \<noteq> 0 then None
         else Some (ht\<lparr>table := tb, ht_size := realsize, sizemask := realsize - 1\<rparr>, DICT_OK)) }) }"

definition dictExpandIfNeeded :: "allocator \<Rightarrow> ('k, 'v) dict \<Rightarrow> (('k, 'v) dict \<times> int) option" where
  "dictExpandIfNeeded A ht =
     (if ht_size ht = 0 then dictExpand A ht DICT_HT_INITIAL_SIZE
      else if used ht = ht_size ht then dictExpand A ht (usz (ht_size ht * 2))
      else Some (ht, DICT_OK))"

section \<open>Lookup, insertion, deletion\<close>

definition slot :: "('k, 'v) dict \<Rightarrow> 'k \<Rightarrow> nat" where
  "slot ht k = (dictHashKey ht k AND sizemask ht) mod 2 ^ 32"

definition dictKeyIndex :: "allocator \<Rightarrow> ('k, 'v) dict \<Rightarrow> 'k \<Rightarrow> (('k, 'v) dict \<times> int) option" where
  "dictKeyIndex A ht k = do {
     (ht, rc) \<leftarrow> dictExpandIfNeeded A ht;
     (if rc = DICT_ERR then Some (ht, -1)
      else do {
        let h = slot ht k;
        c \<leftarrow> chain (table ht) h;
        (if \<exists>he \<in> set c. dictCompareHashKeys ht k (ekey he) then Some (ht, -1)
         else Some (ht, int32 (int h))) }) }"

definition dictAdd :: "allocator \<Rightarrow> ('k, 'v) dict \<Rightarrow> 'k \<Rightarrow> 'v \<Rightarrow> (('k, 'v) dict \<times> int) option" where
  "dictAdd A ht k v = do {
     (ht, index) \<leftarrow> dictKeyIndex A ht k;
     (if index = -1 then Some (ht, DICT_ERR)
      else if \<not> grant A 24 \<or> index < 0 then None
      else do {
        c \<leftarrow> chain (table ht) (nat index);
        let entry = dictSetHashVal ht (dictSetHashKey ht \<lparr>ekey = k, eval = v\<rparr> k) v;
        Some (ht\<lparr>table := (table ht)[nat index := entry # c], used := usz (used ht + 1)\<rparr>, DICT_OK) }) }"

definition dictFind :: "('k, 'v) dict \<Rightarrow> 'k \<Rightarrow> ('k, 'v) dictEntry ptr option" where
  "dictFind ht k =
     (if ht_size ht = 0 then Some Nullp
      else do {
        c \<leftarrow> chain (table ht) (slot ht k);
        Some (case List.find (\<lambda>he. dictCompareHashKeys ht k (ekey he)) c of
                None \<Rightarrow> Nullp | Some he \<Rightarrow> Ptr he) })"

text \<open>The assignment through the entry pointer that \<open>dictFind\<close> returned.\<close>

fun set_first :: "('e \<Rightarrow> bool) \<Rightarrow> 'e \<Rightarrow> 'e list \<Rightarrow> 'e list" where
  "set_first P e' [] = []"
| "set_first P e' (e # es) = (if P e then e' # es else e # set_first P e' es)"

definition dictReplace :: "allocator \<Rightarrow> ('k, 'v) dict \<Rightarrow> 'k \<Rightarrow> 'v \<Rightarrow> (('k, 'v) dict \<times> int) option" where
  "dictReplace A ht k v = do {
     (ht, rc) \<leftarrow> dictAdd A ht k v;
     (if rc = DICT_OK then Some (ht, 1)
      else do {
        p \<leftarrow> dictFind ht k;
        auxentry \<leftarrow> deref p;
        c \<leftarrow> chain (table ht) (slot ht k);
        let c' = set_first (\<lambda>he. dictCompareHashKeys ht k (ekey he)) (dictSetHashVal ht auxentry v) c;
        Some (dictFreeEntryVal (ht\<lparr>table := (table ht)[slot ht k := c']\<rparr>) auxentry, 0) }) }"

text \<open>The chain walk of \<open>dictDelete\<close>: the entry found and the chain with it unlinked.\<close>

fun unlink :: "('e \<Rightarrow> bool) \<Rightarrow> 'e list \<Rightarrow> ('e \<times> 'e list) option" where
  "unlink P [] = None"
| "unlink P (e # es) =
     (if P e then Some (e, es) else map_option (\<lambda>(d, es'). (d, e # es')) (unlink P es))"

definition dictDelete :: "('k, 'v) dict \<Rightarrow> 'k \<Rightarrow> (('k, 'v) dict \<times> int) option" where
  "dictDelete ht k =
     (if ht_size ht = 0 then Some (ht, DICT_ERR)
      else do {
        c \<leftarrow> chain (table ht) (slot ht k);
        (case unlink (\<lambda>he. dictCompareHashKeys ht k (ekey he)) c of
           None \<Rightarrow> Some (ht, DICT_ERR)
         | Some (de, c') \<Rightarrow>
             (let ht = ht\<lparr>table := (table ht)[slot ht k := c']\<rparr>;
                  ht = dictFreeEntryVal (dictFreeEntryKey ht de) de
              in Some (ht\<lparr>used := usz_of_int (int (used ht) - 1)\<rparr>, DICT_OK))) })"

section \<open>Clearing\<close>

fun clear_chain :: "('k, 'v) dict \<Rightarrow> ('k, 'v) dictEntry list \<Rightarrow> ('k, 'v) dict" where
  "clear_chain ht [] = ht"
| "clear_chain ht (he # next) =
     (let ht = dictFreeEntryVal (dictFreeEntryKey ht he) he
      in clear_chain (ht\<lparr>used := usz_of_int (int (used ht) - 1)\<rparr>) next)"

text \<open>The slots from index \<open>i\<close> on; \<open>n\<close> counts the slots left.\<close>

fun clear_loop :: "('k, 'v) dict \<Rightarrow> nat \<Rightarrow> nat \<Rightarrow> ('k, 'v) dict option" where
  "clear_loop ht i 0 = Some ht"
| "clear_loop ht i (Suc n) =
     (if 0 < used ht then do {
        c \<leftarrow> chain (table ht) i;
        clear_loop (clear_chain ht c) (Suc i) n }
      else Some ht)"

definition dictClear :: "('k, 'v) dict \<Rightarrow> (('k, 'v) dict \<times> int) option" where
  "dictClear ht = do {
     ht \<leftarrow> clear_loop ht 0 (ht_size ht);
     Some (dictReset ht, DICT_OK) }"

text \<open>The block of the dictionary is freed too; what is left is the record of the destructor calls.\<close>

definition dictRelease :: "('k, 'v) dict \<Rightarrow> ('k list \<times> 'v list) option" where
  "dictRelease ht = do { (ht, rc) \<leftarrow> dictClear ht; Some (keyFrees ht, valFrees ht) }"

section \<open>Iteration\<close>

text \<open>
  \<open>entry\<close> and \<open>nextEntry\<close> are the chains that start at the two pointers. The entry that was returned
  may be deleted before the next call: its successor has been saved.
\<close>

record ('k, 'v) dictIterator =
  it_index :: int
  it_entry :: "('k, 'v) dictEntry list"
  nextEntry :: "('k, 'v) dictEntry list"

definition dictGetIterator :: "allocator \<Rightarrow> ('k, 'v) dictIterator option" where
  "dictGetIterator A = (if grant A 32 then Some \<lparr>it_index = -1, it_entry = [], nextEntry = []\<rparr> else None)"

function dictNext :: "('k, 'v) dict \<Rightarrow> ('k, 'v) dictIterator
    \<Rightarrow> (('k, 'v) dictIterator \<times> ('k, 'v) dictEntry ptr) option" where
  "dictNext ht it =
     (if it_entry it = [] then
        (let it = it\<lparr>it_index := it_index it + 1\<rparr> in
         if int32 (int (ht_size ht)) \<le> it_index it then Some (it, Nullp)
         else if it_index it < 0 then None
         else do {
           c \<leftarrow> chain (table ht) (nat (it_index it));
           (case c of
              [] \<Rightarrow> dictNext ht it
            | e # next \<Rightarrow> Some (it\<lparr>it_entry := c, nextEntry := next\<rparr>, Ptr e)) })
      else
        (case nextEntry it of
           [] \<Rightarrow> dictNext ht (it\<lparr>it_entry := []\<rparr>)
         | e # next \<Rightarrow> Some (it\<lparr>it_entry := nextEntry it, nextEntry := next\<rparr>, Ptr e)))"
  by pat_completeness auto
termination
  by (relation "measures [\<lambda>(ht, it). nat (int32 (int (ht_size ht)) - it_index it), \<lambda>(ht, it). length (it_entry it)]")
     auto

declare dictNext.simps [simp del]

end
