(* ===== verification/Dict_Map.thy ===== *)
theory Dict_Map
  imports Dict "HOL-Library.Multiset"
begin

text \<open>
  The hash table implements a finite map. \<open>dict_ok\<close> is its representation invariant, \<open>dict_map\<close> its
  abstraction; every operation keeps the one and acts as the map operation on the other, in spite of
  growth. The laws are collected in the locale \<open>dictionary\<close>, the interface the asynchronous layer uses.
\<close>

section \<open>Invariant and abstraction\<close>

definition type_ok :: "('k, 'v) dictType \<Rightarrow> bool" where
  "type_ok ty \<longleftrightarrow>
     (case keyCompare ty of None \<Rightarrow> True | Some f \<Rightarrow> \<forall>x y. f x y \<longleftrightarrow> x = y) \<and>
     (case keyDup ty of None \<Rightarrow> True | Some f \<Rightarrow> \<forall>x. f x = x) \<and>
     (case valDup ty of None \<Rightarrow> True | Some f \<Rightarrow> \<forall>x. f x = x)"

definition pow2 :: "nat \<Rightarrow> bool" where
  "pow2 n \<longleftrightarrow> (\<exists>k \<le> 31. n = 2 ^ k)"

definition home :: "('k, 'v) dictType \<Rightarrow> nat \<Rightarrow> 'k \<Rightarrow> nat" where
  "home ty n k = unat (hashFunction ty k) mod n"

definition table_ok :: "('k, 'v) dictType \<Rightarrow> ('k, 'v) dictEntry list list \<Rightarrow> bool" where
  "table_ok ty tb \<longleftrightarrow>
     (\<forall>i < length tb. \<forall>e \<in> set (tb ! i). home ty (length tb) (ekey e) = i) \<and>
     distinct (map ekey (concat tb))"

definition dict_ok :: "('k, 'v) dict \<Rightarrow> bool" where
  "dict_ok d \<longleftrightarrow> type_ok (dtype d) \<and> length (table d) = ht_size d \<and>
     (ht_size d = 0 \<and> sizemask d = 0 \<or> pow2 (ht_size d) \<and> sizemask d = ht_size d - 1) \<and>
     table_ok (dtype d) (table d) \<and>
     used d = length (concat (table d)) \<and> used d \<le> ht_size d"

definition entries :: "('k, 'v) dict \<Rightarrow> ('k \<times> 'v) list" where
  "entries d = map (\<lambda>e. (ekey e, eval e)) (concat (table d))"

definition dict_map :: "('k, 'v) dict \<Rightarrow> 'k \<rightharpoonup> 'v" where
  "dict_map d = map_of (entries d)"

lemma pow2_pos [simp]: "pow2 n \<Longrightarrow> 0 < n"
  by (auto simp: pow2_def)

lemma pow2_le: "pow2 n \<Longrightarrow> n \<le> 2 ^ 31"
  by (auto simp: pow2_def intro: power_increasing [of _ 31 2, simplified])

lemma and_mask_pow2:
  assumes "pow2 n"
  shows "(h AND (n - 1)) mod 2 ^ 32 = h mod n"
proof -
  from assms obtain k where k: "k \<le> 31" "n = 2 ^ k" by (auto simp: pow2_def)
  have "h AND (n - 1) = h mod n"
  proof -
    have "h AND (n - 1) = h AND mask k" by (simp only: k mask_eq_exp_minus_1)
    also have "\<dots> = h mod n" by (simp only: k flip: take_bit_eq_mask take_bit_eq_mod)
    finally show ?thesis .
  qed
  moreover have "h mod n < 2 ^ 32"
  proof -
    have "h mod n < n" using k by simp
    then show ?thesis using pow2_le [OF assms] by simp
  qed
  ultimately show ?thesis by simp
qed

lemma slot_home:
  "pow2 (ht_size d) \<Longrightarrow> sizemask d = ht_size d - 1 \<Longrightarrow> slot d k = home (dtype d) (ht_size d) k"
  unfolding slot_def dictHashKey_def home_def by (simp only: and_mask_pow2)

lemma home_less [simp]: "0 < n \<Longrightarrow> home ty n k < n"
  by (simp add: home_def)

lemma compare_eq: "type_ok (dtype d) \<Longrightarrow> dictCompareHashKeys d x y \<longleftrightarrow> x = y"
  by (auto simp: type_ok_def dictCompareHashKeys_def split: option.splits)

lemma set_val: "type_ok (dtype d) \<Longrightarrow> dictSetHashVal d e v = e\<lparr>eval := v\<rparr>"
  by (auto simp: type_ok_def dictSetHashVal_def split: option.splits)

lemma set_key: "type_ok (dtype d) \<Longrightarrow> dictSetHashKey d e k = e\<lparr>ekey := k\<rparr>"
  by (auto simp: type_ok_def dictSetHashKey_def split: option.splits)

section \<open>Tables\<close>

text \<open>Changing one chain of a table, in terms of all its entries.\<close>

lemma concat_update:
  assumes "i < length tb"
  shows "mset (concat (tb[i := c])) + mset (tb ! i) = mset (concat tb) + mset c"
proof -
  have "tb = take i tb @ tb ! i # drop (Suc i) tb" using assms by (rule id_take_nth_drop)
  then have "concat tb = concat (take i tb) @ tb ! i @ concat (drop (Suc i) tb)"
    by (metis concat.simps(2) concat_append)
  moreover have "concat (tb[i := c]) = concat (take i tb) @ c @ concat (drop (Suc i) tb)"
    using assms by (simp add: upd_conv_take_nth_drop)
  ultimately show ?thesis by simp
qed

lemma concat_update_Cons:
  "i < length tb \<Longrightarrow> mset (concat (tb[i := e # tb ! i])) = add_mset e (mset (concat tb))"
  using concat_update [of i tb "e # tb ! i"] by simp

lemma set_concat_nth: "i < length tb \<Longrightarrow> set (tb ! i) \<subseteq> set (concat tb)"
  using nth_mem by fastforce

lemma map_of_mset:
  assumes "distinct (map fst xs)" and "mset xs = mset ys"
  shows "map_of xs = map_of ys"
proof -
  have "distinct (map fst ys)" using assms by (metis mset_eq_imp_distinct_iff mset_map)
  moreover have "set xs = set ys" using assms(2) by (rule mset_eq_setD)
  ultimately show ?thesis using assms(1) by (metis map_of_inject_set)
qed

lemma dict_map_Some:
  assumes "table_ok (dtype d) (table d)"
  shows "dict_map d k = Some v \<longleftrightarrow> (\<exists>e \<in> set (concat (table d)). ekey e = k \<and> eval e = v)"
proof -
  have "distinct (map fst (entries d))"
    using assms by (simp add: entries_def table_ok_def comp_def)
  then show ?thesis by (auto simp: dict_map_def entries_def)
qed

lemma dict_map_None:
  "dict_map d k = None \<longleftrightarrow> (\<forall>e \<in> set (concat (table d)). ekey e \<noteq> k)"
  by (auto simp: dict_map_def entries_def map_of_eq_None_iff image_iff)

text \<open>The entries with a given key all lie in its home chain.\<close>

lemma home_chain:
  assumes "table_ok ty tb" and "e \<in> set (concat tb)"
  shows "home ty (length tb) (ekey e) < length tb \<and> e \<in> set (tb ! home ty (length tb) (ekey e))"
proof -
  from assms(2) obtain i where "i < length tb" "e \<in> set (tb ! i)"
    by (metis (no_types, lifting) UN_E in_set_conv_nth set_concat)
  with assms(1) show ?thesis by (auto simp: table_ok_def)
qed

section \<open>Growth\<close>

lemma next_power_result:
  assumes "2 \<le> k" and "n \<le> 2 ^ m" and "k \<le> m" and "m \<le> 62"
  shows "\<exists>j. k \<le> j \<and> j \<le> m \<and> next_power (2 ^ k) n = Some (2 ^ j) \<and> n \<le> 2 ^ j \<and>
    (j = k \<or> 2 ^ (j - 1) < n)"
  using assms
proof (induction "m - k" arbitrary: k)
  case 0
  then have "m = k" by simp
  with 0 show ?case by (intro exI [of _ k]) (simp add: next_power.simps [of "2 ^ k"])
next
  case (Suc x)
  show ?case
  proof (cases "n \<le> 2 ^ k")
    case True
    with Suc.prems show ?thesis
      by (intro exI [of _ k]) (simp add: next_power.simps [of "2 ^ k"])
  next
    case False
    have k: "Suc k \<le> m" using Suc.hyps(2) by simp
    then have "(2 :: nat) ^ Suc k \<le> 2 ^ 62" using Suc.prems by (intro power_increasing) auto
    then have "usz (2 ^ k * 2) = 2 ^ Suc k" by simp
    then have step: "next_power (2 ^ k) n = next_power (2 ^ Suc k) n"
      using False by (simp add: next_power.simps [of "2 ^ k"])
    have "x = m - Suc k" using Suc.hyps(2) by simp
    from Suc.hyps(1) [OF this] Suc.prems k obtain j where
      "Suc k \<le> j" "j \<le> m" "next_power (2 ^ Suc k) n = Some (2 ^ j)" "n \<le> 2 ^ j"
      "j = Suc k \<or> 2 ^ (j - 1) < n" by auto
    with False show ?thesis
      unfolding step by (intro exI [of _ j]) auto
  qed
qed

lemma dictNextPower_spec:
  assumes "n \<le> 2 ^ 62"
  shows "\<exists>j \<ge> 2. dictNextPower n = Some (2 ^ j) \<and> n \<le> 2 ^ j \<and> (j = 2 \<or> 2 ^ (j - 1) < n)"
  using next_power_result [of 2 n 62] assms
  by (auto simp: dictNextPower_def LONG_MAX_def DICT_HT_INITIAL_SIZE_def)

lemma move_chain_spec:
  assumes n: "pow2 n" "length tb = n"
    and ok: "\<forall>i < n. \<forall>e \<in> set (tb ! i). home (dtype d) n (ekey e) = i"
    and us: "length c \<le> us" "us < 2 ^ 64"
  shows "\<exists>tb'. move_chain d (n - 1) c tb us = Some (tb', us - length c) \<and> length tb' = n \<and>
     mset (concat tb') = mset (concat tb) + mset c \<and>
     (\<forall>i < n. \<forall>e \<in> set (tb' ! i). home (dtype d) n (ekey e) = i)"
  using assms(2-)
proof (induction c arbitrary: tb us)
  case Nil
  then show ?case by simp
next
  case (Cons e c)
  let ?h = "home (dtype d) n (ekey e)"
  let ?tb = "tb[?h := e # tb ! ?h]"
  have h: "(dictHashKey d (ekey e) AND (n - 1)) mod 2 ^ 32 = ?h" "?h < n"
    unfolding and_mask_pow2 [OF n(1)] using n(1) by (simp_all add: dictHashKey_def home_def)
  have u: "usz_of_int (int us - 1) = us - 1" using Cons.prems by (simp add: usz_of_int_id)
  have "\<forall>i < n. \<forall>x \<in> set (?tb ! i). home (dtype d) n (ekey x) = i"
    using Cons.prems h(2) by (auto simp: nth_list_update)
  moreover have "length ?tb = n" "length c \<le> us - 1" "us - 1 < 2 ^ 64" using Cons.prems by auto
  ultimately obtain tb' where tb': "move_chain d (n - 1) c ?tb (us - 1) = Some (tb', us - 1 - length c)"
      "length tb' = n" "mset (concat tb') = mset (concat ?tb) + mset c"
      "\<forall>i < n. \<forall>e \<in> set (tb' ! i). home (dtype d) n (ekey e) = i"
    using Cons.IH [of ?tb "us - 1"] by blast
  have "mset (concat ?tb) = add_mset e (mset (concat tb))"
    using h(2) Cons.prems(1) by (simp add: concat_update_Cons del: mset_concat)
  then have m: "mset (concat tb') = mset (concat tb) + mset (e # c)"
    using tb'(3) by (simp del: mset_concat)
  have run: "move_chain d (n - 1) (e # c) tb us = Some (tb', us - length (e # c))"
    using h Cons.prems(1) tb'(1) by (simp add: chain_def u)
  show ?case using run m tb'(2,4) by blast
qed

lemma expand_loop_spec:
  assumes n: "pow2 n" "length tb = n"
    and d: "length (table d) = ht_size d"
    and ok: "\<forall>i < n. \<forall>e \<in> set (tb ! i). home (dtype d) n (ekey e) = i"
    and us: "us = length (concat (drop i (table d)))" "us < 2 ^ 64"
  shows "\<exists>tb'. expand_loop d (n - 1) i tb us = Some (tb', 0) \<and> length tb' = n \<and>
     mset (concat tb') = mset (concat tb) + mset (concat (drop i (table d))) \<and>
     (\<forall>i < n. \<forall>e \<in> set (tb' ! i). home (dtype d) n (ekey e) = i)"
  using assms(2-)
proof (induction "ht_size d - i" arbitrary: i tb us)
  case 0
  then show ?case by (subst expand_loop.simps) auto
next
  case (Suc x)
  then have i: "i < ht_size d" by simp
  then have dr: "drop i (table d) = table d ! i # drop (Suc i) (table d)"
    using Suc.prems(2) by (simp add: Cons_nth_drop_Suc)
  show ?case
  proof (cases "us = 0")
    case True
    then have "concat (drop i (table d)) = []" using Suc.prems(4) by simp
    then show ?thesis using Suc.prems True by (subst expand_loop.simps) (auto simp del: concat_eq_Nil_conv)
  next
    case False
    have l: "length (table d ! i) \<le> us" using Suc.prems(4) dr by simp
    obtain tb1 where tb1: "move_chain d (n - 1) (table d ! i) tb us = Some (tb1, us - length (table d ! i))"
        "length tb1 = n" "mset (concat tb1) = mset (concat tb) + mset (table d ! i)"
        "\<forall>i < n. \<forall>e \<in> set (tb1 ! i). home (dtype d) n (ekey e) = i"
      using move_chain_spec [OF n(1) Suc.prems(1,3) l Suc.prems(5)] by blast
    have "\<exists>tb'. expand_loop d (n - 1) (Suc i) tb1 (us - length (table d ! i)) = Some (tb', 0) \<and> length tb' = n \<and>
        mset (concat tb') = mset (concat tb1) + mset (concat (drop (Suc i) (table d))) \<and>
        (\<forall>i < n. \<forall>e \<in> set (tb' ! i). home (dtype d) n (ekey e) = i)"
      using Suc.hyps(2) Suc.prems tb1(2,4) dr by (intro Suc.hyps(1)) auto
    then show ?thesis
      using False i tb1(1,3) Suc.prems(2) dr by (subst expand_loop.simps) (auto simp: chain_def)
  qed
qed

lemma dictExpand_spec:
  assumes ok: "dict_ok d" and n: "used d \<le> n" "n \<le> 2 ^ 31" and g: "\<forall>k. grant A k"
  shows "\<exists>d'. dictExpand A d n = Some (d', DICT_OK) \<and> dict_ok d' \<and> n \<le> ht_size d' \<and>
     mset (concat (table d')) = mset (concat (table d)) \<and>
     d' = d\<lparr>table := table d', ht_size := ht_size d', sizemask := sizemask d'\<rparr>"
proof -
  obtain j where j: "2 \<le> j" "dictNextPower n = Some (2 ^ j)" "n \<le> 2 ^ j" "j = 2 \<or> 2 ^ (j - 1) < n"
    using dictNextPower_spec [of n] n(2) by auto
  have "j \<le> 31"
  proof (rule ccontr)
    assume "\<not> j \<le> 31"
    then have "(2 :: nat) ^ 31 \<le> 2 ^ (j - 1)" "j \<noteq> 2" using power_increasing [of 31 "j - 1" "2 :: nat"] by auto
    with j(4) n(2) show False by linarith
  qed
  then have p: "pow2 (2 ^ j)" by (auto simp: pow2_def)
  have us: "used d = length (concat (drop 0 (table d)))" "used d < 2 ^ 64"
    using ok n by (auto simp: dict_ok_def)
  have d: "length (table d) = ht_size d" "table_ok (dtype d) (table d)" using ok by (auto simp: dict_ok_def)
  have empty: "\<forall>i < (2 :: nat) ^ j. \<forall>e \<in> set (replicate (2 ^ j) [] ! i). home (dtype d) (2 ^ j) (ekey e) = i"
    by simp
  obtain tb where tb: "expand_loop d (2 ^ j - 1) 0 (replicate (2 ^ j) []) (used d) = Some (tb, 0)"
      "length tb = 2 ^ j" "mset (concat tb) = mset (concat (table d))"
      "\<forall>i < 2 ^ j. \<forall>e \<in> set (tb ! i). home (dtype d) (2 ^ j) (ekey e) = i"
    using expand_loop_spec [OF p length_replicate d(1) empty us] by auto
  have "distinct (map ekey (concat tb))"
    using d(2) tb(3) by (metis mset_eq_imp_distinct_iff mset_map table_ok_def)
  with tb have "table_ok (dtype d) tb" by (simp add: table_ok_def)
  moreover have "length (concat tb) = used d" using tb(3) us by (metis drop0 mset_eq_length)
  ultimately show ?thesis
    using ok n p j tb g
    by (intro exI [of _ "d\<lparr>table := tb, ht_size := 2 ^ j, sizemask := 2 ^ j - 1\<rparr>"])
       (auto simp: dictExpand_def dict_ok_def)
qed

lemma dictExpandIfNeeded_spec:
  assumes ok: "dict_ok d" and lim: "ht_size d < 2 ^ 31 \<or> used d < ht_size d" and g: "\<forall>k. grant A k"
  shows "\<exists>d'. dictExpandIfNeeded A d = Some (d', DICT_OK) \<and> dict_ok d' \<and> used d' < ht_size d' \<and>
     mset (concat (table d')) = mset (concat (table d)) \<and>
     d' = d\<lparr>table := table d', ht_size := ht_size d', sizemask := sizemask d'\<rparr>"
proof -
  have used_le: "used d \<le> ht_size d" using ok by (simp add: dict_ok_def)
  consider (zero) "ht_size d = 0" | (full) "0 < ht_size d" "used d = ht_size d"
    | (room) "0 < ht_size d" "used d < ht_size d"
    using used_le by linarith
  then show ?thesis
  proof cases
    case zero
    then have "used d = 0" using ok by (simp add: dict_ok_def)
    with zero dictExpand_spec [OF ok _ _ g, of 4] obtain d' where
      "dictExpand A d 4 = Some (d', DICT_OK)" "dict_ok d'" "4 \<le> ht_size d'"
      "mset (concat (table d')) = mset (concat (table d))"
      "d' = d\<lparr>table := table d', ht_size := ht_size d', sizemask := sizemask d'\<rparr>" by auto
    moreover from this(5) have "used d' = used d" by (metis dict.select_convs(5) dict.surjective dict.update_convs(1,3,4))
    ultimately show ?thesis
      using zero \<open>used d = 0\<close> by (simp add: dictExpandIfNeeded_def DICT_HT_INITIAL_SIZE_def)
  next
    case full
    then have "pow2 (ht_size d)" using ok by (auto simp: dict_ok_def)
    then obtain k where k: "k \<le> 31" "ht_size d = 2 ^ k" by (auto simp: pow2_def)
    have "k < 31"
      using lim full k by (cases "k = 31") auto
    then have b: "ht_size d * 2 \<le> 2 ^ 31"
      using k(2) power_increasing [of "Suc k" 31 "2 :: nat"] by simp
    with full dictExpand_spec [OF ok _ _ g, of "ht_size d * 2"] obtain d' where
      "dictExpand A d (ht_size d * 2) = Some (d', DICT_OK)" "dict_ok d'" "ht_size d * 2 \<le> ht_size d'"
      "mset (concat (table d')) = mset (concat (table d))"
      "d' = d\<lparr>table := table d', ht_size := ht_size d', sizemask := sizemask d'\<rparr>" by auto
    moreover from this(5) have "used d' = used d" by (metis dict.select_convs(5) dict.surjective dict.update_convs(1,3,4))
    moreover have "usz (ht_size d * 2) = ht_size d * 2" using b by simp
    ultimately show ?thesis
      using full by (auto simp: dictExpandIfNeeded_def)
  next
    case room
    then show ?thesis using ok by (auto simp: dictExpandIfNeeded_def)
  qed
qed

section \<open>The operations\<close>

lemma dict_map_grown:
  assumes "dict_ok d" and "mset (concat (table d')) = mset (concat (table d))"
  shows "dict_map d' = dict_map d"
proof -
  have "mset (entries d') = mset (entries d)"
    unfolding entries_def using assms(2) by (metis mset_map)
  moreover have "distinct (map fst (entries d))"
    using assms(1) by (simp add: dict_ok_def entries_def table_ok_def comp_def)
  ultimately show ?thesis unfolding dict_map_def using map_of_mset by metis
qed

text \<open>What a non-empty table gives for a key: its chain, and whether the key is in it.\<close>

lemma slot_chain:
  assumes ok: "dict_ok d" and z: "0 < ht_size d"
  shows "slot d k = home (dtype d) (ht_size d) k" and "slot d k < length (table d)"
    and "chain (table d) (slot d k) = Some (table d ! slot d k)"
    and "e \<in> set (concat (table d)) \<Longrightarrow> ekey e = k \<Longrightarrow> e \<in> set (table d ! slot d k)"
proof -
  show s: "slot d k = home (dtype d) (ht_size d) k"
    using ok z by (intro slot_home) (auto simp: dict_ok_def)
  then show l: "slot d k < length (table d)" using ok z by (simp add: dict_ok_def)
  then show "chain (table d) (slot d k) = Some (table d ! slot d k)" by (simp add: chain_def)
  assume "e \<in> set (concat (table d))" "ekey e = k"
  then show "e \<in> set (table d ! slot d k)"
    using home_chain [of "dtype d" "table d" e] ok s by (simp add: dict_ok_def)
qed

lemma chain_lookup:
  assumes ok: "dict_ok d" and z: "0 < ht_size d"
  shows "dict_map d k = map_option eval (List.find (\<lambda>e. ekey e = k) (table d ! slot d k))"
proof -
  have t: "table_ok (dtype d) (table d)" using ok by (simp add: dict_ok_def)
  show ?thesis
  proof (cases "List.find (\<lambda>e. ekey e = k) (table d ! slot d k)")
    case None
    then have "\<forall>e \<in> set (table d ! slot d k). ekey e \<noteq> k" by (simp add: find_None_iff)
    with slot_chain(4) [OF ok z] have "\<forall>e \<in> set (concat (table d)). ekey e \<noteq> k" by blast
    with None show ?thesis by (simp add: dict_map_None)
  next
    case (Some e)
    then have "e \<in> set (table d ! slot d k)" "ekey e = k"
      by (auto simp: find_Some_iff)
    with set_concat_nth [OF slot_chain(2) [OF ok z]] have "dict_map d k = Some (eval e)"
      unfolding dict_map_Some [OF t] by blast
    with Some show ?thesis by simp
  qed
qed

lemma dictFind_spec:
  assumes ok: "dict_ok d"
  shows "\<exists>p. dictFind d k = Some p \<and>
     (case p of Nullp \<Rightarrow> dict_map d k = None
      | Ptr e \<Rightarrow> dict_map d k = Some (eval e) \<and> ekey e = k)"
proof (cases "ht_size d = 0")
  case True
  with ok show ?thesis by (simp add: dictFind_def dict_ok_def dict_map_def entries_def)
next
  case False
  have c: "\<And>x y. dictCompareHashKeys d x y \<longleftrightarrow> x = y" using ok by (simp add: compare_eq dict_ok_def)
  have run: "dictFind d k = Some (case List.find (\<lambda>e. ekey e = k) (table d ! slot d k) of
      None \<Rightarrow> Nullp | Some he \<Rightarrow> Ptr he)"
    using False slot_chain(3) [OF ok, of k] by (simp add: dictFind_def c eq_commute [of k])
  show ?thesis
    unfolding run using False chain_lookup [OF ok, of k]
    by (auto split: option.splits simp: find_Some_iff)
qed

text \<open>Updating one chain keeps the table well formed when its entries stay at home and distinct.\<close>

lemma dict_update_ok:
  assumes ok: "dict_ok d" and i: "i < ht_size d"
    and h: "\<forall>e \<in> set c. home (dtype d) (ht_size d) (ekey e) = i"
    and dist: "distinct (map ekey (concat ((table d)[i := c])))"
    and us: "u = length (concat ((table d)[i := c]))" "u \<le> ht_size d"
  shows "dict_ok (d\<lparr>table := (table d)[i := c], used := u\<rparr>)"
  using assms by (auto simp: dict_ok_def table_ok_def nth_list_update)

lemma dictKeyIndex_spec:
  assumes ok: "dict_ok d" and lim: "used d < 2 ^ 30" and g: "\<forall>n. grant A n"
  shows "\<exists>d' i. dictKeyIndex A d k = Some (d', i) \<and> dict_ok d' \<and> dict_map d' = dict_map d \<and>
     used d' = used d \<and> used d' < ht_size d' \<and>
     dtype d' = dtype d \<and> keyFrees d' = keyFrees d \<and> valFrees d' = valFrees d \<and>
     (if k \<in> dom (dict_map d) then i = -1 else 0 \<le> i \<and> nat i = slot d' k)"
proof -
  have "ht_size d < 2 ^ 31 \<or> used d < ht_size d" using lim by (cases "used d < ht_size d") auto
  from dictExpandIfNeeded_spec [OF ok this g] obtain d' where d':
    "dictExpandIfNeeded A d = Some (d', DICT_OK)" "dict_ok d'" "used d' < ht_size d'"
    "mset (concat (table d')) = mset (concat (table d))"
    "d' = d\<lparr>table := table d', ht_size := ht_size d', sizemask := sizemask d'\<rparr>" by blast
  have m: "dict_map d' = dict_map d" using dict_map_grown [OF ok d'(4)] .
  have z: "0 < ht_size d'" using d'(3) by simp
  have c: "\<And>x y. dictCompareHashKeys d' x y \<longleftrightarrow> x = y" using d'(2) by (simp add: compare_eq dict_ok_def)
  have "slot d' k < ht_size d'" "ht_size d' \<le> 2 ^ 31"
    using slot_chain(2) [OF d'(2) z] d'(2) z by (auto simp: dict_ok_def dest: pow2_le)
  then have i: "int32 (int (slot d' k)) = int (slot d' k)" by (simp add: int32_id)
  have present: "k \<in> dom (dict_map d) \<longleftrightarrow> (\<exists>e \<in> set (table d' ! slot d' k). k = ekey e)"
  proof -
    have "k \<in> dom (dict_map d) \<longleftrightarrow> dict_map d' k \<noteq> None" by (simp add: m domIff)
    also have "\<dots> \<longleftrightarrow> (\<exists>e \<in> set (table d' ! slot d' k). ekey e = k)"
      using chain_lookup [OF d'(2) z, of k] by (auto simp: find_None_iff)
    finally show ?thesis by auto
  qed
  have eqs: "used d' = used d" "dtype d' = dtype d" "keyFrees d' = keyFrees d" "valFrees d' = valFrees d"
    by (subst d'(5), simp)+
  have "dictKeyIndex A d k = Some (d', if k \<in> dom (dict_map d) then -1 else int (slot d' k))"
    unfolding present using d'(1) i slot_chain(3) [OF d'(2) z, of k]
    by (simp add: dictKeyIndex_def DICT_OK_def DICT_ERR_def c)
  then show ?thesis using d'(2,3) m eqs by simp
qed

lemma dictAdd_spec:
  assumes ok: "dict_ok d" and lim: "used d < 2 ^ 30" and g: "\<forall>n. grant A n"
  shows "\<exists>d' rc. dictAdd A d k v = Some (d', rc) \<and> dict_ok d' \<and>
     dtype d' = dtype d \<and> keyFrees d' = keyFrees d \<and> valFrees d' = valFrees d \<and>
     (if k \<in> dom (dict_map d) then rc = DICT_ERR \<and> dict_map d' = dict_map d \<and> used d' = used d
      else rc = DICT_OK \<and> dict_map d' = (dict_map d)(k \<mapsto> v) \<and> used d' = used d + 1)"
proof -
  obtain d' i where d': "dictKeyIndex A d k = Some (d', i)" "dict_ok d'" "dict_map d' = dict_map d"
      "used d' = used d" "used d' < ht_size d'" "dtype d' = dtype d" "keyFrees d' = keyFrees d"
      "valFrees d' = valFrees d"
      "if k \<in> dom (dict_map d) then i = -1 else 0 \<le> i \<and> nat i = slot d' k"
    using dictKeyIndex_spec [OF assms] by blast
  show ?thesis
  proof (cases "k \<in> dom (dict_map d)")
    case True
    with d' show ?thesis by (simp add: dictAdd_def)
  next
    case False
    then have i: "0 \<le> i" "nat i = slot d' k" using d'(9) by simp_all
    define e where "e = \<lparr>ekey = k, eval = v\<rparr>"
    define c where "c = table d' ! slot d' k"
    define d2 where "d2 = d'\<lparr>table := (table d')[slot d' k := e # c], used := used d' + 1\<rparr>"
    have z: "0 < ht_size d'" using d'(5) by simp
    note sc = slot_chain [OF d'(2) z, where k = k]
    have ty: "type_ok (dtype d')" using d'(2) by (simp add: dict_ok_def)
    have "usz (used d' + 1) = used d' + 1" using d'(4) lim by simp
    then have run: "dictAdd A d k v = Some (d2, DICT_OK)"
      using d'(1) i sc(3) g ty by (simp add: dictAdd_def set_val set_key d2_def e_def c_def)
    have ms: "mset (concat (table d2)) = add_mset e (mset (concat (table d')))"
      unfolding d2_def c_def using concat_update_Cons [OF sc(2)] by (simp del: mset_concat)
    have fresh: "\<forall>x \<in> set (concat (table d')). ekey x \<noteq> k"
      using False d'(3) dict_map_None [of d' k] by (auto simp: domIff)
    have ok2: "dict_ok d2"
      unfolding d2_def
    proof (rule dict_update_ok [OF d'(2)])
      show "slot d' k < ht_size d'" using sc(2) d'(2) by (simp add: dict_ok_def)
      show "\<forall>e \<in> set (e # c). home (dtype d') (ht_size d') (ekey e) = slot d' k"
        using sc(1,2) d'(2) by (auto simp: e_def c_def dict_ok_def table_ok_def)
      have "mset (map ekey (concat (table d2))) = mset (map ekey (e # concat (table d')))"
        using ms by (metis mset.simps(2) mset_map)
      moreover have "distinct (map ekey (e # concat (table d')))"
        using fresh d'(2) by (auto simp: e_def dict_ok_def table_ok_def)
      ultimately show "distinct (map ekey (concat ((table d')[slot d' k := e # c])))"
        unfolding d2_def by (metis dict.select_convs(1) dict.surjective dict.update_convs(1,5) mset_eq_imp_distinct_iff)
      have "length (concat (table d2)) = Suc (length (concat (table d')))"
        using ms by (metis mset.simps(2) length_Cons mset_eq_length)
      then show "used d' + 1 = length (concat ((table d')[slot d' k := e # c]))"
        using d'(2) by (simp add: d2_def dict_ok_def)
      show "used d' + 1 \<le> ht_size d'" using d'(5) by simp
    qed
    have "dict_map d2 = (dict_map d')(k \<mapsto> v)"
    proof -
      have "mset (entries d2) = mset ((k, v) # entries d')"
        unfolding entries_def using ms by (metis (no_types, lifting) dictEntry.select_convs e_def list.simps(9) mset.simps(2) mset_map)
      moreover have "distinct (map fst (entries d2))"
        using ok2 by (simp add: dict_ok_def entries_def table_ok_def comp_def)
      ultimately show ?thesis unfolding dict_map_def using map_of_mset by fastforce
    qed
    with False run ok2 d' show ?thesis by (simp add: d2_def)
  qed
qed

lemma dict_map_entries:
  assumes "table_ok (dtype d) (table d)" and "mset (concat (table d)) = mset es"
  shows "dict_map d = map_of (map (\<lambda>e. (ekey e, eval e)) es) \<and> distinct (map ekey es)"
proof
  have "mset (entries d) = mset (map (\<lambda>e. (ekey e, eval e)) es)"
    unfolding entries_def using assms(2) by (metis mset_map)
  moreover have "distinct (map fst (entries d))"
    using assms(1) by (simp add: entries_def table_ok_def comp_def)
  ultimately show "dict_map d = map_of (map (\<lambda>e. (ekey e, eval e)) es)"
    unfolding dict_map_def by (metis map_of_mset)
  show "distinct (map ekey es)"
    using assms by (metis mset_eq_imp_distinct_iff mset_map table_ok_def)
qed

text \<open>The entry at the first place where the comparison succeeds.\<close>

lemma find_first:
  assumes "List.find P c = Some e"
  obtains xs ys where "c = xs @ e # ys" "P e"
    "\<forall>e'. set_first P e' c = xs @ e' # ys" "unlink P c = Some (e, xs @ ys)"
proof -
  have "\<exists>xs ys. c = xs @ e # ys \<and> P e \<and> (\<forall>e'. set_first P e' c = xs @ e' # ys) \<and>
      unlink P c = Some (e, xs @ ys)"
    using assms
  proof (induction c)
    case Nil
    then show ?case by simp
  next
    case (Cons a c)
    show ?case
    proof (cases "P a")
      case True
      with Cons.prems show ?thesis by (intro exI [of _ "[]"] exI [of _ c]) auto
    next
      case False
      with Cons obtain xs ys where "c = xs @ e # ys" "P e" "\<forall>e'. set_first P e' c = xs @ e' # ys"
        "unlink P c = Some (e, xs @ ys)" by auto
      with False show ?thesis by (intro exI [of _ "a # xs"] exI [of _ ys]) auto
    qed
  qed
  then show thesis using that by blast
qed

lemma unlink_None: "unlink P c = None \<longleftrightarrow> (\<forall>e \<in> set c. \<not> P e)"
  by (induction c) (auto split: option.splits)

text \<open>A present key: its entry, its chain around the entry, and the rest of the table.\<close>

lemma present_entry:
  assumes ok: "dict_ok d" and k: "dict_map d k = Some v"
  obtains e xs ys es where "ekey e = k" "eval e = v" "0 < ht_size d" "slot d k < ht_size d"
    "slot d k = home (dtype d) (ht_size d) k"
    "List.find (\<lambda>e. ekey e = k) (table d ! slot d k) = Some e"
    "table d ! slot d k = xs @ e # ys"
    "\<forall>e'. set_first (\<lambda>e. ekey e = k) e' (table d ! slot d k) = xs @ e' # ys"
    "unlink (\<lambda>e. ekey e = k) (table d ! slot d k) = Some (e, xs @ ys)"
    "mset (concat (table d)) = mset (e # es)"
    "\<forall>e'. mset (concat ((table d)[slot d k := xs @ e' # ys])) = mset (e' # es)"
    "mset (concat ((table d)[slot d k := xs @ ys])) = mset es"
proof -
  have z: "0 < ht_size d"
    using ok k by (cases "ht_size d") (auto simp: dict_ok_def dict_map_def entries_def)
  note sc = slot_chain [OF ok z, where k = k]
  obtain e where e: "List.find (\<lambda>e. ekey e = k) (table d ! slot d k) = Some e" "eval e = v"
    using chain_lookup [OF ok z, of k] k that by (cases "List.find (\<lambda>e. ekey e = k) (table d ! slot d k)") auto
  from e(1) obtain xs ys where f: "table d ! slot d k = xs @ e # ys" "ekey e = k"
    "\<forall>e'. set_first (\<lambda>e. ekey e = k) e' (table d ! slot d k) = xs @ e' # ys"
    "unlink (\<lambda>e. ekey e = k) (table d ! slot d k) = Some (e, xs @ ys)"
    by (rule find_first)
  have upd: "mset (concat ((table d)[slot d k := c])) + mset (xs @ e # ys) = mset (concat (table d)) + mset c" for c
    using concat_update [OF sc(2), of c] unfolding f(1) .
  obtain es where es: "mset es = mset (concat ((table d)[slot d k := xs @ ys]))"
    using ex_mset by blast
  have whole: "mset (concat (table d)) = mset (e # es)"
  proof -
    have "mset (concat (table d)) + mset (xs @ ys) = mset (e # es) + mset (xs @ ys)"
      using upd [of "xs @ ys"] unfolding es [symmetric] by (simp del: mset_concat)
    then show ?thesis by (rule add_right_imp_eq)
  qed
  have one: "mset (concat ((table d)[slot d k := xs @ e' # ys])) = mset (e' # es)" for e'
  proof -
    have "mset (concat ((table d)[slot d k := xs @ e' # ys])) + mset (xs @ e # ys) =
        mset (e' # es) + mset (xs @ e # ys)"
      using upd [of "xs @ e' # ys"] unfolding whole by (simp del: mset_concat)
    then show ?thesis by (rule add_right_imp_eq)
  qed
  have "slot d k < ht_size d" using sc(2) ok by (simp add: dict_ok_def)
  with f e z sc(1) whole one es show thesis by (intro that [of e xs ys es]) auto
qed

lemma dictReplace_spec:
  assumes ok: "dict_ok d" and lim: "used d < 2 ^ 30" and g: "\<forall>n. grant A n"
  shows "\<exists>d'. dictReplace A d k v = Some (d', if k \<in> dom (dict_map d) then 0 else 1) \<and> dict_ok d' \<and>
     dtype d' = dtype d \<and> dict_map d' = (dict_map d)(k \<mapsto> v) \<and> keyFrees d' = keyFrees d \<and>
     used d' = used d + (if k \<in> dom (dict_map d) then 0 else 1) \<and>
     valFrees d' = valFrees d @
       (if valDestructor (dtype d) then (case dict_map d k of None \<Rightarrow> [] | Some old \<Rightarrow> [old]) else [])"
proof -
  obtain d1 rc where d1: "dictAdd A d k v = Some (d1, rc)" "dict_ok d1"
      "dtype d1 = dtype d" "keyFrees d1 = keyFrees d" "valFrees d1 = valFrees d"
      "if k \<in> dom (dict_map d) then rc = DICT_ERR \<and> dict_map d1 = dict_map d \<and> used d1 = used d
       else rc = DICT_OK \<and> dict_map d1 = (dict_map d)(k \<mapsto> v) \<and> used d1 = used d + 1"
    using dictAdd_spec [OF assms] by blast
  show ?thesis
  proof (cases "dict_map d k")
    case None
    then have "k \<notin> dom (dict_map d)" by auto
    with d1 None show ?thesis by (simp add: dictReplace_def)
  next
    case (Some old)
    then have dom: "k \<in> dom (dict_map d)" by auto
    with d1(6) have m1: "rc = DICT_ERR" "dict_map d1 = dict_map d" "used d1 = used d" by auto
    with Some have "dict_map d1 k = Some old" by simp
    then obtain e xs ys es where e: "ekey e = k" "eval e = old"
      "0 < ht_size d1" "slot d1 k < ht_size d1" "slot d1 k = home (dtype d1) (ht_size d1) k"
      "List.find (\<lambda>e. ekey e = k) (table d1 ! slot d1 k) = Some e"
      "table d1 ! slot d1 k = xs @ e # ys"
      "\<forall>e'. set_first (\<lambda>e. ekey e = k) e' (table d1 ! slot d1 k) = xs @ e' # ys"
      "unlink (\<lambda>e. ekey e = k) (table d1 ! slot d1 k) = Some (e, xs @ ys)"
      "mset (concat (table d1)) = mset (e # es)"
      "\<forall>e'. mset (concat ((table d1)[slot d1 k := xs @ e' # ys])) = mset (e' # es)"
      "mset (concat ((table d1)[slot d1 k := xs @ ys])) = mset es"
      by (rule present_entry [OF d1(2)])
    define e' where "e' = e\<lparr>eval := v\<rparr>"
    define d2 where "d2 = d1\<lparr>table := (table d1)[slot d1 k := xs @ e' # ys]\<rparr>"
    have ty: "type_ok (dtype d1)" and t1: "table_ok (dtype d1) (table d1)" using d1(2) by (auto simp: dict_ok_def)
    have len: "length (table d1) = ht_size d1" using d1(2) by (simp add: dict_ok_def)
    have cmp: "\<And>x y. dictCompareHashKeys d1 x y \<longleftrightarrow> y = x" using ty by (auto simp: compare_eq)
    have run: "dictReplace A d k v = Some (dictFreeEntryVal d2 e, 0)"
      using d1(1) m1(1) e(3,4,6,8) len ty
      by (simp add: dictReplace_def DICT_OK_def DICT_ERR_def dictFind_def chain_def cmp set_val d2_def e'_def)
    have key': "ekey e' = k" "eval e' = v" by (simp_all add: e'_def e(1))
    have dist: "distinct (map ekey (e # es))" and map1: "dict_map d1 = map_of (map (\<lambda>e. (ekey e, eval e)) (e # es))"
      using dict_map_entries [OF t1 e(10)] by auto
    have ok2: "dict_ok d2"
    proof -
      have "dict_ok (d1\<lparr>table := (table d1)[slot d1 k := xs @ e' # ys], used := used d1\<rparr>)"
      proof (rule dict_update_ok [OF d1(2) e(4)])
        have "\<forall>x \<in> set (xs @ e # ys). home (dtype d1) (ht_size d1) (ekey x) = slot d1 k"
          using t1 e(4) len e(7) by (auto simp: table_ok_def)
        then show "\<forall>x \<in> set (xs @ e' # ys). home (dtype d1) (ht_size d1) (ekey x) = slot d1 k"
          using key'(1) e(1) by auto
        have "distinct (map ekey (e' # es))" using dist key'(1) e(1) by simp
        then show "distinct (map ekey (concat ((table d1)[slot d1 k := xs @ e' # ys])))"
          using e(11) [rule_format, of e'] by (metis mset_eq_imp_distinct_iff mset_map)
        have "length (concat ((table d1)[slot d1 k := xs @ e' # ys])) = length (concat (table d1))"
          using mset_eq_length [OF e(10)] mset_eq_length [OF e(11) [rule_format, of e']] by simp
        then show "used d1 = length (concat ((table d1)[slot d1 k := xs @ e' # ys]))"
          using d1(2) by (simp add: dict_ok_def)
        show "used d1 \<le> ht_size d1" using d1(2) by (simp add: dict_ok_def)
      qed
      then show ?thesis by (simp add: d2_def)
    qed
    have "table_ok (dtype d2) (table d2)" using ok2 by (simp add: dict_ok_def)
    moreover have "mset (concat (table d2)) = mset (e' # es)" unfolding d2_def using e(11) [rule_format, of e'] by simp
    ultimately have "dict_map d2 = map_of (map (\<lambda>e. (ekey e, eval e)) (e' # es))"
      using dict_map_entries by blast
    then have map2: "dict_map d2 = (dict_map d)(k \<mapsto> v)"
      using map1 m1(2) key' e(1) by (simp add: fun_upd_upd)
    have free: "dict_ok (dictFreeEntryVal d2 e)" "dict_map (dictFreeEntryVal d2 e) = dict_map d2"
      using ok2 by (auto simp: dictFreeEntryVal_def dict_ok_def dict_map_def entries_def)
    show ?thesis
      using run free map2 dom Some d1(3,4,5) m1(3) e(2)
      by (auto simp: dictFreeEntryVal_def d2_def)
  qed
qed

lemma dictDelete_spec:
  assumes ok: "dict_ok d"
  shows "\<exists>d'. dictDelete d k = Some (d', if k \<in> dom (dict_map d) then DICT_OK else DICT_ERR) \<and> dict_ok d' \<and>
     dtype d' = dtype d \<and> dict_map d' = (dict_map d)(k := None) \<and>
     used d' = used d - (if k \<in> dom (dict_map d) then 1 else 0) \<and>
     keyFrees d' = keyFrees d @ (if keyDestructor (dtype d) \<and> k \<in> dom (dict_map d) then [k] else []) \<and>
     valFrees d' = valFrees d @
       (if valDestructor (dtype d) then (case dict_map d k of None \<Rightarrow> [] | Some old \<Rightarrow> [old]) else [])"
proof (cases "dict_map d k")
  case None
  then have nd: "k \<notin> dom (dict_map d)" and m: "(dict_map d)(k := None) = dict_map d" by auto
  have "dictDelete d k = Some (d, DICT_ERR)"
  proof (cases "ht_size d = 0")
    case True
    then show ?thesis by (simp add: dictDelete_def)
  next
    case False
    then have z: "0 < ht_size d" by simp
    have cmp: "\<And>x y. dictCompareHashKeys d x y \<longleftrightarrow> y = x" using ok by (auto simp: compare_eq dict_ok_def)
    have "\<forall>e \<in> set (table d ! slot d k). ekey e \<noteq> k"
      using chain_lookup [OF ok z, of k] None by (auto simp: find_None_iff)
    then have "unlink (\<lambda>e. ekey e = k) (table d ! slot d k) = None" by (simp add: unlink_None)
    then show ?thesis using False slot_chain(3) [OF ok z, of k] by (simp add: dictDelete_def cmp)
  qed
  with None nd m ok show ?thesis by simp
next
  case (Some old)
  then have dom: "k \<in> dom (dict_map d)" by auto
  obtain e xs ys es where e: "ekey e = k" "eval e = old"
      "0 < ht_size d" "slot d k < ht_size d" "slot d k = home (dtype d) (ht_size d) k"
      "List.find (\<lambda>e. ekey e = k) (table d ! slot d k) = Some e"
      "table d ! slot d k = xs @ e # ys"
      "\<forall>e'. set_first (\<lambda>e. ekey e = k) e' (table d ! slot d k) = xs @ e' # ys"
      "unlink (\<lambda>e. ekey e = k) (table d ! slot d k) = Some (e, xs @ ys)"
      "mset (concat (table d)) = mset (e # es)"
      "\<forall>e'. mset (concat ((table d)[slot d k := xs @ e' # ys])) = mset (e' # es)"
      "mset (concat ((table d)[slot d k := xs @ ys])) = mset es"
    by (rule present_entry [OF ok Some])
  define d1 where "d1 = d\<lparr>table := (table d)[slot d k := xs @ ys], used := used d - 1\<rparr>"
  have t: "table_ok (dtype d) (table d)" and len: "length (table d) = ht_size d"
    and us: "used d = length (concat (table d))" "used d \<le> ht_size d" "0 < used d"
  proof -
    show "table_ok (dtype d) (table d)" "length (table d) = ht_size d"
      "used d = length (concat (table d))" "used d \<le> ht_size d" using ok by (auto simp: dict_ok_def)
    then show "0 < used d" using mset_eq_length [OF e(10)] by simp
  qed
  have dist: "distinct (map ekey (e # es))" and map1: "dict_map d = map_of (map (\<lambda>e. (ekey e, eval e)) (e # es))"
    using dict_map_entries [OF t e(10)] by auto
  have ok1: "dict_ok d1"
    unfolding d1_def
  proof (rule dict_update_ok [OF ok e(4)])
    show "\<forall>x \<in> set (xs @ ys). home (dtype d) (ht_size d) (ekey x) = slot d k"
      using t e(4) len e(7) by (auto simp: table_ok_def)
    show "distinct (map ekey (concat ((table d)[slot d k := xs @ ys])))"
      using dist e(12) by (metis distinct.simps(2) list.simps(9) mset_eq_imp_distinct_iff mset_map)
    show "used d - 1 = length (concat ((table d)[slot d k := xs @ ys]))"
      using mset_eq_length [OF e(10)] mset_eq_length [OF e(12)] us by simp
    show "used d - 1 \<le> ht_size d" using us by simp
  qed
  have "table_ok (dtype d1) (table d1)" using ok1 by (simp add: dict_ok_def)
  moreover have "mset (concat (table d1)) = mset es" unfolding d1_def using e(12) by simp
  ultimately have "dict_map d1 = map_of (map (\<lambda>e. (ekey e, eval e)) es)"
    using dict_map_entries by blast
  moreover have "map_of (map (\<lambda>e. (ekey e, eval e)) es) k = None"
    using dist e(1) by (auto simp: map_of_eq_None_iff image_iff)
  ultimately have map2: "dict_map d1 = (dict_map d)(k := None)"
    using map1 e(1) by (auto simp: fun_eq_iff)
  define d2 where "d2 = dictFreeEntryVal (dictFreeEntryKey d1 e) e"
  have u: "usz_of_int (int (used d) - 1) = used d - 1"
  proof -
    have "used d < 2 ^ 64" using us(2) e(3) ok pow2_le [of "ht_size d"] by (auto simp: dict_ok_def)
    then show ?thesis using us(3) by (simp add: usz_of_int_id nat_diff_distrib del: length_concat)
  qed
  have cmp: "\<And>x y. dictCompareHashKeys d x y \<longleftrightarrow> y = x" using ok by (auto simp: compare_eq dict_ok_def)
  have run: "dictDelete d k = Some (d2, DICT_OK)"
    using e(3,4,9) len u
    by (simp add: dictDelete_def chain_def cmp d2_def d1_def dictFreeEntryVal_def dictFreeEntryKey_def Let_def)
  have "dict_ok d2" "dict_map d2 = dict_map d1"
    using ok1 by (auto simp: d2_def dictFreeEntryVal_def dictFreeEntryKey_def dict_ok_def dict_map_def entries_def)
  with run map2 dom Some e(1,2) show ?thesis
    by (auto simp: d2_def d1_def dictFreeEntryVal_def dictFreeEntryKey_def)
qed

section \<open>Clearing\<close>

definition freed_by :: "('k, 'v) dict \<Rightarrow> ('k, 'v) dictEntry list \<Rightarrow> ('k, 'v) dict" where
  "freed_by d es = d\<lparr>used := used d - length es,
     keyFrees := keyFrees d @ (if keyDestructor (dtype d) then map ekey es else []),
     valFrees := valFrees d @ (if valDestructor (dtype d) then map eval es else [])\<rparr>"

lemma clear_chain_spec:
  assumes "length c \<le> used d" and "used d < 2 ^ 64"
  shows "clear_chain d c = freed_by d c"
  using assms
proof (induction c arbitrary: d)
  case Nil
  then show ?case by (simp add: freed_by_def)
next
  case (Cons e c)
  have u: "usz_of_int (int (used d) - 1) = used d - 1"
    using Cons.prems by (auto simp: usz_of_int_id nat_diff_distrib)
  show ?case
    using Cons.prems
    by (simp add: dictFreeEntryVal_def dictFreeEntryKey_def Let_def u Cons.IH freed_by_def)
qed

lemma clear_loop_spec:
  assumes "i + n = length (table d)" and "used d = length (concat (drop i (table d)))" and "used d < 2 ^ 64"
  shows "clear_loop d i n = Some (freed_by d (concat (drop i (table d))))"
  using assms
proof (induction n arbitrary: i d)
  case 0
  then show ?case by (simp add: freed_by_def)
next
  case (Suc n)
  then have i: "i < length (table d)" by simp
  then have dr: "drop i (table d) = table d ! i # drop (Suc i) (table d)" by (simp add: Cons_nth_drop_Suc)
  define d1 where "d1 = freed_by d (table d ! i)"
  have t: "table d1 = table d" by (simp add: d1_def freed_by_def)
  show ?case
  proof (cases "used d = 0")
    case True
    then have "concat (drop i (table d)) = []" using Suc.prems(2) by (simp del: length_concat)
    with True show ?thesis by (simp add: freed_by_def del: concat_eq_Nil_conv)
  next
    case False
    have c: "clear_chain d (table d ! i) = d1"
      unfolding d1_def using Suc.prems dr by (intro clear_chain_spec) auto
    have "clear_loop d1 (Suc i) n = Some (freed_by d1 (concat (drop (Suc i) (table d1))))"
      using Suc.prems t dr by (intro Suc.IH) (auto simp: d1_def freed_by_def)
    with False i c show ?thesis by (simp add: chain_def t dr) (simp add: d1_def freed_by_def)
  qed
qed

lemma dictClear_spec:
  assumes ok: "dict_ok d"
  shows "\<exists>d'. dictClear d = Some (d', DICT_OK) \<and> dict_ok d' \<and> dict_map d' = Map.empty \<and>
     dtype d' = dtype d \<and> used d' = 0 \<and>
     keyFrees d' = keyFrees d @ (if keyDestructor (dtype d) then map fst (entries d) else []) \<and>
     valFrees d' = valFrees d @ (if valDestructor (dtype d) then map snd (entries d) else [])"
proof -
  have "used d < 2 ^ 64"
    using ok pow2_le [of "ht_size d"] by (auto simp: dict_ok_def simp del: length_concat)
  then have "clear_loop d 0 (ht_size d) = Some (freed_by d (concat (table d)))"
    using clear_loop_spec [of 0 "ht_size d" d] ok by (simp add: dict_ok_def)
  then show ?thesis
    using ok
    by (auto simp: dictClear_def dictReset_def freed_by_def dict_ok_def table_ok_def dict_map_def entries_def)
qed

section \<open>Iteration\<close>

text \<open>Calling \<open>dictNext\<close> until it reports the end; \<open>fuel\<close> bounds the number of calls.\<close>

fun iterate :: "nat \<Rightarrow> ('k, 'v) dict \<Rightarrow> ('k, 'v) dictIterator \<Rightarrow> ('k, 'v) dictEntry list option" where
  "iterate 0 d it = None"
| "iterate (Suc fuel) d it = do {
     (it, p) \<leftarrow> dictNext d it;
     (case p of Nullp \<Rightarrow> Some []
      | Ptr e \<Rightarrow> do { es \<leftarrow> iterate fuel d it; Some (e # es) }) }"

text \<open>The entries an iterator has not returned yet.\<close>

definition ahead :: "('k, 'v) dict \<Rightarrow> ('k, 'v) dictIterator \<Rightarrow> ('k, 'v) dictEntry list" where
  "ahead d it = (if it_entry it = [] then [] else nextEntry it) @ concat (drop (nat (it_index it + 1)) (table d))"

lemma dictNext_ahead:
  assumes "-1 \<le> it_index it" and "int32 (int (ht_size d)) = int (length (table d))"
  shows "\<exists>it' p. dictNext d it = Some (it', p) \<and> -1 \<le> it_index it' \<and>
     (case p of Nullp \<Rightarrow> ahead d it = [] | Ptr e \<Rightarrow> ahead d it = e # ahead d it')"
  using assms
proof (induction d it rule: dictNext.induct)
  case (1 d it)
  consider (next_slot) "it_entry it = []" | (chain_end) "it_entry it \<noteq> []" "nextEntry it = []"
    | (inside) e es where "it_entry it \<noteq> []" "nextEntry it = e # es"
    by (cases "nextEntry it") auto
  then show ?case
  proof cases
    case next_slot
    let ?i = "it_index it + 1"
    show ?thesis
    proof (cases "int (length (table d)) \<le> ?i")
      case True
      with next_slot "1.prems" show ?thesis
        by (subst dictNext.simps) (auto simp: Let_def ahead_def)
    next
      case False
      with "1.prems" have i: "nat ?i < length (table d)" "0 \<le> ?i" by auto
      then have dr: "drop (nat ?i) (table d) = table d ! nat ?i # drop (nat (?i + 1)) (table d)"
      proof -
        have "nat (?i + 1) = Suc (nat ?i)" using i by (simp add: nat_add_distrib)
        then show ?thesis using i by (simp add: Cons_nth_drop_Suc)
      qed
      have ch: "chain (table d) (nat ?i) = Some (table d ! nat ?i)" using i by (simp add: chain_def)
      show ?thesis
      proof (cases "table d ! nat ?i")
        case Nil
        let ?it = "it\<lparr>it_index := ?i\<rparr>"
        have run: "dictNext d it = dictNext d ?it"
          using next_slot False "1.prems" i ch Nil by (subst dictNext.simps) (simp add: Let_def)
        have same: "ahead d ?it = ahead d it" using next_slot dr Nil by (simp add: ahead_def)
        have "\<exists>it' p. dictNext d ?it = Some (it', p) \<and> -1 \<le> it_index it' \<and>
            (case p of Nullp \<Rightarrow> ahead d ?it = [] | Ptr e \<Rightarrow> ahead d ?it = e # ahead d it')"
          using next_slot False "1.prems" i ch Nil by (intro "1.IH"(1)) auto
        then show ?thesis unfolding run same [symmetric] .
      next
        case (Cons e es)
        then show ?thesis
          using next_slot False "1.prems" i ch dr by (subst dictNext.simps) (simp add: Let_def ahead_def)
      qed
    qed
  next
    case chain_end
    let ?it = "it\<lparr>it_entry := []\<rparr>"
    have run: "dictNext d it = dictNext d ?it" using chain_end by (subst dictNext.simps) simp
    have same: "ahead d ?it = ahead d it" using chain_end by (simp add: ahead_def)
    have "\<exists>it' p. dictNext d ?it = Some (it', p) \<and> -1 \<le> it_index it' \<and>
        (case p of Nullp \<Rightarrow> ahead d ?it = [] | Ptr e \<Rightarrow> ahead d ?it = e # ahead d it')"
      using chain_end "1.prems" by (intro "1.IH"(2)) auto
    then show ?thesis unfolding run same [symmetric] .
  next
    case inside
    then show ?thesis using "1.prems" by (subst dictNext.simps) (auto simp: ahead_def)
  qed
qed

lemma iterate_ahead:
  assumes "-1 \<le> it_index it" and "int32 (int (ht_size d)) = int (length (table d))"
    and "length (ahead d it) < fuel"
  shows "iterate fuel d it = Some (ahead d it)"
  using assms(1,3)
proof (induction fuel arbitrary: it)
  case 0
  then show ?case by simp
next
  case (Suc fuel)
  from dictNext_ahead [OF Suc.prems(1) assms(2)] obtain it' p where
    n: "dictNext d it = Some (it', p)" "-1 \<le> it_index it'"
      "case p of Nullp \<Rightarrow> ahead d it = [] | Ptr e \<Rightarrow> ahead d it = e # ahead d it'" by blast
  show ?case
  proof (cases p)
    case Nullp
    with n show ?thesis by simp
  next
    case (Ptr e)
    with n Suc show ?thesis by simp
  qed
qed

lemma iterate_spec:
  assumes ok: "dict_ok d" and lim: "ht_size d < 2 ^ 31" and g: "\<forall>n. grant A n"
  shows "\<exists>it. dictGetIterator A = Some it \<and>
     iterate (Suc (used d)) d it = Some (concat (table d))"
proof -
  let ?it = "\<lparr>it_index = -1, it_entry = [], nextEntry = []\<rparr> :: ('a, 'b) dictIterator"
  have len: "length (table d) = ht_size d" "used d = length (concat (table d))"
    using ok by (auto simp: dict_ok_def)
  have "int32 (int (ht_size d)) = int (length (table d))" using lim len by (simp add: int32_id)
  moreover have a: "ahead d ?it = concat (table d)" by (simp add: ahead_def)
  ultimately have "iterate (Suc (used d)) d ?it = Some (ahead d ?it)"
    using len by (intro iterate_ahead) auto
  with g a show ?thesis by (simp add: dictGetIterator_def)
qed

section \<open>The interface\<close>

text \<open>
  What a client may rely on: a finite map with lookup, replacing insertion and deletion. \<open>lookup\<close> is
  the map, \<open>count\<close> the number of keys; \<open>store_all\<close> is a client that enters a list of pairs.
\<close>

primrec store_all :: "('d \<Rightarrow> 'k \<Rightarrow> 'v \<Rightarrow> ('d \<times> int) option) \<Rightarrow> 'd \<Rightarrow> ('k \<times> 'v) list \<Rightarrow> 'd option" where
  "store_all replace d [] = Some d"
| "store_all replace d (kv # kvs) = do {
     (d, rc) \<leftarrow> replace d (fst kv) (snd kv); store_all replace d kvs }"

locale dictionary =
  fixes A :: allocator
    and ok :: "'d \<Rightarrow> bool"
    and count :: "'d \<Rightarrow> nat"
    and lookup :: "'d \<Rightarrow> 'k \<rightharpoonup> 'v"
    and find :: "'d \<Rightarrow> 'k \<Rightarrow> 'e ptr option"
    and val :: "'e \<Rightarrow> 'v"
    and replace :: "'d \<Rightarrow> 'k \<Rightarrow> 'v \<Rightarrow> ('d \<times> int) option"
    and delete :: "'d \<Rightarrow> 'k \<Rightarrow> ('d \<times> int) option"
  assumes find_law: "ok d \<Longrightarrow> \<exists>p. find d k = Some p \<and>
      (case p of Nullp \<Rightarrow> lookup d k = None | Ptr e \<Rightarrow> lookup d k = Some (val e))"
    and replace_law: "ok d \<Longrightarrow> count d < 2 ^ 30 \<Longrightarrow> \<forall>n. grant A n \<Longrightarrow>
      \<exists>d' rc. replace d k v = Some (d', rc) \<and> ok d' \<and> lookup d' = (lookup d)(k \<mapsto> v) \<and>
        count d' \<le> count d + 1"
    and delete_law: "ok d \<Longrightarrow> \<exists>d' rc. delete d k = Some (d', rc) \<and> ok d' \<and>
      lookup d' = (lookup d)(k := None) \<and> count d' \<le> count d"
begin

lemma find_total: "ok d \<Longrightarrow> \<exists>p. find d k = Some p \<and> (p = Nullp \<longleftrightarrow> k \<notin> dom (lookup d))"
proof -
  assume "ok d"
  then obtain p where "find d k = Some p" "case p of Nullp \<Rightarrow> lookup d k = None | Ptr e \<Rightarrow> lookup d k = Some (val e)"
    using find_law by blast
  then show ?thesis by (cases p) (auto simp: domIff)
qed

lemma replace_then_find:
  assumes "ok d" and "count d < 2 ^ 30" and "\<forall>n. grant A n"
  shows "\<exists>d' rc e. replace d k v = Some (d', rc) \<and> find d' k = Some (Ptr e) \<and> val e = v \<and>
    (\<forall>k'. k' \<noteq> k \<longrightarrow> lookup d' k' = lookup d k')"
proof -
  from replace_law [OF assms] obtain d' rc where
    d': "replace d k v = Some (d', rc)" "ok d'" "lookup d' = (lookup d)(k \<mapsto> v)" by blast
  from find_law [OF d'(2), of k] obtain p where
    "find d' k = Some p" "case p of Nullp \<Rightarrow> lookup d' k = None | Ptr e \<Rightarrow> lookup d' k = Some (val e)" by blast
  with d' show ?thesis by (cases p) auto
qed

lemma store_all_law:
  assumes "\<forall>n. grant A n" and "ok d" and "count d + length kvs \<le> 2 ^ 30"
  shows "\<exists>d'. store_all replace d kvs = Some d' \<and> ok d' \<and> lookup d' = lookup d ++ map_of (rev kvs) \<and>
    count d' \<le> count d + length kvs"
  using assms(2,3)
proof (induction kvs arbitrary: d)
  case Nil
  then show ?case by simp
next
  case (Cons kv kvs)
  then have "count d < 2 ^ 30" by simp
  from replace_law [OF Cons.prems(1) this assms(1), of "fst kv" "snd kv"] obtain d1 rc where
    d1: "replace d (fst kv) (snd kv) = Some (d1, rc)" "ok d1"
      "lookup d1 = (lookup d)(fst kv \<mapsto> snd kv)" "count d1 \<le> count d + 1" by blast
  with Cons.prems have "count d1 + length kvs \<le> 2 ^ 30" by simp
  from Cons.IH [OF d1(2) this] obtain d' where
    d': "store_all replace d1 kvs = Some d'" "ok d'" "lookup d' = lookup d1 ++ map_of (rev kvs)"
      "count d' \<le> count d1 + length kvs" by blast
  have "lookup d' = lookup d ++ map_of (rev (kv # kvs))"
    unfolding d'(3) d1(3) by (cases kv) (simp add: fun_eq_iff map_add_def split: option.splits)
  with d1 d' show ?case by auto
qed

end

interpretation hashed: dictionary A dict_ok used dict_map dictFind eval "dictReplace A" dictDelete
  for A :: allocator
proof unfold_locales
  fix d :: "('a, 'b) dict" and k :: 'a
  assume ok: "dict_ok d"
  show "\<exists>p. dictFind d k = Some p \<and>
      (case p of Nullp \<Rightarrow> dict_map d k = None | Ptr e \<Rightarrow> dict_map d k = Some (eval e))"
    using dictFind_spec [OF ok, of k] by (auto split: ptr.splits)
  show "\<exists>d' rc. dictDelete d k = Some (d', rc) \<and> dict_ok d' \<and>
      dict_map d' = (dict_map d)(k := None) \<and> used d' \<le> used d"
    using dictDelete_spec [OF ok, of k] by auto
next
  fix d :: "('a, 'b) dict" and k :: 'a and v :: 'b
  assume "dict_ok d" "used d < 2 ^ 30" "\<forall>n. grant A n"
  from dictReplace_spec [OF this, of k v] show "\<exists>d' rc. dictReplace A d k v = Some (d', rc) \<and> dict_ok d' \<and>
      dict_map d' = (dict_map d)(k \<mapsto> v) \<and> used d' \<le> used d + 1"
    by (elim exE conjE) (intro exI conjI, assumption+, simp)
qed

end
