(* ===== verification/Dict_Theorems.thy ===== *)
theory Dict_Theorems
  imports Dict_Map
begin

text \<open>
  The properties of the hash table. Memory is granted where the code uses a block unchecked, and the
  table holds fewer than \<open>2 ^ 30\<close> keys where it may have to grow.
\<close>

section \<open>Concrete tables\<close>

definition demo_type :: "(nat, nat) dictType" where
  "demo_type = \<lparr>hashFunction = of_nat, keyDup = None, valDup = None, keyCompare = None,
     keyDestructor = True, valDestructor = True\<rparr>"

definition demo_empty :: "(nat, nat) dict" where
  "demo_empty = \<lparr>table = [], dtype = demo_type, ht_size = 0, sizemask = 0, used = 0, keyFrees = [], valFrees = []\<rparr>"

definition demo_pair :: "(nat, nat) dict" where
  "demo_pair = \<lparr>table = [[], [\<lparr>ekey = 5, eval = 50\<rparr>, \<lparr>ekey = 1, eval = 10\<rparr>], [], []], dtype = demo_type,
     ht_size = 4, sizemask = 3, used = 2, keyFrees = [], valFrees = []\<rparr>"

lemma demo_empty_facts [simp]: "dict_ok demo_empty" "dict_map demo_empty = Map.empty" "used demo_empty = 0"
  by (simp_all add: demo_empty_def dict_ok_def demo_type_def type_ok_def table_ok_def dict_map_def entries_def)

lemma demo_pair_facts [simp]:
  "dict_ok demo_pair" "dict_map demo_pair = [5 \<mapsto> 50, 1 \<mapsto> 10]" "used demo_pair = 2" "ht_size demo_pair = 4"
  "entries demo_pair = [(5, 50), (1, 10)]" "dtype demo_pair = demo_type" "keyFrees demo_pair = []"
  "valFrees demo_pair = []"
proof -
  have "pow2 4" by (auto simp: pow2_def intro: exI [of _ 2])
  have len: "length (table demo_pair) = 4" by (simp add: demo_pair_def)
  have home: "home demo_type 4 5 = 1" "home demo_type 4 1 = 1" by (simp_all add: home_def demo_type_def)
  have ch: "table demo_pair ! i = (if i = 1 then [\<lparr>ekey = 5, eval = 50\<rparr>, \<lparr>ekey = 1, eval = 10\<rparr>] else [])"
    if "i < 4" for i
  proof -
    from that have "i = 0 \<or> i = 1 \<or> i = 2 \<or> i = 3" by linarith
    then show ?thesis by (auto simp: demo_pair_def)
  qed
  have "table_ok demo_type (table demo_pair)"
    unfolding table_ok_def len by (auto simp: ch home home [unfolded One_nat_def]) (simp add: demo_pair_def)
  moreover have "type_ok demo_type" by (simp add: demo_type_def type_ok_def)
  ultimately show "dict_ok demo_pair"
    using \<open>pow2 4\<close> len by (simp add: dict_ok_def) (simp add: demo_pair_def)
  show "dict_map demo_pair = [5 \<mapsto> 50, 1 \<mapsto> 10]"
    by (auto simp: dict_map_def entries_def demo_pair_def fun_eq_iff)
qed (simp_all add: demo_pair_def entries_def)

section \<open>Properties\<close>

text \<open>
  Lookup: \<open>dictFind\<close> returns the entry of the key, or NULL when the key is absent.
\<close>

theorem dictFind_lookup:
  assumes "dict_ok d"
  shows "\<exists>p. dictFind d k = Some p \<and>
     (case p of Nullp \<Rightarrow> dict_map d k = None
      | Ptr e \<Rightarrow> dict_map d k = Some (eval e) \<and> ekey e = k)"
  using assms by (rule dictFind_spec)

theorem dictFind_lookup_witness: "\<exists>e. dictFind demo_pair 1 = Some (Ptr e) \<and> eval e = 10"
proof -
  obtain p where "dictFind demo_pair 1 = Some p" "case p of Nullp \<Rightarrow> dict_map demo_pair 1 = None
      | Ptr e \<Rightarrow> dict_map demo_pair 1 = Some (eval e) \<and> ekey e = 1"
    using dictFind_lookup [OF demo_pair_facts(1), of 1] by blast
  then show ?thesis by (cases p) auto
qed

text \<open>
  Insertion: \<open>dictAdd\<close> enters a new key, refuses a present one without touching the map, and keeps
  the table well formed through growth.
\<close>

theorem dictAdd_inserts:
  assumes "dict_ok d" and "used d < 2 ^ 30" and "\<forall>n. grant A n"
  shows "\<exists>d' rc. dictAdd A d k v = Some (d', rc) \<and> dict_ok d' \<and>
     (if k \<in> dom (dict_map d) then rc = DICT_ERR \<and> dict_map d' = dict_map d \<and> used d' = used d
      else rc = DICT_OK \<and> dict_map d' = (dict_map d)(k \<mapsto> v) \<and> used d' = used d + 1)"
  using dictAdd_spec [OF assms] by blast

theorem dictAdd_inserts_witness:
  "\<exists>d'. dictAdd generous demo_empty 7 70 = Some (d', DICT_OK) \<and> dict_ok d' \<and> dict_map d' = [7 \<mapsto> 70]"
  using dictAdd_inserts [of demo_empty generous 7 70] by auto

text \<open>
  Replacement: \<open>dictReplace\<close> maps the key to the value, reports 1 for a new key and 0 otherwise,
  and destroys the old value exactly when there was one.
\<close>

theorem dictReplace_updates:
  assumes "dict_ok d" and "used d < 2 ^ 30" and "\<forall>n. grant A n"
  shows "\<exists>d'. dictReplace A d k v = Some (d', if k \<in> dom (dict_map d) then 0 else 1) \<and> dict_ok d' \<and>
     dict_map d' = (dict_map d)(k \<mapsto> v) \<and> keyFrees d' = keyFrees d \<and>
     valFrees d' = valFrees d @
       (if valDestructor (dtype d) then (case dict_map d k of None \<Rightarrow> [] | Some old \<Rightarrow> [old]) else [])"
  using dictReplace_spec [OF assms, of k v] by blast

theorem dictReplace_updates_witness:
  "\<exists>d'. dictReplace generous demo_pair 5 55 = Some (d', 0) \<and> dict_ok d' \<and> dict_map d' = [5 \<mapsto> 55, 1 \<mapsto> 10] \<and>
     valFrees d' = [50]"
  using dictReplace_updates [of demo_pair generous 5 55] by (auto simp: demo_type_def fun_upd_twist)

text \<open>
  Deletion: \<open>dictDelete\<close> removes the key and destroys its key and value once; an absent key
  is reported and changes nothing.
\<close>

theorem dictDelete_removes:
  assumes "dict_ok d"
  shows "\<exists>d'. dictDelete d k = Some (d', if k \<in> dom (dict_map d) then DICT_OK else DICT_ERR) \<and> dict_ok d' \<and>
     dict_map d' = (dict_map d)(k := None) \<and>
     used d' = used d - (if k \<in> dom (dict_map d) then 1 else 0) \<and>
     keyFrees d' = keyFrees d @ (if keyDestructor (dtype d) \<and> k \<in> dom (dict_map d) then [k] else []) \<and>
     valFrees d' = valFrees d @
       (if valDestructor (dtype d) then (case dict_map d k of None \<Rightarrow> [] | Some old \<Rightarrow> [old]) else [])"
  using dictDelete_spec [OF assms, of k] by blast

theorem dictDelete_removes_witness:
  "\<exists>d'. dictDelete demo_pair 1 = Some (d', DICT_OK) \<and> dict_ok d' \<and> dict_map d' = [5 \<mapsto> 50] \<and>
     keyFrees d' = [1] \<and> valFrees d' = [10]"
proof -
  have "([5 \<mapsto> 50, 1 \<mapsto> 10] :: nat \<rightharpoonup> nat)(1 := None) = [5 \<mapsto> 50]" by (auto simp: fun_eq_iff)
  then show ?thesis using dictDelete_removes [of demo_pair 1] by (auto simp: demo_type_def)
qed

text \<open>
  Growth: \<open>dictExpand\<close> moves every entry to its new chain; the new size is a power of two that is
  large enough, the entries are the same and none is lost or duplicated.
\<close>

theorem dictExpand_rehashes:
  assumes "dict_ok d" and "used d \<le> n" and "n \<le> 2 ^ 31" and "\<forall>k. grant A k"
  shows "\<exists>d'. dictExpand A d n = Some (d', DICT_OK) \<and> dict_ok d' \<and> n \<le> ht_size d' \<and>
     mset (concat (table d')) = mset (concat (table d))"
  using dictExpand_spec [OF assms] by blast

theorem dictExpand_rehashes_witness:
  "\<exists>d'. dictExpand generous demo_pair 5 = Some (d', DICT_OK) \<and> dict_ok d' \<and> 5 \<le> ht_size d'"
  using dictExpand_rehashes [of demo_pair 5 generous] by auto

text \<open>
  Clearing: \<open>_dictClear\<close> destroys every key and every value exactly once, in table order, and
  leaves an empty dictionary.
\<close>

theorem dictClear_empties:
  assumes "dict_ok d"
  shows "\<exists>d'. dictClear d = Some (d', DICT_OK) \<and> dict_ok d' \<and> dict_map d' = Map.empty \<and>
     keyFrees d' = keyFrees d @ (if keyDestructor (dtype d) then map fst (entries d) else []) \<and>
     valFrees d' = valFrees d @ (if valDestructor (dtype d) then map snd (entries d) else [])"
  using dictClear_spec [OF assms] by blast

theorem dictClear_empties_witness:
  "\<exists>d'. dictClear demo_pair = Some (d', DICT_OK) \<and> dict_map d' = Map.empty \<and> keyFrees d' = [5, 1] \<and>
     valFrees d' = [50, 10]"
  using dictClear_empties [of demo_pair] by (auto simp: demo_type_def)

text \<open>
  Iteration: a new iterator returns every entry exactly once and then NULL.
\<close>

theorem dictNext_enumerates:
  assumes "dict_ok d" and "ht_size d < 2 ^ 31" and "\<forall>n. grant A n"
  shows "\<exists>it. dictGetIterator A = Some it \<and> iterate (Suc (used d)) d it = Some (concat (table d))"
  using assms by (rule iterate_spec)

theorem dictNext_enumerates_witness:
  "\<exists>it. dictGetIterator generous = Some it \<and>
    iterate 3 demo_pair it = Some [\<lparr>ekey = 5, eval = 50\<rparr>, \<lparr>ekey = 1, eval = 10\<rparr>]"
  using dictNext_enumerates [of demo_pair generous] by (simp add: numeral_3_eq_3) (simp add: demo_pair_def)

text \<open>
  C23. A client that enters a list of pairs with \<open>dictReplace\<close> finds for each key the last value it
  entered; this rests on the interface \<open>dictionary\<close> alone.
\<close>

theorem dict_store_all:
  assumes "\<forall>n. grant A n" and "dict_ok d" and "used d + length kvs \<le> 2 ^ 30"
  shows "\<exists>d'. store_all (dictReplace A) d kvs = Some d' \<and> dict_ok d' \<and>
    dict_map d' = dict_map d ++ map_of (rev kvs)"
  using hashed.store_all_law [OF assms] by blast

theorem dict_store_all_witness:
  "\<exists>d'. store_all (dictReplace generous) demo_empty [(1, 2), (3, 4), (1, 5)] = Some d' \<and>
    dict_map d' = [3 \<mapsto> 4, 1 \<mapsto> 5]"
proof -
  have "map_of (rev [(1, 2), (3, 4), (1, 5)]) = [3 :: nat \<mapsto> 4 :: nat, 1 \<mapsto> 5]" by (auto simp: fun_eq_iff)
  then show ?thesis using dict_store_all [of generous demo_empty "[(1, 2), (3, 4), (1, 5)]"] by auto
qed

end
