(* ===== verification/Reader.thy ===== *)
theory Reader
  imports Sds_Text
begin

text \<open>
  The incremental protocol parser of \<open>read.c\<close> and \<open>read.h\<close>.

  A \<open>void *\<close> is a number, NULL is 0. The functions that build replies are fields of \<open>replyFunctions\<close>
  that may be NULL; what they work on is the \<open>world\<close> of the reader, of an arbitrary type \<open>'h\<close>. A
  function gets the world, the task stack (its task's \<open>parent\<close> pointer is an index into it) and the
  task. A pointer into the read buffer is its offset; a function that gets such a pointer is given
  the bytes from there to the end of the block. \<open>long long\<close> arithmetic wraps.
\<close>

section \<open>Data\<close>

definition REDIS_ERR :: int where "REDIS_ERR = -1"
definition REDIS_OK :: int where "REDIS_OK = 0"

definition REDIS_ERR_IO :: int where "REDIS_ERR_IO = 1"
definition REDIS_ERR_EOF :: int where "REDIS_ERR_EOF = 3"
definition REDIS_ERR_PROTOCOL :: int where "REDIS_ERR_PROTOCOL = 4"
definition REDIS_ERR_OOM :: int where "REDIS_ERR_OOM = 5"
definition REDIS_ERR_OTHER :: int where "REDIS_ERR_OTHER = 2"

definition REDIS_REPLY_STRING :: int where "REDIS_REPLY_STRING = 1"
definition REDIS_REPLY_ARRAY :: int where "REDIS_REPLY_ARRAY = 2"
definition REDIS_REPLY_INTEGER :: int where "REDIS_REPLY_INTEGER = 3"
definition REDIS_REPLY_NIL :: int where "REDIS_REPLY_NIL = 4"
definition REDIS_REPLY_STATUS :: int where "REDIS_REPLY_STATUS = 5"
definition REDIS_REPLY_ERROR :: int where "REDIS_REPLY_ERROR = 6"

definition REDIS_READER_MAX_BUF :: nat where "REDIS_READER_MAX_BUF = 1024 * 16"

lemmas redis_codes =
  REDIS_ERR_def REDIS_OK_def REDIS_ERR_IO_def REDIS_ERR_EOF_def REDIS_ERR_PROTOCOL_def
  REDIS_ERR_OOM_def REDIS_ERR_OTHER_def

lemmas reply_types =
  REDIS_REPLY_STRING_def REDIS_REPLY_ARRAY_def REDIS_REPLY_INTEGER_def REDIS_REPLY_NIL_def
  REDIS_REPLY_STATUS_def REDIS_REPLY_ERROR_def

record redisReadTask =
  ttype :: int
  telements :: int
  idx :: int
  tobj :: nat
  tparent :: "nat ptr"
  tprivdata :: nat

record 'h replyFunctions =
  createString :: "('h \<Rightarrow> redisReadTask list \<Rightarrow> redisReadTask \<Rightarrow> bytes \<Rightarrow> nat \<Rightarrow> ('h \<times> nat) option) ptr"
  createArray :: "('h \<Rightarrow> redisReadTask list \<Rightarrow> redisReadTask \<Rightarrow> int \<Rightarrow> ('h \<times> nat) option) ptr"
  createInteger :: "('h \<Rightarrow> redisReadTask list \<Rightarrow> redisReadTask \<Rightarrow> int \<Rightarrow> ('h \<times> nat) option) ptr"
  createNil :: "('h \<Rightarrow> redisReadTask list \<Rightarrow> redisReadTask \<Rightarrow> ('h \<times> nat) option) ptr"
  freeObject :: "('h \<Rightarrow> nat \<Rightarrow> 'h option) ptr"

record 'h redisReader =
  err :: int
  errstr :: bytes
  rbuf :: "sds ptr"
  pos :: nat
  rlen :: nat
  maxbuf :: nat
  rstack :: "redisReadTask list"
  ridx :: int
  reply :: nat
  fn :: "'h replyFunctions ptr"
  privdata :: nat
  world :: 'h

text \<open>\<open>r->fn && r->fn->f\<close>, for a field \<open>f\<close>.\<close>

definition fn_field :: "('h replyFunctions \<Rightarrow> 'f ptr) \<Rightarrow> 'h redisReader \<Rightarrow> 'f ptr" where
  "fn_field f r = (case fn r of Nullp \<Rightarrow> Nullp | Ptr fs \<Rightarrow> f fs)"

text \<open>Slots of the task stack; an index outside it is a fault.\<close>

definition get_task :: "'h redisReader \<Rightarrow> int \<Rightarrow> redisReadTask option" where
  "get_task r i = (if 0 \<le> i \<and> nat i < length (rstack r) then Some (rstack r ! nat i) else None)"

definition set_task :: "'h redisReader \<Rightarrow> int \<Rightarrow> redisReadTask \<Rightarrow> 'h redisReader option" where
  "set_task r i t =
     (if 0 \<le> i \<and> nat i < length (rstack r) then Some (r\<lparr>rstack := (rstack r)[nat i := t]\<rparr>) else None)"

section \<open>Errors\<close>

text \<open>\<open>freeObject\<close> on the pending reply, when there are both.\<close>

definition free_reply :: "'h redisReader \<Rightarrow> 'h redisReader option" where
  "free_reply r =
     (if reply r \<noteq> 0 then
        (case fn_field freeObject r of
           Nullp \<Rightarrow> Some r
         | Ptr free \<Rightarrow> do { w \<leftarrow> free (world r) (reply r); Some (r\<lparr>world := w, reply := 0\<rparr>) })
      else Some r)"

definition redisReaderSetError :: "'h redisReader \<Rightarrow> int \<Rightarrow> bytes \<Rightarrow> 'h redisReader option" where
  "redisReaderSetError r type str = do {
     r \<leftarrow> free_reply r;
     let r = (case rbuf r of Nullp \<Rightarrow> r | Ptr b \<Rightarrow> r\<lparr>rbuf := Nullp, pos := 0, rlen := 0\<rparr>);
     let len = (if cstrlen str < 128 - 1 then cstrlen str else 128 - 1);
     Some (r\<lparr>ridx := -1, err := type, errstr := take len (cstr str)\<rparr>) }"

text \<open>\<open>snprintf\<close> keeps at most \<open>size - 1\<close> bytes and returns the length of the whole output.\<close>

definition snprintf :: "nat \<Rightarrow> bytes \<Rightarrow> bytes \<times> nat" where
  "snprintf n out = (take (n - 1) out, length out)"

definition chrtos :: "nat \<Rightarrow> char \<Rightarrow> bytes \<times> nat" where
  "chrtos n byte =
     (if byte = BSL \<or> byte = QUOT then snprintf n [QUOT, BSL, byte, QUOT]
      else if byte = LF then snprintf n [QUOT, BSL, CHR ''n'', QUOT]
      else if byte = CR then snprintf n [QUOT, BSL, CHR ''r'', QUOT]
      else if byte = TAB then snprintf n [QUOT, BSL, CHR ''t'', QUOT]
      else if byte = BEL then snprintf n [QUOT, BSL, CHR ''a'', QUOT]
      else if byte = BS then snprintf n [QUOT, BSL, CHR ''b'', QUOT]
      else if isprint byte then snprintf n [QUOT, byte, QUOT]
      else snprintf n (QUOT # hex_escape byte @ [QUOT]))"

definition redisReaderSetErrorProtocolByte :: "'h redisReader \<Rightarrow> char \<Rightarrow> 'h redisReader option" where
  "redisReaderSetErrorProtocolByte r byte =
     (let cbuf = fst (chrtos 8 byte);
          sbuf = fst (snprintf 128 (''Protocol error, got '' @ cbuf @ '' as reply type byte''))
      in redisReaderSetError r REDIS_ERR_PROTOCOL sbuf)"

definition redisReaderSetErrorOOM :: "'h redisReader \<Rightarrow> 'h redisReader option" where
  "redisReaderSetErrorOOM r = redisReaderSetError r REDIS_ERR_OOM ''Out of memory''"

section \<open>Scanning the buffer\<close>

text \<open>The bytes from \<open>r->buf + k\<close> to the end of the block.\<close>

definition at_pos :: "'h redisReader \<Rightarrow> nat \<Rightarrow> bytes option" where
  "at_pos r k = do { b \<leftarrow> deref (rbuf r); (if k \<le> length (buf b) then Some (drop k (buf b)) else None) }"

definition readBytes :: "'h redisReader \<Rightarrow> nat \<Rightarrow> ('h redisReader \<times> nat ptr)" where
  "readBytes r n =
     (if n \<le> usz_of_int (int (rlen r) - int (pos r))
      then (r\<lparr>pos := usz (pos r + n)\<rparr>, Ptr (pos r)) else (r, Nullp))"

function skip_to_cr :: "bytes \<Rightarrow> int \<Rightarrow> int \<Rightarrow> int option" where
  "skip_to_cr s len p =
     (if p < len then do {
        c \<leftarrow> (if p < 0 then None else peek s (nat p));
        (if c \<noteq> CR then skip_to_cr s len (p + 1) else Some p) }
      else Some p)"
  by pat_completeness auto
termination by (relation "measure (\<lambda>(s, len, p). nat (len - p))") auto

declare skip_to_cr.simps [simp del]

lemma skip_to_cr_mono: "skip_to_cr s len p = Some q \<Longrightarrow> p \<le> q"
proof (induction s len p rule: skip_to_cr.induct)
  case (1 s len p)
  from "1.prems" show ?case
    by (subst (asm) skip_to_cr.simps)
       (auto split: if_splits bind_splits dest: "1.IH")
qed

function seek_loop :: "bytes \<Rightarrow> int \<Rightarrow> int \<Rightarrow> nat ptr option" where
  "seek_loop s len p =
     (if p < len then
        (case skip_to_cr s len p of
           None \<Rightarrow> None
         | Some q \<Rightarrow>
             (if q = len then Some Nullp
              else do {
                c \<leftarrow> peek s (nat (q + 1));
                (if c = LF then Some (Ptr (nat q)) else seek_loop s len (q + 1)) }))
      else Some Nullp)"
  by pat_completeness auto
termination
  by (relation "measure (\<lambda>(s, len, p). nat (len - p))") (auto dest: skip_to_cr_mono)

declare seek_loop.simps [simp del]

definition seekNewline :: "bytes \<Rightarrow> nat \<Rightarrow> nat ptr option" where
  "seekNewline s len = seek_loop s (int32 (int len - 1)) 0"

fun long_loop :: "int \<Rightarrow> int \<Rightarrow> bytes \<Rightarrow> int option" where
  "long_loop mult v [] = None"
| "long_loop mult v (c # s) =
     (if c = CR then Some (int64 (mult * v))
      else
        (let dec = sch c - 48 in
         if 0 \<le> dec \<and> dec < 10 then long_loop mult (int64 (int64 (v * 10) + dec)) s else Some (-1)))"

definition readLongLong :: "bytes \<Rightarrow> int option" where
  "readLongLong s = do {
     c \<leftarrow> peek s 0;
     (if c = CHR ''-'' then long_loop (-1) 0 (drop 1 s)
      else if c = CHR ''+'' then long_loop 1 0 (drop 1 s)
      else long_loop 1 0 s) }"

text \<open>The line at the cursor: its offset and its length.\<close>

definition readLine :: "'h redisReader \<Rightarrow> ('h redisReader \<times> (nat \<times> int) ptr) option" where
  "readLine r = do {
     p \<leftarrow> at_pos r (pos r);
     s \<leftarrow> seekNewline p (usz_of_int (int (rlen r) - int (pos r)));
     (case s of
        Nullp \<Rightarrow> Some (r, Nullp)
      | Ptr k \<Rightarrow>
          (let len = int32 (int k)
           in Some (r\<lparr>pos := usz_of_int (int (pos r) + len + 2)\<rparr>, Ptr (pos r, len)))) }"

section \<open>The task stack\<close>

function moveToNextTask :: "'h redisReader \<Rightarrow> 'h redisReader option" where
  "moveToNextTask r =
     (if 0 \<le> ridx r then
        (if ridx r = 0 then Some (r\<lparr>ridx := -1\<rparr>)
         else
           (case (get_task r (ridx r), get_task r (ridx r - 1)) of
              (Some cur, Some prv) \<Rightarrow>
                (if ttype prv \<noteq> REDIS_REPLY_ARRAY then None
                 else if idx cur = int32 (telements prv - 1) then moveToNextTask (r\<lparr>ridx := ridx r - 1\<rparr>)
                 else if idx cur < telements prv
                 then set_task r (ridx r)
                        (cur\<lparr>ttype := -1, telements := -1, idx := int32 (idx cur + 1)\<rparr>)
                 else None)
            | _ \<Rightarrow> None))
      else Some r)"
  by pat_completeness auto
termination by (relation "measure (\<lambda>r. nat (ridx r))") auto

declare moveToNextTask.simps [simp del]

text \<open>
  A call of one of the functions, or the value used when there is none. The value of the argument is
  computed by the call.
\<close>

definition via_fn :: "('h replyFunctions \<Rightarrow> 'f ptr) \<Rightarrow> ('f \<Rightarrow> ('h \<times> nat) option) \<Rightarrow> nat \<Rightarrow> 'h redisReader
    \<Rightarrow> ('h redisReader \<times> nat) option" where
  "via_fn field call dflt r =
     (case fn_field field r of
        Nullp \<Rightarrow> Some (r, dflt)
      | Ptr f \<Rightarrow> do { (w, obj) \<leftarrow> call f; Some (r\<lparr>world := w\<rparr>, obj) })"

definition processLineItem :: "'h redisReader \<Rightarrow> ('h redisReader \<times> int) option" where
  "processLineItem r = do {
     cur \<leftarrow> get_task r (ridx r);
     (r, p) \<leftarrow> readLine r;
     (case p of
        Nullp \<Rightarrow> Some (r, REDIS_ERR)
      | Ptr (p, len) \<Rightarrow> do {
          (r, obj) \<leftarrow>
            (if ttype cur = REDIS_REPLY_INTEGER
             then via_fn createInteger
                    (\<lambda>f. do { s \<leftarrow> at_pos r p; v \<leftarrow> readLongLong s; f (world r) (rstack r) cur v })
                    (nat REDIS_REPLY_INTEGER) r
             else via_fn createString
                    (\<lambda>f. do { s \<leftarrow> at_pos r p; f (world r) (rstack r) cur s (usz_of_int len) })
                    (usz_of_int (ttype cur)) r);
          (if obj = 0 then do { r \<leftarrow> redisReaderSetErrorOOM r; Some (r, REDIS_ERR) }
           else do {
             let r = (if ridx r = 0 then r\<lparr>reply := obj\<rparr> else r);
             r \<leftarrow> moveToNextTask r;
             Some (r, REDIS_OK) }) }) }"

definition processBulkItem :: "'h redisReader \<Rightarrow> ('h redisReader \<times> int) option" where
  "processBulkItem r = do {
     cur \<leftarrow> get_task r (ridx r);
     p \<leftarrow> at_pos r (pos r);
     s \<leftarrow> seekNewline p (usz_of_int (int (rlen r) - int (pos r)));
     (case s of
        Nullp \<Rightarrow> Some (r, REDIS_ERR)
      | Ptr s \<Rightarrow> do {
          let bytelen = usz (s + 2);
          len \<leftarrow> readLongLong p;
          (r, obj, bytelen, success) \<leftarrow>
            (if len < 0 then do {
               (r, obj) \<leftarrow> via_fn createNil (\<lambda>f. f (world r) (rstack r) cur) (nat REDIS_REPLY_NIL) r;
               Some (r, obj, bytelen, True) }
             else
               (let bytelen = usz_of_int (int bytelen + int64 (len + 2)) in
                if usz (pos r + bytelen) \<le> rlen r then do {
                  (r, obj) \<leftarrow> via_fn createString
                     (\<lambda>f. do { t \<leftarrow> at_pos r (pos r + s + 2); f (world r) (rstack r) cur t (usz_of_int len) })
                     (nat REDIS_REPLY_STRING) r;
                  Some (r, obj, bytelen, True) }
                else Some (r, 0, bytelen, False)));
          (if success then
             (if obj = 0 then do { r \<leftarrow> redisReaderSetErrorOOM r; Some (r, REDIS_ERR) }
              else do {
                let r = r\<lparr>pos := usz (pos r + bytelen)\<rparr>;
                let r = (if ridx r = 0 then r\<lparr>reply := obj\<rparr> else r);
                r \<leftarrow> moveToNextTask r;
                Some (r, REDIS_OK) })
           else Some (r, REDIS_ERR)) }) }"

text \<open>Starting on the elements of an array: the next slot of the stack.\<close>

definition push_task :: "'h redisReader \<Rightarrow> redisReadTask \<Rightarrow> int \<Rightarrow> nat \<Rightarrow> 'h redisReader option" where
  "push_task r cur elements obj = do {
     let i = ridx r;
     r \<leftarrow> set_task r i (cur\<lparr>telements := int32 elements, tobj := obj\<rparr>);
     set_task (r\<lparr>ridx := i + 1\<rparr>) (i + 1)
       \<lparr>ttype = -1, telements = -1, idx = 0, tobj = 0, tparent = Ptr (nat i), tprivdata = privdata r\<rparr> }"

definition processMultiBulkItem :: "'h redisReader \<Rightarrow> ('h redisReader \<times> int) option" where
  "processMultiBulkItem r = do {
     cur \<leftarrow> get_task r (ridx r);
     (if ridx r = 8 then do {
        r \<leftarrow> redisReaderSetError r REDIS_ERR_PROTOCOL
               ''No support for nested multi bulk replies with depth > 7'';
        Some (r, REDIS_ERR) }
      else do {
        (r, p) \<leftarrow> readLine r;
        (case p of
           Nullp \<Rightarrow> Some (r, REDIS_ERR)
         | Ptr (p, len) \<Rightarrow> do {
             s \<leftarrow> at_pos r p;
             elements \<leftarrow> readLongLong s;
             let root = (ridx r = 0);
             (r, obj) \<leftarrow>
               (if elements = -1
                then via_fn createNil (\<lambda>f. f (world r) (rstack r) cur) (nat REDIS_REPLY_NIL) r
                else via_fn createArray (\<lambda>f. f (world r) (rstack r) cur (int32 elements))
                       (nat REDIS_REPLY_ARRAY) r);
             (if obj = 0 then do { r \<leftarrow> redisReaderSetErrorOOM r; Some (r, REDIS_ERR) }
              else do {
                r \<leftarrow> (if 0 < elements then push_task r cur elements obj else moveToNextTask r);
                Some (if root then r\<lparr>reply := obj\<rparr> else r, REDIS_OK) }) }) }) }"

definition type_of_byte :: "char \<Rightarrow> int ptr" where
  "type_of_byte c =
     (if c = CHR ''-'' then Ptr REDIS_REPLY_ERROR
      else if c = CHR ''+'' then Ptr REDIS_REPLY_STATUS
      else if c = CHR '':'' then Ptr REDIS_REPLY_INTEGER
      else if c = CHR ''$'' then Ptr REDIS_REPLY_STRING
      else if c = CHR ''*'' then Ptr REDIS_REPLY_ARRAY
      else Nullp)"

definition process_typed :: "'h redisReader \<Rightarrow> int \<Rightarrow> ('h redisReader \<times> int) option" where
  "process_typed r type =
     (if type = REDIS_REPLY_ERROR \<or> type = REDIS_REPLY_STATUS \<or> type = REDIS_REPLY_INTEGER
      then processLineItem r
      else if type = REDIS_REPLY_STRING then processBulkItem r
      else if type = REDIS_REPLY_ARRAY then processMultiBulkItem r
      else None)"

definition processItem :: "'h redisReader \<Rightarrow> ('h redisReader \<times> int) option" where
  "processItem r = do {
     cur \<leftarrow> get_task r (ridx r);
     (if ttype cur < 0 then
        (case readBytes r 1 of
           (r, Nullp) \<Rightarrow> Some (r, REDIS_ERR)
         | (r, Ptr p) \<Rightarrow> do {
             s \<leftarrow> at_pos r p;
             c \<leftarrow> peek s 0;
             (case type_of_byte c of
                Nullp \<Rightarrow> do { r \<leftarrow> redisReaderSetErrorProtocolByte r c; Some (r, REDIS_ERR) }
              | Ptr type \<Rightarrow> do {
                  r \<leftarrow> set_task r (ridx r) (cur\<lparr>ttype := type\<rparr>);
                  process_typed r type }) })
      else process_typed r (ttype cur)) }"

section \<open>The public functions\<close>

text \<open>\<open>calloc\<close> clears the whole structure, the task stack included.\<close>

definition blank_task :: redisReadTask where
  "blank_task = \<lparr>ttype = 0, telements = 0, idx = 0, tobj = 0, tparent = Nullp, tprivdata = 0\<rparr>"

definition redisReaderCreateWithFunctions :: "allocator \<Rightarrow> 'h \<Rightarrow> 'h replyFunctions ptr
    \<Rightarrow> 'h redisReader ptr option" where
  "redisReaderCreateWithFunctions A w f =
     (if \<not> grant A 560 then Some Nullp
      else ptr_bind (sdsempty A) (\<lambda>b.
        Some (Ptr \<lparr>err = 0, errstr = [], rbuf = Ptr b, pos = 0, rlen = 0, maxbuf = REDIS_READER_MAX_BUF,
                   rstack = replicate 9 blank_task, ridx = -1, reply = 0, fn = f, privdata = 0,
                   world = w\<rparr>)))"

text \<open>What is left when the reader and its buffer are gone is the world.\<close>

definition redisReaderFree :: "'h redisReader \<Rightarrow> 'h option" where
  "redisReaderFree r = do { r \<leftarrow> free_reply r; Some (world r) }"

definition redisReaderFeed :: "allocator \<Rightarrow> 'h redisReader \<Rightarrow> bytes ptr \<Rightarrow> nat
    \<Rightarrow> ('h redisReader \<times> int) option" where
  "redisReaderFeed A r b len =
     (if err r \<noteq> 0 then Some (r, REDIS_ERR)
      else
        (case b of
           Nullp \<Rightarrow> Some (r, REDIS_OK)
         | Ptr t \<Rightarrow>
             (if 1 \<le> len then do {
                s \<leftarrow> deref (rbuf r);
                r \<leftarrow> (if rlen r = 0 \<and> maxbuf r \<noteq> 0 \<and> maxbuf r < sdsavail s
                      then do { e \<leftarrow> sdsempty A; e \<leftarrow> deref e; Some (r\<lparr>rbuf := Ptr e, pos := 0\<rparr>) }
                      else Some r);
                s \<leftarrow> deref (rbuf r);
                newbuf \<leftarrow> sdscatlen A s t len;
                (case newbuf of
                   Nullp \<Rightarrow> do { r \<leftarrow> redisReaderSetErrorOOM r; Some (r, REDIS_ERR) }
                 | Ptr nb \<Rightarrow> Some (r\<lparr>rbuf := Ptr nb, rlen := sdslen nb\<rparr>, REDIS_OK)) }
              else Some (r, REDIS_OK))))"

text \<open>The processing loop; a loop that never ended would have the value \<open>None\<close>.\<close>

partial_function (option) process_loop :: "'h redisReader \<Rightarrow> 'h redisReader option" where
  "process_loop r =
     (if 0 \<le> ridx r then do {
        x \<leftarrow> processItem r;
        (if snd x \<noteq> REDIS_OK then Some (fst x) else process_loop (fst x)) }
      else Some r)"

declare process_loop.simps [code]

text \<open>
  The parts of \<open>redisReaderGetReply\<close>: the task of a new reply, and the removal of consumed bytes.
\<close>

definition root_task :: "'h redisReader \<Rightarrow> redisReadTask" where
  "root_task r = \<lparr>ttype = -1, telements = -1, idx = -1, tobj = 0, tparent = Nullp, tprivdata = privdata r\<rparr>"

definition begin_reply :: "'h redisReader \<Rightarrow> 'h redisReader option" where
  "begin_reply r =
     (if ridx r = -1 then do { r \<leftarrow> set_task r 0 (root_task r); Some (r\<lparr>ridx := 0\<rparr>) } else Some r)"

definition discard_consumed :: "'h redisReader \<Rightarrow> 'h redisReader option" where
  "discard_consumed r =
     (if 1024 \<le> pos r then do {
        b \<leftarrow> deref (rbuf r);
        b \<leftarrow> sdsrange b (int32 (int (pos r))) (-1);
        Some (r\<lparr>rbuf := Ptr b, pos := 0, rlen := sdslen b\<rparr>) }
      else Some r)"

text \<open>\<open>want\<close> tells whether the \<open>reply\<close> argument is given; the pointer stored there is returned.\<close>

definition redisReaderGetReply :: "'h redisReader \<Rightarrow> bool \<Rightarrow> ('h redisReader \<times> nat \<times> int) option" where
  "redisReaderGetReply r want =
     (if err r \<noteq> 0 then Some (r, 0, REDIS_ERR)
      else if rlen r = 0 then Some (r, 0, REDIS_OK)
      else do {
        r \<leftarrow> begin_reply r;
        r \<leftarrow> process_loop r;
        (if err r \<noteq> 0 then Some (r, 0, REDIS_ERR)
         else do {
           r \<leftarrow> discard_consumed r;
           (if ridx r = -1 then Some (r\<lparr>reply := 0\<rparr>, if want then reply r else 0, REDIS_OK)
            else Some (r, 0, REDIS_OK)) }) })"

end
