(* ===== verification/Reply.thy ===== *)
theory Reply
  imports Reader
begin

text \<open>
  Reply objects and the default functions that build them (\<open>hiredis.c\<close>): \<open>createReplyObject\<close>,
  \<open>freeReplyObject\<close> and the four constructors the reader calls.

  The reply heap maps the addresses of live \<open>redisReply\<close> structures to their contents; the string
  buffer and the element vector of a reply are stored in it. Every allocation attempt takes the next
  address; \<open>granting\<close> says which attempts (address and size) succeed. An access to an address that is
  not live, and a second free, are faults.
\<close>

record redisReply =
  rtype :: int
  integer :: int
  strlen :: nat
  str :: "bytes ptr"
  elements :: nat
  element :: "nat list ptr"

record rheap =
  objs :: "nat \<rightharpoonup> redisReply"
  nxt :: nat
  granting :: "nat \<Rightarrow> nat \<Rightarrow> bool"

text \<open>One attempt to allocate \<open>n\<close> bytes: the address, or NULL.\<close>

definition halloc_try :: "rheap \<Rightarrow> nat \<Rightarrow> rheap \<times> nat" where
  "halloc_try h n = (h\<lparr>nxt := nxt h + 1\<rparr>, if granting h (nxt h) n then nxt h else 0)"

definition hget :: "rheap \<Rightarrow> nat \<Rightarrow> redisReply option" where
  "hget h a = (if a = 0 then None else objs h a)"

definition hset :: "rheap \<Rightarrow> nat \<Rightarrow> redisReply \<Rightarrow> rheap" where
  "hset h a r = h\<lparr>objs := (objs h)(a \<mapsto> r)\<rparr>"

definition hfree :: "rheap \<Rightarrow> nat \<Rightarrow> rheap option" where
  "hfree h a = do { r \<leftarrow> hget h a; Some (h\<lparr>objs := (objs h)(a := None)\<rparr>) }"

definition createReplyObject :: "rheap \<Rightarrow> int \<Rightarrow> rheap \<times> nat" where
  "createReplyObject h type =
     (let (h, a) = halloc_try h 48 in
      if a = 0 then (h, 0)
      else (hset h a \<lparr>rtype = type, integer = 0, strlen = 0, str = Nullp, elements = 0, element = Nullp\<rparr>, a))"

text \<open>
  \<open>free_list h [a]\<close> is \<open>freeReplyObject\<close> at \<open>a\<close>; \<open>free_list\<close> on a list is the loop over the elements
  of an array.
\<close>

partial_function (option) free_list :: "rheap \<Rightarrow> nat list \<Rightarrow> rheap option" where
  "free_list h as =
     (case as of
        [] \<Rightarrow> Some h
      | a # as' \<Rightarrow>
          (if a = 0 then free_list h as'
           else do {
             r \<leftarrow> hget h a;
             h \<leftarrow> (if rtype r = REDIS_REPLY_ARRAY then
                    (case element r of
                       Nullp \<Rightarrow> Some h
                     | Ptr es \<Rightarrow>
                         (if elements r \<le> length es then free_list h (take (elements r) es) else None))
                  else Some h);
             h \<leftarrow> hfree h a;
             free_list h as' }))"

declare free_list.simps [code]

definition freeReplyObject :: "rheap \<Rightarrow> nat \<Rightarrow> rheap option" where
  "freeReplyObject h a = free_list h [a]"

text \<open>\<open>parent->element[task->idx] = r\<close>, where \<open>parent\<close> is the object of the parent task.\<close>

definition link_parent :: "rheap \<Rightarrow> redisReadTask list \<Rightarrow> redisReadTask \<Rightarrow> nat \<Rightarrow> rheap option" where
  "link_parent h stack task a =
     (case tparent task of
        Nullp \<Rightarrow> Some h
      | Ptr i \<Rightarrow>
          (if length stack \<le> i then None
           else do {
             p \<leftarrow> hget h (tobj (stack ! i));
             es \<leftarrow> (if rtype p = REDIS_REPLY_ARRAY then deref (element p) else None);
             (if 0 \<le> idx task \<and> nat (idx task) < length es
              then Some (hset h (tobj (stack ! i)) (p\<lparr>element := Ptr (es[nat (idx task) := a])\<rparr>))
              else None) }))"

definition createStringObject :: "rheap \<Rightarrow> redisReadTask list \<Rightarrow> redisReadTask \<Rightarrow> bytes \<Rightarrow> nat
    \<Rightarrow> (rheap \<times> nat) option" where
  "createStringObject h stack task s len =
     (let (h, a) = createReplyObject h (ttype task) in
      if a = 0 then Some (h, 0)
      else
        (let (h, b) = halloc_try h (usz (len + 1)) in
         if b = 0 then do { h \<leftarrow> freeReplyObject h a; Some (h, 0) }
         else if ttype task \<noteq> REDIS_REPLY_ERROR \<and> ttype task \<noteq> REDIS_REPLY_STATUS \<and>
                 ttype task \<noteq> REDIS_REPLY_STRING then None
         else do {
           t \<leftarrow> get_bytes s 0 len;
           r \<leftarrow> hget h a;
           let h = hset h a (r\<lparr>str := Ptr (t @ [NUL]), strlen := len\<rparr>);
           h \<leftarrow> link_parent h stack task a;
           Some (h, a) }))"

definition createArrayObject :: "rheap \<Rightarrow> redisReadTask list \<Rightarrow> redisReadTask \<Rightarrow> int
    \<Rightarrow> (rheap \<times> nat) option" where
  "createArrayObject h stack task n =
     (let (h, a) = createReplyObject h REDIS_REPLY_ARRAY in
      if a = 0 then Some (h, 0)
      else do {
        (h, ok) \<leftarrow>
          (if 0 < n then
             (let (h, v) = halloc_try h (usz (nat n * 8)) in
              if v = 0 then do { h \<leftarrow> freeReplyObject h a; Some (h, False) }
              else do {
                r \<leftarrow> hget h a;
                Some (hset h a (r\<lparr>element := Ptr (replicate (nat n) 0)\<rparr>), True) })
           else Some (h, True));
        (if \<not> ok then Some (h, 0)
         else do {
           r \<leftarrow> hget h a;
           let h = hset h a (r\<lparr>elements := usz_of_int n\<rparr>);
           h \<leftarrow> link_parent h stack task a;
           Some (h, a) }) })"

definition createIntegerObject :: "rheap \<Rightarrow> redisReadTask list \<Rightarrow> redisReadTask \<Rightarrow> int
    \<Rightarrow> (rheap \<times> nat) option" where
  "createIntegerObject h stack task v =
     (let (h, a) = createReplyObject h REDIS_REPLY_INTEGER in
      if a = 0 then Some (h, 0)
      else do {
        r \<leftarrow> hget h a;
        let h = hset h a (r\<lparr>integer := v\<rparr>);
        h \<leftarrow> link_parent h stack task a;
        Some (h, a) })"

definition createNilObject :: "rheap \<Rightarrow> redisReadTask list \<Rightarrow> redisReadTask \<Rightarrow> (rheap \<times> nat) option" where
  "createNilObject h stack task =
     (let (h, a) = createReplyObject h REDIS_REPLY_NIL in
      if a = 0 then Some (h, 0)
      else do { h \<leftarrow> link_parent h stack task a; Some (h, a) })"

definition defaultFunctions :: "rheap replyFunctions" where
  "defaultFunctions =
     \<lparr>createString = Ptr createStringObject, createArray = Ptr createArrayObject,
      createInteger = Ptr createIntegerObject, createNil = Ptr createNilObject,
      freeObject = Ptr freeReplyObject\<rparr>"

definition redisReaderCreate :: "allocator \<Rightarrow> rheap \<Rightarrow> rheap redisReader ptr option" where
  "redisReaderCreate A h = redisReaderCreateWithFunctions A h (Ptr defaultFunctions)"

end
