(* ===== verification/Reader_Scan.thy ===== *)
theory Reader_Scan
  imports Reader
begin

text \<open>
  What the scanning functions of the reader compute: \<open>seekNewline\<close> the first line end within its
  bound, \<open>readLongLong\<close> the number that \<open>printf\<close> would have written, modulo the width of
  \<open>long long\<close>; and the view of a reader as the bytes it has not consumed yet.
\<close>

section \<open>Line ends\<close>

definition line_end :: "bytes \<Rightarrow> nat \<Rightarrow> bool" where
  "line_end s i \<longleftrightarrow> Suc i < length s \<and> s ! i = CR \<and> s ! Suc i = LF"

lemma skip_to_cr_spec:
  assumes "0 \<le> p" and "p \<le> len" and "len < int (length s)"
  shows "\<exists>q. skip_to_cr s len p = Some q \<and> p \<le> q \<and> q \<le> len \<and>
    (q < len \<longrightarrow> s ! nat q = CR) \<and> (\<forall>i. nat p \<le> i \<and> i < nat q \<longrightarrow> s ! i \<noteq> CR)"
  using assms
proof (induction s len p rule: skip_to_cr.induct)
  case (1 s len p)
  show ?case
  proof (cases "p < len \<and> s ! nat p \<noteq> CR")
    case True
    then have pk: "peek s (nat p) = Some (s ! nat p)" using 1 by (intro peek_Some) linarith
    then have run: "skip_to_cr s len p = skip_to_cr s len (p + 1)"
      using True 1 by (subst skip_to_cr.simps) simp
    from 1(1) [OF _ _ _ , of "s ! nat p"] True pk 1(2-4) obtain q where
      q: "skip_to_cr s len (p + 1) = Some q" "p + 1 \<le> q" "q \<le> len" "q < len \<longrightarrow> s ! nat q = CR"
        "\<forall>i. nat (p + 1) \<le> i \<and> i < nat q \<longrightarrow> s ! i \<noteq> CR" by auto
    have "s ! i \<noteq> CR" if "nat p \<le> i" "i < nat q" for i
      using that q(5) True 1(2) by (cases "i = nat p") auto
    with run q show ?thesis by auto
  next
    case False
    then show ?thesis
      using 1 by (subst skip_to_cr.simps) (auto simp: peek_def)
  qed
qed

lemma seek_loop_spec:
  assumes "0 \<le> p" and "len < int (length s)"
  shows "\<exists>r. seek_loop s len p = Some r \<and>
    (case r of
       Nullp \<Rightarrow> \<forall>i. nat p \<le> i \<and> int i < len \<longrightarrow> \<not> line_end s i
     | Ptr k \<Rightarrow> nat p \<le> k \<and> int k < len \<and> line_end s k \<and> (\<forall>i. nat p \<le> i \<and> i < k \<longrightarrow> \<not> line_end s i))"
  using assms
proof (induction s len p rule: seek_loop.induct)
  case (1 s len p)
  show ?case
  proof (cases "p < len")
    case False
    then show ?thesis by (subst seek_loop.simps) auto
  next
    case True
    obtain q where q: "skip_to_cr s len p = Some q" "p \<le> q" "q \<le> len" "q < len \<longrightarrow> s ! nat q = CR"
        "\<forall>i. nat p \<le> i \<and> i < nat q \<longrightarrow> s ! i \<noteq> CR"
      using skip_to_cr_spec [of p len s] True "1.prems" by auto
    have before: "\<not> line_end s i" if "nat p \<le> i" "i < nat q" for i
      using that q(5) by (auto simp: line_end_def)
    have sq: "Suc (nat q) = nat (q + 1)" using q(2) "1.prems" by simp
    consider (none) "q = len" | (found) "q < len" "s ! nat (q + 1) = LF"
      | (lone) "q < len" "s ! nat (q + 1) \<noteq> LF" using q(3) by linarith
    then show ?thesis
    proof cases
      case none
      then show ?thesis using True q before by (subst seek_loop.simps) auto
    next
      case found
      then have pk: "peek s (nat (q + 1)) = Some LF" using "1.prems" q(2) by (simp add: peek_def nat_less_iff)
      have "line_end s (nat q)"
        using found q(2,4) "1.prems" unfolding line_end_def sq by (simp add: nat_less_iff)
      with found pk q True before "1.prems" show ?thesis
        by (subst seek_loop.simps) auto
    next
      case lone
      then have pk: "peek s (nat (q + 1)) = Some (s ! nat (q + 1))"
        using "1.prems" q(2) by (simp add: peek_def nat_less_iff)
      have at_q: "\<not> line_end s (nat q)"
        using lone unfolding line_end_def sq by simp
      have run: "seek_loop s len p = seek_loop s len (q + 1)"
        using lone pk q(1) True by (subst seek_loop.simps) simp
      have skip: "\<not> line_end s i" if "nat p \<le> i" "i < nat (q + 1)" for i
        using that before at_q by (cases "i = nat q") auto
      obtain r where r: "seek_loop s len (q + 1) = Some r"
        "case r of
           Nullp \<Rightarrow> \<forall>i. nat (q + 1) \<le> i \<and> int i < len \<longrightarrow> \<not> line_end s i
         | Ptr k \<Rightarrow> nat (q + 1) \<le> k \<and> int k < len \<and> line_end s k \<and>
             (\<forall>i. nat (q + 1) \<le> i \<and> i < k \<longrightarrow> \<not> line_end s i)"
        using "1.IH" [OF True q(1) _ pk] lone q "1.prems" by auto
      show ?thesis
        unfolding run
      proof (intro exI conjI, rule r(1))
        show "case r of
           Nullp \<Rightarrow> \<forall>i. nat p \<le> i \<and> int i < len \<longrightarrow> \<not> line_end s i
         | Ptr k \<Rightarrow> nat p \<le> k \<and> int k < len \<and> line_end s k \<and> (\<forall>i. nat p \<le> i \<and> i < k \<longrightarrow> \<not> line_end s i)"
          using r(2) skip q(2) by (cases r) (auto simp: not_less, (meson not_less)+)
      qed
    qed
  qed
qed

lemma seekNewline_spec:
  assumes "n \<le> length s" and "n \<le> 2 ^ 31"
  shows "\<exists>r. seekNewline s n = Some r \<and>
    (case r of
       Nullp \<Rightarrow> \<forall>i. Suc i < n \<longrightarrow> \<not> line_end s i
     | Ptr k \<Rightarrow> Suc k < n \<and> line_end s k \<and> (\<forall>i < k. \<not> line_end s i))"
proof -
  have "int32 (int n - 1) = int n - 1" using assms by (intro int32_id) auto
  with seek_loop_spec [of 0 "int n - 1" s] assms show ?thesis
    by (auto simp: seekNewline_def split: ptr.splits)
qed

text \<open>The line that the encoder of a reply wrote is the one that is found.\<close>

lemma seekNewline_line:
  assumes "CR \<notin> set l" and "length l + 2 \<le> n" and "n \<le> length (l @ CRLF @ u)" and "n \<le> 2 ^ 31"
  shows "seekNewline (l @ CRLF @ u) n = Some (Ptr (length l))"
proof -
  let ?s = "l @ CRLF @ u"
  have le: "line_end ?s (length l)" by (simp add: line_end_def CRLF_def nth_append)
  have no: "\<not> line_end ?s i" if "i < length l" for i
    using that assms(1) by (auto simp: line_end_def nth_append in_set_conv_nth)
  from seekNewline_spec [OF assms(3,4)] obtain r where r: "seekNewline ?s n = Some r"
    "case r of
       Nullp \<Rightarrow> \<forall>i. Suc i < n \<longrightarrow> \<not> line_end ?s i
     | Ptr k \<Rightarrow> Suc k < n \<and> line_end ?s k \<and> (\<forall>i < k. \<not> line_end ?s i)" by blast
  show ?thesis
  proof (cases r)
    case Nullp
    with r(2) le assms(2) show ?thesis by auto
  next
    case (Ptr k)
    with r(2) have "line_end ?s k" "\<forall>i < k. \<not> line_end ?s i" by auto
    with le no have "k = length l" by (metis linorder_neqE_nat)
    with r(1) Ptr show ?thesis by simp
  qed
qed

section \<open>Numbers\<close>

lemma int64_mod: "int64 x mod 2 ^ 64 = x mod 2 ^ 64"
  unfolding int64_def by (metis (no_types) add_diff_cancel_right' mod_diff_left_eq)

lemma int64_cong: "x mod 2 ^ 64 = y mod 2 ^ 64 \<Longrightarrow> int64 x = int64 y"
  unfolding int64_def by (metis mod_add_left_eq)

lemma int64_mult: "int64 (int64 x * y) = int64 (x * y)"
  by (rule int64_cong) (metis int64_mod mod_mult_left_eq)

lemma int64_mult': "int64 (y * int64 x) = int64 (y * x)"
  by (rule int64_cong) (metis int64_mod mod_mult_right_eq)

lemma int64_add: "int64 (int64 x + y) = int64 (x + y)"
  by (rule int64_cong) (metis int64_mod mod_add_left_eq)

definition digit_val :: "char \<Rightarrow> int" where
  "digit_val c = int (uch c) - 48"

definition digits_val :: "int \<Rightarrow> bytes \<Rightarrow> int" where
  "digits_val = foldl (\<lambda>v c. v * 10 + digit_val c)"

lemma long_loop_digits:
  assumes "\<forall>c \<in> set ds. is_digit c"
  shows "long_loop m (int64 v) (ds @ s) = long_loop m (int64 (digits_val v ds)) s"
  using assms
proof (induction ds arbitrary: v)
  case Nil
  then show ?case by (simp add: digits_val_def)
next
  case (Cons c ds)
  then have d: "48 \<le> uch c" "uch c \<le> 57" by (auto simp: is_digit_def)
  then have "c \<noteq> CR" "sch c - 48 = digit_val c" "0 \<le> digit_val c" "digit_val c < 10"
    by (auto simp: sch_def digit_val_def uch_def)
  then have "long_loop m (int64 v) ((c # ds) @ s) = long_loop m (int64 (v * 10 + digit_val c)) (ds @ s)"
    by (simp add: Let_def int64_mult int64_add)
  with Cons show ?case by (simp add: digits_val_def)
qed

lemma digits_val_dec_nat: "digits_val 0 (dec_nat n) = int n"
proof (induction n rule: dec_nat.induct)
  case (1 n)
  show ?case
  proof (cases "n < 10")
    case True
    then show ?thesis by (subst dec_nat.simps) (simp add: digits_val_def digit_val_def)
  next
    case False
    then have "digits_val 0 (dec_nat n) = digits_val 0 (dec_nat (n div 10)) * 10 + int (n mod 10)"
      by (subst dec_nat.simps) (simp add: digits_val_def digit_val_def)
    also have "\<dots> = int (n div 10) * 10 + int (n mod 10)" using 1 False by simp
    also have "\<dots> = int (n div 10 * 10 + n mod 10)" by (simp only: of_nat_add of_nat_mult of_nat_numeral)
    also have "\<dots> = int n" by (simp only: div_mult_mod_eq)
    finally show ?thesis .
  qed
qed

lemma long_loop_dec_nat: "long_loop m 0 (dec_nat n @ CR # s) = Some (int64 (m * int n))"
proof -
  have z: "(0 :: int) = int64 0" by (simp add: int64_def)
  show ?thesis
    by (subst z, subst long_loop_digits) (auto simp: dec_nat_digits digits_val_dec_nat int64_mult')
qed

lemma dec_nat_Cons: "\<exists>c ds. dec_nat n = c # ds \<and> is_digit c"
  using dec_nat_digits [of _ n] dec_nat_nonempty [of n] by (cases "dec_nat n") auto

lemma readLongLong_dec_nat: "readLongLong (dec_nat n @ CR # s) = Some (int64 (int n))"
proof -
  obtain c ds where c: "dec_nat n = c # ds" "is_digit c" using dec_nat_Cons by blast
  then have "c \<noteq> CHR ''-''" "c \<noteq> CHR ''+''" by (auto simp: is_digit_def uch_def)
  with c long_loop_dec_nat [of 1 n s] show ?thesis by (simp add: readLongLong_def peek_def)
qed

lemma readLongLong_dec_int: "readLongLong (dec_int i @ CR # s) = Some (int64 i)"
proof (cases "i < 0")
  case True
  then show ?thesis
    using long_loop_dec_nat [of "-1" "nat (- i)" s] by (simp add: dec_int_def readLongLong_def peek_def)
next
  case False
  then show ?thesis using readLongLong_dec_nat [of "nat i"] by (simp add: dec_int_def)
qed

lemma readLongLong_minus_one: "readLongLong (''-1'' @ CR # s) = Some (-1)"
proof -
  have "dec_int (-1) = ''-1''" by code_simp
  with readLongLong_dec_int [of "-1" s] show ?thesis by (simp add: int64_def)
qed

lemma CR_notin_dec_nat: "CR \<notin> set (dec_nat n)"
  using dec_nat_digits [of CR n] by (auto simp: is_digit_def uch_def)

lemma CR_notin_dec_int: "CR \<notin> set (dec_int i)"
  by (simp add: dec_int_def CR_notin_dec_nat)

section \<open>The unread part of the buffer\<close>

definition content :: "'h redisReader \<Rightarrow> bytes" where
  "content r = (case rbuf r of Nullp \<Rightarrow> [] | Ptr b \<Rightarrow> sds_content b)"

definition slack :: "'h redisReader \<Rightarrow> bytes" where
  "slack r = (case rbuf r of Nullp \<Rightarrow> [] | Ptr b \<Rightarrow> drop (sdslen b) (buf b))"

definition unread :: "'h redisReader \<Rightarrow> bytes" where
  "unread r = drop (pos r) (content r)"

definition reader_ok :: "'h redisReader \<Rightarrow> bool" where
  "reader_ok r \<longleftrightarrow> err r = 0 \<and> (\<exists>b. rbuf r = Ptr b \<and> sds_ok b \<and> rlen r = sdslen b) \<and>
     pos r \<le> rlen r \<and> rlen r < 2 ^ 31 - 1 \<and> length (rstack r) = 9"

lemma reader_okE:
  assumes "reader_ok r"
  obtains b where "rbuf r = Ptr b" "sds_ok b" "rlen r = sdslen b" "content r = sds_content b"
    "buf b = content r @ slack r" "length (content r) = rlen r" "pos r \<le> rlen r" "rlen r < 2 ^ 31 - 1"
    "length (unread r) = rlen r - pos r"
proof -
  from assms obtain b where b: "rbuf r = Ptr b" "sds_ok b" "rlen r = sdslen b" by (auto simp: reader_ok_def)
  moreover from b have "length (content r) = rlen r"
    by (simp add: content_def length_sds_content sds_ok_wf)
  moreover from b have "buf b = content r @ slack r"
    by (simp add: content_def slack_def sds_content_def)
  ultimately show thesis using assms by (intro that [of b]) (auto simp: content_def unread_def reader_ok_def)
qed

lemma at_pos_unread:
  assumes "reader_ok r" and "k \<le> length (unread r)"
  shows "at_pos r (pos r + k) = Some (drop k (unread r) @ slack r)"
proof -
  from assms(1) obtain b where b: "rbuf r = Ptr b" "buf b = content r @ slack r"
    "length (content r) = rlen r" "pos r \<le> rlen r" "length (unread r) = rlen r - pos r"
    by (rule reader_okE)
  with assms(2) have "pos r + k \<le> length (content r)" by simp
  with b show ?thesis by (simp add: at_pos_def unread_def add.commute)
qed

lemma left_unread:
  assumes "reader_ok r"
  shows "usz_of_int (int (rlen r) - int (pos r)) = length (unread r)" and "length (unread r) < 2 ^ 31"
proof -
  from assms obtain b where "pos r \<le> rlen r" "rlen r < 2 ^ 31 - 1" "length (unread r) = rlen r - pos r"
    by (rule reader_okE)
  then show "usz_of_int (int (rlen r) - int (pos r)) = length (unread r)" "length (unread r) < 2 ^ 31"
    by (auto simp: usz_of_int_id nat_diff_distrib)
qed

text \<open>Advancing the cursor.\<close>

definition advance :: "'h redisReader \<Rightarrow> nat \<Rightarrow> 'h redisReader" where
  "advance r n = r\<lparr>pos := pos r + n\<rparr>"

lemma reader_ok_advance:
  assumes "reader_ok r" and "n \<le> length (unread r)"
  shows "reader_ok (advance r n)" and "unread (advance r n) = drop n (unread r)"
    and "slack (advance r n) = slack r" and "pos r + n < 2 ^ 31"
proof -
  from assms(1) obtain b where "pos r \<le> rlen r" "length (unread r) = rlen r - pos r" "rlen r < 2 ^ 31 - 1"
    by (rule reader_okE)
  with assms show "reader_ok (advance r n)" "unread (advance r n) = drop n (unread r)"
    "slack (advance r n) = slack r" "pos r + n < 2 ^ 31"
    by (auto simp: reader_ok_def advance_def unread_def content_def slack_def add.commute)
qed

lemma readBytes_one:
  assumes "reader_ok r" and "unread r = c # u"
  shows "readBytes r 1 = (advance r 1, Ptr (pos r))" and "at_pos r (pos r) = Some (c # u @ slack r)"
proof -
  have "1 \<le> length (unread r)" using assms(2) by simp
  with left_unread [OF assms(1)] reader_ok_advance(4) [OF assms(1) this]
  show "readBytes r 1 = (advance r 1, Ptr (pos r))" by (simp add: readBytes_def advance_def)
  show "at_pos r (pos r) = Some (c # u @ slack r)"
    using at_pos_unread [OF assms(1), of 0] assms(2) by simp
qed

lemma readBytes_none:
  assumes "reader_ok r" and "unread r = []"
  shows "readBytes r 1 = (r, Nullp)"
  using left_unread [OF assms(1)] assms(2) by (simp add: readBytes_def)

lemma readLine_line:
  assumes ok: "reader_ok r" and u: "unread r = l @ CRLF @ u" and l: "CR \<notin> set l"
  shows "readLine r = Some (advance r (length l + 2), Ptr (pos r, int (length l)))"
proof -
  have n: "length l + 2 \<le> length (unread r)" by (simp add: u CRLF_def)
  note ad = reader_ok_advance(4) [OF ok n]
  have "seekNewline (l @ CRLF @ (u @ slack r)) (length (unread r)) = Some (Ptr (length l))"
    by (rule seekNewline_line) (use l n left_unread(2) [OF ok] in \<open>auto simp: u CRLF_def\<close>)
  then have "seekNewline (unread r @ slack r) (length (unread r)) = Some (Ptr (length l))"
    by (simp add: u)
  moreover have "at_pos r (pos r) = Some (unread r @ slack r)"
    using at_pos_unread [OF ok, of 0] by simp
  moreover have "int32 (int (length l)) = int (length l)" using ad by (simp add: int32_id)
  moreover have "usz_of_int (int (pos r) + int (length l) + 2) = pos r + (length l + 2)"
    using ad by (simp add: usz_of_int_def nat_mod_as_int nat_int_add flip: of_nat_add)
  ultimately show ?thesis
    using left_unread(1) [OF ok] by (simp add: readLine_def advance_def Let_def)
qed

end
