(* ===== verification/Reply_Layout.thy ===== *)
theory Reply_Layout
  imports Reply Reader_Scan
begin

text \<open>
  Protocol values, their wire form, and the reply objects the default functions build for them. When
  every allocation is granted the objects of a value occupy an interval of addresses in the order of
  the wire form: \<open>ticks\<close> is the length of the interval, \<open>place\<close> the heap with the objects in it.
\<close>

section \<open>Values and their wire form\<close>

datatype rvalue =
    VInt int
  | VNil
  | VStr bytes
  | VStatus bytes
  | VError bytes
  | VArr "rvalue list"

fun encode :: "rvalue \<Rightarrow> bytes" where
  "encode (VInt i) = CHR '':'' # dec_int i @ CRLF"
| "encode VNil = CHR ''$'' # ''-1'' @ CRLF"
| "encode (VStr t) = CHR ''$'' # dec_nat (length t) @ CRLF @ t @ CRLF"
| "encode (VStatus t) = CHR ''+'' # t @ CRLF"
| "encode (VError t) = CHR ''-'' # t @ CRLF"
| "encode (VArr vs) = CHR ''*'' # dec_nat (length vs) @ CRLF @ concat (map encode vs)"

text \<open>What the protocol can carry: lines without CR, numbers in range, arrays nested at most 8 deep.\<close>

fun value_ok :: "nat \<Rightarrow> rvalue \<Rightarrow> bool" where
  "value_ok d (VInt i) \<longleftrightarrow> - (2 ^ 63) \<le> i \<and> i < 2 ^ 63"
| "value_ok d VNil \<longleftrightarrow> True"
| "value_ok d (VStr t) \<longleftrightarrow> True"
| "value_ok d (VStatus t) \<longleftrightarrow> CR \<notin> set t"
| "value_ok d (VError t) \<longleftrightarrow> CR \<notin> set t"
| "value_ok d (VArr vs) \<longleftrightarrow> d < 8 \<and> length vs < 2 ^ 31 \<and> (\<forall>v \<in> set vs. value_ok (Suc d) v)"

lemma length_encode: "3 \<le> length (encode v)"
  by (cases v) (auto simp: CRLF_def dec_int_def)

section \<open>Objects\<close>

definition blank_reply :: "int \<Rightarrow> redisReply" where
  "blank_reply type = \<lparr>rtype = type, integer = 0, strlen = 0, str = Nullp, elements = 0, element = Nullp\<rparr>"

definition str_reply :: "int \<Rightarrow> bytes \<Rightarrow> redisReply" where
  "str_reply type t = (blank_reply type)\<lparr>str := Ptr (t @ [NUL]), strlen := length t\<rparr>"

definition int_reply :: "int \<Rightarrow> redisReply" where
  "int_reply i = (blank_reply REDIS_REPLY_INTEGER)\<lparr>integer := i\<rparr>"

definition arr_reply :: "nat \<Rightarrow> nat list ptr \<Rightarrow> redisReply" where
  "arr_reply n es = (blank_reply REDIS_REPLY_ARRAY)\<lparr>elements := n, element := es\<rparr>"

fun ticks :: "rvalue \<Rightarrow> nat" where
  "ticks (VInt i) = 1"
| "ticks VNil = 1"
| "ticks (VStr t) = 2"
| "ticks (VStatus t) = 2"
| "ticks (VError t) = 2"
| "ticks (VArr vs) = (if vs = [] then 1 else 2 + sum_list (map ticks vs))"

text \<open>The addresses of consecutive values.\<close>

fun addrs :: "nat \<Rightarrow> rvalue list \<Rightarrow> nat list" where
  "addrs a [] = []"
| "addrs a (v # vs) = a # addrs (a + ticks v) vs"

fun place :: "nat \<Rightarrow> rvalue \<Rightarrow> (nat \<rightharpoonup> redisReply) \<Rightarrow> (nat \<rightharpoonup> redisReply)"
and place_all :: "nat \<Rightarrow> rvalue list \<Rightarrow> (nat \<rightharpoonup> redisReply) \<Rightarrow> (nat \<rightharpoonup> redisReply)" where
  "place a (VInt i) m = m(a \<mapsto> int_reply i)"
| "place a VNil m = m(a \<mapsto> blank_reply REDIS_REPLY_NIL)"
| "place a (VStr t) m = m(a \<mapsto> str_reply REDIS_REPLY_STRING t)"
| "place a (VStatus t) m = m(a \<mapsto> str_reply REDIS_REPLY_STATUS t)"
| "place a (VError t) m = m(a \<mapsto> str_reply REDIS_REPLY_ERROR t)"
| "place a (VArr vs) m =
     (if vs = [] then m(a \<mapsto> arr_reply 0 Nullp)
      else place_all (a + 2) vs (m(a \<mapsto> arr_reply (length vs) (Ptr (addrs (a + 2) vs)))))"
| "place_all a [] m = m"
| "place_all a (v # vs) m = place_all (a + ticks v) vs (place a v m)"

lemma ticks_pos [simp]: "0 < ticks v"
  by (cases v) auto

lemma length_addrs [simp]: "length (addrs a vs) = length vs"
  by (induction vs arbitrary: a) auto

lemma addrs_append: "addrs a (us @ vs) = addrs a us @ addrs (a + sum_list (map ticks us)) vs"
  by (induction us arbitrary: a) (auto simp: add.assoc)

lemma addrs_bounds: "b \<in> set (addrs a vs) \<Longrightarrow> a \<le> b \<and> b < a + sum_list (map ticks vs)"
proof (induction vs arbitrary: a)
  case Nil
  then show ?case by simp
next
  case (Cons v vs)
  have "0 < ticks v" by simp
  with Cons.prems Cons.IH [of "a + ticks v"] show ?case by auto
qed

lemma place_all_append:
  "place_all a (us @ vs) m = place_all (a + sum_list (map ticks us)) vs (place_all a us m)"
  by (induction us arbitrary: a m) (auto simp: add.assoc)

text \<open>The objects of a value lie in its interval; other addresses are untouched.\<close>

lemma place_outside:
  "b < a \<or> a + ticks v \<le> b \<Longrightarrow> place a v m b = m b"
  "b < a \<or> a + sum_list (map ticks vs) \<le> b \<Longrightarrow> place_all a vs m b = m b"
proof (induction a v m and a vs m rule: place_place_all.induct)
  case (6 a vs m)
  show ?case
  proof (cases "vs = []")
    case True
    with 6 show ?thesis by auto
  next
    case False
    have ne: "b \<noteq> a" and out: "b < a + 2 \<or> a + 2 + sum_list (map ticks vs) \<le> b"
      using "6.prems" False by auto
    have "place_all (a + 2) vs (m(a \<mapsto> arr_reply (length vs) (Ptr (addrs (a + 2) vs)))) b =
        (m(a \<mapsto> arr_reply (length vs) (Ptr (addrs (a + 2) vs)))) b"
      by (rule "6.IH" [OF False out])
    with ne False show ?thesis by (simp only: place.simps if_False fun_upd_apply)
  qed
next
  case (8 a v vs m)
  then show ?case by auto
qed auto

text \<open>A write outside the interval commutes with placing.\<close>

lemma place_commute:
  "b < a \<Longrightarrow> place a v (m(b := x)) = (place a v m)(b := x)"
  "b < a \<Longrightarrow> place_all a vs (m(b := x)) = (place_all a vs m)(b := x)"
  by (induction a v m and a vs m rule: place_place_all.induct) (auto simp: fun_upd_twist)

lemma place_root: "\<exists>r. place a v m a = Some r \<and>
  (\<forall>es. element r = Ptr es \<longrightarrow> elements r = length es) "
  by (cases v) (auto simp: place_outside(2) int_reply_def blank_reply_def str_reply_def arr_reply_def)

section \<open>Freeing what was placed\<close>

text \<open>
  Freeing gives back exactly the objects of the value. \<open>cleared\<close> removes an interval from a heap.
\<close>

definition cleared :: "nat \<Rightarrow> nat \<Rightarrow> (nat \<rightharpoonup> redisReply) \<Rightarrow> (nat \<rightharpoonup> redisReply)" where
  "cleared a n m = (\<lambda>b. if a \<le> b \<and> b < a + n then None else m b)"

lemma cleared_small:
  "cleared a 0 m = m"
  "cleared a (Suc 0) m = m(a := None)"
  "m (Suc a) = None \<Longrightarrow> cleared a 2 m = m(a := None)"
  by (auto simp: cleared_def fun_eq_iff less_Suc_eq numeral_2_eq_2)

lemma cleared_join: "cleared (a + i) j (cleared a i m) = cleared a (i + j) m"
  by (auto simp: cleared_def fun_eq_iff)

text \<open>\<open>live m a v\<close>: the heap holds the objects of \<open>v\<close> at \<open>a\<close>, and nothing else in the interval.\<close>

fun live :: "(nat \<rightharpoonup> redisReply) \<Rightarrow> nat \<Rightarrow> rvalue \<Rightarrow> bool"
and live_all :: "(nat \<rightharpoonup> redisReply) \<Rightarrow> nat \<Rightarrow> rvalue list \<Rightarrow> bool" where
  "live m a (VInt i) \<longleftrightarrow> m a = Some (int_reply i)"
| "live m a VNil \<longleftrightarrow> m a = Some (blank_reply REDIS_REPLY_NIL)"
| "live m a (VStr t) \<longleftrightarrow> m a = Some (str_reply REDIS_REPLY_STRING t) \<and> m (a + 1) = None"
| "live m a (VStatus t) \<longleftrightarrow> m a = Some (str_reply REDIS_REPLY_STATUS t) \<and> m (a + 1) = None"
| "live m a (VError t) \<longleftrightarrow> m a = Some (str_reply REDIS_REPLY_ERROR t) \<and> m (a + 1) = None"
| "live m a (VArr vs) \<longleftrightarrow>
     (if vs = [] then m a = Some (arr_reply 0 Nullp)
      else m a = Some (arr_reply (length vs) (Ptr (addrs (a + 2) vs))) \<and> m (a + 1) = None \<and>
           live_all m (a + 2) vs)"
| "live_all m a [] \<longleftrightarrow> True"
| "live_all m a (v # vs) \<longleftrightarrow> live m a v \<and> live_all m (a + ticks v) vs"

lemma live_cong:
  "(\<And>b. a \<le> b \<Longrightarrow> b < a + ticks v \<Longrightarrow> m b = m' b) \<Longrightarrow> live m a v \<longleftrightarrow> live m' a v"
  "(\<And>b. a \<le> b \<Longrightarrow> b < a + sum_list (map ticks vs) \<Longrightarrow> m b = m' b) \<Longrightarrow> live_all m a vs \<longleftrightarrow> live_all m' a vs"
  by (induction m a v and m a vs rule: live_live_all.induct) auto

lemma live_place:
  "(\<And>b. a \<le> b \<Longrightarrow> m b = None) \<Longrightarrow> live (place a v m) a v"
  "(\<And>b. a \<le> b \<Longrightarrow> m b = None) \<Longrightarrow> live_all (place_all a vs m) a vs"
proof (induction a v m and a vs m rule: place_place_all.induct)
  case (6 a vs m)
  show ?case
  proof (cases "vs = []")
    case False
    let ?m = "m(a \<mapsto> arr_reply (length vs) (Ptr (addrs (a + 2) vs)))"
    have "live_all (place_all (a + 2) vs ?m) (a + 2) vs"
      by (rule "6.IH" [OF False]) (use "6.prems" in simp)
    moreover have "place_all (a + 2) vs ?m a = ?m a" "place_all (a + 2) vs ?m (a + 1) = ?m (a + 1)"
      by (simp_all add: place_outside(2))
    ultimately show ?thesis using 6 False by simp
  qed simp
next
  case (8 a v vs m)
  have "live_all (place_all (a + ticks v) vs (place a v m)) (a + ticks v) vs"
    using 8 by (intro "8.IH"(2)) (simp add: place_outside(1))
  moreover have "live (place_all (a + ticks v) vs (place a v m)) a v \<longleftrightarrow> live (place a v m) a v"
    by (rule live_cong) (simp add: place_outside(2))
  ultimately show ?case using 8 by simp
qed auto

lemma free_list_append:
  "free_list h (as @ bs) = do { h \<leftarrow> free_list h as; free_list h bs }"
proof (induction as arbitrary: h)
  case Nil
  then show ?case by (simp add: free_list.simps [of h "[]"])
next
  case (Cons a as)
  then show ?case
    by (simp add: free_list.simps [of h "a # _"] cong: option.case_cong ptr.case_cong Option.bind_cong)
qed

lemma free_list_one: "0 < a \<Longrightarrow> objs h a = Some r \<Longrightarrow> rtype r \<noteq> REDIS_REPLY_ARRAY \<or> element r = Nullp \<Longrightarrow>
   free_list h [a] = Some (h\<lparr>objs := (objs h)(a := None)\<rparr>)"
  by (subst free_list.simps) (auto simp: hget_def hfree_def free_list.simps [of _ "[]"])

lemma free_list_Nil [simp]: "free_list h [] = Some h"
  by (simp add: free_list.simps [of h "[]"])

lemma free_list_all:
  assumes "\<And>v a h. v \<in> set vs \<Longrightarrow> 0 < a \<Longrightarrow> live (objs h) a v \<Longrightarrow>
      free_list h [a] = Some (h\<lparr>objs := cleared a (ticks v) (objs h)\<rparr>)"
    and "0 < a" and "live_all (objs h) a vs"
  shows "free_list h (addrs a vs) = Some (h\<lparr>objs := cleared a (sum_list (map ticks vs)) (objs h)\<rparr>)"
  using assms
proof (induction vs arbitrary: a h)
  case Nil
  then show ?case by (simp add: cleared_small)
next
  case (Cons v vs)
  let ?h = "h\<lparr>objs := cleared a (ticks v) (objs h)\<rparr>"
  have one: "free_list h [a] = Some ?h"
    by (rule Cons.prems(1)) (use Cons.prems(2,3) in simp_all)
  have "live_all (objs ?h) (a + ticks v) vs"
    using Cons.prems(3) live_cong(2) [of "a + ticks v" vs "objs ?h" "objs h"] by (simp add: cleared_def)
  note lv = this
  have free_vs: "\<And>u b k. u \<in> set vs \<Longrightarrow> 0 < b \<Longrightarrow> live (objs k) b u \<Longrightarrow>
      free_list k [b] = Some (k\<lparr>objs := cleared b (ticks u) (objs k)\<rparr>)"
    by (rule Cons.prems(1)) simp_all
  have pos: "0 < a + ticks v" using Cons.prems(2) by simp
  have rest: "free_list ?h (addrs (a + ticks v) vs) =
      Some (?h\<lparr>objs := cleared (a + ticks v) (sum_list (map ticks vs)) (objs ?h)\<rparr>)"
    by (rule Cons.IH [OF _ pos lv]) (rule free_vs)
  have "free_list h (addrs a (v # vs)) = do { h \<leftarrow> free_list h [a]; free_list h (addrs (a + ticks v) vs) }"
    using free_list_append [of h "[a]" "addrs (a + ticks v) vs"] by (simp only: append.simps addrs.simps)
  then show ?case
    unfolding one bind.bind_lunit rest by (simp add: cleared_join)
qed

lemma free_list_live:
  "0 < a \<Longrightarrow> live (objs h) a v \<Longrightarrow> free_list h [a] = Some (h\<lparr>objs := cleared a (ticks v) (objs h)\<rparr>)"
proof (induction v arbitrary: a h)
  case (VArr vs)
  show ?case
  proof (cases "vs = []")
    case True
    with VArr.prems show ?thesis
      by (subst free_list_one) (auto simp: arr_reply_def blank_reply_def cleared_small)
  next
    case False
    let ?n = "sum_list (map ticks vs)"
    let ?h = "h\<lparr>objs := cleared (a + 2) ?n (objs h)\<rparr>"
    have l: "objs h a = Some (arr_reply (length vs) (Ptr (addrs (a + 2) vs)))" "objs h (a + 1) = None"
      "live_all (objs h) (a + 2) vs" using VArr.prems False by auto
    have kids: "free_list h (addrs (a + 2) vs) = Some ?h"
      by (rule free_list_all) (use VArr l(3) in auto)
    have "objs ?h a = objs h a" by (simp add: cleared_def)
    then have "free_list h [a] = Some (?h\<lparr>objs := (objs ?h)(a := None)\<rparr>)"
      using VArr.prems(1) l(1) kids
      by (subst free_list.simps) (simp add: hget_def hfree_def arr_reply_def blank_reply_def)
    moreover have "(objs ?h)(a := None) = cleared a (ticks (VArr vs)) (objs h)"
      using l(2) False by (auto simp: cleared_def fun_eq_iff le_Suc_eq not_less_eq_eq)
    ultimately show ?thesis by simp
  qed
qed (auto simp: free_list_one int_reply_def blank_reply_def str_reply_def cleared_small reply_types)

lemma cleared_place:
  assumes "\<And>b. a \<le> b \<Longrightarrow> m b = None"
  shows "cleared a (ticks v) (place a v m) = m"
  using assms by (auto simp: cleared_def fun_eq_iff place_outside(1))

lemma freeReplyObject_placed:
  assumes "0 < a" and "\<And>b. a \<le> b \<Longrightarrow> objs h b = None"
  shows "freeReplyObject (h\<lparr>objs := place a v (objs h)\<rparr>) a = Some h"
proof -
  have "live (objs (h\<lparr>objs := place a v (objs h)\<rparr>)) a v" using live_place(1) assms(2) by simp
  from free_list_live [OF assms(1) this] show ?thesis
    using cleared_place [of a "objs h" v] assms(2) by (simp add: freeReplyObject_def)
qed

end
