(* ===== verification/Reader_Parse.thy ===== *)
theory Reader_Parse
  imports Reply_Layout
begin

text \<open>
  The reader builds from the wire form of a value exactly the objects of that value: one item at a
  time, with its address stored into the element vector of the array it belongs to.
\<close>

section \<open>The constructors when memory is granted\<close>

definition heap_ready :: "rheap \<Rightarrow> bool" where
  "heap_ready h \<longleftrightarrow> 0 < nxt h \<and> (\<forall>n s. granting h n s)"

lemma rheap_upd_swap [simp]: "h\<lparr>nxt := n, objs := m\<rparr> = h\<lparr>objs := m, nxt := n\<rparr>"
  by simp

text \<open>The task has no parent, or its parent holds an array with a slot for it.\<close>

definition link_ok :: "rheap \<Rightarrow> redisReadTask list \<Rightarrow> redisReadTask \<Rightarrow> bool" where
  "link_ok h st t \<longleftrightarrow>
     (\<forall>i. tparent t = Ptr i \<longrightarrow> i < length st \<and> 0 < tobj (st ! i) \<and> tobj (st ! i) < nxt h \<and>
        (\<exists>p es. objs h (tobj (st ! i)) = Some p \<and> rtype p = REDIS_REPLY_ARRAY \<and> element p = Ptr es \<and>
           0 \<le> idx t \<and> nat (idx t) < length es))"

definition link :: "redisReadTask list \<Rightarrow> redisReadTask \<Rightarrow> nat \<Rightarrow> (nat \<rightharpoonup> redisReply) \<Rightarrow> (nat \<rightharpoonup> redisReply)" where
  "link st t a m =
     (case tparent t of
        Nullp \<Rightarrow> m
      | Ptr i \<Rightarrow>
          (case m (tobj (st ! i)) of
             None \<Rightarrow> m
           | Some p \<Rightarrow>
               (case element p of
                  Nullp \<Rightarrow> m
                | Ptr es \<Rightarrow> m(tobj (st ! i) \<mapsto> p\<lparr>element := Ptr (es[nat (idx t) := a])\<rparr>))))"

lemma link_parent_ok:
  assumes "link_ok h st t" and "nxt h \<le> a"
  shows "link_parent (h\<lparr>objs := (objs h)(a \<mapsto> r), nxt := n\<rparr>) st t a =
    Some (h\<lparr>objs := (link st t a (objs h))(a \<mapsto> r), nxt := n\<rparr>)"
proof (cases "tparent t")
  case Nullp
  then show ?thesis by (simp add: link_parent_def link_def)
next
  case (Ptr i)
  with assms(1) obtain p es where p: "i < length st" "0 < tobj (st ! i)" "tobj (st ! i) < nxt h"
    "objs h (tobj (st ! i)) = Some p" "rtype p = REDIS_REPLY_ARRAY" "element p = Ptr es"
    "0 \<le> idx t" "nat (idx t) < length es"
    by (auto simp: link_ok_def)
  then have "tobj (st ! i) \<noteq> a" using assms(2) by simp
  with Ptr p show ?thesis
    by (simp add: link_parent_def link_def hget_def hset_def fun_upd_twist)
qed

lemma link_cong: "tparent t = tparent t' \<Longrightarrow> idx t = idx t' \<Longrightarrow>
    (\<forall>i. tparent t = Ptr i \<longrightarrow> tobj (st ! i) = tobj (st' ! i)) \<Longrightarrow> link st t a m = link st' t' a m"
  by (cases "tparent t'") (simp_all add: link_def cong: option.case_cong ptr.case_cong)

lemma link_ok_cong: "tparent t = tparent t' \<Longrightarrow> idx t = idx t' \<Longrightarrow> length st = length st' \<Longrightarrow>
    (\<forall>i. tparent t = Ptr i \<longrightarrow> tobj (st ! i) = tobj (st' ! i)) \<Longrightarrow> link_ok h st t \<longleftrightarrow> link_ok h st' t'"
  by (simp add: link_ok_def)

lemma createReplyObject_granted:
  assumes "heap_ready h"
  shows "createReplyObject h type = (h\<lparr>objs := (objs h)(nxt h \<mapsto> blank_reply type), nxt := nxt h + 1\<rparr>, nxt h)"
  using assms
  by (simp add: createReplyObject_def halloc_try_def heap_ready_def hset_def blank_reply_def)

lemma createIntegerObject_granted:
  assumes h: "heap_ready h" and l: "link_ok h st t"
  shows "createIntegerObject h st t v =
    Some (h\<lparr>objs := place (nxt h) (VInt v) (link st t (nxt h) (objs h)), nxt := nxt h + 1\<rparr>, nxt h)"
proof -
  have "0 < nxt h" using h by (simp add: heap_ready_def)
  then show ?thesis
    using link_parent_ok [OF l order_refl, where r = "int_reply v" and n = "nxt h + 1"]
    by (simp add: createIntegerObject_def createReplyObject_granted [OF h] hget_def hset_def int_reply_def)
qed

lemma createNilObject_granted:
  assumes h: "heap_ready h" and l: "link_ok h st t"
  shows "createNilObject h st t =
    Some (h\<lparr>objs := place (nxt h) VNil (link st t (nxt h) (objs h)), nxt := nxt h + 1\<rparr>, nxt h)"
proof -
  have "0 < nxt h" using h by (simp add: heap_ready_def)
  then show ?thesis
    using link_parent_ok [OF l order_refl, where r = "blank_reply REDIS_REPLY_NIL" and n = "nxt h + 1"]
    by (simp add: createNilObject_def createReplyObject_granted [OF h])
qed

lemma createStringObject_granted:
  assumes h: "heap_ready h" and l: "link_ok h st t"
    and ty: "ttype t \<in> {REDIS_REPLY_ERROR, REDIS_REPLY_STATUS, REDIS_REPLY_STRING}"
    and n: "n \<le> length s"
  shows "createStringObject h st t s n =
    Some (h\<lparr>objs := (link st t (nxt h) (objs h))(nxt h \<mapsto> str_reply (ttype t) (take n s)), nxt := nxt h + 2\<rparr>, nxt h)"
proof -
  have "0 < nxt h" "\<And>n s. granting h n s" using h by (simp_all add: heap_ready_def)
  then show ?thesis
    using link_parent_ok [OF l order_refl, where r = "str_reply (ttype t) (take n s)" and n = "nxt h + 2"] ty n
    by (auto simp: createStringObject_def createReplyObject_granted [OF h] hget_def hset_def str_reply_def
        halloc_try_def get_bytes_def numeral_2_eq_2 min_def blank_reply_def)
qed

lemma createArrayObject_granted:
  assumes h: "heap_ready h" and l: "link_ok h st t" and n: "n < 2 ^ 31"
  shows "createArrayObject h st t (int n) =
    Some (h\<lparr>objs := (link st t (nxt h) (objs h))(nxt h \<mapsto> arr_reply n (if n = 0 then Nullp else Ptr (replicate n 0))),
            nxt := nxt h + (if n = 0 then 1 else 2)\<rparr>, nxt h)"
proof -
  have "0 < nxt h" "\<And>n s. granting h n s" using h by (simp_all add: heap_ready_def)
  moreover have "usz_of_int (int n) = n" using n by (simp add: usz_of_int_id)
  ultimately show ?thesis
    using link_parent_ok [OF l order_refl, where r = "arr_reply n (if n = 0 then Nullp else Ptr (replicate n 0))" and n = "nxt h + (if n = 0 then 1 else 2)"]
    by (cases "n = 0")
       (auto simp: createArrayObject_def createReplyObject_granted [OF h] hget_def hset_def arr_reply_def
         halloc_try_def numeral_2_eq_2 blank_reply_def)
qed

section \<open>One item\<close>

definition cur_task :: "'h redisReader \<Rightarrow> redisReadTask" where
  "cur_task r = rstack r ! nat (ridx r)"

text \<open>The reader is at the start of an item whose wire form is next in the buffer.\<close>

definition ready :: "rheap redisReader \<Rightarrow> rvalue \<Rightarrow> bytes \<Rightarrow> bool" where
  "ready r v rest \<longleftrightarrow> reader_ok r \<and> fn r = Ptr defaultFunctions \<and> heap_ready (world r) \<and>
     0 \<le> ridx r \<and> ridx r \<le> 8 \<and> ttype (cur_task r) = -1 \<and>
     link_ok (world r) (rstack r) (cur_task r) \<and>
     (\<forall>i. tparent (cur_task r) = Ptr i \<longrightarrow> i < nat (ridx r)) \<and>
     unread r = encode v @ rest \<and> value_ok (nat (ridx r)) v"

text \<open>The reader just after the item, before it moves to the next task.\<close>

definition parsed :: "rheap redisReader \<Rightarrow> rvalue \<Rightarrow> redisReadTask list \<Rightarrow> rheap redisReader" where
  "parsed r v st =
     (let a = nxt (world r) in
      (advance r (length (encode v)))\<lparr>rstack := st,
         reply := (if ridx r = 0 then a else reply r),
         world := (world r)\<lparr>objs := place a v (link (rstack r) (cur_task r) a (objs (world r))),
                            nxt := a + ticks v\<rparr>\<rparr>)"

definition kept :: "'h redisReader \<Rightarrow> redisReadTask list \<Rightarrow> bool" where
  "kept r st \<longleftrightarrow> length st = 9 \<and> (\<forall>j < nat (ridx r). st ! j = rstack r ! j) \<and>
     idx (st ! nat (ridx r)) = idx (cur_task r) \<and> tparent (st ! nat (ridx r)) = tparent (cur_task r)"

lemma advance_simps [simp]:
  "err (advance r n) = err r" "errstr (advance r n) = errstr r" "rbuf (advance r n) = rbuf r"
  "rlen (advance r n) = rlen r" "maxbuf (advance r n) = maxbuf r" "rstack (advance r n) = rstack r"
  "ridx (advance r n) = ridx r" "reply (advance r n) = reply r" "fn (advance r n) = fn r"
  "privdata (advance r n) = privdata r" "world (advance r n) = world r" "pos (advance r n) = pos r + n"
  by (simp_all add: advance_def)

lemma readyD:
  assumes "ready r v rest"
  shows "reader_ok r" "fn r = Ptr defaultFunctions" "heap_ready (world r)" "0 \<le> ridx r" "ridx r \<le> 8"
    "ttype (cur_task r) = -1" "link_ok (world r) (rstack r) (cur_task r)"
    "\<forall>i. tparent (cur_task r) = Ptr i \<longrightarrow> i < nat (ridx r)"
    "unread r = encode v @ rest" "value_ok (nat (ridx r)) v" "length (rstack r) = 9"
  using assms by (auto simp: ready_def reader_ok_def)

text \<open>Reading the type byte.\<close>

definition typed :: "'h redisReader \<Rightarrow> int \<Rightarrow> 'h redisReader" where
  "typed r type = (advance r 1)\<lparr>rstack := (rstack r)[nat (ridx r) := (cur_task r)\<lparr>ttype := type\<rparr>]\<rparr>"

lemma processItem_typed:
  assumes ok: "reader_ok r" and i: "0 \<le> ridx r" "ridx r \<le> 8" and t: "ttype (cur_task r) = -1"
    and u: "unread r = c # u" and c: "type_of_byte c = Ptr type"
  shows "processItem r = process_typed (typed r type) type"
proof -
  have n: "nat (ridx r) < length (rstack r)" using ok i by (simp add: reader_ok_def)
  define r' where "r' = advance r 1"
  have r': "readBytes r 1 = (r', Ptr (pos r))" "at_pos r' (pos r) = Some (c # u @ slack r)"
    "set_task r' (ridx r') ((cur_task r)\<lparr>ttype := type\<rparr>) = Some (typed r type)"
    using readBytes_one [OF ok u] i n
    by (simp_all add: r'_def advance_def at_pos_def set_task_def typed_def)
  have "get_task r (ridx r) = Some (cur_task r)" using n i by (simp add: get_task_def cur_task_def)
  then show ?thesis using r' t c by (simp add: processItem_def peek_def)
qed

lemma typed_simps [simp]:
  "ridx (typed r type) = ridx r" "fn (typed r type) = fn r" "world (typed r type) = world r"
  "reply (typed r type) = reply r" "length (rstack (typed r type)) = length (rstack r)"
  "pos (typed r type) = pos r + 1"
  by (simp_all add: typed_def advance_def)

lemma typed_cur:
  assumes "reader_ok r" and "0 \<le> ridx r" and "ridx r \<le> 8"
  shows "get_task (typed r type) (ridx r) = Some ((cur_task r)\<lparr>ttype := type\<rparr>)"
    and "cur_task (typed r type) = (cur_task r)\<lparr>ttype := type\<rparr>"
  using assms by (auto simp: get_task_def cur_task_def typed_def advance_def reader_ok_def)

lemma typed_ok:
  assumes "reader_ok r" and "unread r = c # u"
  shows "reader_ok (typed r type)" and "unread (typed r type) = u"
proof -
  have "1 \<le> length (unread r)" using assms(2) by simp
  note ad = reader_ok_advance [OF assms(1) this]
  show "reader_ok (typed r type)" using ad(1) by (auto simp: typed_def reader_ok_def)
  have "unread (typed r type) = unread (advance r 1)" by (simp add: typed_def unread_def content_def)
  with ad(2) assms(2) show "unread (typed r type) = u" by simp
qed

text \<open>Links do not see the type of the task.\<close>

lemma typed_link:
  assumes "ready r v rest"
  shows "link_ok (world r) (rstack (typed r type)) ((cur_task r)\<lparr>ttype := type\<rparr>)"
    and "link (rstack (typed r type)) ((cur_task r)\<lparr>ttype := type\<rparr>) a m = link (rstack r) (cur_task r) a m"
    and "kept r (rstack (typed r type))"
proof -
  note d = readyD [OF assms]
  have same: "\<forall>i. tparent (cur_task r) = Ptr i \<longrightarrow> tobj (rstack (typed r type) ! i) = tobj (rstack r ! i)"
    using d(8) by (auto simp: typed_def advance_def)
  show "link_ok (world r) (rstack (typed r type)) ((cur_task r)\<lparr>ttype := type\<rparr>)"
    using d(7) same link_ok_cong [where t = "(cur_task r)\<lparr>ttype := type\<rparr>" and t' = "cur_task r" and
        st = "rstack (typed r type)" and st' = "rstack r"]
    by simp
  show "link (rstack (typed r type)) ((cur_task r)\<lparr>ttype := type\<rparr>) a m = link (rstack r) (cur_task r) a m"
    using same by (intro link_cong) simp_all
  show "kept r (rstack (typed r type))"
    using d(4,5,11) by (auto simp: kept_def typed_def advance_def)
qed

text \<open>The end of an item that is complete: the loop goes on after the move.\<close>

definition item_done :: "rheap redisReader \<Rightarrow> rvalue \<Rightarrow> bool" where
  "item_done r v \<longleftrightarrow> (\<exists>st. kept r st \<and>
     process_loop r = do { r \<leftarrow> moveToNextTask (parsed r v st); process_loop r })"

lemma item_doneI:
  assumes "0 \<le> ridx r" and "kept r st"
    and "processItem r = do { r \<leftarrow> moveToNextTask (parsed r v st); Some (r, REDIS_OK) }"
  shows "item_done r v"
proof -
  have "process_loop r = do { r \<leftarrow> moveToNextTask (parsed r v st); process_loop r }"
    using assms(1,3) by (subst process_loop.simps) simp
  with assms(2) show ?thesis by (auto simp: item_done_def)
qed

lemma defaultFunctions_fields [simp]:
  "createString defaultFunctions = Ptr createStringObject"
  "createArray defaultFunctions = Ptr createArrayObject"
  "createInteger defaultFunctions = Ptr createIntegerObject"
  "createNil defaultFunctions = Ptr createNilObject"
  "freeObject defaultFunctions = Ptr freeReplyObject"
  by (simp_all add: defaultFunctions_def)

lemma via_default:
  "fn r = Ptr defaultFunctions \<Longrightarrow> field defaultFunctions = Ptr f \<Longrightarrow>
     via_fn field call dflt r = do { (w, obj) \<leftarrow> call f; Some (r\<lparr>world := w\<rparr>, obj) }"
  by (simp add: via_fn_def fn_field_def)

text \<open>The cursor and the buffer, for the typed reader.\<close>

lemma typed_line:
  assumes r: "reader_ok r" and u: "unread r = c # l @ CRLF @ u" and l: "CR \<notin> set l"
  shows "readLine (typed r type) = Some (advance (typed r type) (length l + 2), Ptr (pos r + 1, int (length l)))"
    and "at_pos (advance (typed r type) n) (pos r + 1) = Some (l @ CRLF @ u @ slack r)"
    and "at_pos (typed r type) (pos r + 1) = Some (l @ CRLF @ u @ slack r)"
proof -
  note ok = typed_ok [OF r u, of type]
  show "readLine (typed r type) = Some (advance (typed r type) (length l + 2), Ptr (pos r + 1, int (length l)))"
    using readLine_line [OF ok l] by simp
  have "slack (typed r type) = slack r" by (simp add: slack_def typed_def advance_def)
  then show "at_pos (typed r type) (pos r + 1) = Some (l @ CRLF @ u @ slack r)"
    using at_pos_unread [OF ok(1), of 0] ok(2) by simp
  then show "at_pos (advance (typed r type) n) (pos r + 1) = Some (l @ CRLF @ u @ slack r)"
    by (simp add: at_pos_def advance_def)
qed

lemma usz_length_unread:
  "reader_ok r \<Longrightarrow> n \<le> length (unread r) \<Longrightarrow> usz_of_int (int n) = n"
  using left_unread(2) [of r] by (simp add: usz_of_int_id)

text \<open>The heap after the constructor of a value ran at the current task.\<close>

definition built :: "rheap redisReader \<Rightarrow> rvalue \<Rightarrow> rheap" where
  "built r v = (world r)\<lparr>objs := place (nxt (world r)) v (link (rstack r) (cur_task r) (nxt (world r)) (objs (world r))),
     nxt := nxt (world r) + ticks v\<rparr>"

lemma parsed_typed:
  assumes "n + 1 = length (encode v)"
  shows "(if ridx r = 0 then (advance (typed r type) n)\<lparr>world := built r v, reply := nxt (world r)\<rparr>
          else (advance (typed r type) n)\<lparr>world := built r v\<rparr>) = parsed r v (rstack (typed r type))"
  by (simp add: parsed_def built_def advance_def typed_def Let_def assms [symmetric])

lemma ready_nxt: "ready r v rest \<Longrightarrow> 0 < nxt (world r)"
  by (auto simp: ready_def heap_ready_def)

lemma parse_line:
  assumes r: "ready r v rest" and u: "unread r = c # l @ CRLF @ rest" and l: "CR \<notin> set l"
    and e: "encode v = c # l @ CRLF" and c: "type_of_byte c = Ptr type"
    and ty: "type \<in> {REDIS_REPLY_ERROR, REDIS_REPLY_STATUS, REDIS_REPLY_INTEGER}"
    and int: "type = REDIS_REPLY_INTEGER \<Longrightarrow>
       do { k \<leftarrow> readLongLong (l @ CRLF @ rest @ slack r);
            createIntegerObject (world r) (rstack (typed r type)) ((cur_task r)\<lparr>ttype := type\<rparr>) k } =
       Some (built r v, nxt (world r))"
    and str: "type \<noteq> REDIS_REPLY_INTEGER \<Longrightarrow>
       createStringObject (world r) (rstack (typed r type)) ((cur_task r)\<lparr>ttype := type\<rparr>)
         (l @ CRLF @ rest @ slack r) (length l) = Some (built r v, nxt (world r))"
  shows "item_done r v"
proof (rule item_doneI [OF readyD(4) [OF r] typed_link(3) [OF r]])
  note d = readyD [OF r]
  note line = typed_line [OF d(1) u l, where type = type]
  have usz: "usz_of_int (int (length l)) = length l"
    using usz_length_unread [OF d(1), of "length l"] u by simp
  have n: "length l + 2 + 1 = length (encode v)" by (simp add: e CRLF_def)
  have "processItem r = process_typed (typed r type) type"
    by (rule processItem_typed [OF d(1,4,5,6) u c])
  also have "\<dots> = processLineItem (typed r type)"
    using ty by (auto simp: process_typed_def)
  also have "\<dots> = do { r \<leftarrow> moveToNextTask
      (if ridx r = 0 then (advance (typed r type) (length l + 2))\<lparr>world := built r v, reply := nxt (world r)\<rparr>
       else (advance (typed r type) (length l + 2))\<lparr>world := built r v\<rparr>); Some (r, REDIS_OK) }"
    using line(1,2) typed_cur [OF d(1,4,5), of type] d(2) int str ready_nxt [OF r] usz
    by (cases "type = REDIS_REPLY_INTEGER")
       (simp_all add: processLineItem_def via_default Let_def bind_assoc [symmetric])
  finally show "processItem r = do { r \<leftarrow> moveToNextTask (parsed r v (rstack (typed r type))); Some (r, REDIS_OK) }"
    unfolding parsed_typed [OF n] .
qed

lemma parse_int:
  assumes r: "ready r (VInt i) rest"
  shows "item_done r (VInt i)"
proof (rule parse_line [OF r, where c = "CHR '':''" and l = "dec_int i" and type = REDIS_REPLY_INTEGER])
  note d = readyD [OF r]
  have "readLongLong (dec_int i @ CRLF @ rest @ slack r) = Some i"
    using readLongLong_dec_int [of i "LF # rest @ slack r"] d(10) by (simp add: CRLF_def int64_id)
  then show "do { k \<leftarrow> readLongLong (dec_int i @ CRLF @ rest @ slack r);
       createIntegerObject (world r) (rstack (typed r REDIS_REPLY_INTEGER))
         ((cur_task r)\<lparr>ttype := REDIS_REPLY_INTEGER\<rparr>) k } = Some (built r (VInt i), nxt (world r))"
    using createIntegerObject_granted [OF d(3) typed_link(1) [OF r]] typed_link(2) [OF r]
    by (simp add: built_def)
qed (use readyD(9) [OF r] in \<open>simp_all add: CR_notin_dec_int type_of_byte_def\<close>)

lemma parse_status:
  assumes r: "ready r v rest" and v: "v = VStatus t \<or> v = VError t"
  shows "item_done r v"
proof -
  note d = readyD [OF r]
  define type where "type = (if v = VStatus t then REDIS_REPLY_STATUS else REDIS_REPLY_ERROR)"
  define c where "c = (if v = VStatus t then CHR ''+'' else CHR ''-'')"
  have t: "CR \<notin> set t" "ticks v = 2" "encode v = c # t @ CRLF"
    "\<And>a m. place a v m = m(a \<mapsto> str_reply type t)"
    using v d(10) by (auto simp: c_def type_def)
  have ty: "type \<in> {REDIS_REPLY_ERROR, REDIS_REPLY_STATUS, REDIS_REPLY_STRING}" "type \<noteq> REDIS_REPLY_INTEGER"
    by (auto simp: type_def reply_types)
  show ?thesis
  proof (rule parse_line [OF r, where c = c and l = t and type = type])
    show "createStringObject (world r) (rstack (typed r type)) ((cur_task r)\<lparr>ttype := type\<rparr>)
         (t @ CRLF @ rest @ slack r) (length t) = Some (built r v, nxt (world r))"
      using createStringObject_granted [OF d(3) typed_link(1) [OF r, of type],
          of "length t" "t @ CRLF @ rest @ slack r"] ty typed_link(2) [OF r, of type] t
      by (simp add: built_def)
  qed (use d(9) t ty v in \<open>auto simp: c_def type_def type_of_byte_def reply_types\<close>)
qed

text \<open>A bulk item: the header line \<open>l\<close> and, unless it announces a nil, the payload.\<close>

lemma typed_seek:
  assumes r: "reader_ok r" and u: "unread r = c # l @ CRLF @ u" and l: "CR \<notin> set l"
  shows "seekNewline (l @ CRLF @ u @ slack r) (usz_of_int (int (rlen (typed r type)) - int (pos r + 1))) =
    Some (Ptr (length l))"
proof -
  note ok = typed_ok [OF r u, of type]
  have "usz_of_int (int (rlen (typed r type)) - int (pos r + 1)) = length (l @ CRLF @ u)"
    using left_unread(1) [OF ok(1)] unfolding ok(2) by simp
  moreover have "length (l @ CRLF @ u) < 2 ^ 31"
    using left_unread(2) [OF ok(1)] unfolding ok(2) .
  ultimately show ?thesis using seekNewline_line [OF l, of "length (l @ CRLF @ u)" "u @ slack r"]
    by (simp add: CRLF_def)
qed

lemma typed_room:
  assumes r: "reader_ok r" and u: "unread r = c # u" and n: "n \<le> length u"
  shows "usz (pos r + 1 + n) = pos r + 1 + n" and "pos r + 1 + n \<le> rlen r" and "n < 2 ^ 31"
proof -
  from r obtain b where "pos r \<le> rlen r" "rlen r < 2 ^ 31 - 1" "length (unread r) = rlen r - pos r"
    by (rule reader_okE)
  with u n show "usz (pos r + 1 + n) = pos r + 1 + n" "pos r + 1 + n \<le> rlen r" "n < 2 ^ 31" by auto
qed

lemma rlen_typed [simp]: "rlen (typed r type) = rlen r"
  by (simp add: typed_def)

lemma rd_upd_swap: "r\<lparr>world := w, pos := p\<rparr> = r\<lparr>pos := p, world := w\<rparr>"
  by simp

lemma Suc5: "Suc (Suc (Suc (Suc (Suc n)))) = 5 + n"
  by simp

lemma parse_nil:
  assumes r: "ready r VNil rest"
  shows "item_done r VNil"
proof (rule item_doneI [OF readyD(4) [OF r] typed_link(3) [OF r]])
  note d = readyD [OF r]
  let ?T = REDIS_REPLY_STRING
  have u: "unread r = CHR ''$'' # ''-1'' @ CRLF @ rest" using d(9) by simp
  have l: "CR \<notin> set ''-1''" by simp
  note line = typed_line(3) [OF d(1) u l, where type = ?T]
  have ll: "readLongLong (''-1'' @ CRLF @ rest @ slack r) = Some (-1)"
    using readLongLong_minus_one [of "LF # rest @ slack r"] by (simp add: CRLF_def)
  have "usz (pos r + 1 + 4) = pos r + 1 + 4"
    by (rule typed_room(1) [OF d(1) u]) (simp add: CRLF_def)
  moreover have "pos r + 1 + 4 = Suc (Suc (Suc (Suc (Suc (pos r)))))" by simp
  ultimately have room: "usz (Suc (Suc (Suc (Suc (Suc (pos r)))))) = Suc (Suc (Suc (Suc (Suc (pos r)))))"
    by (simp only:)
  have "createNilObject (world r) (rstack (typed r ?T)) ((cur_task r)\<lparr>ttype := ?T\<rparr>) = Some (built r VNil, nxt (world r))"
    using createNilObject_granted [OF d(3) typed_link(1) [OF r]] typed_link(2) [OF r]
    by (simp add: built_def)
  moreover have "processItem r = processBulkItem (typed r ?T)"
    by (subst processItem_typed [OF d(1,4,5,6) u, of ?T]) (simp_all add: type_of_byte_def process_typed_def reply_types)
  ultimately have "processItem r = do { r \<leftarrow> moveToNextTask
      (if ridx r = 0 then (advance (typed r ?T) 4)\<lparr>world := built r VNil, reply := nxt (world r)\<rparr>
       else (advance (typed r ?T) 4)\<lparr>world := built r VNil\<rparr>); Some (r, REDIS_OK) }"
    using line typed_seek [OF d(1) u l, of ?T] typed_cur [OF d(1,4,5), of ?T] d(2) ll ready_nxt [OF r] room
    by (simp add: processBulkItem_def via_default rd_upd_swap) (simp add: advance_def Suc5)
  then show "processItem r = do { r \<leftarrow> moveToNextTask (parsed r VNil (rstack (typed r ?T))); Some (r, REDIS_OK) }"
    using parsed_typed [of 4 VNil r ?T] by (simp add: CRLF_def)
qed

lemma parse_bulk:
  assumes r: "ready r (VStr t) rest"
  shows "item_done r (VStr t)"
proof (rule item_doneI [OF readyD(4) [OF r] typed_link(3) [OF r]])
  note d = readyD [OF r]
  let ?T = REDIS_REPLY_STRING
  let ?l = "dec_nat (length t)"
  let ?k = "length ?l + 2 + length t + 2"
  have u: "unread r = CHR ''$'' # ?l @ CRLF @ (t @ CRLF @ rest)" using d(9) by simp
  note l = CR_notin_dec_nat [of "length t"]
  note line = typed_line(3) [OF d(1) u l, where type = ?T]
  have k: "?k \<le> length (?l @ CRLF @ (t @ CRLF @ rest))" by (simp add: CRLF_def)
  note room = typed_room [OF d(1) u k]
  have ll: "readLongLong (?l @ CRLF @ (t @ CRLF @ rest) @ slack r) = Some (int (length t))"
    using readLongLong_dec_nat [of "length t" "LF # (t @ CRLF @ rest) @ slack r"] room(3)
    by (simp add: CRLF_def int64_id)
  have usz: "usz (length ?l + 2) = length ?l + 2" "usz_of_int (int (length t)) = length t"
    "usz_of_int (int (length ?l + 2) + int64 (int (length t) + 2)) = ?k"
    using room(3) by (auto simp: int64_id usz_of_int_def nat_mod_as_int simp flip: of_nat_add)
  have payload: "at_pos (typed r ?T) (pos r + 1 + length ?l + 2) = Some (t @ CRLF @ rest @ slack r)"
  proof -
    note ok = typed_ok [OF d(1) u, of ?T]
    have "slack (typed r ?T) = slack r" by (simp add: slack_def typed_def)
    then show ?thesis
      using at_pos_unread [OF ok(1), of "length ?l + 2"] unfolding ok(2)
      by (simp add: CRLF_def add.assoc)
  qed
  have "createStringObject (world r) (rstack (typed r ?T)) ((cur_task r)\<lparr>ttype := ?T\<rparr>)
      (t @ CRLF @ rest @ slack r) (length t) = Some (built r (VStr t), nxt (world r))"
    using createStringObject_granted [OF d(3) typed_link(1) [OF r, of ?T], of "length t" "t @ CRLF @ rest @ slack r"]
      typed_link(2) [OF r]
    by (simp add: built_def)
  moreover have "processItem r = processBulkItem (typed r ?T)"
    by (subst processItem_typed [OF d(1,4,5,6) u, of ?T]) (simp_all add: type_of_byte_def process_typed_def reply_types)
  ultimately have "processItem r = do { r \<leftarrow> moveToNextTask
      (if ridx r = 0 then (advance (typed r ?T) ?k)\<lparr>world := built r (VStr t), reply := nxt (world r)\<rparr>
       else (advance (typed r ?T) ?k)\<lparr>world := built r (VStr t)\<rparr>); Some (r, REDIS_OK) }"
    using line typed_seek [OF d(1) u l, of ?T] typed_cur [OF d(1,4,5), of ?T] d(2) ll ready_nxt [OF r] room usz payload
    by (simp add: processBulkItem_def via_default add.assoc rd_upd_swap) (simp add: advance_def)
  then show "processItem r = do { r \<leftarrow> moveToNextTask (parsed r (VStr t) (rstack (typed r ?T))); Some (r, REDIS_OK) }"
    using parsed_typed [of ?k "VStr t" r ?T] by (simp add: CRLF_def)
qed

lemma moveToNextTask_root: "ridx r = 0 \<Longrightarrow> moveToNextTask r = Some (r\<lparr>ridx := -1\<rparr>)"
  by (simp add: moveToNextTask.simps)

lemma parse_empty:
  assumes r: "ready r (VArr []) rest"
  shows "item_done r (VArr [])"
proof (rule item_doneI [OF readyD(4) [OF r] typed_link(3) [OF r]])
  note d = readyD [OF r]
  let ?T = REDIS_REPLY_ARRAY
  let ?l = "dec_nat 0"
  have u: "unread r = CHR ''*'' # ?l @ CRLF @ rest" using d(9) by simp
  note l = CR_notin_dec_nat [of 0]
  note line = typed_line [OF d(1) u l, where type = ?T]
  have ll: "readLongLong (?l @ CRLF @ rest @ slack r) = Some 0"
    using readLongLong_dec_nat [of 0 "LF # rest @ slack r"] by (simp add: CRLF_def int64_id)
  have "createArrayObject (world r) (rstack (typed r ?T)) ((cur_task r)\<lparr>ttype := ?T\<rparr>) 0 =
      Some (built r (VArr []), nxt (world r))"
    using createArrayObject_granted [OF d(3) typed_link(1) [OF r, of ?T], of 0] typed_link(2) [OF r]
    by (simp add: built_def)
  moreover have "processItem r = processMultiBulkItem (typed r ?T)"
    by (subst processItem_typed [OF d(1,4,5,6) u, of ?T]) (simp_all add: type_of_byte_def process_typed_def reply_types)
  moreover have "ridx r \<noteq> 8" using d(10) by auto
  ultimately have "processItem r = do { r \<leftarrow> moveToNextTask
      (if ridx r = 0 then (advance (typed r ?T) (length ?l + 2))\<lparr>world := built r (VArr []), reply := nxt (world r)\<rparr>
       else (advance (typed r ?T) (length ?l + 2))\<lparr>world := built r (VArr [])\<rparr>); Some (r, REDIS_OK) }"
    using line typed_cur [OF d(1,4,5), of ?T] d(2,4) ll ready_nxt [OF r]
    by (simp add: processMultiBulkItem_def via_default int32_id moveToNextTask_root)
  then show "processItem r = do { r \<leftarrow> moveToNextTask (parsed r (VArr []) (rstack (typed r ?T))); Some (r, REDIS_OK) }"
    using parsed_typed [of "length ?l + 2" "VArr []" r ?T] by (simp add: CRLF_def)
qed

section \<open>Arrays\<close>

text \<open>
  The reader while it is inside the array \<open>vs\<close> that began at \<open>r\<close>, with the first \<open>k\<close> elements done and
  the task stack \<open>st\<close>.
\<close>

definition array_objs :: "rheap redisReader \<Rightarrow> rvalue list \<Rightarrow> nat \<Rightarrow> (nat \<rightharpoonup> redisReply)" where
  "array_objs r vs k =
     (let a = nxt (world r) in
      place_all (a + 2) (take k vs)
        ((link (rstack r) (cur_task r) a (objs (world r)))
           (a \<mapsto> arr_reply (length vs) (Ptr (take k (addrs (a + 2) vs) @ replicate (length vs - k) 0)))))"

definition header :: "rvalue list \<Rightarrow> bytes" where
  "header vs = CHR ''*'' # dec_nat (length vs) @ CRLF"

definition inside :: "rheap redisReader \<Rightarrow> rvalue list \<Rightarrow> nat \<Rightarrow> redisReadTask list \<Rightarrow> rheap redisReader" where
  "inside r vs k st =
     (let a = nxt (world r) in
      r\<lparr>pos := pos r + length (header vs) + length (concat (map encode (take k vs))),
        rstack := st, ridx := ridx r + 1,
        reply := (if ridx r = 0 then a else reply r),
        world := (world r)\<lparr>objs := array_objs r vs k, nxt := a + 2 + sum_list (map ticks (take k vs))\<rparr>\<rparr>)"

text \<open>The stack keeps the tasks below, holds the array, and its top is the task of element \<open>k\<close>.\<close>

definition array_stack :: "rheap redisReader \<Rightarrow> rvalue list \<Rightarrow> nat \<Rightarrow> redisReadTask list \<Rightarrow> bool" where
  "array_stack r vs k st \<longleftrightarrow> kept r st \<and>
     (let t = st ! nat (ridx r); e = st ! nat (ridx r + 1) in
      ttype t = REDIS_REPLY_ARRAY \<and> telements t = int (length vs) \<and> tobj t = nxt (world r) \<and>
      idx e = int k \<and> tparent e = Ptr (nat (ridx r)))"

lemma inside_simps [simp]: "ridx (inside r vs k st) = ridx r + 1" "rstack (inside r vs k st) = st"
  by (simp_all add: inside_def Let_def)

lemma rd_stack_swap: "r\<lparr>ridx := i, rstack := st\<rparr> = r\<lparr>rstack := st, ridx := i\<rparr>"
  by simp

lemma encode_array: "encode (VArr vs) = header vs @ concat (map encode vs)"
  by (simp add: header_def)

lemma array_objs_root:
  assumes "k \<le> length vs"
  shows "array_objs r vs k (nxt (world r)) =
    Some (arr_reply (length vs) (Ptr (take k (addrs (nxt (world r) + 2) vs) @ replicate (length vs - k) 0)))"
  by (simp add: array_objs_def Let_def place_outside(2))

lemma array_objs_step:
  fixes r :: "rheap redisReader"
  assumes k: "k < length vs"
  defines "a \<equiv> nxt (world r)"
  shows "place (a + 2 + sum_list (map ticks (take k vs))) (vs ! k)
      ((array_objs r vs k)(a \<mapsto> arr_reply (length vs)
         (Ptr ((take k (addrs (a + 2) vs) @ replicate (length vs - k) 0)[k := a + 2 + sum_list (map ticks (take k vs))])))) =
    array_objs r vs (Suc k)"
proof -
  have split: "take (Suc k) vs = take k vs @ [vs ! k]" using k by (simp add: take_Suc_conv_app_nth)
  have vs: "vs = take k vs @ vs ! k # drop (Suc k) vs" using k by (rule id_take_nth_drop)
  have ad: "addrs b vs ! k = b + sum_list (map ticks (take k vs))" for b
    by (subst vs, subst addrs_append) (use k in \<open>simp add: nth_append\<close>)
  have upd: "(take k (addrs (a + 2) vs) @ replicate (length vs - k) 0)[k := addrs (a + 2) vs ! k] =
      take (Suc k) (addrs (a + 2) vs) @ replicate (length vs - Suc k) 0"
    using k by (simp add: take_Suc_conv_app_nth list_update_append Suc_diff_Suc [symmetric])
  have lt: "a < a + 2" "a < a + 2 + sum_list (map ticks (take k vs))" by simp_all
  show ?thesis
    unfolding array_objs_def Let_def split place_all_append place_all.simps a_def [symmetric]
      place_commute(2) [OF lt(1)] place_commute(1) [OF lt(2)]
    using upd unfolding ad by (simp add: split [symmetric])
qed

lemma inside_ready:
  assumes r: "ready r (VArr vs) rest" and k: "k < length vs" and st: "array_stack r vs k st"
    and top: "ttype (st ! nat (ridx r + 1)) = -1"
  shows "ready (inside r vs k st) (vs ! k) (concat (map encode (drop (Suc k) vs)) @ rest)"
    and "link st (cur_task (inside r vs k st)) a' (array_objs r vs k) =
      (array_objs r vs k)(nxt (world r) \<mapsto> arr_reply (length vs)
        (Ptr ((take k (addrs (nxt (world r) + 2) vs) @ replicate (length vs - k) 0)[k := a'])))"
proof -
  note d = readyD [OF r]
  let ?R = "inside r vs k st"
  let ?a = "nxt (world r)"
  let ?done = "length (header vs) + length (concat (map encode (take k vs)))"
  have i: "0 \<le> ridx r" "ridx r < 8" "nat (ridx r + 1) = Suc (nat (ridx r))"
    using d(4,10) by auto
  have vs: "concat (map encode vs) =
      concat (map encode (take k vs)) @ encode (vs ! k) @ concat (map encode (drop (Suc k) vs))"
    using k by (subst id_take_nth_drop [OF k]) simp
  have u: "unread r = header vs @ concat (map encode vs) @ rest" using d(9) by (simp add: header_def)
  then have dn: "?done \<le> length (unread r)" unfolding u vs by simp
  note ad = reader_ok_advance [OF d(1) dn]
  have sel: "rbuf ?R = rbuf r" "rlen ?R = rlen r" "err ?R = err r" "fn ?R = fn r" "ridx ?R = ridx r + 1"
    "rstack ?R = st" "pos ?R = pos r + ?done"
    "world ?R = (world r)\<lparr>objs := array_objs r vs k, nxt := ?a + 2 + sum_list (map ticks (take k vs))\<rparr>"
    by (simp_all add: inside_def Let_def)
  have len: "length st = 9" using st by (simp add: array_stack_def kept_def)
  have cur: "cur_task ?R = st ! nat (ridx r + 1)" by (simp add: cur_task_def sel)
  have e: "idx (cur_task ?R) = int k" "tparent (cur_task ?R) = Ptr (nat (ridx r))"
    "tobj (st ! nat (ridx r)) = ?a"
    using st by (auto simp: cur array_stack_def Let_def)
  have ok: "reader_ok ?R"
    using ad(1) sel len by (auto simp: reader_ok_def)
  have "unread ?R = drop ?done (unread r)"
    using sel by (simp add: unread_def content_def add.commute)
  then have un: "unread ?R = encode (vs ! k) @ concat (map encode (drop (Suc k) vs)) @ rest"
    unfolding u vs by simp
  have root: "array_objs r vs k ?a =
      Some (arr_reply (length vs) (Ptr (take k (addrs (?a + 2) vs) @ replicate (length vs - k) 0)))"
    using k by (intro array_objs_root) simp
  have pos: "0 < ?a" using d(3) by (simp add: heap_ready_def)
  have lk: "link_ok (world ?R) st (cur_task ?R)"
    using e root pos k len i by (auto simp: link_ok_def sel arr_reply_def blank_reply_def)
  have "value_ok (nat (ridx ?R)) (vs ! k)"
    using d(10) k by (simp add: sel i(3))
  then show "ready ?R (vs ! k) (concat (map encode (drop (Suc k) vs)) @ rest)"
    using ok un lk d(2,3) top e(2) i by (auto simp: ready_def sel cur heap_ready_def)
  show "link st (cur_task ?R) a' (array_objs r vs k) =
      (array_objs r vs k)(?a \<mapsto> arr_reply (length vs)
        (Ptr ((take k (addrs (?a + 2) vs) @ replicate (length vs - k) 0)[k := a'])))"
    using e root by (simp add: link_def arr_reply_def blank_reply_def)
qed

text \<open>Finishing one element gives the state with one more element.\<close>

lemma parsed_inside:
  assumes r: "ready r (VArr vs) rest" and k: "k < length vs" and st: "array_stack r vs k st"
    and top: "ttype (st ! nat (ridx r + 1)) = -1"
  shows "parsed (inside r vs k st) (vs ! k) st' = inside r vs (Suc k) st'"
proof -
  have i: "ridx r + 1 \<noteq> 0" using readyD(4) [OF r] by simp
  have split: "take (Suc k) vs = take k vs @ [vs ! k]" using k by (simp add: take_Suc_conv_app_nth)
  show ?thesis
    using inside_ready(2) [OF assms] array_objs_step [OF k, of r] i
    by (simp add: parsed_def Let_def) (simp add: inside_def Let_def advance_def split add.assoc)
qed

lemma inside_all:
  assumes "vs \<noteq> []"
  shows "(inside r vs (length vs) st)\<lparr>ridx := ridx r\<rparr> = parsed r (VArr vs) st"
proof -
  have "array_objs r vs (length vs) =
      place (nxt (world r)) (VArr vs) (link (rstack r) (cur_task r) (nxt (world r)) (objs (world r)))"
    using assms by (simp add: array_objs_def Let_def)
  moreover have "nxt (world r) + 2 + sum_list (map ticks (take (length vs) vs)) = nxt (world r) + ticks (VArr vs)"
    using assms by simp
  moreover have "pos r + length (header vs) + length (concat (map encode (take (length vs) vs))) =
      pos r + length (encode (VArr vs))"
    unfolding encode_array by simp
  ultimately show ?thesis
    unfolding inside_def parsed_def Let_def advance_def by simp
qed

lemma array_loop:
  assumes r: "ready r (VArr vs) rest"
    and IH: "\<And>v r' rest'. v \<in> set vs \<Longrightarrow> ready r' v rest' \<Longrightarrow> item_done r' v"
    and k: "k < length vs" and st: "array_stack r vs k st" and top: "ttype (st ! nat (ridx r + 1)) = -1"
  shows "\<exists>st'. kept r st' \<and> process_loop (inside r vs k st) =
    do { r' \<leftarrow> moveToNextTask (parsed r (VArr vs) st'); process_loop r' }"
  using k st top
proof (induction "length vs - k" arbitrary: k st rule: less_induct)
  case (less k st)
  note d = readyD [OF r]
  let ?i = "nat (ridx r)" and ?j = "nat (ridx r + 1)"
  have ij: "?j = Suc ?i" "0 \<le> ridx r" "ridx r < 8" using d(4,10) by auto
  let ?R = "inside r vs k st"
  have "item_done ?R (vs ! k)"
    by (rule IH [OF _ inside_ready(1) [OF r less.prems]]) (use less.prems(1) in simp)
  then obtain st2 where st2: "kept ?R st2"
    "process_loop ?R = do { r \<leftarrow> moveToNextTask (parsed ?R (vs ! k) st2); process_loop r }"
    by (auto simp: item_done_def)
  have next_state: "parsed ?R (vs ! k) st2 = inside r vs (Suc k) st2"
    by (rule parsed_inside [OF r less.prems])
  let ?N = "inside r vs (Suc k) st2"
  have sel: "ridx ?R = ridx r + 1" "rstack ?R = st" "ridx ?N = ridx r + 1" "rstack ?N = st2"
    by (simp_all add: inside_def Let_def)
  have old: "length st2 = 9" "\<And>j. j < ?j \<Longrightarrow> st2 ! j = st ! j"
    "idx (st2 ! ?j) = int k" "tparent (st2 ! ?j) = Ptr ?i"
    using st2(1) less.prems(2) by (auto simp: kept_def array_stack_def Let_def cur_task_def sel)
  have prv: "ttype (st2 ! ?i) = REDIS_REPLY_ARRAY" "telements (st2 ! ?i) = int (length vs)"
      "tobj (st2 ! ?i) = nxt (world r)"
    using less.prems(2) old(2) [of ?i] ij(1) by (auto simp: array_stack_def Let_def)
  have kp: "kept r st2"
    using less.prems(2) old(1,2) ij(1) by (auto simp: array_stack_def kept_def)
  have get: "get_task ?N (ridx ?N) = Some (st2 ! ?j)" "get_task ?N (ridx ?N - 1) = Some (st2 ! ?i)"
    using old(1) ij by (auto simp: get_task_def sel)
  have len: "int32 (int (length vs) - 1) = int (length vs) - 1"
    "length vs < 2 ^ 31" using d(10) by (auto simp: int32_id)
  show ?case
  proof (cases "Suc k = length vs")
    case True
    then have "moveToNextTask ?N = moveToNextTask (?N\<lparr>ridx := ridx r\<rparr>)"
      using get prv old(3) len(1) ij by (subst moveToNextTask.simps) (simp add: sel)
    moreover have "?N\<lparr>ridx := ridx r\<rparr> = parsed r (VArr vs) st2"
      unfolding True by (rule inside_all) (use less.prems(1) in auto)
    ultimately show ?thesis using kp st2(2) next_state by auto
  next
    case False
    let ?t = "(st2 ! ?j)\<lparr>ttype := -1, telements := -1, idx := int32 (int k + 1)\<rparr>"
    let ?st3 = "st2[?j := ?t]"
    have k1: "Suc k < length vs" using False less.prems(1) by simp
    then have k32: "int32 (int k + 1) = int (Suc k)" using len(2) by (simp add: int32_id)
    have ne: "idx (st2 ! ?j) \<noteq> int32 (telements (st2 ! ?i) - 1)" "idx (st2 ! ?j) < telements (st2 ! ?i)"
      using old(3) prv(2) len(1) k1 by auto
    have "moveToNextTask ?N = set_task ?N (ridx ?N) ?t"
      using get prv(1) ne old(3) ij by (subst moveToNextTask.simps) (simp add: sel)
    also have "\<dots> = Some (inside r vs (Suc k) ?st3)"
      using old(1) ij by (simp add: set_task_def sel) (simp add: inside_def Let_def)
    finally have move: "moveToNextTask ?N = Some (inside r vs (Suc k) ?st3)" .
    have as: "array_stack r vs (Suc k) ?st3"
      using kp prv old k32 ij by (auto simp: array_stack_def kept_def Let_def)
    have "ttype (?st3 ! ?j) = -1" using old(1) ij by simp
    note topk = this
    have dec: "length vs - Suc k < length vs - k" using less.prems(1) by simp
    obtain st' where
      "kept r st'" "process_loop (inside r vs (Suc k) ?st3) =
        do { r' \<leftarrow> moveToNextTask (parsed r (VArr vs) st'); process_loop r' }"
      using less.hyps [OF dec k1 as topk] by blast
    then show ?thesis using st2(2) next_state move by auto
  qed
qed

lemma parse_array:
  assumes r: "ready r (VArr vs) rest" and ne: "vs \<noteq> []"
    and IH: "\<And>v r' rest'. v \<in> set vs \<Longrightarrow> ready r' v rest' \<Longrightarrow> item_done r' v"
  shows "item_done r (VArr vs)"
proof -
  note d = readyD [OF r]
  let ?T = REDIS_REPLY_ARRAY
  let ?l = "dec_nat (length vs)"
  let ?a = "nxt (world r)"
  let ?R = "typed r ?T"
  have i: "0 \<le> ridx r" "ridx r < 8" "nat (ridx r + 1) = Suc (nat (ridx r))" and n: "length vs < 2 ^ 31"
    using d(4,10) by auto
  have u: "unread r = CHR ''*'' # ?l @ CRLF @ (concat (map encode vs) @ rest)" using d(9) by simp
  note line = typed_line [OF d(1) u CR_notin_dec_nat, where type = ?T]
  have ll: "readLongLong (?l @ CRLF @ (concat (map encode vs) @ rest) @ slack r) = Some (int (length vs))"
    using readLongLong_dec_nat [of "length vs" "LF # (concat (map encode vs) @ rest) @ slack r"] n
    by (simp add: CRLF_def int64_id)
  define w where "w = (world r)\<lparr>objs := (link (rstack r) (cur_task r) ?a (objs (world r)))
      (?a \<mapsto> arr_reply (length vs) (Ptr (replicate (length vs) 0))), nxt := ?a + 2\<rparr>"
  have mk: "createArrayObject (world r) (rstack ?R) ((cur_task r)\<lparr>ttype := ?T\<rparr>) (int32 (int (length vs))) =
      Some (w, ?a)"
    using createArrayObject_granted [OF d(3) typed_link(1) [OF r, of ?T] n] typed_link(2) [OF r] ne n
    by (simp add: w_def int32_id)
  let ?r1 = "(advance ?R (length ?l + 2))\<lparr>world := w\<rparr>"
  define st where "st = (rstack ?R)[nat (ridx r) := (cur_task r)\<lparr>ttype := ?T, telements := int (length vs), tobj := ?a\<rparr>,
      nat (ridx r + 1) := \<lparr>ttype = -1, telements = -1, idx = 0, tobj = 0, tparent = Ptr (nat (ridx r)),
        tprivdata = privdata r\<rparr>]"
  have priv: "privdata ?R = privdata r" by (simp add: typed_def)
  have push: "push_task ?r1 ((cur_task r)\<lparr>ttype := ?T\<rparr>) (int (length vs)) ?a =
      Some (?r1\<lparr>rstack := st, ridx := ridx r + 1\<rparr>)"
    using d(11) i n by (simp add: push_task_def set_task_def st_def int32_id priv Let_def rd_stack_swap)
  have item: "processItem r = Some (inside r vs 0 st, REDIS_OK)"
  proof -
    have "processItem r = processMultiBulkItem ?R"
      by (subst processItem_typed [OF d(1,4,5,6) u, of ?T])
         (simp_all add: type_of_byte_def process_typed_def reply_types)
    also have "\<dots> = Some (if ridx r = 0 then ?r1\<lparr>rstack := st, ridx := ridx r + 1, reply := ?a\<rparr>
        else ?r1\<lparr>rstack := st, ridx := ridx r + 1\<rparr>, REDIS_OK)"
      using line(1,2) typed_cur [OF d(1,4,5), of ?T] d(2) ll mk push ready_nxt [OF r] ne i
      by (simp add: processMultiBulkItem_def via_default)
    also have "(if ridx r = 0 then ?r1\<lparr>rstack := st, ridx := ridx r + 1, reply := ?a\<rparr>
        else ?r1\<lparr>rstack := st, ridx := ridx r + 1\<rparr>) = inside r vs 0 st"
      by (simp add: inside_def Let_def advance_def typed_def header_def CRLF_def w_def array_objs_def)
    finally show ?thesis .
  qed
  have as: "array_stack r vs 0 st"
    using typed_link(3) [OF r, of ?T] d(11) i
    by (auto simp: array_stack_def kept_def st_def Let_def nth_list_update)
  have top: "ttype (st ! nat (ridx r + 1)) = -1"
    using d(11) i by (simp add: st_def)
  have pos: "0 < length vs" using ne by simp
  have "\<exists>st'. kept r st' \<and> process_loop (inside r vs 0 st) =
      do { r' \<leftarrow> moveToNextTask (parsed r (VArr vs) st'); process_loop r' }"
    by (rule array_loop [OF r _ pos as top]) (rule IH)
  then obtain st' where "kept r st'" "process_loop (inside r vs 0 st) =
      do { r' \<leftarrow> moveToNextTask (parsed r (VArr vs) st'); process_loop r' }" by blast
  moreover have "process_loop r = process_loop (inside r vs 0 st)"
    using item i by (subst process_loop.simps) simp
  ultimately show ?thesis by (auto simp: item_done_def)
qed

theorem parse_value: "ready r v rest \<Longrightarrow> item_done r v"
proof (induction v arbitrary: r rest)
  case (VInt i)
  then show ?case by (rule parse_int)
next
  case VNil
  then show ?case by (rule parse_nil)
next
  case (VStr t)
  then show ?case by (rule parse_bulk)
next
  case (VStatus t)
  then show ?case by (rule parse_status) simp
next
  case (VError t)
  then show ?case by (rule parse_status) simp
next
  case (VArr vs)
  show ?case
  proof (cases "vs = []")
    case True
    with VArr.prems show ?thesis using parse_empty by blast
  next
    case False
    with VArr show ?thesis using parse_array by blast
  qed
qed

end
