(* ===== verification/Reader_Reply.thy ===== *)
theory Reader_Reply
  imports Reader_Parse Sds_Ranges
begin

text \<open>
  The public functions of the reader with the default reply functions: feeding bytes appends them to
  what is unread, and each call of \<open>redisReaderGetReply\<close> takes one value off the front, builds its
  objects and leaves the rest. Errors are final and give back what was built.
\<close>

section \<open>Between replies\<close>

definition idle :: "rheap redisReader \<Rightarrow> bool" where
  "idle r \<longleftrightarrow> reader_ok r \<and> fn r = Ptr defaultFunctions \<and> heap_ready (world r) \<and> ridx r = -1 \<and> reply r = 0"

lemma create_idle:
  assumes "\<forall>n. grant A n" and "heap_ready h"
  shows "\<exists>r. redisReaderCreate A h = Some (Ptr r) \<and> idle r \<and> unread r = [] \<and> world r = h \<and> pos r = 0 \<and>
    maxbuf r = REDIS_READER_MAX_BUF"
proof -
  obtain b where b: "sdsempty A = Some (Ptr b)" "sds_ok b" "sds_content b = []"
    using yields_granted [OF sdsempty_spec assms(1)] by auto
  then have "sdslen b = 0" using length_sds_content [of b] sds_ok_wf by simp
  with b assms show ?thesis
    by (simp add: redisReaderCreate_def redisReaderCreateWithFunctions_def idle_def reader_ok_def unread_def
        content_def)
qed

lemma feed_spec:
  assumes g: "\<forall>n. grant A n" and ok: "reader_ok r" and t: "t \<noteq> []" and lim: "rlen r + length t < 2 ^ 31 - 1"
  shows "\<exists>b p. redisReaderFeed A r (Ptr t) (length t) =
      Some (r\<lparr>rbuf := Ptr b, pos := p, rlen := sdslen b\<rparr>, REDIS_OK) \<and>
    reader_ok (r\<lparr>rbuf := Ptr b, pos := p, rlen := sdslen b\<rparr>) \<and> sdslen b = rlen r + length t \<and>
    unread (r\<lparr>rbuf := Ptr b, pos := p, rlen := sdslen b\<rparr>) = unread r @ t"
proof -
  from ok obtain s where s: "rbuf r = Ptr s" "sds_ok s" "rlen r = sdslen s" "content r = sds_content s"
    "length (content r) = rlen r" "pos r \<le> rlen r" "rlen r < 2 ^ 31 - 1"
    by (rule reader_okE)
  have e0: "err r = 0" and st: "length (rstack r) = 9" using ok by (auto simp: reader_ok_def)
  have t1: "1 \<le> length t" using t by (cases t) auto
  define big where "big \<longleftrightarrow> rlen r = 0 \<and> maxbuf r \<noteq> 0 \<and> maxbuf r < sdsavail s"
  obtain e where e: "sdsempty A = Some (Ptr e)" "sds_ok e" "sds_content e = []"
    using yields_granted [OF sdsempty_spec g] by auto
  define s1 where "s1 = (if big then e else s)"
  define p1 where "p1 = (if big then 0 else pos r)"
  have s1: "sds_ok s1" "sds_content s1 = content r" "sdslen s1 = rlen r" "p1 \<le> rlen r"
    "drop p1 (content r) = unread r"
  proof -
    have "sdslen e = 0" using e length_sds_content [of e] sds_ok_wf by simp
    with s e show "sds_ok s1" "sds_content s1 = content r" "sdslen s1 = rlen r" "p1 \<le> rlen r"
      "drop p1 (content r) = unread r"
      by (auto simp: s1_def p1_def big_def unread_def)
  qed
  have "sdslen s1 + length t < size_limit" using s1(3) lim by (simp add: size_limit_def)
  then obtain nb where nb: "sdscatlen A s1 t (length t) = Some (Ptr nb)" "sds_ok nb"
      "sds_content nb = content r @ t" "sdslen nb = rlen r + length t"
    using yields_granted [OF sdscatlen_spec [where t = t, OF s1(1) _ order_refl] g] s1(2,3) by auto
  let ?r = "r\<lparr>rbuf := Ptr nb, pos := p1, rlen := sdslen nb\<rparr>"
  have run: "redisReaderFeed A r (Ptr t) (length t) = Some (?r, REDIS_OK)"
  proof (cases big)
    case True
    with e0 t1 s(1) e(1) nb(1) show ?thesis
      by (simp add: redisReaderFeed_def big_def s1_def p1_def)
  next
    case False
    with e0 t1 s(1) nb(1) show ?thesis
      by (auto simp: redisReaderFeed_def big_def s1_def p1_def)
  qed
  have "reader_ok ?r" using e0 st nb s1(4) lim by (auto simp: reader_ok_def)
  moreover have "unread ?r = unread r @ t"
    using s1(4,5) s(5) nb(3) by (simp add: unread_def content_def)
  ultimately show ?thesis using run nb(4) by blast
qed

lemma feed_idle:
  assumes "\<forall>n. grant A n" and "idle r" and "t \<noteq> []" and "rlen r + length t < 2 ^ 31 - 1"
  shows "\<exists>r'. redisReaderFeed A r (Ptr t) (length t) = Some (r', REDIS_OK) \<and> idle r' \<and>
    unread r' = unread r @ t \<and> world r' = world r \<and> rlen r' = rlen r + length t"
proof -
  from assms(2) have "reader_ok r" by (simp add: idle_def)
  from feed_spec [OF assms(1) this assms(3,4)] obtain b p where
    "redisReaderFeed A r (Ptr t) (length t) = Some (r\<lparr>rbuf := Ptr b, pos := p, rlen := sdslen b\<rparr>, REDIS_OK)"
    "reader_ok (r\<lparr>rbuf := Ptr b, pos := p, rlen := sdslen b\<rparr>)" "sdslen b = rlen r + length t"
    "unread (r\<lparr>rbuf := Ptr b, pos := p, rlen := sdslen b\<rparr>) = unread r @ t" by blast
  then show ?thesis using assms(2) by (simp add: idle_def)
qed

section \<open>One reply\<close>

lemma compact_spec:
  assumes ok: "reader_ok r"
  shows "\<exists>b. discard_consumed r = Some (r\<lparr>rbuf := Ptr b, pos := if 1024 \<le> pos r then 0 else pos r, rlen := sdslen b\<rparr>) \<and>
    reader_ok (r\<lparr>rbuf := Ptr b, pos := if 1024 \<le> pos r then 0 else pos r, rlen := sdslen b\<rparr>) \<and>
    sdslen b \<le> rlen r \<and>
    unread (r\<lparr>rbuf := Ptr b, pos := if 1024 \<le> pos r then 0 else pos r, rlen := sdslen b\<rparr>) = unread r"
proof -
  from ok obtain s where s: "rbuf r = Ptr s" "sds_ok s" "rlen r = sdslen s" "content r = sds_content s"
    "length (content r) = rlen r" "pos r \<le> rlen r" "rlen r < 2 ^ 31 - 1"
    by (rule reader_okE)
  show ?thesis
  proof (cases "1024 \<le> pos r")
    case False
    then show ?thesis
      using s ok by (intro exI [of _ s]) (auto simp: discard_consumed_def reader_ok_def unread_def content_def)
  next
    case True
    have p: "int32 (int (pos r)) = int (pos r)" using s(6,7) by (simp add: int32_id)
    obtain b where b: "sdsrange s (int (pos r)) (-1) = Some b" "sds_ok b"
        "sds_content b = range_text (int (pos r)) (-1) (sds_content s)"
      using sdsrange_spec [OF s(2), of "int (pos r)" "-1"] s(3,6,7) by auto
    have "range_text (int (pos r)) (-1) (content r) = drop (pos r) (content r)"
      using True s(5,6) by (simp add: range_text_def norm_pos_def)
    then have c: "sds_content b = unread r" using b(3) s(4) by (simp add: unread_def)
    have "sdslen b = length (unread r)" using c b(2) length_sds_content [of b] sds_ok_wf by simp
    moreover have "length (unread r) \<le> rlen r" using s(5) by (simp add: unread_def)
    ultimately show ?thesis
      using True p b(1,2) c s(1,7) ok
      by (intro exI [of _ b]) (auto simp: discard_consumed_def reader_ok_def unread_def content_def)
  qed
qed

lemma begin_reply_spec:
  assumes "ridx r = -1" and "length (rstack r) = 9"
  shows "\<exists>r0. begin_reply r = Some r0 \<and> r0 = r\<lparr>rstack := (rstack r)[0 := root_task r], ridx := 0\<rparr>"
  using assms by (simp add: begin_reply_def set_task_def)

definition took :: "rheap redisReader \<Rightarrow> rvalue \<Rightarrow> rheap" where
  "took r v = (world r)\<lparr>objs := place (nxt (world r)) v (objs (world r)), nxt := nxt (world r) + ticks v\<rparr>"

text \<open>What the processing loop leaves when the wire form of a value is next.\<close>

definition loop_done :: "rheap redisReader \<Rightarrow> rvalue \<Rightarrow> bytes \<Rightarrow> rheap redisReader \<Rightarrow> bool" where
  "loop_done r v rest r1 \<longleftrightarrow> reader_ok r1 \<and> ridx r1 = -1 \<and> reply r1 = nxt (world r) \<and> fn r1 = fn r \<and>
     unread r1 = rest \<and> world r1 = took r v \<and> rlen r1 = rlen r"

lemma loop_spec:
  assumes id: "idle r" and u: "unread r = encode v @ rest" and v: "value_ok 0 v"
  shows "\<exists>r0 r1. begin_reply r = Some r0 \<and> r0 = r\<lparr>rstack := (rstack r)[0 := root_task r], ridx := 0\<rparr> \<and>
    process_loop r0 = Some r1 \<and> loop_done r v rest r1"
proof -
  from id have ok: "reader_ok r" and f: "fn r = Ptr defaultFunctions" and h: "heap_ready (world r)"
    and i: "ridx r = -1" and rp: "reply r = 0" by (auto simp: idle_def)
  from ok obtain s where s: "length (content r) = rlen r" "length (unread r) = rlen r - pos r" "pos r \<le> rlen r"
    by (rule reader_okE)
  have e0: "err r = 0" and st: "length (rstack r) = 9" using ok by (auto simp: reader_ok_def)
  obtain r0 where r0: "begin_reply r = Some r0" "r0 = r\<lparr>rstack := (rstack r)[0 := root_task r], ridx := 0\<rparr>"
    using begin_reply_spec [OF i st] by blast
  have cur: "cur_task r0 = root_task r" using st by (simp add: cur_task_def r0)
  have u0: "unread r0 = unread r" by (simp add: unread_def content_def r0(2))
  have rd: "ready r0 v rest"
    using ok f h u u0 v st unfolding ready_def cur by (auto simp: r0(2) reader_ok_def link_ok_def root_task_def)
  from parse_value [OF rd] obtain st' where st': "kept r0 st'"
    "process_loop r0 = do { r \<leftarrow> moveToNextTask (parsed r0 v st'); process_loop r }"
    by (auto simp: item_done_def)
  define r1 where "r1 = (parsed r0 v st')\<lparr>ridx := -1\<rparr>"
  have sel: "ridx (parsed r0 v st') = 0" by (simp add: parsed_def Let_def r0(2))
  have lnk: "link (rstack r0) (cur_task r0) a m = m" for a m by (simp add: link_def cur root_task_def)
  have loop: "process_loop r0 = Some r1"
    using st'(2) moveToNextTask_root [OF sel] by (simp add: r1_def process_loop.simps [of "_\<lparr>ridx := -1\<rparr>"])
  have r1: "rbuf r1 = rbuf r" "rlen r1 = rlen r" "err r1 = 0" "pos r1 = pos r + length (encode v)"
    "rstack r1 = st'" "ridx r1 = -1" "reply r1 = nxt (world r)" "fn r1 = fn r"
    using e0 by (simp_all add: r1_def parsed_def Let_def advance_def r0(2))
  have w1: "world r1 = took r v"
    using lnk by (simp add: r1_def parsed_def Let_def r0(2) took_def)
  have ok1: "reader_ok r1"
    using ok r1 st'(1) s u by (auto simp: reader_ok_def kept_def)
  have u1: "unread r1 = rest"
  proof -
    have "unread r1 = drop (length (encode v)) (unread r)"
      using r1 by (simp add: unread_def content_def add.commute)
    then show ?thesis by (simp add: u)
  qed
  show ?thesis
    using r0 loop ok1 r1 u1 w1 by (intro exI [of _ r0] exI [of _ r1]) (simp add: loop_done_def)
qed

text \<open>The end of a call after the loop.\<close>

lemma finish_reply:
  assumes "reader_ok r1" and "ridx r1 = -1" and "fn r1 = Ptr defaultFunctions" and "heap_ready (world r1)"
  shows "\<exists>r2. discard_consumed r1 = Some r2 \<and> reply r2 = reply r1 \<and> ridx r2 = -1 \<and> idle (r2\<lparr>reply := 0\<rparr>) \<and>
    unread (r2\<lparr>reply := 0\<rparr>) = unread r1 \<and> world r2 = world r1 \<and> rlen r2 \<le> rlen r1 \<and> pos r2 < 1024"
proof -
  obtain b where b: "discard_consumed r1 =
      Some (r1\<lparr>rbuf := Ptr b, pos := if 1024 \<le> pos r1 then 0 else pos r1, rlen := sdslen b\<rparr>)"
    "reader_ok (r1\<lparr>rbuf := Ptr b, pos := if 1024 \<le> pos r1 then 0 else pos r1, rlen := sdslen b\<rparr>)"
    "sdslen b \<le> rlen r1"
    "unread (r1\<lparr>rbuf := Ptr b, pos := if 1024 \<le> pos r1 then 0 else pos r1, rlen := sdslen b\<rparr>) = unread r1"
    using compact_spec [OF assms(1)] by blast
  define r2 where "r2 = r1\<lparr>rbuf := Ptr b, pos := if 1024 \<le> pos r1 then 0 else pos r1, rlen := sdslen b\<rparr>"
  have "idle (r2\<lparr>reply := 0\<rparr>)"
    using b(2) assms by (auto simp: idle_def r2_def reader_ok_def)
  moreover have "unread (r2\<lparr>reply := 0\<rparr>) = unread r1"
    using b(4) by (simp add: r2_def unread_def content_def)
  moreover have "reply r2 = reply r1" "ridx r2 = -1" "world r2 = world r1" "rlen r2 \<le> rlen r1" "pos r2 < 1024"
    using assms(2) b(3) by (simp_all add: r2_def)
  moreover have "discard_consumed r1 = Some r2" using b(1) by (simp add: r2_def)
  ultimately show ?thesis by blast
qed

lemma took_ready: "heap_ready (world r) \<Longrightarrow> heap_ready (took r v)"
  by (simp add: took_def heap_ready_def)

lemma get_reply_spec:
  assumes id: "idle r" and u: "unread r = encode v @ rest" and v: "value_ok 0 v"
  shows "\<exists>r'. redisReaderGetReply r True = Some (r', nxt (world r), REDIS_OK) \<and> idle r' \<and>
    unread r' = rest \<and> world r' = took r v \<and> rlen r' \<le> rlen r"
proof -
  from id have ok: "reader_ok r" and f: "fn r = Ptr defaultFunctions" and h: "heap_ready (world r)"
    by (auto simp: idle_def)
  have l0: "rlen r \<noteq> 0" using ok u length_encode [of v] by (auto elim: reader_okE)
  obtain r0 r1 where r1: "begin_reply r = Some r0" "process_loop r0 = Some r1" "loop_done r v rest r1"
    using loop_spec [OF assms] by blast
  then have d: "reader_ok r1" "ridx r1 = -1" "reply r1 = nxt (world r)" "fn r1 = Ptr defaultFunctions"
    "unread r1 = rest" "world r1 = took r v" "rlen r1 = rlen r"
    by (simp_all add: loop_done_def f)
  obtain r2 where r2: "discard_consumed r1 = Some r2" "reply r2 = reply r1" "ridx r2 = -1"
    "idle (r2\<lparr>reply := 0\<rparr>)" "unread (r2\<lparr>reply := 0\<rparr>) = unread r1" "world r2 = world r1" "rlen r2 \<le> rlen r1"
    using finish_reply [OF d(1,2,4)] took_ready [OF h] d(6) by auto
  have "err r = 0" "err r1 = 0" using ok d(1) by (simp_all add: reader_ok_def)
  then have "redisReaderGetReply r True = Some (r2\<lparr>reply := 0\<rparr>, nxt (world r), REDIS_OK)"
    using l0 r1(1,2) r2(1-3) d(3) by (simp add: redisReaderGetReply_def)
  then show ?thesis using r2 d by (intro exI [of _ "r2\<lparr>reply := 0\<rparr>"]) simp
qed

section \<open>A stream of replies\<close>

text \<open>A client that asks for \<open>n\<close> replies and collects the pointers.\<close>

fun get_replies :: "nat \<Rightarrow> 'h redisReader \<Rightarrow> ('h redisReader \<times> nat list) option" where
  "get_replies 0 r = Some (r, [])"
| "get_replies (Suc n) r = do {
     (r, a, rc) \<leftarrow> redisReaderGetReply r True;
     (r, as) \<leftarrow> get_replies n r;
     Some (r, a # as) }"

lemma get_replies_spec:
  assumes "idle r" and "unread r = concat (map encode vs) @ rest" and "\<forall>v \<in> set vs. value_ok 0 v"
  shows "\<exists>r'. get_replies (length vs) r = Some (r', addrs (nxt (world r)) vs) \<and> idle r' \<and> unread r' = rest \<and>
    world r' = (world r)\<lparr>objs := place_all (nxt (world r)) vs (objs (world r)),
      nxt := nxt (world r) + sum_list (map ticks vs)\<rparr>"
  using assms
proof (induction vs arbitrary: r)
  case Nil
  then show ?case by simp
next
  case (Cons v vs)
  obtain r1 where r1: "redisReaderGetReply r True = Some (r1, nxt (world r), REDIS_OK)" "idle r1"
      "unread r1 = concat (map encode vs) @ rest" "world r1 = took r v"
    using get_reply_spec [OF Cons.prems(1), of v "concat (map encode vs) @ rest"] Cons.prems by auto
  from Cons.IH [OF r1(2,3)] Cons.prems(3) obtain r' where
    r': "get_replies (length vs) r1 = Some (r', addrs (nxt (world r1)) vs)" "idle r'" "unread r' = rest"
      "world r' = (world r1)\<lparr>objs := place_all (nxt (world r1)) vs (objs (world r1)),
        nxt := nxt (world r1) + sum_list (map ticks vs)\<rparr>" by auto
  with r1 show ?case by (simp add: took_def add.assoc)
qed

text \<open>Freeing every reply of a stream gives the heap back as it was.\<close>

lemma free_replies:
  assumes "0 < a" and "\<And>b. a \<le> b \<Longrightarrow> objs h b = None"
  shows "free_list (h\<lparr>objs := place_all a vs (objs h), nxt := n\<rparr>) (addrs a vs) = Some (h\<lparr>nxt := n\<rparr>)"
proof -
  let ?h = "h\<lparr>objs := place_all a vs (objs h), nxt := n\<rparr>"
  have "live_all (objs ?h) a vs" using live_place(2) assms(2) by simp
  then have "free_list ?h (addrs a vs) = Some (?h\<lparr>objs := cleared a (sum_list (map ticks vs)) (objs ?h)\<rparr>)"
    using free_list_all free_list_live assms(1) by blast
  moreover have "cleared a (sum_list (map ticks vs)) (place_all a vs (objs h)) = objs h"
    using assms(2) by (auto simp: cleared_def fun_eq_iff place_outside(2))
  ultimately show ?thesis by simp
qed

section \<open>Errors\<close>

lemma error_is_final:
  assumes "err r \<noteq> 0"
  shows "redisReaderFeed A r b n = Some (r, REDIS_ERR)" and "redisReaderGetReply r want = Some (r, 0, REDIS_ERR)"
  using assms by (simp_all add: redisReaderFeed_def redisReaderGetReply_def)

text \<open>What every error leaves behind: no buffer, no pending item, the code and a bounded message.\<close>

lemma setError_spec:
  assumes "fn r = Ptr defaultFunctions" and "reply r \<noteq> 0 \<Longrightarrow> freeReplyObject (world r) (reply r) = Some w"
    and "reply r = 0 \<Longrightarrow> w = world r"
  shows "\<exists>r'. redisReaderSetError r type msg = Some r' \<and> err r' = type \<and> errstr r' = take 127 (cstr msg) \<and>
    rbuf r' = Nullp \<and> ridx r' = -1 \<and> reply r' = 0 \<and> world r' = w"
  using assms
  by (cases "rbuf r") (auto simp: redisReaderSetError_def free_reply_def fn_field_def cstrlen_def Let_def)

lemma chrtos_fits: "snd (chrtos 8 c) < 8"
  by (simp add: chrtos_def snprintf_def hex_escape_def)

lemma protocol_error:
  assumes id: "idle r" and u: "unread r = c # u" and c: "type_of_byte c = Nullp"
  shows "\<exists>r'. redisReaderGetReply r want = Some (r', 0, REDIS_ERR) \<and> err r' = REDIS_ERR_PROTOCOL \<and>
    world r' = world r \<and> reply r' = 0 \<and>
    errstr r' = cstr (''Protocol error, got '' @ fst (chrtos 8 c) @ '' as reply type byte'')"
proof -
  from id have ok: "reader_ok r" and f: "fn r = Ptr defaultFunctions" and i: "ridx r = -1"
    and rp: "reply r = 0" by (auto simp: idle_def)
  from ok obtain s where s: "length (unread r) = rlen r - pos r" by (rule reader_okE)
  have l0: "rlen r \<noteq> 0" using s u by auto
  have e0: "err r = 0" and st: "length (rstack r) = 9" using ok by (auto simp: reader_ok_def)
  obtain r0 where r0: "begin_reply r = Some r0" "r0 = r\<lparr>rstack := (rstack r)[0 := root_task r], ridx := 0\<rparr>"
    using begin_reply_spec [OF i st] by blast
  have ok0: "reader_ok r0" using ok by (auto simp: reader_ok_def r0(2))
  have u0: "unread r0 = c # u" using u by (simp add: unread_def content_def r0(2))
  define msg where "msg = ''Protocol error, got '' @ fst (chrtos 8 c) @ '' as reply type byte''"
  have "length (fst (chrtos 8 c)) < 8" by (simp add: chrtos_def snprintf_def hex_escape_def)
  then have "length msg \<le> 127" by (simp add: msg_def)
  moreover have "length (cstr msg) \<le> length msg" by (simp add: cstr_def length_takeWhile_le)
  ultimately have fit: "take 127 msg = msg" "take 127 (cstr msg) = cstr msg" by auto
  have call: "redisReaderSetErrorProtocolByte (advance r0 1) c = redisReaderSetError (advance r0 1) REDIS_ERR_PROTOCOL msg"
    unfolding redisReaderSetErrorProtocolByte_def Let_def msg_def [symmetric] using fit(1)
    by (simp add: snprintf_def)
  have f0: "fn (advance r0 1) = Ptr defaultFunctions" "reply (advance r0 1) = 0" "world (advance r0 1) = world r"
    using f rp by (simp_all add: r0(2))
  have ex: "\<exists>r'. redisReaderSetError (advance r0 1) REDIS_ERR_PROTOCOL msg = Some r' \<and> err r' = REDIS_ERR_PROTOCOL \<and>
      errstr r' = take 127 (cstr msg) \<and> rbuf r' = Nullp \<and> ridx r' = -1 \<and> reply r' = 0 \<and> world r' = world r"
    by (rule setError_spec [OF f0(1)]) (use f0 in simp_all)
  obtain r' where r': "redisReaderSetErrorProtocolByte (advance r0 1) c = Some r'" "err r' = REDIS_ERR_PROTOCOL"
      "errstr r' = cstr msg" "ridx r' = -1" "reply r' = 0" "world r' = world r"
    using ex unfolding call fit(2) by blast
  have "get_task r0 0 = Some (root_task r)" using st by (simp add: get_task_def r0(2))
  moreover have "ridx r0 = 0" by (simp add: r0(2))
  moreover have "at_pos (advance r0 1) (pos r0) = Some (c # u @ slack r0)"
    using readBytes_one(2) [OF ok0 u0] by (simp add: at_pos_def)
  ultimately have "processItem r0 = Some (r', REDIS_ERR)"
    using readBytes_one(1) [OF ok0 u0] c r'(1) by (simp add: processItem_def peek_def root_task_def)
  then have "process_loop r0 = Some r'"
    using \<open>ridx r0 = 0\<close> by (subst process_loop.simps) (simp add: redis_codes)
  then have "redisReaderGetReply r want = Some (r', 0, REDIS_ERR)"
    unfolding redisReaderGetReply_def using e0 l0 r0(1) r'(2) by (simp add: redis_codes)
  with r' show ?thesis unfolding msg_def by blast
qed

section \<open>A stream read back\<close>

lemma stream_roundtrip:
  assumes "\<forall>n. grant A n" and "heap_ready h" and "\<forall>b \<ge> nxt h. objs h b = None" and "vs \<noteq> []"
    and "\<forall>v \<in> set vs. value_ok 0 v" and "length (concat (map encode vs)) < 2 ^ 31 - 1"
  shows "\<exists>r r1 r2. redisReaderCreate A h = Some (Ptr r) \<and>
    redisReaderFeed A r (Ptr (concat (map encode vs))) (length (concat (map encode vs))) = Some (r1, REDIS_OK) \<and>
    get_replies (length vs) r1 = Some (r2, addrs (nxt h) vs) \<and>
    live_all (objs (world r2)) (nxt h) vs \<and> unread r2 = []"
proof -
  let ?t = "concat (map encode vs)"
  obtain r where r: "redisReaderCreate A h = Some (Ptr r)" "idle r" "unread r = []" "world r = h" "pos r = 0"
    using create_idle [OF assms(1,2)] by blast
  then have z: "rlen r = 0" by (auto simp: idle_def elim: reader_okE)
  have ne: "?t \<noteq> []" using assms(4) length_encode [of "hd vs"] by (cases vs) auto
  have "rlen r + length ?t < 2 ^ 31 - 1" using z assms(6) by (simp only: add_0)
  then obtain r1 where f: "redisReaderFeed A r (Ptr ?t) (length ?t) = Some (r1, REDIS_OK)"
      "idle r1" "unread r1 = unread r @ ?t" "world r1 = world r"
    using feed_idle [OF assms(1) r(2) ne] by blast
  then have r1: "redisReaderFeed A r (Ptr ?t) (length ?t) = Some (r1, REDIS_OK)"
      "idle r1" "unread r1 = ?t" "world r1 = h" using r(3,4) by (simp_all only: append_Nil)
  obtain r2 where r2: "get_replies (length vs) r1 = Some (r2, addrs (nxt h) vs)" "unread r2 = []"
      "objs (world r2) = place_all (nxt h) vs (objs h)"
    using get_replies_spec [OF r1(2), of vs "[]"] r1(3,4) assms(5) by auto
  have "live_all (objs (world r2)) (nxt h) vs" unfolding r2(3) by (rule live_place(2)) (use assms(3) in simp)
  with r r1 r2 show ?thesis by blast
qed

end
