(* ===== verification/Reader_Split.thy ===== *)
theory Reader_Split
  imports Reader_Reply "HOL-Library.Sublist"
begin

text \<open>
  The reader does not depend on how its input is cut into pieces. A reader whose buffer holds only the
  first part of the bytes another one has (\<open>lags\<close>) either makes the same step, or stops and can
  make it when more bytes have been fed. So feeding a value piece by piece, and asking for a reply
  after each piece, gives the same reply as feeding it at once (\<open>awaits\<close>).
\<close>

section \<open>A reader that has less input\<close>

definition lags :: "bytes \<Rightarrow> rheap redisReader \<Rightarrow> rheap redisReader \<Rightarrow> bool" where
  "lags t r R \<longleftrightarrow> fn r = Ptr defaultFunctions \<and> reader_ok r \<and> reader_ok R \<and> unread R = unread r @ t \<and>
     rlen r + length t \<le> rlen R \<and> R = r\<lparr>rbuf := rbuf R, pos := pos R, rlen := rlen R\<rparr>"

lemma lagsD:
  assumes "lags t r R"
  shows "reader_ok r" "reader_ok R" "unread R = unread r @ t" "rstack R = rstack r" "ridx R = ridx r"
    "fn R = fn r" "world R = world r" "reply R = reply r" "get_task R i = get_task r i" "err r = 0" "err R = 0"
    "fn r = Ptr defaultFunctions" "privdata R = privdata r" "rlen r + length t \<le> rlen R"
proof -
  from assms have f: "fn r = Ptr defaultFunctions" unfolding lags_def by blast
  from assms have *: "reader_ok r" "reader_ok R" "unread R = unread r @ t"
    "R = r\<lparr>rbuf := rbuf R, pos := pos R, rlen := rlen R\<rparr>" unfolding lags_def by blast+
  show "reader_ok r" "reader_ok R" "unread R = unread r @ t" by fact+
  show "err r = 0" "err R = 0" using *(1,2) by (simp_all add: reader_ok_def)
  show "fn r = Ptr defaultFunctions" by fact
  show "rlen r + length t \<le> rlen R" using assms unfolding lags_def by blast
  show "privdata R = privdata r" "rstack R = rstack r" "ridx R = ridx r" "fn R = fn r" "world R = world r" "reply R = reply r"
    by (subst *(4), simp)+
  then show "get_task R i = get_task r i" by (simp add: get_task_def)
qed

lemma lags_advance:
  assumes "lags t r R" and "n \<le> length (unread r)"
  shows "lags t (advance r n) (advance R n)"
proof -
  note d = lagsD [OF assms(1)]
  have "n \<le> length (unread R)" using assms(2) d(3) by simp
  with reader_ok_advance [OF d(1) assms(2)] reader_ok_advance [OF d(2) this] assms
  show ?thesis by (cases r; cases R) (auto simp: lags_def advance_def)
qed

text \<open>Fields the scanning does not look at may be changed alike on both sides.\<close>

lemma lags_update:
  assumes "lags t r R"
  shows "lags t (r\<lparr>world := w\<rparr>) (R\<lparr>world := w\<rparr>)" "lags t (r\<lparr>reply := a\<rparr>) (R\<lparr>reply := a\<rparr>)"
    "lags t (r\<lparr>ridx := i\<rparr>) (R\<lparr>ridx := i\<rparr>)"
    "length st = 9 \<Longrightarrow> lags t (r\<lparr>rstack := st\<rparr>) (R\<lparr>rstack := st\<rparr>)"
  using assms by (cases r; cases R; auto simp: lags_def reader_ok_def unread_def content_def)+

lemma lags_set_task:
  assumes "lags t r R" and "set_task R i x = Some R1"
  shows "\<exists>r1. set_task r i x = Some r1 \<and> lags t r1 R1 \<and> ridx r1 = ridx r"
proof -
  note d = lagsD [OF assms(1)]
  have "length (rstack r) = 9" using d(1) by (simp add: reader_ok_def)
  then have "lags t (r\<lparr>rstack := (rstack r)[nat i := x]\<rparr>) (R\<lparr>rstack := (rstack r)[nat i := x]\<rparr>)"
    by (intro lags_update(4) [OF assms(1)]) simp
  with assms(2) d show ?thesis by (auto simp: set_task_def split: if_splits)
qed

lemma lags_move:
  "lags t r R \<Longrightarrow> moveToNextTask R = Some R1 \<Longrightarrow> \<exists>r1. moveToNextTask r = Some r1 \<and> lags t r1 R1"
proof (induction R arbitrary: r rule: moveToNextTask.induct)
  case (1 R)
  note d = lagsD [OF "1.prems"(1)]
  consider (out) "ridx R < 0" | (top) "ridx R = 0" | (sub) "0 < ridx R" by linarith
  then show ?case
  proof cases
    case out
    then show ?thesis using "1.prems" d(5) by (simp add: moveToNextTask.simps [of R] moveToNextTask.simps [of r])
  next
    case top
    then show ?thesis
      using "1.prems" d(5) lags_update(3) [OF "1.prems"(1), of "-1"]
      by (auto simp: moveToNextTask.simps [of R] moveToNextTask.simps [of r])
  next
    case sub
    then have s: "0 \<le> ridx R" "ridx R \<noteq> 0" "0 \<le> ridx r" "ridx r \<noteq> 0" using d(5) by auto
    with "1.prems"(2) obtain cur prv where t: "get_task R (ridx R) = Some cur" "get_task R (ridx R - 1) = Some prv"
      by (auto simp: moveToNextTask.simps [of R] split: option.splits)
    then have t': "get_task r (ridx r) = Some cur" "get_task r (ridx r - 1) = Some prv" using d by simp_all
    from "1.prems"(2) s t have a: "ttype prv = REDIS_REPLY_ARRAY"
      by (auto simp: moveToNextTask.simps [of R] split: if_splits)
    show ?thesis
    proof (cases "idx cur = int32 (telements prv - 1)")
      case True
      have "moveToNextTask (R\<lparr>ridx := ridx R - 1\<rparr>) = Some R1"
        using "1.prems"(2) s t a True by (simp add: moveToNextTask.simps [of R])
      from "1.IH" [OF s(1,2) refl t _ True lags_update(3) [OF "1.prems"(1)] this] a
      obtain r1 where "moveToNextTask (r\<lparr>ridx := ridx R - 1\<rparr>) = Some r1" "lags t r1 R1" by auto
      then show ?thesis using s t' a True d(5) by (subst moveToNextTask.simps) simp
    next
      case False
      let ?x = "cur\<lparr>ttype := -1, telements := -1, idx := int32 (idx cur + 1)\<rparr>"
      have "set_task R (ridx R) ?x = Some R1" and lt: "idx cur < telements prv"
        using "1.prems"(2) s t a False by (auto simp: moveToNextTask.simps [of R] split: if_splits)
      with lags_set_task [OF "1.prems"(1)] d(5) obtain r1 where "set_task r (ridx r) ?x = Some r1" "lags t r1 R1"
        by metis
      then show ?thesis using s t' a False lt by (subst moveToNextTask.simps) simp
    qed
  qed
qed

section \<open>Lines\<close>

lemma at_pos_now: "reader_ok r \<Longrightarrow> at_pos r (pos r) = Some (unread r @ slack r)"
  using at_pos_unread [of r 0] by simp

lemma seek_unread:
  assumes "reader_ok r"
  obtains (none) "seekNewline (unread r @ slack r) (length (unread r)) = Some Nullp"
      "\<forall>i. \<not> line_end (unread r) i"
  | (found) k where "seekNewline (unread r @ slack r) (length (unread r)) = Some (Ptr k)"
      "line_end (unread r) k" "\<forall>i < k. \<not> line_end (unread r) i"
proof -
  let ?u = "unread r"
  have n: "length ?u \<le> length (?u @ slack r)" "length ?u \<le> 2 ^ 31" using left_unread(2) [OF assms] by simp_all
  have le: "Suc i < length ?u \<and> line_end (?u @ slack r) i \<longleftrightarrow> line_end ?u i" for i
    by (auto simp: line_end_def nth_append)
  from seekNewline_spec [OF n] obtain p where p: "seekNewline (?u @ slack r) (length ?u) = Some p"
    "case p of
       Nullp \<Rightarrow> \<forall>i. Suc i < length ?u \<longrightarrow> \<not> line_end (?u @ slack r) i
     | Ptr k \<Rightarrow> Suc k < length ?u \<and> line_end (?u @ slack r) k \<and> (\<forall>i < k. \<not> line_end (?u @ slack r) i)" by blast
  show thesis
  proof (cases p)
    case Nullp
    then show thesis using p le by (intro none) auto
  next
    case (Ptr k)
    then have "line_end ?u k" using p(2) le [of k] by simp
    moreover have "\<not> line_end ?u i" if "i < k" for i using that p(2) Ptr le [of i] by auto
    ultimately show thesis using p(1) Ptr by (intro found) auto
  qed
qed

text \<open>The first line end of the shorter input is that of the longer one.\<close>

lemma lags_seek:
  assumes "lags t r R"
  obtains (none) "t \<noteq> []" "seekNewline (unread r @ slack r) (length (unread r)) = Some Nullp"
  | (nowhere) "seekNewline (unread r @ slack r) (length (unread r)) = Some Nullp"
      "seekNewline (unread R @ slack R) (length (unread R)) = Some Nullp"
  | (found) k where "line_end (unread r) k"
      "seekNewline (unread r @ slack r) (length (unread r)) = Some (Ptr k)"
      "seekNewline (unread R @ slack R) (length (unread R)) = Some (Ptr k)"
proof -
  note d = lagsD [OF assms]
  have ext: "line_end (unread r) i \<Longrightarrow> line_end (unread R) i" for i
    using d(3) by (auto simp: line_end_def nth_append)
  have bck: "line_end (unread R) i \<Longrightarrow> i < k \<Longrightarrow> line_end (unread r) k \<Longrightarrow> line_end (unread r) i" for i k
    using d(3) by (auto simp: line_end_def nth_append)
  from d(1) show thesis
  proof (cases rule: seek_unread)
    case none
    then show thesis using d(2,3) that(1,2) by (cases "t = []") (auto elim: seek_unread)
  next
    case (found k)
    note k = this
    from d(2) show thesis
    proof (cases rule: seek_unread)
      case none
      then show thesis using k ext by blast
    next
      case (found j)
      have "j = k" using found(2,3) k(2,3) ext bck by (metis linorder_neqE_nat)
      then show thesis using k(1,2) found(1) by (intro that(3)) auto
    qed
  qed
qed

lemma lags_readLine:
  assumes "lags t r R"
  obtains (none) "t \<noteq> []" "readLine r = Some (r, Nullp)"
  | (nowhere) "readLine R = Some (R, Nullp)"
  | (found) k where "line_end (unread r) k"
      "readLine r = Some (advance r (k + 2), Ptr (pos r, int k))"
      "readLine R = Some (advance R (k + 2), Ptr (pos R, int k))"
proof -
  note d = lagsD [OF assms]
  have line: "readLine q = Some (advance q (k + 2), Ptr (pos q, int k))"
    if q: "reader_ok q" "line_end (unread q) k" "seekNewline (unread q @ slack q) (length (unread q)) = Some (Ptr k)"
    for q :: "rheap redisReader" and k
  proof -
    have n: "k + 2 \<le> length (unread q)" using q(2) by (simp add: line_end_def)
    note ad = reader_ok_advance(4) [OF q(1) n]
    have "int32 (int k) = int k" using ad by (simp add: int32_id)
    moreover have "usz_of_int (int (pos q) + int k + 2) = pos q + (k + 2)"
      using ad by (simp add: usz_of_int_def nat_mod_as_int nat_int_add flip: of_nat_add)
    ultimately show ?thesis
      using q(3) left_unread(1) [OF q(1)] at_pos_now [OF q(1)] by (simp add: readLine_def advance_def Let_def)
  qed
  have no_line: "readLine q = Some (q, Nullp)"
    if "reader_ok q" "seekNewline (unread q @ slack q) (length (unread q)) = Some Nullp" for q :: "rheap redisReader"
    using that left_unread(1) [of q] at_pos_now [of q] by (simp add: readLine_def)
  from assms show thesis
  proof (cases rule: lags_seek)
    case none
    then show thesis using no_line [OF d(1)] by (intro that(1))
  next
    case nowhere
    then show thesis using no_line [OF d(2)] by (intro that(2))
  next
    case (found k)
    moreover have "line_end (unread R) k" using found(1) d(3) by (auto simp: line_end_def nth_append)
    ultimately show thesis using line d(1,2) by (intro that(3)) auto
  qed
qed

text \<open>A number that is ended by a carriage return is read alike.\<close>

lemma long_loop_CR: "long_loop m v (l @ CR # s) = long_loop m v (l @ CR # s')"
  by (induction l arbitrary: v) (simp_all add: Let_def)

lemma readLongLong_CR: "readLongLong (l @ CR # s) = readLongLong (l @ CR # s')"
  by (cases l) (simp_all add: readLongLong_def peek_def long_loop_CR)

lemma lags_number:
  assumes "lags t r R" and "line_end (unread r) k"
  shows "readLongLong (unread R @ x) = readLongLong (unread r @ y)"
proof -
  have k: "k < length (unread r)" "unread r ! k = CR" using assms(2) by (auto simp: line_end_def)
  then have u: "unread r = take k (unread r) @ CR # drop (Suc k) (unread r)" by (metis id_take_nth_drop)
  have "unread R @ x = take k (unread r) @ CR # (drop (Suc k) (unread r) @ t @ x)"
    unfolding lagsD(3) [OF assms(1)] by (subst u) simp
  moreover have "unread r @ y = take k (unread r) @ CR # (drop (Suc k) (unread r) @ y)" by (subst u) simp
  ultimately show ?thesis by (metis readLongLong_CR)
qed

section \<open>Items\<close>

lemma lags_via_world:
  assumes "lags t r R" and "via_fn field call dflt R = Some (R1, a)"
    and "\<And>f. fn_field field R = Ptr f \<Longrightarrow> call' f = call f"
  shows "\<exists>w. R1 = R\<lparr>world := w\<rparr> \<and> via_fn field call' dflt r = Some (r\<lparr>world := w\<rparr>, a) \<and>
    lags t (r\<lparr>world := w\<rparr>) R1"
proof -
  note d = lagsD [OF assms(1)]
  have f: "fn_field field r = fn_field field R" using d(6) by (simp add: fn_field_def)
  show ?thesis
  proof (cases "fn_field field R")
    case Nullp
    then have "R1 = R" "a = dflt" using assms(2) by (simp_all add: via_fn_def)
    moreover have "r\<lparr>world := world R\<rparr> = r" using d(7) by (cases r; cases R) simp
    ultimately show ?thesis using assms(1) Nullp f by (intro exI [of _ "world R"]) (simp add: via_fn_def)
  next
    case (Ptr g)
    then obtain w where "call g = Some (w, a)" "R1 = R\<lparr>world := w\<rparr>"
      using assms(2) by (auto simp: via_fn_def split: bind_splits)
    then show ?thesis
      using Ptr f assms(3) [OF Ptr] lags_update(1) [OF assms(1)] by (intro exI [of _ w]) (simp add: via_fn_def)
  qed
qed

lemma lags_via:
  assumes "lags t r R" and "via_fn field call dflt R = Some (R1, a)"
    and "\<And>f. fn_field field R = Ptr f \<Longrightarrow> call' f = call f"
  shows "\<exists>r1. via_fn field call' dflt r = Some (r1, a) \<and> lags t r1 R1"
  using lags_via_world [OF assms] by blast

text \<open>The end of an item: the object is stored if it is the root, and the next task is taken.\<close>

definition end_item :: "nat \<Rightarrow> 'h redisReader \<Rightarrow> ('h redisReader \<times> int) option" where
  "end_item a r =
     (if a = 0 then do { r \<leftarrow> redisReaderSetErrorOOM r; Some (r, REDIS_ERR) }
      else do {
        let r = (if ridx r = 0 then r\<lparr>reply := a\<rparr> else r);
        r \<leftarrow> moveToNextTask r;
        Some (r, REDIS_OK) })"

lemma lags_end:
  assumes "lags t r R" and "end_item a R = Some (R1, REDIS_OK)"
  shows "\<exists>r1. end_item a r = Some (r1, REDIS_OK) \<and> lags t r1 R1"
proof -
  note d = lagsD [OF assms(1)]
  have a: "a \<noteq> 0" and m: "moveToNextTask (if ridx R = 0 then R\<lparr>reply := a\<rparr> else R) = Some R1"
    using assms(2) by (auto simp: end_item_def Let_def redis_codes split: if_splits bind_splits)
  have "lags t (if ridx r = 0 then r\<lparr>reply := a\<rparr> else r) (if ridx R = 0 then R\<lparr>reply := a\<rparr> else R)"
    using assms(1) lags_update(2) d(5) by auto
  from lags_move [OF this m] a show ?thesis by (auto simp: end_item_def)
qed

text \<open>
  What the reader with less input does when the other one completes an item: the same, or nothing.
\<close>

definition follows :: "bytes \<Rightarrow> rheap redisReader \<Rightarrow> (rheap redisReader \<times> int) option \<Rightarrow> rheap redisReader \<Rightarrow> bool" where
  "follows t r x R1 \<longleftrightarrow>
     (\<exists>r1. x = Some (r1, REDIS_OK) \<and> lags t r1 R1) \<or> (t \<noteq> [] \<and> x = Some (r, REDIS_ERR))"

lemma lags_text:
  assumes "lags t r R" and "n \<le> length (unread r)"
  shows "take n (unread R @ x) = take n (unread r @ y)"
  using assms lagsD(3) [OF assms(1)] by simp

lemma get_bytes_cong:
  "n \<le> length s \<Longrightarrow> take n s = take n s' \<Longrightarrow> get_bytes s 0 n = get_bytes s' 0 n"
  by (metis (no_types, lifting) add_0 drop0 get_bytes_def length_take min.absorb2 min.cobounded1)

lemma createStringObject_cong:
  "n \<le> length s \<Longrightarrow> take n s = take n s' \<Longrightarrow>
    createStringObject h st c s' n = createStringObject h st c s n"
  using get_bytes_cong [of n s s'] by (simp add: createStringObject_def cong: if_cong)

text \<open>A line item with its end as a unit of its own.\<close>

lemma processLineItem_alt: "processLineItem q = do {
     cur \<leftarrow> get_task q (ridx q);
     (q, p) \<leftarrow> readLine q;
     (case p of
        Nullp \<Rightarrow> Some (q, REDIS_ERR)
      | Ptr (p, len) \<Rightarrow> do {
          (q, obj) \<leftarrow>
            (if ttype cur = REDIS_REPLY_INTEGER
             then via_fn createInteger
                    (\<lambda>f. do { s \<leftarrow> at_pos q p; v \<leftarrow> readLongLong s; f (world q) (rstack q) cur v })
                    (nat REDIS_REPLY_INTEGER) q
             else via_fn createString
                    (\<lambda>f. do { s \<leftarrow> at_pos q p; f (world q) (rstack q) cur s (usz_of_int len) })
                    (usz_of_int (ttype cur)) q);
          end_item obj q }) }"
  unfolding processLineItem_def end_item_def ..

lemma follows_line:
  assumes l: "lags t r R" and y: "processLineItem R = Some (R1, REDIS_OK)"
  shows "follows t r (processLineItem r) R1"
proof -
  note d = lagsD [OF l] and f = lagsD(12) [OF l]
  from y obtain cur where c: "get_task R (ridx R) = Some cur" by (auto simp: processLineItem_alt split: bind_splits)
  then have c': "get_task r (ridx r) = Some cur" using d by simp
  from l show ?thesis
  proof (cases rule: lags_readLine)
    case none
    then show ?thesis using c' by (simp add: processLineItem_alt follows_def)
  next
    case nowhere
    then show ?thesis using y c by (simp add: processLineItem_alt redis_codes)
  next
    case (found k)
    have n: "k + 2 \<le> length (unread r)" using found(1) by (simp add: line_end_def)
    let ?r = "advance r (k + 2)" and ?R = "advance R (k + 2)"
    have l': "lags t ?r ?R" by (rule lags_advance [OF l n])
    have a: "at_pos ?r (pos r) = Some (unread r @ slack r)" "at_pos ?R (pos R) = Some (unread R @ slack R)"
      using at_pos_now d(1,2) by (simp_all add: at_pos_def)
    have k: "usz_of_int (int k) = k" using n left_unread(2) [OF d(1)] by (simp add: usz_of_int_id)
    have num: "readLongLong (unread R @ slack R) = readLongLong (unread r @ slack r)"
      by (rule lags_number [OF l found(1)])
    have str: "createStringObject h st c (unread r @ slack r) k = createStringObject h st c (unread R @ slack R) k"
      for h st c using n d(3) by (intro createStringObject_cong) simp_all
    show ?thesis
    proof (cases "ttype cur = REDIS_REPLY_INTEGER")
      case True
      let ?call = "\<lambda>q s f. do { v \<leftarrow> readLongLong s; f (world q) (rstack q) cur v }"
      from y obtain R2 obj where v: "via_fn createInteger (?call ?R (unread R @ slack R)) (nat REDIS_REPLY_INTEGER) ?R = Some (R2, obj)"
        and e: "end_item obj R2 = Some (R1, REDIS_OK)"
        using c found(3) a True by (auto simp: processLineItem_alt split: bind_splits)
      have "\<exists>r2. via_fn createInteger (?call ?r (unread r @ slack r)) (nat REDIS_REPLY_INTEGER) ?r = Some (r2, obj) \<and> lags t r2 R2"
        by (rule lags_via [OF l' v]) (simp add: num d(4,7))
      with lags_end [OF _ e] show ?thesis using c' found(2) a True by (fastforce simp: processLineItem_alt follows_def)
    next
      case False
      let ?call = "\<lambda>q s f. f (world q) (rstack q) cur s k"
      from y obtain R2 obj where v: "via_fn createString (?call ?R (unread R @ slack R)) (usz_of_int (ttype cur)) ?R = Some (R2, obj)"
        and e: "end_item obj R2 = Some (R1, REDIS_OK)"
        using c found(3) a False k by (auto simp: processLineItem_alt split: bind_splits)
      have "\<exists>r2. via_fn createString (?call ?r (unread r @ slack r)) (usz_of_int (ttype cur)) ?r = Some (r2, obj) \<and> lags t r2 R2"
      proof (rule lags_via [OF l' v])
        fix g
        assume "fn_field createString (advance R (k + 2)) = Ptr g"
        then have "g = createStringObject" using d(6) f by (simp add: fn_field_def)
        then show "?call ?r (unread r @ slack r) g = ?call ?R (unread R @ slack R) g" using str d(4,7) by simp
      qed
      with lags_end [OF _ e] show ?thesis using c' found(2) a False k by (fastforce simp: processLineItem_alt follows_def)
    qed
  qed
qed

text \<open>The size of a bulk item: the arithmetic on \<open>size_t\<close> and \<open>long long\<close> does not wrap.\<close>

lemma readLongLong_range: "readLongLong s = Some v \<Longrightarrow> - (2 ^ 63) \<le> v \<and> v < 2 ^ 63"
proof -
  have "long_loop m x s = Some v \<Longrightarrow> - (2 ^ 63) \<le> v \<and> v < 2 ^ 63" for m x s v
    by (induction s arbitrary: x) (auto simp: int64_def Let_def split: if_splits)
  then show "readLongLong s = Some v \<Longrightarrow> - (2 ^ 63) \<le> v \<and> v < 2 ^ 63"
    by (auto simp: readLongLong_def split: if_splits bind_splits)
qed

lemma bulk_size:
  assumes "0 \<le> v" and "v < 2 ^ 63" and "k < 2 ^ 31"
  shows "usz_of_int (int (usz (k + 2)) + int64 (v + 2)) = k + 4 + nat v"
proof -
  have "usz (k + 2) = k + 2" using assms(3) by simp
  moreover have "(int (k + 2) + int64 (v + 2)) mod 2 ^ 64 = (int (k + 2) + (v + 2)) mod 2 ^ 64"
    by (metis int64_mod mod_add_right_eq)
  moreover have "(int (k + 2) + (v + 2)) mod 2 ^ 64 = int (k + 4) + v" using assms by simp
  ultimately show ?thesis using assms(1) by (simp add: usz_of_int_def nat_add_distrib)
qed

lemma bulk_room:
  assumes "reader_ok r" and "k < 2 ^ 31" and "v < 2 ^ 63"
  shows "usz (pos r + (k + 4 + nat v)) \<le> rlen r \<longleftrightarrow> k + 4 + nat v \<le> length (unread r)"
    and "k + 4 + nat v \<le> length (unread r) \<Longrightarrow> usz (pos r + (k + 4 + nat v)) = pos r + (k + 4 + nat v)"
proof -
  from assms(1) obtain b where b: "pos r \<le> rlen r" "rlen r < 2 ^ 31 - 1" "length (unread r) = rlen r - pos r"
    by (rule reader_okE)
  have "nat v < 2 ^ 63" using assms(3) by simp
  then have "pos r + (k + 4 + nat v) < 2 ^ 64" using b assms(2) by simp
  then show "usz (pos r + (k + 4 + nat v)) = pos r + (k + 4 + nat v)" by simp
  with b show "usz (pos r + (k + 4 + nat v)) \<le> rlen r \<longleftrightarrow> k + 4 + nat v \<le> length (unread r)"
    by auto
qed

text \<open>The end of a bulk item, and how such an item is processed: NULL, complete, or incomplete.\<close>

definition bulk_end :: "nat \<Rightarrow> nat \<Rightarrow> 'h redisReader \<Rightarrow> ('h redisReader \<times> int) option" where
  "bulk_end obj n r =
     (if obj = 0 then do { r \<leftarrow> redisReaderSetErrorOOM r; Some (r, REDIS_ERR) }
      else end_item obj (r\<lparr>pos := usz (pos r + n)\<rparr>))"

lemma lags_bulk_end:
  assumes l: "lags t r R" and n: "n \<le> length (unread r)" and e: "bulk_end obj n R = Some (R1, REDIS_OK)"
  shows "\<exists>r1. bulk_end obj n r = Some (r1, REDIS_OK) \<and> lags t r1 R1"
proof -
  note d = lagsD [OF l]
  have o: "obj \<noteq> 0" using e by (auto simp: bulk_end_def redis_codes split: bind_splits if_splits)
  have N: "n \<le> length (unread R)" using n d(3) by simp
  have "usz (pos r + n) = pos r + n" "usz (pos R + n) = pos R + n"
    using reader_ok_advance(4) [OF d(1) n] reader_ok_advance(4) [OF d(2) N] by simp_all
  then show ?thesis using e o lags_end [OF lags_advance [OF l n], of obj R1] by (simp add: bulk_end_def advance_def)
qed

lemma bulk_run:
  assumes "reader_ok q" and "get_task q (ridx q) = Some cur" and "seekNewline (unread q @ slack q) (length (unread q)) = Some (Ptr k)"
    and "k < 2 ^ 31" and v: "readLongLong (unread q @ slack q) = Some v"
  shows "v < 0 \<Longrightarrow> processBulkItem q = do {
      (x, obj) \<leftarrow> via_fn createNil (\<lambda>f. f (world q) (rstack q) cur) (nat REDIS_REPLY_NIL) q; bulk_end obj (k + 2) x }"
    "0 \<le> v \<Longrightarrow> k + 4 + nat v \<le> length (unread q) \<Longrightarrow> processBulkItem q = do {
      (x, obj) \<leftarrow> via_fn createString (\<lambda>f. f (world q) (rstack q) cur (drop (k + 2) (unread q) @ slack q) (nat v))
        (nat REDIS_REPLY_STRING) q;
      bulk_end obj (k + 4 + nat v) x }"
    "0 \<le> v \<Longrightarrow> \<not> k + 4 + nat v \<le> length (unread q) \<Longrightarrow> processBulkItem q = Some (q, REDIS_ERR)"
proof -
  note run = processBulkItem_def assms(2,3) v at_pos_now [OF assms(1)] left_unread(1) [OF assms(1)] bulk_end_def end_item_def Let_def
  have k: "usz (k + 2) = k + 2" "usz (Suc (Suc k)) = Suc (Suc k)" using assms(4) by simp_all
  note rng = readLongLong_range [OF v]
  show "v < 0 \<Longrightarrow> processBulkItem q = do {
      (x, obj) \<leftarrow> via_fn createNil (\<lambda>f. f (world q) (rstack q) cur) (nat REDIS_REPLY_NIL) q; bulk_end obj (k + 2) x }"
    by (cases "via_fn createNil (\<lambda>f. f (world q) (rstack q) cur) (nat REDIS_REPLY_NIL) q") (auto simp: run k)
  assume p: "0 \<le> v"
  have sz: "usz_of_int (int (k + 2) + int64 (v + 2)) = k + 4 + nat v" "usz_of_int v = nat v"
    using bulk_size [of v k] p rng assms(4) k by (simp_all add: usz_of_int_id)
  note room = bulk_room [OF assms(1,4), of v]
  show "processBulkItem q = Some (q, REDIS_ERR)" if "\<not> k + 4 + nat v \<le> length (unread q)"
    using that p sz room(1) rng by (simp add: run k)
  assume fits: "k + 4 + nat v \<le> length (unread q)"
  have at: "at_pos q (pos q + k + 2) = Some (drop (k + 2) (unread q) @ slack q)"
    using at_pos_unread [OF assms(1), of "k + 2"] fits by (simp add: add.assoc)
  let ?via = "via_fn createString (\<lambda>f. f (world q) (rstack q) cur (drop (k + 2) (unread q) @ slack q) (nat v)) (nat REDIS_REPLY_STRING) q"
  show "processBulkItem q = do { (x, obj) \<leftarrow> ?via; bulk_end obj (k + 4 + nat v) x }"
    using p sz room(1) rng fits at by (cases ?via) (auto simp: run k)
qed

lemma follows_bulk:
  assumes l: "lags t r R" and y: "processBulkItem R = Some (R1, REDIS_OK)"
  shows "follows t r (processBulkItem r) R1"
proof -
  note d = lagsD [OF l] and f = lagsD(12) [OF l]
  from y obtain cur where c: "get_task R (ridx R) = Some cur" by (auto simp: processBulkItem_def split: bind_splits)
  then have c': "get_task r (ridx r) = Some cur" using d by simp
  note b = at_pos_now [OF d(1)] at_pos_now [OF d(2)] left_unread(1) [OF d(1)] left_unread(1) [OF d(2)]
  from l show ?thesis
  proof (cases rule: lags_seek)
    case none
    then show ?thesis using c' b by (simp add: processBulkItem_def follows_def)
  next
    case nowhere
    then show ?thesis using y c b by (simp add: processBulkItem_def redis_codes)
  next
    case (found k)
    have n: "k + 2 \<le> length (unread r)" using found(1) by (simp add: line_end_def)
    have k: "k < 2 ^ 31" using n left_unread(2) [OF d(1)] by simp
    from y obtain v where v: "readLongLong (unread R @ slack R) = Some v"
      using c b found by (auto simp: processBulkItem_def Let_def split: bind_splits)
    then have v': "readLongLong (unread r @ slack r) = Some v" using lags_number [OF l found(1), of "slack R" "slack r"] by simp
    note runR = bulk_run [OF d(2) c found(3) k v] and runr = bulk_run [OF d(1) c' found(2) k v']
    have fin: "follows t r (do { (x, obj) \<leftarrow> V; bulk_end obj m x }) R1"
      if "V = Some (r\<lparr>world := w\<rparr>, obj)" "lags t (r\<lparr>world := w\<rparr>) R2" "bulk_end obj m R2 = Some (R1, REDIS_OK)" "m \<le> length (unread r)"
      for V w obj R2 m
    proof -
      have "m \<le> length (unread (r\<lparr>world := w\<rparr>))" using that(4) by (simp add: unread_def content_def)
      from lags_bulk_end [OF that(2) this that(3)] that(1) show ?thesis by (auto simp: follows_def)
    qed
    show ?thesis
    proof (cases "v < 0")
      case True
      from y obtain R2 obj where via: "via_fn createNil (\<lambda>f. f (world R) (rstack R) cur) (nat REDIS_REPLY_NIL) R = Some (R2, obj)"
        and e: "bulk_end obj (k + 2) R2 = Some (R1, REDIS_OK)" unfolding runR(1) [OF True] by (auto split: bind_splits)
      from lags_via_world [OF l via, of "\<lambda>f. f (world r) (rstack r) cur"] d(4,7) e n show ?thesis
        unfolding runr(1) [OF True] by (auto intro: fin)
    next
      case False
      then have p: "0 \<le> v" by simp
      have fits: "k + 4 + nat v \<le> length (unread R)" using y runR(3) [OF p] by (auto simp: redis_codes)
      show ?thesis
      proof (cases "k + 4 + nat v \<le> length (unread r)")
        case short: False
        then show ?thesis using fits d(3) runr(3) [OF p] by (auto simp: follows_def)
      next
        case long: True
        let ?s = "drop (k + 2) (unread r) @ slack r" and ?S = "drop (k + 2) (unread R) @ slack R"
        from y obtain R2 obj where
          via: "via_fn createString (\<lambda>f. f (world R) (rstack R) cur ?S (nat v)) (nat REDIS_REPLY_STRING) R = Some (R2, obj)"
          and e: "bulk_end obj (k + 4 + nat v) R2 = Some (R1, REDIS_OK)" unfolding runR(2) [OF p fits] by (auto split: bind_splits)
        have str: "createStringObject h st c ?s (nat v) = createStringObject h st c ?S (nat v)" for h st c
          using long d(3) by (intro createStringObject_cong) simp_all
        have "f (world r) (rstack r) cur ?s (nat v) = f (world R) (rstack R) cur ?S (nat v)"
          if "fn_field createString R = Ptr f" for f
          using that str d(4,6,7) lagsD(12) [OF l] by (simp add: fn_field_def)
        then have "\<exists>w. R2 = R\<lparr>world := w\<rparr> \<and> via_fn createString (\<lambda>f. f (world r) (rstack r) cur ?s (nat v)) (nat REDIS_REPLY_STRING) r =
            Some (r\<lparr>world := w\<rparr>, obj) \<and> lags t (r\<lparr>world := w\<rparr>) R2"
          by (rule lags_via_world [OF l via])
        then show ?thesis using e long unfolding runr(2) [OF p long] by (auto intro: fin)
      qed
    qed
  qed
qed

lemma lags_push:
  assumes "lags t r R" and "push_task R cur n a = Some R1"
  shows "\<exists>r1. push_task r cur n a = Some r1 \<and> lags t r1 R1"
proof -
  note d = lagsD [OF assms(1)]
  let ?x = "cur\<lparr>telements := int32 n, tobj := a\<rparr>"
  let ?y = "\<lparr>ttype = -1, telements = -1, idx = 0, tobj = 0, tparent = Ptr (nat (ridx r)), tprivdata = privdata r\<rparr>"
  from assms(2) obtain R2 where R2: "set_task R (ridx R) ?x = Some R2"
      "set_task (R2\<lparr>ridx := ridx R + 1\<rparr>) (ridx R + 1) (?y\<lparr>tprivdata := privdata R2\<rparr>) = Some R1"
    by (auto simp: push_task_def Let_def d(5) split: bind_splits)
  from lags_set_task [OF assms(1) R2(1)] obtain r2 where r2: "set_task r (ridx r) ?x = Some r2" "lags t r2 R2"
    using d(5) by auto
  from lags_set_task [OF lags_update(3) [OF r2(2)] R2(2)] obtain r1 where
    "set_task (r2\<lparr>ridx := ridx R + 1\<rparr>) (ridx R + 1) (?y\<lparr>tprivdata := privdata R2\<rparr>) = Some r1" "lags t r1 R1"
    by blast
  with r2(1) lagsD(13) [OF r2(2)] d(5) show ?thesis by (simp add: push_task_def)
qed

text \<open>An array header: the object of the array, or NULL, and what is read next.\<close>

definition multi_via :: "redisReadTask \<Rightarrow> int \<Rightarrow> 'h redisReader \<Rightarrow> ('h redisReader \<times> nat) option" where
  "multi_via cur v q =
     (if v = -1 then via_fn createNil (\<lambda>f. f (world q) (rstack q) cur) (nat REDIS_REPLY_NIL) q
      else via_fn createArray (\<lambda>f. f (world q) (rstack q) cur (int32 v)) (nat REDIS_REPLY_ARRAY) q)"

definition multi_next :: "redisReadTask \<Rightarrow> int \<Rightarrow> 'h redisReader \<Rightarrow> nat \<Rightarrow> 'h redisReader option" where
  "multi_next cur v q a = (if 0 < v then push_task q cur v a else moveToNextTask q)"

lemma multi_run:
  assumes "get_task q (ridx q) = Some cur" "ridx q \<noteq> 8" "readLine q = Some (q', Ptr (p, int k))"
    "at_pos q' p = Some s" "readLongLong s = Some v"
  shows "processMultiBulkItem q = do {
      (x, obj) \<leftarrow> multi_via cur v q';
      (if obj = 0 then do { x \<leftarrow> redisReaderSetErrorOOM x; Some (x, REDIS_ERR) }
       else do { x \<leftarrow> multi_next cur v x obj; Some (if ridx q' = 0 then x\<lparr>reply := obj\<rparr> else x, REDIS_OK) }) }"
  unfolding multi_next_def using assms by (simp add: processMultiBulkItem_def multi_via_def)

lemma lags_multi_via:
  assumes l: "lags t r R" and R2: "multi_via cur v R = Some (R2, obj)"
  shows "\<exists>r2. multi_via cur v r = Some (r2, obj) \<and> lags t r2 R2"
proof (cases "v = -1")
  case True
  then have "via_fn createNil (\<lambda>f. f (world R) (rstack R) cur) (nat REDIS_REPLY_NIL) R = Some (R2, obj)"
    using R2 by (simp add: multi_via_def)
  from lags_via [OF l this, of "\<lambda>f. f (world r) (rstack r) cur"] True lagsD(4,7) [OF l] show ?thesis by (simp add: multi_via_def)
next
  case False
  then have "via_fn createArray (\<lambda>f. f (world R) (rstack R) cur (int32 v)) (nat REDIS_REPLY_ARRAY) R = Some (R2, obj)"
    using R2 by (simp add: multi_via_def)
  from lags_via [OF l this, of "\<lambda>f. f (world r) (rstack r) cur (int32 v)"] False lagsD(4,7) [OF l]
  show ?thesis by (simp add: multi_via_def)
qed

lemma lags_multi_next: "lags t r R \<Longrightarrow> multi_next cur v R a = Some R3 \<Longrightarrow> \<exists>r3. multi_next cur v r a = Some r3 \<and> lags t r3 R3"
  using lags_push lags_move by (auto simp: multi_next_def split: if_splits)

lemma follows_multi:
  assumes l: "lags t r R" and y: "processMultiBulkItem R = Some (R1, REDIS_OK)"
  shows "follows t r (processMultiBulkItem r) R1"
proof -
  note d = lagsD [OF l] and f = lagsD(12) [OF l]
  from y obtain cur where c: "get_task R (ridx R) = Some cur" by (auto simp: processMultiBulkItem_def split: bind_splits)
  have i: "ridx R \<noteq> 8"
    using y c by (auto simp: processMultiBulkItem_def redis_codes split: bind_splits if_splits)
  have c': "get_task r (ridx r) = Some cur" and i': "ridx r \<noteq> 8" using c i d by simp_all
  from l show ?thesis
  proof (cases rule: lags_readLine)
    case none
    then show ?thesis using c' i' by (simp add: processMultiBulkItem_def follows_def)
  next
    case nowhere
    then show ?thesis using y c i by (simp add: processMultiBulkItem_def redis_codes)
  next
    case (found k)
    have n: "k + 2 \<le> length (unread r)" using found(1) by (simp add: line_end_def)
    let ?r = "advance r (k + 2)" and ?R = "advance R (k + 2)"
    have l': "lags t ?r ?R" by (rule lags_advance [OF l n])
    have a: "at_pos ?r (pos r) = Some (unread r @ slack r)" "at_pos ?R (pos R) = Some (unread R @ slack R)"
      using at_pos_now d(1,2) by (simp_all add: at_pos_def)
    from y obtain v where v: "readLongLong (unread R @ slack R) = Some v"
      using c i a(2) found(3) by (auto simp: processMultiBulkItem_def Let_def split: bind_splits)
    then have v': "readLongLong (unread r @ slack r) = Some v"
      using lags_number [OF l found(1), of "slack R" "slack r"] by simp
    note runR = multi_run [OF c i found(3) a(2) v] and runr = multi_run [OF c' i' found(2) a(1) v']
    from y obtain R2 obj R3 where R2: "multi_via cur v ?R = Some (R2, obj)" "obj \<noteq> 0" "multi_next cur v R2 obj = Some R3"
      and R1: "R1 = (if ridx R = 0 then R3\<lparr>reply := obj\<rparr> else R3)"
      unfolding runR by (auto simp: redis_codes split: bind_splits if_splits)
    from lags_multi_via [OF l' R2(1)] obtain r2 where r2: "multi_via cur v ?r = Some (r2, obj)" "lags t r2 R2" by blast
    from lags_multi_next [OF r2(2) R2(3)] obtain r3 where r3: "multi_next cur v r2 obj = Some r3" "lags t r3 R3" by blast
    have "lags t (if ridx r = 0 then r3\<lparr>reply := obj\<rparr> else r3) R1"
      using r3(2) lags_update(2) d(5) by (auto simp: R1)
    then show ?thesis using R2(2) r2(1) r3(1) by (simp add: follows_def runr)
  qed
qed

lemma follows_typed:
  assumes "lags t r R" and "process_typed R type = Some (R1, REDIS_OK)"
  shows "follows t r (process_typed r type) R1"
  using assms follows_line follows_bulk follows_multi by (auto simp: process_typed_def split: if_splits)

text \<open>
  An item completed by the reader with more input is completed alike, or the other reader stops at a
  place from where the rest of the input leads to the same result.
\<close>

definition can_resume :: "bytes \<Rightarrow> rheap redisReader \<Rightarrow> (rheap redisReader \<times> int) option \<Rightarrow> bool" where
  "can_resume t f y \<longleftrightarrow> t \<noteq> [] \<and> (\<exists>R'. lags t f R' \<and> processItem R' = y)"

lemma follows_item:
  assumes l: "lags t r R" and y: "processItem R = Some (R1, REDIS_OK)"
  shows "(\<exists>r1. processItem r = Some (r1, REDIS_OK) \<and> lags t r1 R1) \<or>
    (\<exists>f. processItem r = Some (f, REDIS_ERR) \<and> ridx f = ridx r \<and> can_resume t f (Some (R1, REDIS_OK)))"
proof -
  note d = lagsD [OF l]
  from y obtain cur where c: "get_task R (ridx R) = Some cur" by (auto simp: processItem_def split: bind_splits)
  then have c': "get_task r (ridx r) = Some cur" using d by simp
  show ?thesis
  proof (cases "ttype cur < 0")
    case False
    then have "process_typed R (ttype cur) = Some (R1, REDIS_OK)" using y c by (simp add: processItem_def)
    from follows_typed [OF l this] show ?thesis
      using l y c' False by (auto simp: processItem_def follows_def can_resume_def)
  next
    case True
    show ?thesis
    proof (cases "unread r")
      case Nil
      then have "processItem r = Some (r, REDIS_ERR)"
        using c' True readBytes_none [OF d(1)] by (simp add: processItem_def)
      moreover have "t \<noteq> []"
      proof
        assume "t = []"
        then have "processItem R = Some (R, REDIS_ERR)"
          using c True readBytes_none [OF d(2)] d(3) Nil by (simp add: processItem_def)
        then show False using y by (simp add: redis_codes)
      qed
      ultimately show ?thesis using l y by (auto simp: can_resume_def)
    next
      case (Cons b u)
      then have U: "unread R = b # u @ t" using d(3) by simp
      have at: "at_pos (advance q 1) (pos q) = at_pos q (pos q)" for q :: "rheap redisReader"
        by (simp add: at_pos_def)
      have start: "processItem q = (case type_of_byte b of
            Nullp \<Rightarrow> do { q \<leftarrow> redisReaderSetErrorProtocolByte (advance q 1) b; Some (q, REDIS_ERR) }
          | Ptr type \<Rightarrow> do {
              q \<leftarrow> set_task (advance q 1) (ridx q) (cur\<lparr>ttype := type\<rparr>);
              process_typed q type })"
        if "reader_ok q" "unread q = b # w" "get_task q (ridx q) = Some cur" for q :: "rheap redisReader" and w
        using that True readBytes_one [OF that(1,2)] at [of q]
        by (simp add: processItem_def peek_def split: ptr.splits)
      note runR = start [OF d(2) U c] and runr = start [OF d(1) Cons c']
      obtain type where ty: "type_of_byte b = Ptr type"
        using y runR by (cases "type_of_byte b") (auto simp: redis_codes split: bind_splits)
      from y obtain R2 where R2: "set_task (advance R 1) (ridx R) (cur\<lparr>ttype := type\<rparr>) = Some R2"
          "process_typed R2 type = Some (R1, REDIS_OK)"
        unfolding runR ty by (auto split: bind_splits)
      have "lags t (advance r 1) (advance R 1)" by (rule lags_advance [OF l]) (simp add: Cons)
      from lags_set_task [OF this R2(1)] obtain r2 where
        r2: "set_task (advance r 1) (ridx r) (cur\<lparr>ttype := type\<rparr>) = Some r2" "lags t r2 R2" "ridx r2 = ridx r"
        using d(5) by auto
      have run: "processItem r = process_typed r2 type" using runr ty r2(1) by simp
      have "get_task R2 (ridx R2) = Some (cur\<lparr>ttype := type\<rparr>)"
        using R2(1) by (auto simp: set_task_def get_task_def split: if_splits)
      moreover have "\<not> type < 0" using ty by (auto simp: type_of_byte_def reply_types split: if_splits)
      ultimately have again: "processItem R2 = Some (R1, REDIS_OK)"
        using R2(2) by (simp add: processItem_def)
      from follows_typed [OF r2(2) R2(2)] show ?thesis
        unfolding run using r2 again by (auto simp: follows_def can_resume_def)
    qed
  qed
qed

section \<open>The loop\<close>

lemma setError_code: "redisReaderSetError r e msg = Some r' \<Longrightarrow> err r' = e"
  by (auto simp: redisReaderSetError_def Let_def split: bind_splits)

text \<open>A run of the loop that ends a reply ends it at the end of an item.\<close>

definition loop_follows :: "bytes \<Rightarrow> rheap redisReader \<Rightarrow> rheap redisReader \<Rightarrow> bool" where
  "loop_follows t r F \<longleftrightarrow>
     (\<exists>f. process_loop r = Some f \<and> lags t f F) \<or>
     (t \<noteq> [] \<and> (\<exists>f R. process_loop r = Some f \<and> 0 \<le> ridx f \<and> lags t f R \<and> process_loop R = Some F))"

lemma loop_step:
  "0 \<le> ridx r \<Longrightarrow> processItem r = Some (r1, REDIS_OK) \<Longrightarrow> process_loop r = process_loop r1"
  by (simp add: process_loop.simps [of r])

text \<open>An item that is not completed leaves an error, or the position in the task stack as it was.\<close>

definition stuck :: "rheap redisReader \<Rightarrow> (rheap redisReader \<times> int) option \<Rightarrow> bool" where
  "stuck r = every (\<lambda>(r1, rv). rv \<noteq> REDIS_OK \<longrightarrow> err r1 = 0 \<longrightarrow> ridx r1 = ridx r)"

lemma stuck_cong: "stuck q x \<Longrightarrow> ridx q = ridx r \<Longrightarrow> stuck r x"
  by (simp add: stuck_def)

lemma setErrorOOM_err: "redisReaderSetErrorOOM r = Some r' \<Longrightarrow> err r' \<noteq> 0"
  by (auto simp: redisReaderSetErrorOOM_def redis_codes dest: setError_code)

lemma setErrorProtocol_err: "redisReaderSetError r REDIS_ERR_PROTOCOL msg = Some r' \<Longrightarrow> err r' \<noteq> 0"
  by (auto simp: redis_codes dest: setError_code)

lemma readLine_none: "readLine r = Some (r', Nullp) \<Longrightarrow> ridx r' = ridx r"
  by (auto simp: readLine_def Let_def split: bind_splits ptr.splits)

lemma stuck_line: "stuck r (processLineItem r)"
  unfolding stuck_def processLineItem_def Let_def
  by (intro every_rules) (auto dest: readLine_none setErrorOOM_err)

lemma stuck_multi: "stuck r (processMultiBulkItem r)"
  unfolding stuck_def processMultiBulkItem_def Let_def
  by (intro every_rules) (auto dest: readLine_none setErrorOOM_err setErrorProtocol_err)

lemma stuck_bulk: "stuck r (processBulkItem r)"
  unfolding stuck_def processBulkItem_def Let_def
  by (intro every_rules) (auto dest: setErrorOOM_err split: if_splits bind_splits)

lemma stuck_typed: "ridx q = ridx r \<Longrightarrow> stuck r (process_typed q type)"
  using stuck_line [of q] stuck_bulk [of q] stuck_multi [of q]
  by (auto simp: process_typed_def stuck_def every_None)

lemma stuck_item: "stuck r (processItem r)"
proof -
  have byte: "redisReaderSetErrorProtocolByte q c = Some q' \<Longrightarrow> err q' \<noteq> 0" for q q' :: "rheap redisReader" and c
    by (auto simp: redisReaderSetErrorProtocolByte_def Let_def redis_codes dest: setError_code)
  have slot: "set_task q i x = Some q' \<Longrightarrow> ridx q' = ridx q" for q q' :: "rheap redisReader" and i x
    by (auto simp: set_task_def split: if_splits)
  have rd: "readBytes q n = (q', p) \<Longrightarrow> ridx q' = ridx q" for q q' :: "rheap redisReader" and n p
    by (auto simp: readBytes_def split: if_splits)
  note typed = stuck_typed [unfolded stuck_def]
  show ?thesis
    unfolding stuck_def processItem_def
    by (intro every_rules) (auto intro!: typed dest!: byte slot rd)
qed

lemma item_error:
  fixes R :: "rheap redisReader"
  assumes "processItem R = Some (R1, rv)" and "rv \<noteq> REDIS_OK" and "ridx R1 = -1" and "0 \<le> ridx R"
  shows "err R1 \<noteq> 0"
  using everyD [OF stuck_item [of R, unfolded stuck_def] assms(1)] assms by auto

lemma lags_loop_strong:
  "process_loop R = Some F \<Longrightarrow> process_loop R = Some F \<and> (\<forall>r. lags t r R \<longrightarrow> ridx F = -1 \<longrightarrow> err F = 0 \<longrightarrow> loop_follows t r F)"
proof (induction rule: process_loop.raw_induct [rotated, consumes 1, case_names step])
  case (step loop R F)
  show ?case
  proof (cases "0 \<le> ridx R")
    case False
    then have "F = R" using step(2) by simp
    moreover have "process_loop R = Some R" using False by (simp add: process_loop.simps [of R])
    moreover have "process_loop r = Some r" if "lags t r R" for r
      using False lagsD(5) [OF that] by (simp add: process_loop.simps [of r])
    ultimately show ?thesis unfolding loop_follows_def by blast
  next
    case i: True
    then obtain R1 rv where item: "processItem R = Some (R1, rv)"
      using step(2) by (cases "processItem R") auto
    then have rest: "(if rv \<noteq> REDIS_OK then Some R1 else loop R1) = Some F"
      using step(2) i by (simp cong: if_cong)
    show ?thesis
    proof (cases "rv = REDIS_OK")
      case False
      then have F: "F = R1" using rest by simp
      then have "process_loop R = Some F" using i item False by (simp add: process_loop.simps [of R])
      then show ?thesis using item_error [OF item False _ i] F by auto
    next
      case True
      then have "loop R1 = Some F" using rest by simp
      from step(1) [OF this] have run1: "process_loop R1 = Some F"
        and IH: "\<And>r. lags t r R1 \<Longrightarrow> ridx F = -1 \<Longrightarrow> err F = 0 \<Longrightarrow> loop_follows t r F" by blast+
      have "loop_follows t r F" if l: "lags t r R" and F: "ridx F = -1" "err F = 0" for r
      proof -
        have ir: "0 \<le> ridx r" using i lagsD(5) [OF l] by simp
        from follows_item [OF l] item True consider
            (same) r1 where "processItem r = Some (r1, REDIS_OK)" "lags t r1 R1"
          | (stop) f where "processItem r = Some (f, REDIS_ERR)" "ridx f = ridx r" "can_resume t f (Some (R1, REDIS_OK))"
          by blast
        then show ?thesis
        proof cases
          case same
          then show ?thesis using IH [OF same(2) F] loop_step [OF ir same(1)] by (simp add: loop_follows_def)
        next
          case stop
          then obtain R' where R': "t \<noteq> []" "lags t f R'" "processItem R' = Some (R1, REDIS_OK)"
            by (auto simp: can_resume_def)
          then have "0 \<le> ridx R'" using lagsD(5) stop(2) ir by metis
          from loop_step [OF this R'(3)] have "process_loop R' = Some F" using run1 by simp
          moreover have "process_loop r = Some f" using stop(1) ir by (simp add: process_loop.simps [of r] redis_codes)
          ultimately show ?thesis using R' stop(2) ir unfolding loop_follows_def by metis
        qed
      qed
      then show ?thesis using run1 loop_step [OF i] item True by simp
    qed
  qed
qed

lemma lags_loop:
  assumes "process_loop R = Some F" and "lags t r R" and "ridx F = -1" and "err F = 0"
  shows "loop_follows t r F"
  using lags_loop_strong [OF assms(1)] assms(2-4) by blast

section \<open>Feeding piece by piece\<close>

text \<open>
  The reader is in the middle of, or before, the reply that ends with the state \<open>F\<close> of the loop when
  the bytes \<open>t\<close> have also arrived.
\<close>

definition awaits :: "bytes \<Rightarrow> rheap redisReader \<Rightarrow> rheap redisReader \<Rightarrow> bool" where
  "awaits t r F \<longleftrightarrow> reader_ok r \<and>
     (\<exists>r0 R. begin_reply r = Some r0 \<and> unread r0 = unread r \<and> rlen r0 = rlen r \<and> lags t r0 R \<and> process_loop R = Some F) \<and>
     ridx F = -1 \<and> reader_ok F \<and> heap_ready (world F)"

lemma idle_awaits:
  assumes id: "idle r" and u: "unread r @ t = encode v @ rest" and v: "value_ok 0 v"
    and lim: "rlen r + length t < 2 ^ 31 - 1"
  shows "\<exists>F. awaits t r F \<and> reply F = nxt (world r) \<and> unread F = rest \<and> world F = took r v"
proof -
  from id have ok: "reader_ok r" and f: "fn r = Ptr defaultFunctions" and i: "ridx r = -1"
    and h: "heap_ready (world r)" by (auto simp: idle_def)
  have st: "length (rstack r) = 9" using ok by (simp add: reader_ok_def)
  have "\<exists>R. lags t r R \<and> R = r\<lparr>rbuf := rbuf R, pos := pos R, rlen := rlen R\<rparr>"
  proof (cases "t = []")
    case True
    then show ?thesis using ok f by (intro exI [of _ r]) (simp add: lags_def)
  next
    case False
    obtain b p where "reader_ok (r\<lparr>rbuf := Ptr b, pos := p, rlen := sdslen b\<rparr>)"
        "sdslen b = rlen r + length t" "unread (r\<lparr>rbuf := Ptr b, pos := p, rlen := sdslen b\<rparr>) = unread r @ t"
      using feed_spec [OF _ ok False lim, of generous] by auto
    then show ?thesis using ok f by (intro exI [of _ "r\<lparr>rbuf := Ptr b, pos := p, rlen := sdslen b\<rparr>"]) (simp add: lags_def)
  qed
  then obtain R where l: "lags t r R" and R: "R = r\<lparr>rbuf := rbuf R, pos := pos R, rlen := rlen R\<rparr>" by blast
  note d = lagsD [OF l]
  have "idle R" using id d by (simp add: idle_def)
  moreover have "unread R = encode v @ rest" using d(3) u by simp
  ultimately obtain R0 F where F: "begin_reply R = Some R0" "R0 = R\<lparr>rstack := (rstack R)[0 := root_task R], ridx := 0\<rparr>"
      "process_loop R0 = Some F" "loop_done R v rest F"
    using loop_spec v by blast
  let ?r0 = "r\<lparr>rstack := (rstack r)[0 := root_task r], ridx := 0\<rparr>"
  have "root_task R = root_task r" using d(13) by (simp add: root_task_def)
  then have "lags t ?r0 R0"
    unfolding F(2) using lags_update(3) [OF lags_update(4) [OF l], of "(rstack r)[0 := root_task r]" 0] st d(4) by simp
  moreover have "begin_reply r = Some ?r0" using begin_reply_spec [OF i st] by simp
  moreover have "unread ?r0 = unread r" "rlen ?r0 = rlen r" by (simp_all add: unread_def content_def)
  moreover have "took R v = took r v" using d(7) by (simp add: took_def)
  ultimately show ?thesis
    using F ok d took_ready [OF h, of v]
    by (intro exI [of _ F]) (auto simp: awaits_def loop_done_def)
qed

lemma begin_buffer:
  "begin_reply r = Some r0 \<Longrightarrow>
    begin_reply (r\<lparr>rbuf := b, pos := p, rlen := n\<rparr>) = Some (r0\<lparr>rbuf := b, pos := p, rlen := n\<rparr>)"
  by (auto simp: begin_reply_def set_task_def root_task_def split: if_splits)

lemma feed_awaits:
  assumes g: "\<forall>n. grant A n" and w: "awaits (c @ t) r F" and c: "c \<noteq> []"
  shows "\<exists>r'. redisReaderFeed A r (Ptr c) (length c) = Some (r', REDIS_OK) \<and> awaits t r' F \<and> rlen r' \<noteq> 0"
proof -
  from w obtain r0 R where r0: "begin_reply r = Some r0" "unread r0 = unread r" "rlen r0 = rlen r"
    and l: "lags (c @ t) r0 R" and F: "process_loop R = Some F" "ridx F = -1" "reader_ok F" "heap_ready (world F)"
    and ok: "reader_ok r" by (auto simp: awaits_def)
  note d = lagsD [OF l]
  have lim: "rlen r + length c < 2 ^ 31 - 1"
    using d(2,14) r0(3) by (auto simp: reader_ok_def)
  obtain b p where b: "redisReaderFeed A r (Ptr c) (length c) = Some (r\<lparr>rbuf := Ptr b, pos := p, rlen := sdslen b\<rparr>, REDIS_OK)"
      "reader_ok (r\<lparr>rbuf := Ptr b, pos := p, rlen := sdslen b\<rparr>)" "sdslen b = rlen r + length c"
      "unread (r\<lparr>rbuf := Ptr b, pos := p, rlen := sdslen b\<rparr>) = unread r @ c"
    using feed_spec [OF g ok c lim] by blast
  let ?r0 = "r0\<lparr>rbuf := Ptr b, pos := p, rlen := sdslen b\<rparr>"
  have u: "unread ?r0 = unread r @ c" using b(4) by (simp add: unread_def content_def)
  moreover have "reader_ok ?r0" using b(2) d(1) by (auto simp: reader_ok_def)
  moreover have "R = ?r0\<lparr>rbuf := rbuf R, pos := pos R, rlen := rlen R\<rparr>"
    using l by (simp add: lags_def)
  ultimately have "lags t ?r0 R" using d(2,3,12,14) r0(2,3) b(3) by (simp add: lags_def)
  moreover have "rlen r + length c \<noteq> 0" using c by simp
  ultimately show ?thesis
    using b u F begin_buffer [OF r0(1), where b = "Ptr b" and p = p and n = "sdslen b"] by (auto simp: awaits_def)
qed

lemma lags_discard:
  assumes "lags t r R"
  shows "\<exists>r'. discard_consumed r = Some r' \<and> lags t r' R \<and> unread r' = unread r \<and> ridx r' = ridx r"
proof -
  note d = lagsD [OF assms]
  obtain b p where "discard_consumed r = Some (r\<lparr>rbuf := Ptr b, pos := p, rlen := sdslen b\<rparr>)"
      "reader_ok (r\<lparr>rbuf := Ptr b, pos := p, rlen := sdslen b\<rparr>)" "sdslen b \<le> rlen r"
      "unread (r\<lparr>rbuf := Ptr b, pos := p, rlen := sdslen b\<rparr>) = unread r"
    using compact_spec [OF d(1)] by blast
  moreover from this d assms have "lags t (r\<lparr>rbuf := Ptr b, pos := p, rlen := sdslen b\<rparr>) R"
    by (simp add: lags_def)
  ultimately show ?thesis by (intro exI [of _ "r\<lparr>rbuf := Ptr b, pos := p, rlen := sdslen b\<rparr>"]) simp
qed

lemma get_awaits:
  assumes w: "awaits t r F" and n: "rlen r \<noteq> 0"
  shows "\<exists>r' a. redisReaderGetReply r True = Some (r', a, REDIS_OK) \<and>
    (a = reply F \<and> idle r' \<and> unread F = unread r' @ t \<and> world r' = world F \<and> rlen r' + length t < 2 ^ 31 - 1 \<and>
       pos r' < 1024 \<or>
     a = 0 \<and> t \<noteq> [] \<and> awaits t r' F)"
proof -
  from w obtain r0 R where r0: "begin_reply r = Some r0" "unread r0 = unread r" "rlen r0 = rlen r"
    and l: "lags t r0 R" and F: "process_loop R = Some F" "ridx F = -1" "reader_ok F" "heap_ready (world F)"
    and ok: "reader_ok r" by (auto simp: awaits_def)
  have e: "err r = 0" "err F = 0" using ok F(3) by (simp_all add: reader_ok_def)
  from lags_loop [OF F(1) l F(2) e(2)] consider
      (full) f where "process_loop r0 = Some f" "lags t f F"
    | (part) f R' where "t \<noteq> []" "process_loop r0 = Some f" "0 \<le> ridx f" "lags t f R'" "process_loop R' = Some F"
    by (auto simp: loop_follows_def)
  then show ?thesis
  proof cases
    case full
    note d = lagsD [OF full(2)]
    have "ridx f = -1" "heap_ready (world f)" using d(5,7) F by simp_all
    from finish_reply [OF d(1) this(1) d(12) this(2)] obtain r2 where
      r2: "discard_consumed f = Some r2" "reply r2 = reply f" "ridx r2 = -1" "idle (r2\<lparr>reply := 0\<rparr>)"
        "unread (r2\<lparr>reply := 0\<rparr>) = unread f" "world r2 = world f" "rlen r2 \<le> rlen f" "pos r2 < 1024" by blast
    have "rlen F < 2 ^ 31 - 1" using F(3) by (simp add: reader_ok_def)
    then have "rlen r2 + length t < 2 ^ 31 - 1" using r2(7) d(14) by linarith
    moreover have "redisReaderGetReply r True = Some (r2\<lparr>reply := 0\<rparr>, reply F, REDIS_OK)"
      using e n r0(1) full(1) d r2(1-3) by (simp add: redisReaderGetReply_def)
    ultimately show ?thesis using r2 d by (intro exI [of _ "r2\<lparr>reply := 0\<rparr>"]) simp
  next
    case part
    note d = lagsD [OF part(4)]
    from lags_discard [OF part(4)] obtain r2 where r2: "discard_consumed f = Some r2" "lags t r2 R'"
      "unread r2 = unread f" "ridx r2 = ridx f" by blast
    have "redisReaderGetReply r True = Some (r2, 0, REDIS_OK)"
      using e n r0(1) part(2,3) d r2 by (simp add: redisReaderGetReply_def)
    moreover have "begin_reply r2 = Some r2" using r2(4) part(3) by (simp add: begin_reply_def)
    moreover have "reader_ok r2" using lagsD(1) [OF r2(2)] .
    ultimately show ?thesis using part r2 F by (auto simp: awaits_def)
  qed
qed

lemma get_empty: "awaits t r F \<Longrightarrow> rlen r = 0 \<Longrightarrow> redisReaderGetReply r True = Some (r, 0, REDIS_OK)"
  by (simp add: redisReaderGetReply_def awaits_def reader_ok_def)

text \<open>A client that feeds one piece after the other and asks for a reply after each.\<close>

fun feed_pieces :: "allocator \<Rightarrow> bytes list \<Rightarrow> rheap redisReader \<Rightarrow> (rheap redisReader \<times> nat list) option" where
  "feed_pieces A [] r = Some (r, [])"
| "feed_pieces A (c # cs) r = do {
     (r, rv) \<leftarrow> redisReaderFeed A r (Ptr c) (length c);
     (r, a, rv) \<leftarrow> redisReaderGetReply r True;
     (r, as) \<leftarrow> feed_pieces A cs r;
     Some (r, a # as) }"

lemma feed_pieces_spec:
  assumes g: "\<forall>n. grant A n" and F: "unread F = []"
  shows "awaits (concat cs) r F \<Longrightarrow> cs \<noteq> [] \<Longrightarrow> [] \<notin> set cs \<Longrightarrow>
    \<exists>r'. feed_pieces A cs r = Some (r', replicate (length cs - 1) 0 @ [reply F]) \<and> idle r' \<and> unread r' = [] \<and>
      world r' = world F"
proof (induction cs arbitrary: r)
  case (Cons c cs)
  have c: "c \<noteq> []" and cs: "[] \<notin> set cs" using Cons.prems(3) by auto
  have "awaits (c @ concat cs) r F" using Cons.prems(1) by simp
  from feed_awaits [OF g this c] obtain r1 where r1: "redisReaderFeed A r (Ptr c) (length c) = Some (r1, REDIS_OK)"
    "awaits (concat cs) r1 F" "rlen r1 \<noteq> 0" by blast
  from get_awaits [OF r1(2,3)] obtain r2 a where r2: "redisReaderGetReply r1 True = Some (r2, a, REDIS_OK)"
    "a = reply F \<and> idle r2 \<and> unread F = unread r2 @ concat cs \<and> world r2 = world F \<or>
     a = 0 \<and> concat cs \<noteq> [] \<and> awaits (concat cs) r2 F" by blast
  show ?case
  proof (cases "cs = []")
    case True
    then show ?thesis using r1(1) r2 F by auto
  next
    case False
    then have "concat cs \<noteq> []" using cs by (cases cs) auto
    then have "a = 0" "awaits (concat cs) r2 F" using r2(2) F by auto
    moreover from this(2) Cons.IH False cs obtain r3 where
      "feed_pieces A cs r2 = Some (r3, replicate (length cs - 1) 0 @ [reply F])" "idle r3" "unread r3 = []"
        "world r3 = world F" by blast
    moreover have "replicate (length (c # cs) - 1) (0 :: nat) = 0 # replicate (length cs - 1) 0"
      using False by (cases cs) simp_all
    ultimately show ?thesis using r1(1) r2(1) by simp
  qed
qed simp

end
