(* ===== verification/Reader_Theorems.thy ===== *)
theory Reader_Theorems
  imports Reader_Split
begin

text \<open>
  The properties of the reply reader and of the reply objects.
\<close>

section \<open>A heap and a reader\<close>

definition fresh_heap :: rheap where
  "fresh_heap = \<lparr>objs = Map.empty, nxt = 1, granting = (\<lambda>_ _. True)\<rparr>"

lemma fresh_heap_facts [simp]: "heap_ready fresh_heap" "nxt fresh_heap = 1" "objs fresh_heap = Map.empty"
  by (simp_all add: fresh_heap_def heap_ready_def)

lemma fresh_reader:
  assumes "t \<noteq> []" and "length t < 2 ^ 31 - 1"
  shows "\<exists>r r1. redisReaderCreate generous fresh_heap = Some (Ptr r) \<and>
    redisReaderFeed generous r (Ptr t) (length t) = Some (r1, REDIS_OK) \<and>
    idle r1 \<and> unread r1 = t \<and> world r1 = fresh_heap"
proof -
  obtain r where r: "redisReaderCreate generous fresh_heap = Some (Ptr r)" "idle r" "unread r = []"
      "world r = fresh_heap" "pos r = 0"
    using create_idle [of generous fresh_heap] by auto
  then have "rlen r = 0" by (auto simp: idle_def elim: reader_okE)
  with feed_idle [of generous r t] r assms show ?thesis by auto
qed

section \<open>An element count that does not fit an int\<close>

lemma typed_array:
  assumes ok: "reader_ok r" and i: "ridx r = 0" and t: "ttype (cur_task r) = -1"
    and u: "unread r = CHR ''*'' # dec_nat n @ CRLF @ u" and f: "fn r = Ptr defaultFunctions"
    and h: "heap_ready (world r)" and p: "tparent (cur_task r) = Nullp"
    and n: "0 < n" "n < 2 ^ 63" "n mod 2 ^ 32 = 0"
  shows "\<exists>r' m. processItem r = Some (r', REDIS_OK) \<and> reader_ok r' \<and> ridx r' = 1 \<and> fn r' = fn r \<and>
    unread r' = u \<and> ttype (cur_task r') = -1 \<and> tparent (cur_task r') = Ptr 0 \<and> heap_ready (world r') \<and>
    tobj (rstack r' ! 0) = nxt (world r) \<and> nxt (world r) < nxt (world r') \<and>
    objs (world r') (nxt (world r)) = Some (arr_reply 0 Nullp)"
proof -
  let ?T = REDIS_REPLY_ARRAY
  let ?R = "typed r ?T"
  obtain k where "n = 2 ^ 32 * k" using n(3) by auto
  then have z: "int32 (int n) = 0" by (simp add: int32_def)
  have len: "length (rstack r) = 9" using ok by (simp add: reader_ok_def)
  have u': "unread r = CHR ''*'' # dec_nat n @ CRLF @ u" by (rule u)
  note line = typed_line [OF ok u' CR_notin_dec_nat, where type = ?T]
  note tok = typed_ok [OF ok u', of ?T]
  have ll: "readLongLong (dec_nat n @ CRLF @ u @ slack r) = Some (int n)"
    using readLongLong_dec_nat [of n "LF # u @ slack r"] n(2) by (simp add: CRLF_def int64_id)
  have lk: "link_ok (world r) (rstack ?R) ((cur_task r)\<lparr>ttype := ?T\<rparr>)" using p by (simp add: link_ok_def)
  define w where "w = (world r)\<lparr>objs := (objs (world r))(nxt (world r) \<mapsto> arr_reply 0 Nullp), nxt := nxt (world r) + 1\<rparr>"
  have mk: "createArrayObject (world r) (rstack ?R) ((cur_task r)\<lparr>ttype := ?T\<rparr>) 0 = Some (w, nxt (world r))"
    using createArrayObject_granted [OF h lk, of 0] p by (simp add: w_def link_def)
  let ?r1 = "(advance ?R (length (dec_nat n) + 2))\<lparr>world := w\<rparr>"
  define st where "st = (rstack ?R)[0 := (cur_task r)\<lparr>ttype := ?T, telements := 0, tobj := nxt (world r)\<rparr>,
      1 := \<lparr>ttype = -1, telements = -1, idx = 0, tobj = 0, tparent = Ptr 0, tprivdata = privdata r\<rparr>]"
  have priv: "privdata ?R = privdata r" by (simp add: typed_def)
  have push: "push_task ?r1 ((cur_task r)\<lparr>ttype := ?T\<rparr>) (int n) (nxt (world r)) =
      Some (?r1\<lparr>rstack := st, ridx := 1\<rparr>)"
    using len i z by (simp add: push_task_def set_task_def st_def priv Let_def rd_stack_swap)
  define r' where "r' = ?r1\<lparr>rstack := st, ridx := 1, reply := nxt (world r)\<rparr>"
  have pos: "0 < nxt (world r)" using h by (simp add: heap_ready_def)
  have i8: "0 \<le> ridx r" "ridx r \<le> 8" using i by simp_all
  have "processItem r = processMultiBulkItem ?R"
    by (subst processItem_typed [OF ok i8 t u', of ?T])
       (simp_all add: type_of_byte_def process_typed_def reply_types)
  also have "\<dots> = Some (r', REDIS_OK)"
    using line(1,2) typed_cur [OF ok i8, of ?T] f ll mk push pos n(1) i z
    by (simp add: processMultiBulkItem_def via_default r'_def)
  finally have run: "processItem r = Some (r', REDIS_OK)" .
  have l2: "length (dec_nat n) + 2 \<le> length (unread ?R)" unfolding tok(2) by (simp add: CRLF_def)
  note ad = reader_ok_advance [OF tok(1) l2]
  have sel: "rbuf r' = rbuf ?R" "pos r' = pos (advance ?R (length (dec_nat n) + 2))" "rlen r' = rlen ?R"
    "err r' = err ?R" "rstack r' = st" "ridx r' = 1" "fn r' = fn r" "world r' = w"
    by (simp_all add: r'_def)
  have "unread r' = unread (advance ?R (length (dec_nat n) + 2))"
    by (simp add: unread_def content_def sel)
  then have "unread r' = u" using ad(2) tok(2) by (simp add: CRLF_def)
  moreover have "reader_ok r'" using ad(1) len by (auto simp: reader_ok_def sel st_def)
  moreover have "ttype (cur_task r') = -1" "tparent (cur_task r') = Ptr 0" "tobj (rstack r' ! 0) = nxt (world r)"
    using len by (simp_all add: cur_task_def sel st_def)
  moreover have "heap_ready w" "nxt (world r) < nxt w" "objs w (nxt (world r)) = Some (arr_reply 0 Nullp)"
    using h by (simp_all add: w_def heap_ready_def)
  ultimately show ?thesis using run sel(6,7,8) by auto
qed

lemma truncated_count_faults:
  assumes id: "idle r" and n: "0 < n" "n < 2 ^ 63" "n mod 2 ^ 32 = 0"
    and u: "unread r = CHR ''*'' # dec_nat n @ CRLF @ encode (VInt i) @ rest" and v: "value_ok 0 (VInt i)"
  shows "redisReaderGetReply r want = None"
proof -
  from id have ok: "reader_ok r" and f: "fn r = Ptr defaultFunctions" and h: "heap_ready (world r)"
    and i: "ridx r = -1" and rp: "reply r = 0" by (auto simp: idle_def)
  have st: "length (rstack r) = 9" "err r = 0" using ok by (auto simp: reader_ok_def)
  obtain r0 where r0: "begin_reply r = Some r0" "r0 = r\<lparr>rstack := (rstack r)[0 := root_task r], ridx := 0\<rparr>"
    using begin_reply_spec [OF i st(1)] by blast
  have ok0: "reader_ok r0" using ok by (auto simp: reader_ok_def r0(2))
  have u0: "unread r0 = CHR ''*'' # dec_nat n @ CRLF @ encode (VInt i) @ rest"
    using u by (simp add: unread_def content_def r0(2))
  have c0: "cur_task r0 = root_task r" using st by (simp add: cur_task_def r0(2))
  have s0: "ridx r0 = 0" "fn r0 = Ptr defaultFunctions" "world r0 = world r" using f by (simp_all add: r0(2))
  obtain r1 where r1: "processItem r0 = Some (r1, REDIS_OK)" "reader_ok r1" "ridx r1 = 1" "fn r1 = fn r0"
    "unread r1 = encode (VInt i) @ rest" "ttype (cur_task r1) = -1" "tparent (cur_task r1) = Ptr 0"
    "heap_ready (world r1)" "tobj (rstack r1 ! 0) = nxt (world r0)" "nxt (world r0) < nxt (world r1)"
    "objs (world r1) (nxt (world r0)) = Some (arr_reply 0 Nullp)"
    using typed_array [OF ok0 s0(1) _ u0 s0(2) _ _ n] h c0 s0 by (auto simp: root_task_def)
  let ?T = REDIS_REPLY_INTEGER
  have u1: "unread r1 = CHR '':'' # dec_int i @ CRLF @ rest" using r1(5) by simp
  note line = typed_line [OF r1(2) u1 CR_notin_dec_int, where type = ?T]
  have ll: "readLongLong (dec_int i @ CRLF @ rest @ slack r1) = Some i"
    using readLongLong_dec_int [of i "LF # rest @ slack r1"] v by (simp add: CRLF_def int64_id)
  have i8: "0 \<le> ridx r1" "ridx r1 \<le> 8" using r1(3) by simp_all
  have l1: "length (rstack r1) = 9" using r1(2) by (simp add: reader_ok_def)
  have par: "rstack (typed r1 ?T) ! 0 = rstack r1 ! 0" using r1(3) by (simp add: typed_def)
  have bad: "createIntegerObject (world r1) (rstack (typed r1 ?T)) ((cur_task r1)\<lparr>ttype := ?T\<rparr>) i = None"
    using r1(7,8,9,10,11) l1 par
    by (simp add: createIntegerObject_def createReplyObject_granted heap_ready_def hget_def hset_def
        link_parent_def arr_reply_def blank_reply_def Let_def)
  have "processItem r1 = processLineItem (typed r1 ?T)"
    by (subst processItem_typed [OF r1(2) i8 r1(6) u1, of ?T])
       (simp_all add: type_of_byte_def process_typed_def reply_types)
  also have "\<dots> = None"
    using line(1,2) typed_cur [OF r1(2) i8, of ?T] r1(3,4) s0(2) ll bad
    by (simp add: processLineItem_def via_default)
  finally have "process_loop r0 = None"
    using r1(1,3) s0(1) by (simp add: process_loop.simps [of r0] process_loop.simps [of r1])
  moreover from ok obtain b where "length (unread r) = rlen r - pos r" by (rule reader_okE)
  then have "rlen r \<noteq> 0" using u by auto
  ultimately show ?thesis
    unfolding redisReaderGetReply_def using r0(1) st(2) by simp
qed

section \<open>Properties\<close>

text \<open>
  C1. Round trip: a new reader that is fed the wire form of a sequence of values hands out one reply
  per value, in order, whose objects are those of the value (\<open>live_all\<close>); no byte is left unread.
\<close>

theorem replies_roundtrip:
  assumes "\<forall>n. grant A n" and "heap_ready h" and "\<forall>b \<ge> nxt h. objs h b = None" and "vs \<noteq> []"
    and "\<forall>v \<in> set vs. value_ok 0 v" and "length (concat (map encode vs)) < 2 ^ 31 - 1"
  shows "\<exists>r r1 r2. redisReaderCreate A h = Some (Ptr r) \<and>
    redisReaderFeed A r (Ptr (concat (map encode vs))) (length (concat (map encode vs))) = Some (r1, REDIS_OK) \<and>
    get_replies (length vs) r1 = Some (r2, addrs (nxt h) vs) \<and>
    live_all (objs (world r2)) (nxt h) vs \<and> unread r2 = []"
  using assms by (rule stream_roundtrip)

theorem replies_roundtrip_witness:
  "\<exists>r r1 r2. redisReaderCreate generous fresh_heap = Some (Ptr r) \<and>
    redisReaderFeed generous r (Ptr (concat (map encode [VArr [VInt 5, VNil], VStatus ''OK''])))
      (length (concat (map encode [VArr [VInt 5, VNil], VStatus ''OK'']))) = Some (r1, REDIS_OK) \<and>
    get_replies 2 r1 = Some (r2, [1, 5]) \<and>
    live_all (objs (world r2)) 1 [VArr [VInt 5, VNil], VStatus ''OK''] \<and> unread r2 = []"
proof -
  have l: "length (concat (map encode [VArr [VInt 5, VNil], VStatus ''OK''])) = 18" by code_simp
  have "\<exists>r r1 r2. redisReaderCreate generous fresh_heap = Some (Ptr r) \<and>
    redisReaderFeed generous r (Ptr (concat (map encode [VArr [VInt 5, VNil], VStatus ''OK''])))
      (length (concat (map encode [VArr [VInt 5, VNil], VStatus ''OK'']))) = Some (r1, REDIS_OK) \<and>
    get_replies (length [VArr [VInt 5, VNil], VStatus ''OK'']) r1 =
      Some (r2, addrs (nxt fresh_heap) [VArr [VInt 5, VNil], VStatus ''OK'']) \<and>
    live_all (objs (world r2)) (nxt fresh_heap) [VArr [VInt 5, VNil], VStatus ''OK''] \<and> unread r2 = []"
    by (rule replies_roundtrip) (unfold l, simp_all)
  moreover have "length [VArr [VInt 5, VNil], VStatus ''OK''] = 2"
    "addrs (nxt fresh_heap) [VArr [VInt 5, VNil], VStatus ''OK''] = [1, 5]" by simp_all
  ultimately show ?thesis by (simp only: fresh_heap_facts)
qed



text \<open>
  A byte that is no reply type is a protocol error that names the byte; no reply is handed out and
  the reply heap is as before.
\<close>

theorem bad_type_byte:
  assumes "idle r" and "unread r = c # u" and "type_of_byte c = Nullp"
  shows "\<exists>r'. redisReaderGetReply r want = Some (r', 0, REDIS_ERR) \<and> err r' = REDIS_ERR_PROTOCOL \<and>
    world r' = world r \<and> reply r' = 0 \<and>
    errstr r' = cstr (''Protocol error, got '' @ fst (chrtos 8 c) @ '' as reply type byte'')"
  using assms by (rule protocol_error)

theorem bad_type_byte_witness:
  "\<exists>r r'. unread r = ''@foo'' \<and> redisReaderGetReply (r :: rheap redisReader) True = Some (r', 0, REDIS_ERR) \<and>
    err r' = REDIS_ERR_PROTOCOL \<and> errstr r' = ''Protocol error, got \"@\" as reply type byte''"
proof -
  obtain r where r: "idle r" "unread r = ''@foo''" using fresh_reader [of "''@foo''"] by auto
  have c: "cstr (''Protocol error, got '' @ fst (chrtos 8 (CHR ''@'')) @ '' as reply type byte'') =
      ''Protocol error, got \"@\" as reply type byte''" by code_simp
  have "type_of_byte (CHR ''@'') = Nullp" by (simp add: type_of_byte_def)
  from bad_type_byte [OF r this, of True] r(2) show ?thesis unfolding c by blast
qed

text \<open>
  Errors are final: a reader in an erroneous state takes no more bytes and hands out no reply,
  and neither call changes it.
\<close>

theorem reader_error_final:
  assumes "err r \<noteq> 0"
  shows "redisReaderFeed A r b n = Some (r, REDIS_ERR) \<and> redisReaderGetReply r want = Some (r, 0, REDIS_ERR)"
  using error_is_final [OF assms] by simp

theorem reader_error_final_witness:
  "\<exists>r. err r = REDIS_ERR_PROTOCOL \<and> redisReaderFeed generous r (Ptr ''+OK'') 3 = Some (r, REDIS_ERR) \<and>
    redisReaderGetReply (r :: rheap redisReader) True = Some (r, 0, REDIS_ERR)"
proof -
  obtain r0 :: "rheap redisReader" where "idle r0" using fresh_reader [of "''x''"] by auto
  let ?r = "r0\<lparr>err := REDIS_ERR_PROTOCOL\<rparr>"
  have "err ?r \<noteq> 0" by (simp add: redis_codes)
  from reader_error_final [OF this, of generous "Ptr ''+OK''" 3 True] show ?thesis
    by (intro exI [of _ ?r]) simp
qed

text \<open>
  \<open>seekNewline\<close> finds the first CRLF that ends within its bound and looks at no byte behind it.
\<close>

theorem seekNewline_first:
  assumes "n \<le> length s" and "n \<le> 2 ^ 31"
  shows "\<exists>r. seekNewline s n = Some r \<and>
    (case r of
       Nullp \<Rightarrow> \<forall>i. Suc i < n \<longrightarrow> \<not> line_end s i
     | Ptr k \<Rightarrow> Suc k < n \<and> line_end s k \<and> (\<forall>i < k. \<not> line_end s i))"
  using assms by (rule seekNewline_spec)

theorem seekNewline_first_witness:
  "\<exists>r. seekNewline [CR, CHR ''a'', CR, LF] 3 = Some r \<and> r = Nullp"
proof -
  have "\<not> line_end [CR, CHR ''a'', CR, LF] 0" "\<not> line_end [CR, CHR ''a'', CR, LF] 1"
    by (simp_all add: line_end_def)
  then have "\<not> Suc k < 3 \<or> \<not> line_end [CR, CHR ''a'', CR, LF] k" for k
    by (cases k) (auto simp: less_Suc_eq numeral_3_eq_3)
  with seekNewline_first [of 3 "[CR, CHR ''a'', CR, LF]"] show ?thesis
    by (auto split: ptr.splits) (metis ptr.exhaust)
qed

text \<open>
  \<open>readLongLong\<close> reads back every \<open>long long\<close> that was printed in decimal and ended by CR.
\<close>

theorem readLongLong_decimal:
  assumes "- (2 ^ 63) \<le> i" and "i < 2 ^ 63"
  shows "readLongLong (dec_int i @ CR # s) = Some i"
  using readLongLong_dec_int [of i s] assms by (simp add: int64_id)

theorem readLongLong_decimal_witness: "readLongLong (dec_int (-123) @ CR # [LF]) = Some (-123)"
  by (rule readLongLong_decimal) simp_all

text \<open>
  The element count of an array is cut to 32 bits before the vector is allocated, but compared
  with zero before: for a count that is a multiple of \<open>2 ^ 32\<close> no vector is allocated, and the first
  element is stored through a null pointer.
\<close>

theorem multibulk_count_truncated:
  assumes "idle r" and "0 < n" and "n < 2 ^ 63" and "n mod 2 ^ 32 = 0"
    and "unread r = CHR ''*'' # dec_nat n @ CRLF @ encode (VInt i) @ rest" and "value_ok 0 (VInt i)"
  shows "redisReaderGetReply r want = None"
  using assms by (rule truncated_count_faults)

theorem multibulk_count_truncated_witness:
  "\<exists>r. unread r = ''*4294967296'' @ CRLF @ '':5'' @ CRLF \<and> redisReaderGetReply (r :: rheap redisReader) True = None"
proof -
  have d: "dec_nat (2 ^ 32) = ''4294967296''" "dec_int 5 = ''5''"
    by (simp_all add: dec_nat.simps dec_int_def byte_of_def, code_simp+)
  let ?t = "''*4294967296'' @ CRLF @ '':5'' @ CRLF"
  obtain r where r: "idle r" "unread r = ?t"
    using fresh_reader [of ?t] by (auto simp: CRLF_def)
  have "unread r = CHR ''*'' # dec_nat (2 ^ 32) @ CRLF @ encode (VInt 5) @ []"
    unfolding r(2) encode.simps d by simp
  from multibulk_count_truncated [OF r(1) _ _ _ this, of True] r(2) show ?thesis by auto
qed

text \<open>
  \<open>freeReplyObject\<close> on the objects of any value removes exactly those objects.
\<close>

theorem freeReplyObject_exact:
  assumes "0 < a" and "\<forall>b \<ge> a. objs h b = None"
  shows "freeReplyObject (h\<lparr>objs := place a v (objs h)\<rparr>) a = Some h"
  by (rule freeReplyObject_placed) (use assms in auto)

theorem freeReplyObject_exact_witness:
  "freeReplyObject (fresh_heap\<lparr>objs := place 1 (VArr [VStr ''a'', VArr []]) Map.empty\<rparr>) 1 = Some fresh_heap"
  using freeReplyObject_exact [of 1 fresh_heap "VArr [VStr ''a'', VArr []]"] by simp



end
