(* ===== verification/Format.thy ===== *)
theory Format
  imports Sds_Text
begin

text \<open>
  The command formatting of hiredis.c (lines 191 to 570): \<open>countDigits\<close>, \<open>bulklen\<close>, the printf-like
  \<open>redisvFormatCommand\<close> and the two functions that take an argument vector.

  A format is a C string, the rest of it at the pointer \<open>c\<close> is a list; variadic arguments are the list
  of the values still to be read with \<open>va_arg\<close>. The int variables \<open>totlen\<close> and \<open>pos\<close> are reduced to 32 bits
  where the code assigns to them. The text printed for a floating point conversion is the argument
  \<open>fp\<close>; the integer conversions of \<open>vsnprintf\<close> are defined here.
\<close>

section \<open>Lengths\<close>

fun countDigits :: "nat \<Rightarrow> nat" where
  "countDigits v =
     (if v < 10 then 1
      else if v < 100 then 2
      else if v < 1000 then 3
      else if v < 10000 then 4
      else countDigits (v div 10000) + 4)"

declare countDigits.simps [simp del]

definition bulklen :: "nat \<Rightarrow> nat" where
  "bulklen len = usz (1 + countDigits len + 2 + len + 2)"

section \<open>Variadic arguments\<close>

datatype va_arg =
    VaPtr bytes
  | VaSize nat
  | VaInt int
  | VaLong int
  | VaLongLong int
  | VaDouble nat

section \<open>The integer conversions of \<open>vsnprintf\<close>\<close>

definition intfmts :: bytes where "intfmts = ''diouxX''"
definition fmt_flags :: bytes where "fmt_flags = ''#0-+ ''"
definition dblfmts :: bytes where "dblfmts = ''eEfFgGaA''"

fun nat_digits :: "nat \<Rightarrow> bool \<Rightarrow> nat \<Rightarrow> bytes" where
  "nat_digits base up n =
     (if n = 0 \<or> base < 2 then []
      else nat_digits base up (n div base) @
           [let d = n mod base in
            byte_of (if d < 10 then 48 + d else if up then 55 + d else 87 + d)])"

declare nat_digits.simps [simp del]

fun digits_value :: "nat \<Rightarrow> bytes \<Rightarrow> nat" where
  "digits_value acc [] = acc"
| "digits_value acc (c # cs) = digits_value (acc * 10 + (uch c - 48)) cs"

definition arg_bits :: "bytes \<Rightarrow> nat" where
  "arg_bits mods = (if mods = ''hh'' then 8 else if mods = ''h'' then 16 else if mods = [] then 32 else 64)"

text \<open>Sign or base prefix, and the digits before padding.\<close>

definition conv_prefix :: "bytes \<Rightarrow> char \<Rightarrow> int \<Rightarrow> bytes" where
  "conv_prefix fl conv n =
     (if conv = CHR ''d'' \<or> conv = CHR ''i'' then
        (if n < 0 then ''-'' else if CHR ''+'' \<in> set fl then ''+''
         else if CHR '' '' \<in> set fl then '' '' else [])
      else if (conv = CHR ''x'' \<or> conv = CHR ''X'') \<and> CHR ''#'' \<in> set fl \<and> n \<noteq> 0
      then [CHR ''0'', conv] else [])"

definition conv_digits :: "bytes \<Rightarrow> nat option \<Rightarrow> char \<Rightarrow> nat \<Rightarrow> bytes" where
  "conv_digits fl prec conv n =
     (let ds = nat_digits (if conv = CHR ''o'' then 8 else if conv = CHR ''x'' \<or> conv = CHR ''X'' then 16 else 10)
                 (conv = CHR ''X'') n;
          p = (case prec of None \<Rightarrow> 1 | Some p \<Rightarrow> p);
          ds = replicate (p - length ds) (CHR ''0'') @ ds
      in if conv = CHR ''o'' \<and> CHR ''#'' \<in> set fl \<and> take 1 ds \<noteq> ''0'' then CHR ''0'' # ds else ds)"

definition conv_pad :: "bytes \<Rightarrow> nat \<Rightarrow> nat option \<Rightarrow> bytes \<Rightarrow> bytes \<Rightarrow> bytes" where
  "conv_pad fl width prec pre ds =
     (let k = width - length (pre @ ds)
      in if CHR ''-'' \<in> set fl then pre @ ds @ replicate k (CHR '' '')
         else if CHR ''0'' \<in> set fl \<and> prec = None then pre @ replicate k (CHR ''0'') @ ds
         else replicate k (CHR '' '') @ pre @ ds)"

text \<open>
  The text of one conversion specification \<open>fmt\<close> (from the percent sign to the conversion
  character) for an integer argument. A text of more than \<open>INT_MAX\<close> bytes makes \<open>vsnprintf\<close> fail and
  leaves the buffer indeterminate: that is a fault here.
\<close>

definition int_text :: "bytes \<Rightarrow> int \<Rightarrow> bytes option" where
  "int_text fmt i =
     (let fl = takeWhile (\<lambda>c. c \<in> set fmt_flags) (tl fmt);
          r = dropWhile (\<lambda>c. c \<in> set fmt_flags) (tl fmt);
          width = digits_value 0 (takeWhile is_digit r);
          r = dropWhile is_digit r;
          prec = (if take 1 r = ''.'' then Some (digits_value 0 (takeWhile is_digit (tl r))) else None);
          r = (if take 1 r = ''.'' then dropWhile is_digit (tl r) else r);
          w = arg_bits (butlast r); conv = last r;
          signed = (conv = CHR ''d'' \<or> conv = CHR ''i'');
          n = (if signed then (i + 2 ^ (w - 1)) mod 2 ^ w - 2 ^ (w - 1) else i mod 2 ^ w)
      in if INT_MAX < int width \<or> (case prec of None \<Rightarrow> False | Some p \<Rightarrow> INT_MAX < int p) then None
         else Some (conv_pad fl width prec (conv_prefix fl conv n)
                      (conv_digits fl prec conv (nat \<bar>n\<bar>))))"

definition vsnprintf_text :: "(bytes \<Rightarrow> nat \<Rightarrow> bytes) \<Rightarrow> bytes \<Rightarrow> va_arg \<Rightarrow> bytes option" where
  "vsnprintf_text fp fmt a =
     (case a of
        VaInt n \<Rightarrow> int_text fmt n
      | VaLong n \<Rightarrow> int_text fmt n
      | VaLongLong n \<Rightarrow> int_text fmt n
      | VaDouble d \<Rightarrow> Some (fp fmt d)
      | _ \<Rightarrow> None)"

section \<open>Recognising a printf conversion\<close>

text \<open>The pointer \<open>_p\<close> after flags, field width and precision.\<close>

definition skip_spec :: "bytes \<Rightarrow> bytes" where
  "skip_spec p =
     (let p = dropWhile (\<lambda>c. c \<in> set fmt_flags) p;
          p = dropWhile is_digit p
      in case p of
           [] \<Rightarrow> []
         | c # q \<Rightarrow> (if c = CHR ''.'' then dropWhile is_digit q else p))"

text \<open>
  The type that \<open>va_arg\<close> is asked for and the pointer at the conversion character; null for an invalid
  format. \<open>strchr\<close> also finds the NUL that ends its string, so the end of the format counts as an
  integer conversion when no size precedes it.
\<close>

datatype arg_kind = KInt | KDouble | KLongLong | KLong

definition sized :: "arg_kind \<Rightarrow> bytes \<Rightarrow> (arg_kind \<times> bytes) ptr" where
  "sized k p = (case p of [] \<Rightarrow> Nullp | c # _ \<Rightarrow> if c \<in> set intfmts then Ptr (k, p) else Nullp)"

definition conv_kind :: "bytes \<Rightarrow> (arg_kind \<times> bytes) ptr" where
  "conv_kind p =
     (case p of
        [] \<Rightarrow> Ptr (KInt, p)
      | c # q \<Rightarrow>
          if c \<in> set intfmts then Ptr (KInt, p)
          else if c \<in> set dblfmts then Ptr (KDouble, p)
          else if c = CHR ''h'' then sized KInt (if take 1 q = ''h'' then tl q else q)
          else if c = CHR ''l'' then
            (if take 1 q = ''l'' then sized KLongLong (tl q) else sized KLong q)
          else Nullp)"

definition arg_matches :: "arg_kind \<Rightarrow> va_arg \<Rightarrow> bool" where
  "arg_matches k a =
     (case a of
        VaInt _ \<Rightarrow> k = KInt
      | VaLong _ \<Rightarrow> k = KLong
      | VaLongLong _ \<Rightarrow> k = KLongLong
      | VaDouble _ \<Rightarrow> k = KDouble
      | _ \<Rightarrow> False)"

lemma length_skip_spec: "length (skip_spec p) \<le> length p"
proof -
  let ?q = "dropWhile is_digit (dropWhile (\<lambda>c. c \<in> set fmt_flags) p)"
  have q: "length ?q \<le> length p" by (meson le_trans length_dropWhile_le)
  show ?thesis
  proof (cases ?q)
    case (Cons c r)
    have "length (dropWhile is_digit r) \<le> length r" by (rule length_dropWhile_le)
    with Cons q show ?thesis by (auto simp: skip_spec_def Let_def)
  qed (simp only: skip_spec_def Let_def list.case list.size zero_le)
qed

lemma sized_le: "sized k p = Ptr (k', q) \<Longrightarrow> length q \<le> length p"
  by (auto simp: sized_def split: list.splits if_splits)

lemma length_conv_kind: "conv_kind p = Ptr (k, q) \<Longrightarrow> length q \<le> length p"
  by (auto simp: conv_kind_def split: list.splits if_splits dest!: sized_le)

section \<open>Formatting with a format string\<close>

text \<open>
  The state of the loop: the finished arguments \<open>curargv\<close> (\<open>argc\<close> of them), their accumulated length,
  the current argument, and whether it was touched. \<open>Inl\<close> is a \<open>goto\<close> to one of the error labels with
  its error type.
\<close>

record fmt_state =
  curargv :: "sds list"
  totlen :: int
  curarg :: sds
  touched :: bool

definition MEMORY_ERR :: int where "MEMORY_ERR = - 1"
definition FORMAT_ERR :: int where "FORMAT_ERR = - 2"

text \<open>\<open>if (newarg == NULL) goto memory_err; curarg = newarg; touched = 1;\<close>\<close>

definition set_curarg :: "fmt_state \<Rightarrow> sds ptr option \<Rightarrow> (int + fmt_state) option" where
  "set_curarg st r = do {
     newarg \<leftarrow> r;
     Some (case newarg of Nullp \<Rightarrow> Inl MEMORY_ERR | Ptr s \<Rightarrow> Inr (st\<lparr>curarg := s, touched := True\<rparr>)) }"

text \<open>\<open>curargv[argc++] = curarg; totlen += bulklen(sdslen(curarg));\<close> into a grown vector.\<close>

definition push_arg :: "allocator \<Rightarrow> fmt_state \<Rightarrow> int + fmt_state" where
  "push_arg A st =
     (if grant A (usz (8 * (length (curargv st) + 1)))
      then Inr (st\<lparr>curargv := curargv st @ [curarg st],
                   totlen := int32 (totlen st + int (bulklen (sdslen (curarg st))))\<rparr>)
      else Inl MEMORY_ERR)"

text \<open>A space ends the current argument.\<close>

definition end_arg :: "allocator \<Rightarrow> fmt_state \<Rightarrow> (int + fmt_state) option" where
  "end_arg A st =
     (if touched st then
        (case push_arg A st of
           Inl e \<Rightarrow> Some (Inl e)
         | Inr st \<Rightarrow> do {
             r \<leftarrow> sdsempty A;
             Some (case r of Nullp \<Rightarrow> Inl MEMORY_ERR
                   | Ptr s \<Rightarrow> Inr (st\<lparr>curarg := s, touched := False\<rparr>)) })
      else Some (Inr st))"

text \<open>\<open>if (size > 0) newarg = sdscatlen(curarg,arg,size);\<close>\<close>

definition cat_arg :: "allocator \<Rightarrow> sds \<Rightarrow> bytes \<Rightarrow> nat \<Rightarrow> sds ptr option" where
  "cat_arg A s arg n = (if 0 < n then sdscatlen A s arg n else Some (Ptr s))"

text \<open>
  One conversion. The format is at \<open>c\<close> = \<open>%\<close>, \<open>n\<close>, \<open>f\<close>; the result gives the format behind it, the
  arguments left and the new argument. For an incomplete specification at the end of the format the
  behaviour of \<open>vsnprintf\<close> is undefined (and the pointer is then moved behind the terminating NUL). A
  specification of 14 characters or more is not printed: only its first two characters are skipped.
\<close>

definition conversion_step :: "(bytes \<Rightarrow> nat \<Rightarrow> bytes) \<Rightarrow> allocator \<Rightarrow> sds \<Rightarrow> char \<Rightarrow> bytes \<Rightarrow> va_arg list
    \<Rightarrow> (int + (bytes \<times> va_arg list \<times> sds ptr)) option" where
  "conversion_step fp A s n f ap =
     (if n = CHR ''s'' then
        (case ap of
           VaPtr arg # ap \<Rightarrow> do { r \<leftarrow> cat_arg A s (cstr arg) (cstrlen arg); Some (Inr (f, ap, r)) }
         | _ \<Rightarrow> None)
      else if n = CHR ''b'' then
        (case ap of
           VaPtr arg # VaSize k # ap \<Rightarrow> do { r \<leftarrow> cat_arg A s arg k; Some (Inr (f, ap, r)) }
         | _ \<Rightarrow> None)
      else if n = CHR ''%'' then do { r \<leftarrow> sdscat A s ''%''; Some (Inr (f, ap, r)) }
      else
        (case conv_kind (skip_spec (n # f)) of
           Nullp \<Rightarrow> Some (Inl FORMAT_ERR)
         | Ptr (k, p) \<Rightarrow>
             (case ap of
                [] \<Rightarrow> None
              | a # ap \<Rightarrow>
                  if \<not> arg_matches k a then None
                  else
                    (let l = length f + 3 - length p
                     in if l < 14 then
                          (case p of
                             [] \<Rightarrow> None
                           | _ # q \<Rightarrow> do {
                               out \<leftarrow> vsnprintf_text fp (take l (CHR ''%'' # n # f)) a;
                               r \<leftarrow> sdscatvprintf A s (take l (CHR ''%'' # n # f)) out;
                               Some (Inr (q, ap, r)) })
                        else Some (Inr (f, ap, Ptr s))))))"

lemma conversion_step_shorter:
  "conversion_step fp A s n f ap = Some (Inr (g, ap', r)) \<Longrightarrow> length g \<le> length f"
  using length_conv_kind length_skip_spec [of "n # f"]
  by (auto simp: conversion_step_def cat_arg_def Let_def bind_eq_Some_conv split: if_splits list.splits va_arg.splits ptr.splits)
     (metis Suc_le_mono le_trans length_Cons)

function fmt_cmd_loop :: "(bytes \<Rightarrow> nat \<Rightarrow> bytes) \<Rightarrow> allocator \<Rightarrow> bytes \<Rightarrow> va_arg list \<Rightarrow> fmt_state
    \<Rightarrow> (int + fmt_state) option" where
  "fmt_cmd_loop fp A [] ap st = Some (Inr st)"
| "fmt_cmd_loop fp A (c # f) ap st =
     (if c \<noteq> CHR ''%'' \<or> f = [] then do {
        r \<leftarrow> (if c = CHR '' '' then end_arg A st else set_curarg st (sdscatlen A (curarg st) [c] 1));
        (case r of Inl e \<Rightarrow> Some (Inl e) | Inr st \<Rightarrow> fmt_cmd_loop fp A f ap st) }
      else
        (case conversion_step fp A (curarg st) (hd f) (tl f) ap of
           None \<Rightarrow> None
         | Some (Inl e) \<Rightarrow> Some (Inl e)
         | Some (Inr (g, ap, r)) \<Rightarrow>
             (case set_curarg st (Some r) of
                None \<Rightarrow> None
              | Some (Inl e) \<Rightarrow> Some (Inl e)
              | Some (Inr st) \<Rightarrow> fmt_cmd_loop fp A g ap st)))"
  by pat_completeness auto
termination
  by (relation "measure (\<lambda>(fp, A, f, ap, st). length f)")
     (auto dest!: conversion_step_shorter simp: neq_Nil_conv)

declare fmt_cmd_loop.simps(2) [simp del]

section \<open>Writing the command\<close>

text \<open>
  \<open>sprintf\<close> also writes the terminating NUL. \<open>pos\<close> and the size of the block are \<open>int\<close>s.
\<close>

definition write_at :: "bytes \<Rightarrow> int \<Rightarrow> bytes \<Rightarrow> bytes option" where
  "write_at cmd p t = (if p < 0 then None else put cmd (nat p) t)"

definition sprintf_at :: "bytes \<Rightarrow> int \<Rightarrow> bytes \<Rightarrow> (bytes \<times> int) option" where
  "sprintf_at cmd p t = do {
     cmd \<leftarrow> write_at cmd p (t @ [NUL]);
     Some (cmd, int32 (p + int (length t))) }"

definition write_bulk :: "bytes \<Rightarrow> int \<Rightarrow> bytes \<Rightarrow> nat \<Rightarrow> (bytes \<times> int) option" where
  "write_bulk cmd p arg len = do {
     (cmd, p) \<leftarrow> sprintf_at cmd p (CHR ''$'' # dec_nat len @ CRLF);
     src \<leftarrow> get_bytes arg 0 len;
     cmd \<leftarrow> write_at cmd p src;
     let p = int32 (p + int len);
     cmd \<leftarrow> write_at cmd p [CR];
     cmd \<leftarrow> write_at cmd (int32 (p + 1)) [LF];
     Some (cmd, int32 (p + 2)) }"

fun write_bulks :: "bytes \<Rightarrow> int \<Rightarrow> (bytes \<times> nat) list \<Rightarrow> (bytes \<times> int) option" where
  "write_bulks cmd p [] = Some (cmd, p)"
| "write_bulks cmd p ((arg, len) # args) = do {
     (cmd, p) \<leftarrow> write_bulk cmd p arg len;
     write_bulks cmd p args }"

text \<open>From the allocation of the command to its last byte; null when it is refused.\<close>

definition build_command :: "allocator \<Rightarrow> int \<Rightarrow> int \<Rightarrow> (bytes \<times> nat) list \<Rightarrow> bytes ptr option" where
  "build_command A size_all argc args =
     (case malloc A (usz_of_int (size_all + 1)) of
        None \<Rightarrow> Some Nullp
      | Some cmd \<Rightarrow> do {
          (cmd, p) \<leftarrow> sprintf_at cmd 0 (CHR ''*'' # dec_int argc @ CRLF);
          (cmd, p) \<leftarrow> write_bulks cmd p args;
          (if p = size_all then do { cmd \<leftarrow> write_at cmd p [NUL]; Some (Ptr cmd) } else None) })"

text \<open>
  The result is what \<open>*target\<close> is set to, if it is, and the value returned.
\<close>

definition redisvFormatCommand :: "(bytes \<Rightarrow> nat \<Rightarrow> bytes) \<Rightarrow> allocator \<Rightarrow> bool \<Rightarrow> bytes \<Rightarrow> va_arg list
    \<Rightarrow> (bytes ptr \<times> int) option" where
  "redisvFormatCommand fp A target format ap =
     (if \<not> target then Some (Nullp, - 1)
      else do {
        e \<leftarrow> sdsempty A;
        (case e of
           Nullp \<Rightarrow> Some (Nullp, - 1)
         | Ptr s \<Rightarrow> do {
             r \<leftarrow> fmt_cmd_loop fp A (cstr format) ap \<lparr>curargv = [], totlen = 0, curarg = s, touched = False\<rparr>;
             (case r of
                Inl e \<Rightarrow> Some (Nullp, e)
              | Inr st \<Rightarrow>
                  (case (if touched st then push_arg A st else Inr st) of
                     Inl e \<Rightarrow> Some (Nullp, e)
                   | Inr st \<Rightarrow> do {
                       let argc = length (curargv st);
                       let n = int32 (totlen st + 1 + int (countDigits argc) + 2);
                       cmd \<leftarrow> build_command A n (int argc) (map (\<lambda>s. (buf s, sdslen s)) (curargv st));
                       Some (case cmd of Nullp \<Rightarrow> (Nullp, MEMORY_ERR) | Ptr b \<Rightarrow> (Ptr b, n)) })) }) })"

definition redisFormatCommand :: "(bytes \<Rightarrow> nat \<Rightarrow> bytes) \<Rightarrow> allocator \<Rightarrow> bool \<Rightarrow> bytes \<Rightarrow> va_arg list
    \<Rightarrow> (bytes ptr \<times> int) option" where
  "redisFormatCommand fp A target format ap = do {
     (cmd, len) \<leftarrow> redisvFormatCommand fp A target format ap;
     Some (cmd, if len < 0 then - 1 else len) }"

section \<open>Formatting an argument vector\<close>

text \<open>\<open>len = argvlen ? argvlen[j] : strlen(argv[j])\<close> for every index below \<open>argc\<close>.\<close>

definition arg_lens :: "nat \<Rightarrow> bytes list \<Rightarrow> nat list ptr \<Rightarrow> (bytes \<times> nat) list option" where
  "arg_lens argc argv argvlen =
     (case argvlen of
        Nullp \<Rightarrow> if argc \<le> length argv then Some (map (\<lambda>t. (t, cstrlen t)) (take argc argv)) else None
      | Ptr ls \<Rightarrow> if argc \<le> length argv \<and> argc \<le> length ls then Some (take argc (zip argv ls)) else None)"

definition redisFormatCommandArgv :: "allocator \<Rightarrow> bool \<Rightarrow> int \<Rightarrow> bytes list \<Rightarrow> nat list ptr
    \<Rightarrow> (bytes ptr \<times> int) option" where
  "redisFormatCommandArgv A target argc argv argvlen =
     (if \<not> target then Some (Nullp, - 1)
      else do {
        args \<leftarrow> arg_lens (nat argc) argv argvlen;
        let n = foldl (\<lambda>n (t, len). int32 (n + int (bulklen len)))
                  (int (1 + countDigits (usz_of_int argc) + 2)) args;
        cmd \<leftarrow> build_command A n argc args;
        Some (case cmd of Nullp \<Rightarrow> (Nullp, - 1) | Ptr b \<Rightarrow> (Ptr b, n)) })"

text \<open>
  The variant that builds an sds. The results of \<open>sdscatlen\<close> are used without a check, and \<open>%u\<close> reads
  the low 32 bits of the \<open>size_t\<close> it is given.
\<close>

fun sds_bulks :: "allocator \<Rightarrow> sds \<Rightarrow> (bytes \<times> nat) list \<Rightarrow> sds option" where
  "sds_bulks A cmd [] = Some cmd"
| "sds_bulks A cmd ((arg, len) # args) = do {
     cmd \<leftarrow> sdscatfmt A cmd (''$%u'' @ CRLF) [ArgUInt (len mod 2 ^ 32)];
     r \<leftarrow> sdscatlen A cmd arg len;
     cmd \<leftarrow> deref r;
     r \<leftarrow> sdscatlen A cmd CRLF 2;
     cmd \<leftarrow> deref r;
     sds_bulks A cmd args }"

definition redisFormatSdsCommandArgv :: "allocator \<Rightarrow> bool \<Rightarrow> int \<Rightarrow> bytes list \<Rightarrow> nat list ptr
    \<Rightarrow> (sds ptr \<times> int) option" where
  "redisFormatSdsCommandArgv A target argc argv argvlen =
     (if \<not> target then Some (Nullp, - 1)
      else do {
        args \<leftarrow> arg_lens (nat argc) argv argvlen;
        let n = foldl (\<lambda>n (t, len). usz (n + bulklen len)) (1 + countDigits (usz_of_int argc) + 2) args;
        e \<leftarrow> sdsempty A;
        (case e of
           Nullp \<Rightarrow> Some (Nullp, - 1)
         | Ptr s \<Rightarrow> do {
             m \<leftarrow> sdsMakeRoomFor A s n;
             (case m of
                Nullp \<Rightarrow> Some (Nullp, - 1)
              | Ptr s \<Rightarrow> do {
                  s \<leftarrow> sdscatfmt A s (''*%i'' @ CRLF) [ArgInt argc];
                  s \<leftarrow> sds_bulks A s args;
                  (if sdslen s = n then Some (Ptr s, int32 (int n)) else None) }) }) })"

end
