(* ===== verification/Format_Spec.thy ===== *)
theory Format_Spec
  imports Format Sds_Format Reply_Layout
begin

text \<open>
  What the formatting functions produce: a command is the array of its arguments as bulk strings, in
  the wire form the reader understands. The lengths computed in advance are the lengths written; a
  format is a list of words, each a list of pieces, and formatting yields one argument per word.
\<close>

section \<open>Lengths\<close>

lemma dec_nat_div10: "10 \<le> n \<Longrightarrow> length (dec_nat n) = Suc (length (dec_nat (n div 10)))"
  by (subst dec_nat.simps) simp

lemma countDigits_length: "countDigits v = length (dec_nat v)"
proof (induction v rule: countDigits.induct)
  case (1 v)
  have small: "n < 10 \<Longrightarrow> length (dec_nat n) = 1" for n by (simp add: dec_nat.simps [of n])
  show ?case
  proof (cases "v < 10000")
    case True
    then show ?thesis
      by (subst countDigits.simps)
         (auto simp: dec_nat_div10 small div_mult2_eq [symmetric])
  next
    case False
    then have "length (dec_nat v) = length (dec_nat (v div 10000)) + 4"
      by (simp add: dec_nat_div10 div_mult2_eq [symmetric])
    with False 1 show ?thesis by (subst countDigits.simps) simp
  qed
qed

definition bulk :: "bytes \<Rightarrow> bytes" where
  "bulk t = CHR ''$'' # dec_nat (length t) @ CRLF @ t @ CRLF"

definition command :: "bytes list \<Rightarrow> bytes" where
  "command args = CHR ''*'' # dec_nat (length args) @ CRLF @ concat (map bulk args)"

lemma command_encode: "command args = encode (VArr (map VStr args))"
  by (simp add: command_def comp_def bulk_def [abs_def])

lemma length_CRLF [simp]: "length CRLF = 2"
  by (simp add: CRLF_def)

lemma bulklen_length: "length (bulk t) < 2 ^ 64 \<Longrightarrow> bulklen (length t) = length (bulk t)"
  by (simp add: bulklen_def bulk_def countDigits_length)

lemma bulks_length:
  "length (concat (map bulk (args @ [t]))) = length (concat (map bulk args)) + length (bulk t)"
  by simp

section \<open>Writing\<close>

text \<open>\<open>written cmd p t\<close>: the first \<open>p\<close> bytes of the block are \<open>t\<close>.\<close>

definition written :: "bytes \<Rightarrow> int \<Rightarrow> bytes \<Rightarrow> bool" where
  "written cmd p t \<longleftrightarrow> p = int (length t) \<and> take (length t) cmd = t \<and> length t \<le> length cmd \<and>
     length cmd < 2 ^ 31"

lemma write_at_written:
  assumes "written cmd p t" and "length t + length u \<le> length cmd"
  shows "\<exists>cmd'. write_at cmd p u = Some cmd' \<and> length cmd' = length cmd \<and>
    written cmd' (int32 (p + int (length u))) (t @ u)"
proof -
  let ?c = "take (length t) cmd @ u @ drop (length t + length u) cmd"
  have "write_at cmd p u = Some ?c"
    using assms by (simp add: write_at_def written_def put_def)
  moreover have l: "length ?c = length cmd" using assms by (simp add: written_def)
  moreover have "written ?c (int32 (p + int (length u))) (t @ u)"
  proof -
    have "p + int (length u) = int (length (t @ u))" "length (t @ u) \<le> length cmd" "length cmd < 2 ^ 31"
      using assms by (simp_all add: written_def)
    moreover from this have "int32 (p + int (length u)) = int (length (t @ u))"
      by (intro trans [OF int32_id]) simp_all
    moreover have "take (length (t @ u)) ?c = t @ u"
      using assms(1) by (simp add: written_def)
    ultimately show ?thesis unfolding written_def using l by metis
  qed
  ultimately show ?thesis by blast
qed

lemma written_more: "written cmd p (t @ u) \<Longrightarrow> written cmd (int (length t)) t"
  unfolding written_def by (metis append_eq_conv_conj le_add1 le_trans length_append take_take min.absorb1)

lemma sprintf_at_written:
  assumes "written cmd p t" and "length t + length u < length cmd"
  shows "\<exists>cmd' p'. sprintf_at cmd p u = Some (cmd', p') \<and> length cmd' = length cmd \<and>
    written cmd' p' (t @ u)"
proof -
  obtain c where c: "write_at cmd p (u @ [NUL]) = Some c" "length c = length cmd"
      "written c (int32 (p + int (length (u @ [NUL])))) (t @ u @ [NUL])"
    using write_at_written [OF assms(1), of "u @ [NUL]"] assms(2) by auto
  have "written c (int (length (t @ u))) (t @ u)" using written_more [of c _ "t @ u"] c(3) by simp
  moreover have "p + int (length u) = int (length (t @ u))" "length (t @ u) < 2 ^ 31"
    using assms by (simp_all add: written_def)
  then have "int32 (p + int (length u)) = int (length (t @ u))"
    by (intro trans [OF int32_id]) simp_all
  ultimately show ?thesis using c by (simp add: sprintf_at_def)
qed

lemma write_bulk_written:
  assumes w: "written cmd p t" and a: "len \<le> length arg"
    and l: "length t + length (bulk (take len arg)) \<le> length cmd"
  shows "\<exists>cmd' p'. write_bulk cmd p arg len = Some (cmd', p') \<and> length cmd' = length cmd \<and>
    written cmd' p' (t @ bulk (take len arg))"
proof -
  let ?h = "CHR ''$'' # dec_nat len @ CRLF"
  have b: "bulk (take len arg) = ?h @ take len arg @ [CR] @ [LF]"
    using a by (simp add: bulk_def CRLF_def min_def)
  have L: "length t + length ?h + len + 2 \<le> length cmd" using l a unfolding b by simp
  obtain c1 p1 where c1: "sprintf_at cmd p ?h = Some (c1, p1)" "length c1 = length cmd" "written c1 p1 (t @ ?h)"
    using sprintf_at_written [OF w, of ?h] L by auto
  obtain c2 where c2: "write_at c1 p1 (take len arg) = Some c2" "length c2 = length cmd"
      "written c2 (int32 (p1 + int len)) ((t @ ?h) @ take len arg)"
    using write_at_written [OF c1(3), of "take len arg"] L a c1(2) by auto
  obtain c3 where c3: "write_at c2 (int32 (p1 + int len)) [CR] = Some c3" "length c3 = length cmd"
      "written c3 (int32 (int32 (p1 + int len) + 1)) (((t @ ?h) @ take len arg) @ [CR])"
    using write_at_written [OF c2(3), of "[CR]"] L a c2(2) by auto
  obtain c4 where c4: "write_at c3 (int32 (int32 (p1 + int len) + 1)) [LF] = Some c4" "length c4 = length cmd"
      "written c4 (int32 (int32 (int32 (p1 + int len) + 1) + 1)) ((((t @ ?h) @ take len arg) @ [CR]) @ [LF])"
    using write_at_written [OF c3(3), of "[LF]"] L a c3(2) by auto
  have "int32 (int32 (int32 (p1 + int len) + 1) + 1) = int32 (int32 (p1 + int len) + 2)"
    by (simp add: int32_def mod_simps add.assoc)
  then show ?thesis
    using c1 c2 c3 c4 a unfolding b write_bulk_def by (simp add: get_bytes_Some)
qed

lemma write_bulks_written:
  "written cmd p t \<Longrightarrow> (\<forall>(arg, len) \<in> set args. len \<le> length arg) \<Longrightarrow>
   length t + length (concat (map (\<lambda>(arg, len). bulk (take len arg)) args)) \<le> length cmd \<Longrightarrow>
   \<exists>cmd' p'. write_bulks cmd p args = Some (cmd', p') \<and> length cmd' = length cmd \<and>
     written cmd' p' (t @ concat (map (\<lambda>(arg, len). bulk (take len arg)) args))"
proof (induction args arbitrary: cmd p t)
  case Nil
  then show ?case by simp
next
  case (Cons a args)
  obtain arg len where a: "a = (arg, len)" by (cases a)
  obtain c1 p1 where c1: "write_bulk cmd p arg len = Some (c1, p1)" "length c1 = length cmd"
      "written c1 p1 (t @ bulk (take len arg))"
    using write_bulk_written [OF Cons.prems(1), of len arg] Cons.prems(2,3) a by auto
  with Cons.IH [OF c1(3)] Cons.prems(2,3) a show ?case by auto
qed

definition denotes :: "(bytes \<times> nat) list \<Rightarrow> bytes list \<Rightarrow> bool" where
  "denotes args ts \<longleftrightarrow> list_all2 (\<lambda>(arg, len) t. len \<le> length arg \<and> t = take len arg) args ts"

lemma denotes_map: "denotes args ts \<Longrightarrow> ts = map (\<lambda>(arg, len). take len arg) args"
  unfolding denotes_def by (induction rule: list_all2_induct) auto

lemma denotes_bounds: "denotes args ts \<Longrightarrow> \<forall>(arg, len) \<in> set args. len \<le> length arg"
  unfolding denotes_def by (induction rule: list_all2_induct) auto

lemma build_command_spec:
  assumes d: "denotes args ts" and n: "n = int (length (command ts))" and k: "k = int (length args)"
    and small: "length (command ts) < 2 ^ 31 - 1"
  shows "yields A (build_command A n k args) (\<lambda>b. b = command ts @ [NUL])"
proof (cases "malloc A (usz_of_int (n + 1))")
  case None
  then show ?thesis by (auto simp: build_command_def yields_def malloc_def split: if_splits)
next
  case (Some cmd)
  let ?h = "CHR ''*'' # dec_int k @ CRLF"
  have ts: "ts = map (\<lambda>(arg, len). take len arg) args" using denotes_map [OF d] .
  have cm: "command ts = ?h @ concat (map (\<lambda>(arg, len). bulk (take len arg)) args)"
    by (simp add: command_def k dec_int_def ts comp_def case_prod_unfold)
  have "usz_of_int (n + 1) = length (command ts) + 1"
    using small by (simp add: n usz_of_int_id)
  with Some have L: "length cmd = length (command ts) + 1" using malloc_length by fastforce
  have "written cmd 0 []" using L small by (simp add: written_def)
  then obtain c1 p1 where c1: "sprintf_at cmd 0 ?h = Some (c1, p1)" "length c1 = length cmd"
      "written c1 p1 ([] @ ?h)"
    using sprintf_at_written [of cmd 0 "[]" ?h] L cm by auto
  obtain c2 p2 where c2: "write_bulks c1 p1 args = Some (c2, p2)" "length c2 = length cmd"
      "written c2 p2 (command ts)"
    using write_bulks_written [OF c1(3) denotes_bounds [OF d]] L cm c1(2) by auto
  obtain c3 where c3: "write_at c2 p2 [NUL] = Some c3" "length c3 = length cmd"
      "written c3 (int32 (p2 + 1)) (command ts @ [NUL])"
    using write_at_written [OF c2(3), of "[NUL]"] L c2(2) by auto
  have "p2 = n" using c2(3) n by (simp add: written_def)
  moreover have "c3 = command ts @ [NUL]" using c3 L by (simp add: written_def)
  ultimately show ?thesis using Some c1 c2 c3 by (simp add: build_command_def)
qed

section \<open>Formats as lists of words\<close>

text \<open>
  A piece of a format, with the arguments it consumes and the text it stands for. An integer
  conversion is given by its flags, width, precision, size and conversion character.
\<close>

datatype piece =
    Lit char
  | Text bytes
  | Bin bytes
  | Percent
  | Conv bytes bytes bytes bytes char va_arg

fun piece_format :: "piece \<Rightarrow> bytes" where
  "piece_format (Lit c) = [c]"
| "piece_format (Text t) = ''%s''"
| "piece_format (Bin t) = ''%b''"
| "piece_format Percent = ''%%''"
| "piece_format (Conv fl wd pr md cv a) = CHR ''%'' # fl @ wd @ pr @ md @ [cv]"

fun piece_args :: "piece \<Rightarrow> va_arg list" where
  "piece_args (Lit c) = []"
| "piece_args (Text t) = [VaPtr t]"
| "piece_args (Bin t) = [VaPtr t, VaSize (length t)]"
| "piece_args Percent = []"
| "piece_args (Conv fl wd pr md cv a) = [a]"

fun piece_text :: "(bytes \<Rightarrow> nat \<Rightarrow> bytes) \<Rightarrow> piece \<Rightarrow> bytes" where
  "piece_text fp (Lit c) = [c]"
| "piece_text fp (Text t) = t"
| "piece_text fp (Bin t) = t"
| "piece_text fp Percent = ''%''"
| "piece_text fp (Conv fl wd pr md cv a) =
     (case vsnprintf_text fp (piece_format (Conv fl wd pr md cv a)) a of None \<Rightarrow> [] | Some t \<Rightarrow> t)"

definition size_kind :: "bytes \<Rightarrow> arg_kind" where
  "size_kind md = (if md = ''l'' then KLong else if md = ''ll'' then KLongLong else KInt)"

fun piece_ok :: "(bytes \<Rightarrow> nat \<Rightarrow> bytes) \<Rightarrow> piece \<Rightarrow> bool" where
  "piece_ok fp (Lit c) \<longleftrightarrow> c \<noteq> CHR '' '' \<and> c \<noteq> CHR ''%'' \<and> c \<noteq> NUL"
| "piece_ok fp (Text t) \<longleftrightarrow> NUL \<notin> set t"
| "piece_ok fp (Bin t) \<longleftrightarrow> True"
| "piece_ok fp Percent \<longleftrightarrow> True"
| "piece_ok fp (Conv fl wd pr md cv a) \<longleftrightarrow>
     set fl \<subseteq> set fmt_flags \<and> list_all is_digit wd \<and>
     (pr = [] \<or> (hd pr = CHR ''.'' \<and> list_all is_digit (tl pr))) \<and>
     md \<in> {'''', ''h'', ''hh'', ''l'', ''ll''} \<and> cv \<in> set intfmts \<and> arg_matches (size_kind md) a \<and>
     length (fl @ wd @ pr @ md) < 12 \<and>
     (case vsnprintf_text fp (piece_format (Conv fl wd pr md cv a)) a of None \<Rightarrow> False | Some t \<Rightarrow> NUL \<notin> set t)"

text \<open>A format is a list of spaces (\<open>None\<close>) and pieces.\<close>

definition format_text :: "piece option list \<Rightarrow> bytes" where
  "format_text ts = concat (map (\<lambda>t. case t of None \<Rightarrow> '' '' | Some p \<Rightarrow> piece_format p) ts)"

definition format_args :: "piece option list \<Rightarrow> va_arg list" where
  "format_args ts = concat (map (\<lambda>t. case t of None \<Rightarrow> [] | Some p \<Rightarrow> piece_args p) ts)"

definition format_ok :: "(bytes \<Rightarrow> nat \<Rightarrow> bytes) \<Rightarrow> piece option list \<Rightarrow> bool" where
  "format_ok fp ts \<longleftrightarrow> list_all (\<lambda>t. case t of None \<Rightarrow> True | Some p \<Rightarrow> piece_ok fp p) ts"

text \<open>The words are the maximal runs of pieces; each is one argument.\<close>

fun words :: "'a option list \<Rightarrow> 'a list list" where
  "words [] = [[]]"
| "words (None # ts) = [] # words ts"
| "words (Some p # ts) = (p # hd (words ts)) # tl (words ts)"

definition cmd_fields :: "(bytes \<Rightarrow> nat \<Rightarrow> bytes) \<Rightarrow> piece option list \<Rightarrow> bytes list" where
  "cmd_fields fp ts = map (\<lambda>w. concat (map (piece_text fp) w)) (filter (\<lambda>w. w \<noteq> []) (words ts))"

fun fields_from :: "(bytes \<Rightarrow> nat \<Rightarrow> bytes) \<Rightarrow> bool \<Rightarrow> bytes \<Rightarrow> piece option list \<Rightarrow> bytes list" where
  "fields_from fp t cur [] = (if t then [cur] else [])"
| "fields_from fp t cur (None # ts) = (if t then cur # fields_from fp False [] ts else fields_from fp False cur ts)"
| "fields_from fp t cur (Some p # ts) = fields_from fp True (cur @ piece_text fp p) ts"

lemma words_nonempty [simp]: "words ts \<noteq> []"
  by (induction ts rule: words.induct) auto

lemma fields_from_words:
  "t \<or> cur = [] \<Longrightarrow> fields_from fp t cur ts =
     (if t \<or> hd (words ts) \<noteq> [] then [cur @ concat (map (piece_text fp) (hd (words ts)))] else []) @
     map (\<lambda>w. concat (map (piece_text fp) w)) (filter (\<lambda>w. w \<noteq> []) (tl (words ts)))"
proof (induction ts arbitrary: t cur rule: words.induct)
  case (2 ts)
  obtain w ws where w: "words ts = w # ws" by (cases "words ts") simp_all
  show ?case using 2 by (cases "w = []") (auto simp: w)
qed auto

lemma cmd_fields_eq: "cmd_fields fp ts = fields_from fp False [] ts"
  using fields_from_words [of False "[]" fp ts]
  by (cases "words ts") (auto simp: cmd_fields_def)

lemma fields_from_len: "t \<Longrightarrow> length cur \<le> length (concat (fields_from fp t cur ts))"
proof (induction fp t cur ts rule: fields_from.induct)
  case (3 fp t cur p ts)
  then show ?case by (simp add: le_trans)
qed auto

section \<open>One conversion\<close>

lemma skip_spec_conv:
  assumes "set fl \<subseteq> set fmt_flags" and "list_all is_digit wd"
    and "pr = [] \<or> (hd pr = CHR ''.'' \<and> list_all is_digit (tl pr))"
    and "c \<notin> set fmt_flags" and "\<not> is_digit c" and "c \<noteq> CHR ''.''"
  shows "skip_spec (fl @ wd @ pr @ c # f) = c # f"
proof -
  have dot: "\<not> is_digit (CHR ''.'')" "CHR ''.'' \<notin> set fmt_flags"
    by (simp_all add: is_digit_def uch_def fmt_flags_def)
  let ?P = "\<lambda>c. c \<in> set fmt_flags"
  let ?r = "dropWhile ?P (wd @ pr @ c # f)"
  have dW: "dropWhile is_digit (pre @ x # xs) = x # xs" if "list_all is_digit pre" "\<not> is_digit x" for pre x xs
    using that by (simp add: list_all_iff dropWhile_append3)
  have 1: "dropWhile ?P (fl @ wd @ pr @ c # f) = ?r"
    using assms(1) by (intro dropWhile_append2) auto
  have hd_pr: "\<exists>x xs. pr @ c # f = x # xs \<and> \<not> is_digit x \<and> x \<notin> set fmt_flags"
    using assms(3-5) dot by (cases pr) auto
  then obtain x xs where x: "pr @ c # f = x # xs" "\<not> is_digit x" "x \<notin> set fmt_flags" by blast
  have "\<exists>wd'. ?r = wd' @ x # xs \<and> list_all is_digit wd'"
    using assms(2)
  proof (induction wd)
    case Nil
    then show ?case using x by (intro exI [of _ "[]"]) simp
  next
    case (Cons d wd)
    then show ?case by (cases "d \<in> set fmt_flags") (auto simp: x(1) intro: exI [of _ "d # wd"])
  qed
  then obtain wd' where wd': "?r = wd' @ x # xs" "list_all is_digit wd'" by blast
  have 2: "dropWhile is_digit ?r = x # xs" unfolding wd'(1) by (rule dW [OF wd'(2) x(2)])
  show ?thesis
  proof (cases pr)
    case Nil
    with x have "x = c" "xs = f" by auto
    then show ?thesis unfolding skip_spec_def Let_def 1 2 using assms(6) by simp
  next
    case (Cons y ys)
    with x assms(3) have y: "x = CHR ''.''" "xs = ys @ c # f" "list_all is_digit ys" by auto
    then show ?thesis unfolding skip_spec_def Let_def 1 2 using dW [OF y(3) assms(5)] by simp
  qed
qed

lemma conv_kind_sized:
  "md \<in> {'''', ''h'', ''hh'', ''l'', ''ll''} \<Longrightarrow> cv \<in> set intfmts \<Longrightarrow>
     conv_kind (md @ cv # f) = Ptr (size_kind md, cv # f)"
  by (auto simp: conv_kind_def sized_def size_kind_def intfmts_def dblfmts_def)

definition extends :: "sds \<Rightarrow> bytes \<Rightarrow> sds \<Rightarrow> bool" where
  "extends s t s' \<longleftrightarrow> sds_ok s' \<and> sds_content s' = sds_content s @ t"

lemma cat_arg_extends:
  assumes "sds_ok s" and "sdslen s + length t < size_limit"
  shows "yields A (cat_arg A s t (length t)) (extends s t)"
proof (cases "t = []")
  case True
  with assms show ?thesis by (simp add: cat_arg_def extends_def)
next
  case False
  then have "cat_arg A s t (length t) = sdscatlen A s t (length t)" by (simp add: cat_arg_def)
  also have "yields A \<dots> (extends s t)"
    by (rule yields_mono [OF sdscatlen_spec [OF assms(1)]]) (use assms in \<open>simp_all add: extends_def\<close>)
  finally show ?thesis .
qed

lemma conv_head:
  assumes "md \<in> {'''', ''h'', ''hh'', ''l'', ''ll''}" and "cv \<in> set intfmts"
  obtains c g where "md @ [cv] = c # g" and "c \<notin> set fmt_flags" and "\<not> is_digit c" and "c \<noteq> CHR ''.''"
proof -
  have "hd (md @ [cv]) \<in> set ''hldiouxX''" using assms by (auto simp: intfmts_def)
  then have "hd (md @ [cv]) \<notin> set fmt_flags" "\<not> is_digit (hd (md @ [cv]))" "hd (md @ [cv]) \<noteq> CHR ''.''"
    by (auto simp: fmt_flags_def is_digit_def uch_def)
  then show ?thesis using that [of "hd (md @ [cv])" "tl (md @ [cv])"] by simp
qed

lemma conv_ok:
  assumes "piece_ok fp (Conv fl wd pr md cv a)"
  shows "set fl \<subseteq> set fmt_flags" "list_all is_digit wd"
    "pr = [] \<or> (hd pr = CHR ''.'' \<and> list_all is_digit (tl pr))"
    "md \<in> {'''', ''h'', ''hh'', ''l'', ''ll''}" "cv \<in> set intfmts"
    "arg_matches (size_kind md) a" "length (fl @ wd @ pr @ md) < 12"
  using assms unfolding piece_ok.simps by blast+

lemma conv_parse:
  assumes "piece_ok fp (Conv fl wd pr md cv a)"
  shows "conv_kind (skip_spec (fl @ wd @ pr @ md @ cv # f)) = Ptr (size_kind md, cv # f)"
proof -
  note ok = conv_ok [OF assms]
  from conv_head [OF ok(4,5)]
  obtain c g where g: "md @ [cv] = c # g" "c \<notin> set fmt_flags" "\<not> is_digit c" "c \<noteq> CHR ''.''" .
  have e: "md @ cv # f = c # g @ f" using g(1) by (metis append.assoc append_Cons append_Nil)
  have "skip_spec (fl @ wd @ pr @ md @ cv # f) = md @ cv # f"
    unfolding e by (rule skip_spec_conv [OF ok(1-3) g(2-4)])
  then show ?thesis using conv_kind_sized [OF ok(4,5)] by simp
qed

lemma conv_step:
  assumes ok: "piece_ok fp (Conv fl wd pr md cv a)" and s: "sds_ok s"
    and t: "t = piece_text fp (Conv fl wd pr md cv a)" and lim: "sdslen s + length t < size_limit"
    and g: "fl @ wd @ pr @ md @ [cv] = n # g"
  shows "\<exists>r. conversion_step fp A s n (g @ f) (a # ap) = Some (Inr (f, ap, r)) \<and>
    yields A (Some r) (extends s t)"
proof -
  let ?spec = "CHR ''%'' # n # g"
  have sp: "piece_format (Conv fl wd pr md cv a) = ?spec" using g by simp
  have out: "vsnprintf_text fp ?spec a = Some t" "NUL \<notin> set t"
    using ok unfolding t sp piece_ok.simps piece_text.simps by (auto split: option.splits)
  have nf: "n # g @ f = fl @ wd @ pr @ md @ cv # f"
    using arg_cong [OF g, of "\<lambda>x. x @ f"] by simp
  have kind: "conv_kind (skip_spec (n # g @ f)) = Ptr (size_kind md, cv # f)"
    unfolding nf by (rule conv_parse [OF ok])
  have n: "n \<noteq> CHR ''s''" "n \<noteq> CHR ''b''" "n \<noteq> CHR ''%''"
  proof -
    have "n \<in> set (fl @ wd @ pr @ md @ [cv])" using g by simp
    moreover have "set fl \<subseteq> set fmt_flags" "list_all is_digit wd" "set md \<subseteq> set ''hl''" "cv \<in> set intfmts"
      using conv_ok(1,2,4,5) [OF ok] by auto
    moreover have "\<forall>c \<in> set pr. c = CHR ''.'' \<or> is_digit c"
      using conv_ok(3) [OF ok] by (cases pr) (auto simp: list_all_iff)
    ultimately have "n \<in> set fmt_flags \<or> is_digit n \<or> n \<in> set ''hl'' \<or> n \<in> set intfmts \<or> n = CHR ''.''"
      by (auto simp: list_all_iff)
    then show "n \<noteq> CHR ''s''" "n \<noteq> CHR ''b''" "n \<noteq> CHR ''%''"
      by (auto simp: fmt_flags_def intfmts_def is_digit_def uch_def)
  qed
  have len: "length (g @ f) + 3 - length (cv # f) = length ?spec" "length ?spec < 14"
    using arg_cong [OF g, of length] conv_ok(7) [OF ok] by auto
  have tk: "take (length ?spec) (CHR ''%'' # n # g @ f) = ?spec" by simp
  have "yields A (sdscatvprintf A s ?spec t) (extends s t)"
    by (rule yields_mono [OF sdscatvprintf_spec [OF out(2) s lim]]) (simp add: extends_def)
  then obtain r where r: "sdscatvprintf A s ?spec t = Some r" "yields A (Some r) (extends s t)"
    by (auto simp: yields_def)
  have "conversion_step fp A s n (g @ f) (a # ap) = Some (Inr (f, ap, r))"
    unfolding conversion_step_def kind
    using n conv_ok(6) [OF ok] r(1) out(1) len by (simp add: Let_def tk [simplified])
  with r(2) show ?thesis by blast
qed

lemma piece_step:
  assumes "piece_ok fp p" and "sds_ok s" and "sdslen s + length (piece_text fp p) < size_limit"
    and "piece_format p = CHR ''%'' # n # g"
  shows "\<exists>r. conversion_step fp A s n (g @ f) (piece_args p @ ap) = Some (Inr (f, ap, r)) \<and>
    yields A (Some r) (extends s (piece_text fp p))"
proof -
  have ex: "\<exists>r. m = Some r \<and> yields A (Some r) P" if "yields A m P" for m P
    using that by (auto simp: yields_def)
  show ?thesis
  proof (cases p)
    case (Text t)
    with assms(1) have t: "cstr t = t" "cstrlen t = length t" by (simp_all add: cstrlen_def)
    from ex [OF cat_arg_extends [OF assms(2), of t A]] assms(3,4) Text t show ?thesis
      by (auto simp: conversion_step_def)
  next
    case (Bin t)
    from ex [OF cat_arg_extends [OF assms(2), of t A]] assms(3,4) Bin show ?thesis
      by (auto simp: conversion_step_def)
  next
    case Percent
    have "cstr ''%'' = ''%''" by simp
    then have "yields A (sdscat A s ''%'') (extends s ''%'')"
      using assms(3) Percent sdscat_spec [OF assms(2), of "''%''" A]
      by (auto simp: extends_def cstrlen_def elim: yields_mono)
    from ex [OF this] assms(4) Percent show ?thesis by (auto simp: conversion_step_def)
  next
    case (Conv fl wd pr md cv a)
    from assms(4) have "fl @ wd @ pr @ md @ [cv] = n # g" by (simp add: Conv)
    from conv_step [OF assms(1) [unfolded Conv] assms(2) refl assms(3) [unfolded Conv] this]
    show ?thesis by (simp add: Conv)
  qed (use assms in auto)
qed

section \<open>The loop\<close>

text \<open>
  \<open>settles A m P\<close>: the computation stays within defined behaviour; it ends with a state that satisfies
  \<open>P\<close>, or with a memory error that some refused allocation explains.
\<close>

definition settles :: "allocator \<Rightarrow> (int + 'a) option \<Rightarrow> ('a \<Rightarrow> bool) \<Rightarrow> bool" where
  "settles A m P \<longleftrightarrow>
     (\<exists>r. m = Some r \<and>
       (case r of Inl e \<Rightarrow> e = MEMORY_ERR \<and> \<not> (\<forall>n. grant A n) | Inr x \<Rightarrow> P x))"

lemma settles_Inr [simp]: "settles A (Some (Inr x)) P \<longleftrightarrow> P x"
  by (simp add: settles_def)

lemma settles_bind:
  assumes "settles A m P" and "\<And>x. P x \<Longrightarrow> settles A (f x) Q"
  shows "settles A (do { r \<leftarrow> m; (case r of Inl e \<Rightarrow> Some (Inl e) | Inr x \<Rightarrow> f x) }) Q"
proof -
  from assms(1) obtain r where r: "m = Some r"
    "case r of Inl e \<Rightarrow> e = MEMORY_ERR \<and> \<not> (\<forall>n. grant A n) | Inr x \<Rightarrow> P x"
    by (auto simp: settles_def)
  with assms(2) show ?thesis by (cases r) (auto simp: settles_def)
qed

lemma settles_yields:
  assumes "yields A m P" and "\<And>x. P x \<Longrightarrow> Q (f x)"
  shows "settles A (do { r \<leftarrow> m; Some (case r of Nullp \<Rightarrow> Inl MEMORY_ERR | Ptr x \<Rightarrow> Inr (f x)) }) Q"
  using assms by (auto simp: yields_def settles_def split: ptr.splits)

text \<open>The state holds the finished arguments \<open>dn\<close> and, if touched, the current one.\<close>

definition holds :: "bytes list \<Rightarrow> bool \<Rightarrow> bytes \<Rightarrow> fmt_state \<Rightarrow> bool" where
  "holds dn t cur st \<longleftrightarrow>
     list_all2 (\<lambda>s a. sds_ok s \<and> sds_content s = a) (curargv st) dn \<and>
     totlen st = int (length (concat (map bulk dn))) \<and>
     sds_ok (curarg st) \<and> sds_content (curarg st) = cur \<and> touched st = t \<and> (t \<or> cur = [])"

lemma holds_len: "holds dn t cur st \<Longrightarrow> sdslen (curarg st) = length cur"
  unfolding holds_def by (metis length_sds_content sds_ok_def)

lemma length_bulk: "length t < length (bulk t)"
  by (simp add: bulk_def)

lemma length_args: "length (concat ts) \<le> length (concat (map bulk ts))"
proof (induction ts)
  case (Cons t ts)
  then show ?case using length_bulk [of t] by simp
qed simp

lemma push_arg_spec:
  assumes h: "holds dn t cur st" and lim: "length (concat (map bulk (dn @ [cur]))) < 2 ^ 31"
  shows "settles A (Some (push_arg A st)) (\<lambda>st'. curarg st' = curarg st \<and> touched st' = touched st \<and>
    list_all2 (\<lambda>s a. sds_ok s \<and> sds_content s = a) (curargv st') (dn @ [cur]) \<and>
    totlen st' = int (length (concat (map bulk (dn @ [cur])))))"
proof -
  have "bulklen (sdslen (curarg st)) = length (bulk cur)"
    using holds_len [OF h] lim by (simp add: bulklen_length)
  then have "int32 (totlen st + int (bulklen (sdslen (curarg st)))) = int (length (concat (map bulk (dn @ [cur]))))"
    using h lim by (simp add: holds_def int32_id)
  then show ?thesis
    using h by (auto simp: push_arg_def settles_def holds_def intro: list_all2_appendI)
qed

lemma end_arg_spec:
  assumes h: "holds dn t cur st" and lim: "t \<Longrightarrow> length (concat (map bulk (dn @ [cur]))) < 2 ^ 31"
  shows "settles A (end_arg A st) (holds (if t then dn @ [cur] else dn) False [])"
proof (cases t)
  case False
  with h show ?thesis by (auto simp: end_arg_def holds_def)
next
  case True
  have "settles A (do { r \<leftarrow> Some (push_arg A st);
      (case r of Inl e \<Rightarrow> Some (Inl e)
       | Inr st \<Rightarrow> do { r \<leftarrow> sdsempty A;
           Some (case r of Nullp \<Rightarrow> Inl MEMORY_ERR | Ptr s \<Rightarrow> Inr (st\<lparr>curarg := s, touched := False\<rparr>)) }) })
      (holds (dn @ [cur]) False [])"
    by (rule settles_bind [OF push_arg_spec [OF h lim [OF True]]], rule settles_yields [OF sdsempty_spec])
       (auto simp: holds_def)
  with True h show ?thesis by (simp add: end_arg_def holds_def cong: sum.case_cong)
qed

lemma set_curarg_spec:
  assumes h: "holds dn t cur st" and y: "yields A m (extends (curarg st) u)"
  shows "settles A (set_curarg st m) (holds dn True (cur @ u))"
  unfolding set_curarg_def
  by (rule settles_yields [OF y]) (use h in \<open>auto simp: holds_def extends_def\<close>)

lemma lit_extends:
  assumes "sds_ok s" and "sdslen s + 1 < size_limit"
  shows "yields A (sdscatlen A s [c] 1) (extends s [c])"
  by (rule yields_mono [OF sdscatlen_spec [OF assms]]) (simp_all add: extends_def)

lemma format_text_Cons [simp]:
  "format_text (None # ts) = CHR '' '' # format_text ts"
  "format_text (Some p # ts) = piece_format p @ format_text ts"
  "format_args (None # ts) = format_args ts"
  "format_args (Some p # ts) = piece_args p @ format_args ts"
  by (simp_all add: format_text_def format_args_def)

lemma piece_format_percent:
  "piece_ok fp p \<Longrightarrow> (\<exists>c. p = Lit c) \<or> (\<exists>n g. piece_format p = CHR ''%'' # n # g)"
proof (cases p)
  case (Conv fl wd pr md cv a)
  have "fl @ wd @ pr @ md @ [cv] \<noteq> []" by simp
  then show ?thesis unfolding Conv piece_format.simps by (metis neq_Nil_conv)
qed auto

lemma loop_lit:
  assumes "c \<noteq> CHR ''%''"
  shows "fmt_cmd_loop fp A (c # f) ap st = do {
     r \<leftarrow> (if c = CHR '' '' then end_arg A st else set_curarg st (sdscatlen A (curarg st) [c] 1));
     (case r of Inl e \<Rightarrow> Some (Inl e) | Inr st \<Rightarrow> fmt_cmd_loop fp A f ap st) }"
  using assms by (simp add: fmt_cmd_loop.simps(2))

lemma loop_conv:
  assumes "conversion_step fp A (curarg st) n f ap = Some (Inr (g, ap', r))"
  shows "fmt_cmd_loop fp A (CHR ''%'' # n # f) ap st = do {
     r \<leftarrow> set_curarg st (Some r);
     (case r of Inl e \<Rightarrow> Some (Inl e) | Inr st \<Rightarrow> fmt_cmd_loop fp A g ap' st) }"
  using assms by (simp add: fmt_cmd_loop.simps(2) set_curarg_def)

lemma fmt_cmd_loop_spec:
  "format_ok fp ts \<Longrightarrow> holds dn t cur st \<Longrightarrow>
   length (concat (map bulk (dn @ fields_from fp t cur ts))) < 2 ^ 31 \<Longrightarrow>
   settles A (fmt_cmd_loop fp A (format_text ts) (format_args ts) st)
     (\<lambda>st'. \<exists>dn' t' cur'. holds dn' t' cur' st' \<and>
        dn @ fields_from fp t cur ts = dn' @ (if t' then [cur'] else []))"
proof (induction fp t cur ts arbitrary: dn st rule: fields_from.induct)
  case (1 fp t cur)
  from 1(2) show ?case
    unfolding format_text_def format_args_def list.map concat.simps fmt_cmd_loop.simps(1) settles_Inr fields_from.simps(1)
    by blast
next
  case (2 fp t cur ts)
  have ok: "format_ok fp ts" using "2.prems"(1) by (simp add: format_ok_def)
  let ?dn = "if t then dn @ [cur] else dn" and ?all = "dn @ fields_from fp t cur (None # ts)"
  have all: "?all = ?dn @ fields_from fp False [] ts"
    using "2.prems"(2) by (auto simp: holds_def)
  have "settles A (do { r \<leftarrow> end_arg A st;
      (case r of Inl e \<Rightarrow> Some (Inl e) | Inr st \<Rightarrow> fmt_cmd_loop fp A (format_text ts) (format_args ts) st) })
    (\<lambda>st'. \<exists>dn' t' cur'. holds dn' t' cur' st' \<and> ?all = dn' @ (if t' then [cur'] else []))"
  proof (rule settles_bind)
    show "settles A (end_arg A st) (holds ?dn False [])"
      by (rule end_arg_spec [OF "2.prems"(2)]) (use "2.prems"(3) in simp)
  next
    fix st'
    assume st': "holds ?dn False [] st'"
    have lim: "length (concat (map bulk (?dn @ fields_from fp False [] ts))) < 2 ^ 31"
      using "2.prems"(3) unfolding all .
    show "settles A (fmt_cmd_loop fp A (format_text ts) (format_args ts) st')
      (\<lambda>st'. \<exists>dn' t' cur'. holds dn' t' cur' st' \<and> ?all = dn' @ (if t' then [cur'] else []))"
    proof (cases t)
      case True
      show ?thesis unfolding all by (rule "2.IH"(1) [OF True ok st' lim])
    next
      case False
      with "2.prems"(2) have "cur = []" by (simp add: holds_def)
      then show ?thesis unfolding all using "2.IH"(2) [OF False ok] st' lim by simp
    qed
  qed
  moreover have "fmt_cmd_loop fp A (format_text (None # ts)) (format_args (None # ts)) st = do { r \<leftarrow> end_arg A st;
      (case r of Inl e \<Rightarrow> Some (Inl e) | Inr st \<Rightarrow> fmt_cmd_loop fp A (format_text ts) (format_args ts) st) }"
    using loop_lit [of "CHR '' ''"] by simp
  ultimately show ?case by argo
next
  case (3 fp t cur p ts)
  have ok: "format_ok fp ts" and p: "piece_ok fp p" using "3.prems"(1) by (simp_all add: format_ok_def)
  let ?u = "piece_text fp p"
  let ?all = "dn @ fields_from fp True (cur @ ?u) ts"
  have "length (cur @ ?u) \<le> length (concat (fields_from fp True (cur @ ?u) ts))"
    by (rule fields_from_len) simp
  also have "\<dots> \<le> length (concat (map bulk (fields_from fp True (cur @ ?u) ts)))" by (rule length_args)
  also have "\<dots> < 2 ^ 31" using "3.prems"(3) by simp
  finally have len: "length (cur @ ?u) < 2 ^ 31" .
  have s: "sds_ok (curarg st)" and lim: "sdslen (curarg st) + length ?u < size_limit"
    using "3.prems"(2) len holds_len [OF "3.prems"(2)] by (simp_all add: holds_def size_limit_def)
  have next_st: "settles A (set_curarg st m) (holds dn True (cur @ ?u))" if "yields A m (extends (curarg st) ?u)" for m
    by (rule set_curarg_spec [OF "3.prems"(2) that])
  have rest: "settles A (fmt_cmd_loop fp A (format_text ts) (format_args ts) st')
     (\<lambda>st'. \<exists>dn' t' cur'. holds dn' t' cur' st' \<and> ?all = dn' @ (if t' then [cur'] else []))"
    if "holds dn True (cur @ ?u) st'" for st'
    by (rule "3.IH" [OF ok that]) (use "3.prems"(3) in simp)
  from piece_format_percent [OF p] show ?case
  proof (elim disjE exE)
    fix c assume c: "p = Lit c"
    have "settles A (do { r \<leftarrow> set_curarg st (sdscatlen A (curarg st) [c] 1);
        (case r of Inl e \<Rightarrow> Some (Inl e) | Inr st \<Rightarrow> fmt_cmd_loop fp A (format_text ts) (format_args ts) st) })
      (\<lambda>st'. \<exists>dn' t' cur'. holds dn' t' cur' st' \<and> ?all = dn' @ (if t' then [cur'] else []))"
      by (rule settles_bind [OF next_st rest]) (use lit_extends [OF s] lim c in simp_all)
    with c p show ?thesis by (simp add: loop_lit)
  next
    fix n g assume g: "piece_format p = CHR ''%'' # n # g"
    obtain r where r: "conversion_step fp A (curarg st) n (g @ format_text ts) (piece_args p @ format_args ts) =
        Some (Inr (format_text ts, format_args ts, r))" "yields A (Some r) (extends (curarg st) ?u)"
      using piece_step [OF p s lim g] by blast
    have "settles A (do { r \<leftarrow> set_curarg st (Some r);
        (case r of Inl e \<Rightarrow> Some (Inl e) | Inr st \<Rightarrow> fmt_cmd_loop fp A (format_text ts) (format_args ts) st) })
      (\<lambda>st'. \<exists>dn' t' cur'. holds dn' t' cur' st' \<and> ?all = dn' @ (if t' then [cur'] else []))"
      by (rule settles_bind [OF next_st [OF r(2)] rest])
    with loop_conv [OF r(1)] g show ?thesis by simp
  qed
qed

section \<open>The formatting functions\<close>

text \<open>
  \<open>formats A m t\<close>: the call returns a command that is exactly \<open>t\<close> (and its NUL) with its length, or
  reports \<open>- 1\<close> because an allocation was refused.
\<close>

definition formats :: "allocator \<Rightarrow> (bytes ptr \<times> int) option \<Rightarrow> bytes \<Rightarrow> bool" where
  "formats A m t \<longleftrightarrow>
     m = Some (Ptr (t @ [NUL]), int (length t)) \<or>
     m = Some (Nullp, - 1) \<and> \<not> (\<forall>n. grant A n)"

lemma formats_granted: "formats A m t \<Longrightarrow> \<forall>n. grant A n \<Longrightarrow> m = Some (Ptr (t @ [NUL]), int (length t))"
  by (auto simp: formats_def)

lemma formats_build:
  assumes "yields A m (\<lambda>b. b = t @ [NUL])" and "n = int (length t)"
  shows "formats A (do { cmd \<leftarrow> m; Some (case cmd of Nullp \<Rightarrow> (Nullp, - 1) | Ptr b \<Rightarrow> (Ptr b, n)) }) t"
  using assms by (auto simp: yields_def formats_def split: ptr.splits)

lemma length_command:
  "length (command ts) = 1 + length (dec_nat (length ts)) + 2 + length (concat (map bulk ts))"
  by (simp add: command_def)

lemma list_all2_denotes:
  "list_all2 (\<lambda>s a. sds_ok s \<and> sds_content s = a) ss ts \<Longrightarrow> denotes (map (\<lambda>s. (buf s, sdslen s)) ss) ts"
  unfolding denotes_def
  by (induction rule: list_all2_induct) (auto simp: sds_content_def sds_ok_def sds_wf_def)

lemma finish_command:
  assumes a: "list_all2 (\<lambda>s a. sds_ok s \<and> sds_content s = a) (curargv st) ts"
    and n: "totlen st = int (length (concat (map bulk ts)))" and lim: "length (command ts) < 2 ^ 31 - 1"
  shows "formats A (do {
      let argc = length (curargv st);
      let n = int32 (totlen st + 1 + int (countDigits argc) + 2);
      cmd \<leftarrow> build_command A n (int argc) (map (\<lambda>s. (buf s, sdslen s)) (curargv st));
      Some (case cmd of Nullp \<Rightarrow> (Nullp, MEMORY_ERR) | Ptr b \<Rightarrow> (Ptr b, n)) }) (command ts)"
proof -
  have len: "length (curargv st) = length ts" using a by (rule list_all2_lengthD)
  have "totlen st + 1 + int (countDigits (length ts)) + 2 = int (length (command ts))"
    using n by (simp add: length_command countDigits_length)
  then have tot: "int32 (totlen st + 1 + int (countDigits (length ts)) + 2) = int (length (command ts))"
    using lim by (simp add: int32_id)
  show ?thesis
    unfolding Let_def MEMORY_ERR_def len tot
    by (rule formats_build [OF build_command_spec [OF list_all2_denotes [OF a] refl _ lim] refl])
       (simp add: len)
qed

theorem redisvFormatCommand_spec:
  assumes ok: "format_ok fp ts" and nul: "NUL \<notin> set (format_text ts)"
    and lim: "length (command (cmd_fields fp ts)) < 2 ^ 31 - 1"
  shows "formats A (redisvFormatCommand fp A True (format_text ts) (format_args ts)) (command (cmd_fields fp ts))"
proof -
  let ?F = "cmd_fields fp ts"
  have err: "formats A (Some (Nullp, - 1)) t" if "\<not> (\<forall>n. grant A n)" for t using that by (simp add: formats_def)
  from sdsempty_spec [of A] show ?thesis
  proof (cases "sdsempty A")
    case (Some e)
    show ?thesis
    proof (cases e)
      case Nullp
      then have "\<not> (\<forall>n. grant A n)" using sdsempty_spec [of A] Some by (auto simp: yields_def)
      from err [OF this] show ?thesis by (simp add: redisvFormatCommand_def Some Nullp)
    next
      case (Ptr s)
      let ?st = "\<lparr>curargv = [], totlen = 0, curarg = s, touched = False\<rparr>"
      have h: "holds [] False [] ?st"
        using sdsempty_spec [of A] Some Ptr by (auto simp: yields_def holds_def)
      have small: "length (concat (map bulk ([] @ fields_from fp False [] ts))) < 2 ^ 31"
        using lim by (simp add: cmd_fields_eq length_command)
      obtain r where r: "fmt_cmd_loop fp A (format_text ts) (format_args ts) ?st = Some r"
        "case r of Inl e \<Rightarrow> e = MEMORY_ERR \<and> \<not> (\<forall>n. grant A n)
         | Inr st' \<Rightarrow> \<exists>dn' t' cur'. holds dn' t' cur' st' \<and> ?F = dn' @ (if t' then [cur'] else [])"
        using fmt_cmd_loop_spec [OF ok h small, of A] unfolding settles_def cmd_fields_eq append_Nil by blast
      show ?thesis
      proof (cases r)
        case (Inl e)
        with r err show ?thesis using nul by (simp add: redisvFormatCommand_def Some Ptr MEMORY_ERR_def)
      next
        case (Inr st')
        with r(2) obtain dn' t' cur' where st': "holds dn' t' cur' st'" "?F = dn' @ (if t' then [cur'] else [])"
          by auto
        have t': "touched st' = t'" using st'(1) by (simp add: holds_def)
        obtain q where q: "(if touched st' then push_arg A st' else Inr st') = q"
          "case q of Inl e \<Rightarrow> e = MEMORY_ERR \<and> \<not> (\<forall>n. grant A n)
           | Inr st \<Rightarrow> list_all2 (\<lambda>s a. sds_ok s \<and> sds_content s = a) (curargv st) ?F \<and>
               totlen st = int (length (concat (map bulk ?F)))"
        proof (cases t')
          case True
          have "length (concat (map bulk (dn' @ [cur']))) < 2 ^ 31"
            using small st'(2) True by (simp add: cmd_fields_eq)
          with push_arg_spec [OF st'(1) this, of A] show ?thesis
            using that True t' st'(2) by (auto simp: settles_def split: sum.splits)
        next
          case False
          then show ?thesis using that t' st' by (auto simp: holds_def)
        qed
        show ?thesis
        proof (cases q)
          case (Inl e)
          with q r(1) Inr err nul show ?thesis
            by (simp add: redisvFormatCommand_def Some Ptr MEMORY_ERR_def)
        next
          case (Inr st)
          with q(2) finish_command [OF _ _ lim, of st A] have "formats A (do {
              let argc = length (curargv st);
              let n = int32 (totlen st + 1 + int (countDigits argc) + 2);
              cmd \<leftarrow> build_command A n (int argc) (map (\<lambda>s. (buf s, sdslen s)) (curargv st));
              Some (case cmd of Nullp \<Rightarrow> (Nullp, MEMORY_ERR) | Ptr b \<Rightarrow> (Ptr b, n)) }) (command ?F)" by simp
          with q(1) Inr r(1) \<open>r = Inr st'\<close> nul show ?thesis
            by (simp add: redisvFormatCommand_def Some Ptr)
        qed
      qed
    qed
  qed (simp add: yields_def)
qed

end
