(* ===== verification/Format_Theorems.thy ===== *)
theory Format_Theorems
  imports Format_Spec Reader_Reply
begin

text \<open>
  The vector variants of the formatting functions, formatting errors, and the properties of command
  formatting.
\<close>

section \<open>Argument vectors\<close>

definition argv_denotes :: "bytes list \<Rightarrow> nat list ptr \<Rightarrow> bytes list \<Rightarrow> bool" where
  "argv_denotes argv argvlen ts \<longleftrightarrow>
     (case argvlen of
        Nullp \<Rightarrow> ts = map cstr argv
      | Ptr ls \<Rightarrow> length ls = length argv \<and> denotes (zip argv ls) ts)"

lemma cstr_take: "take (cstrlen t) t = cstr t" "cstrlen t \<le> length t"
  by (simp_all add: cstrlen_def cstr_def takeWhile_eq_take [symmetric] length_takeWhile_le)

lemma arg_lens_spec:
  assumes "argv_denotes argv argvlen ts"
  obtains args where "arg_lens (length argv) argv argvlen = Some args" and "denotes args ts"
proof (cases argvlen)
  case Nullp
  have "denotes (map (\<lambda>t. (t, cstrlen t)) argv) (map cstr argv)"
    by (auto simp: denotes_def list_all2_conv_all_nth cstr_take)
  then show ?thesis using that assms Nullp by (simp add: argv_denotes_def arg_lens_def)
next
  case (Ptr ls)
  then show ?thesis using that assms by (simp add: argv_denotes_def arg_lens_def)
qed

lemma denotes_length: "denotes args ts \<Longrightarrow> length args = length ts"
  unfolding denotes_def by (rule list_all2_lengthD)

lemma argv_length: "argv_denotes argv argvlen ts \<Longrightarrow> length argv = length ts"
  using denotes_length by (cases argvlen) (fastforce simp: argv_denotes_def)+

lemma denotes_lens: "denotes args ts \<Longrightarrow> map snd args = map length ts"
  unfolding denotes_def by (induction rule: list_all2_induct) auto

lemma foldl_snd: "foldl (\<lambda>n (t, len). f n len) a args = foldl f a (map snd args)"
  by (induction args arbitrary: a) auto

lemma total_int32:
  "n + length (concat (map bulk ts)) < 2 ^ 31 \<Longrightarrow>
     foldl (\<lambda>n len. int32 (n + int (bulklen len))) (int n) (map length ts) =
       int (n + length (concat (map bulk ts)))"
proof (induction ts arbitrary: n)
  case (Cons t ts)
  have b: "bulklen (length t) = length (bulk t)" using Cons.prems by (simp add: bulklen_length)
  have "int32 (int n + int (length (bulk t))) = int (n + length (bulk t))"
    using Cons.prems by (simp add: int32_id)
  then show ?case using Cons.IH [of "n + length (bulk t)"] Cons.prems by (simp add: b)
qed simp

lemma total_usz:
  "n + length (concat (map bulk ts)) < 2 ^ 64 \<Longrightarrow>
     foldl (\<lambda>n len. usz (n + bulklen len)) n (map length ts) = n + length (concat (map bulk ts))"
proof (induction ts arbitrary: n)
  case (Cons t ts)
  have b: "bulklen (length t) = length (bulk t)" using Cons.prems by (simp add: bulklen_length)
  have "usz (n + length (bulk t)) = n + length (bulk t)" using Cons.prems by simp
  then show ?case using Cons.IH [of "n + length (bulk t)"] Cons.prems by (simp add: b)
qed simp

lemma few_args: "length (command ts) < k \<Longrightarrow> length ts < k"
proof -
  have "length ts \<le> length (concat (map bulk ts))"
  proof (induction ts)
    case (Cons t ts)
    then show ?case by (simp add: bulk_def)
  qed simp
  then show "length (command ts) < k \<Longrightarrow> length ts < k" by (simp add: length_command)
qed

lemma FormatCommandArgv_formats:
  assumes a: "argv_denotes argv argvlen ts" and lim: "length (command ts) < 2 ^ 31 - 1"
  shows "formats A (redisFormatCommandArgv A True (int (length argv)) argv argvlen) (command ts)"
proof -
  obtain args where args: "arg_lens (length argv) argv argvlen = Some args" "denotes args ts"
    using arg_lens_spec [OF a] .
  have n: "length argv = length ts"
    using a by (rule argv_length)
  then have "usz_of_int (int (length argv)) = length ts"
    using few_args [OF lim] by (simp add: usz_of_int_id)
  then have tot: "foldl (\<lambda>n (t, len). int32 (n + int (bulklen len)))
      (int (1 + countDigits (usz_of_int (int (length argv))) + 2)) args = int (length (command ts))"
    using total_int32 [of "1 + countDigits (length ts) + 2" ts] lim
    by (simp add: foldl_snd denotes_lens [OF args(2)] length_command countDigits_length)
  have "yields A (build_command A (int (length (command ts))) (int (length argv)) args)
      (\<lambda>b. b = command ts @ [NUL])"
    by (rule build_command_spec [OF args(2) refl _ lim]) (simp add: n denotes_length [OF args(2)])
  note formats_build [OF this refl]
  then show ?thesis
    unfolding redisFormatCommandArgv_def Let_def nat_int args(1) bind.bind_lunit tot by simp
qed

section \<open>The sds variant\<close>

lemma sdscatfmt_CRLF:
  assumes "\<forall>n. grant A n" and "sds_ok s" and "fmt_render f [a] = Some t" and "NUL \<notin> set f"
    and "sdslen s + length t + 3 < 2 ^ 31"
  shows "\<exists>s'. sdscatfmt A s f [a] = Some s' \<and> sds_ok s' \<and> sds_content s' = sds_content s @ t"
  by (rule sdscatfmt_spec) (use assms in auto)

lemma render_header:
  "n < 2 ^ 31 \<Longrightarrow> fmt_render (''*%i'' @ CRLF) [ArgInt (int n)] = Some (CHR ''*'' # dec_nat n @ CRLF)"
  "n < 2 ^ 32 \<Longrightarrow> fmt_render (''$%u'' @ CRLF) [ArgUInt n] = Some (CHR ''$'' # dec_nat n @ CRLF)"
  by (auto simp: spec_render_def conversion_def take_arg_def spec_text_def dec_int_def CRLF_def)

lemma sds_ok_len: "sds_ok s \<Longrightarrow> sdslen s = length (sds_content s)"
  by (metis length_sds_content sds_ok_def)

lemma sds_bulks_spec:
  assumes g: "\<forall>n. grant A n"
  shows "sds_ok s \<Longrightarrow> denotes args ts \<Longrightarrow> sdslen s + length (concat (map bulk ts)) + 3 < 2 ^ 31 \<Longrightarrow>
    \<exists>s'. sds_bulks A s args = Some s' \<and> sds_ok s' \<and> sds_content s' = sds_content s @ concat (map bulk ts)"
proof (induction args arbitrary: s ts)
  case Nil
  then show ?case by (simp add: denotes_def)
next
  case (Cons a args)
  obtain arg len where a: "a = (arg, len)" by (cases a)
  from Cons.prems(2) a obtain ts' where ts: "ts = take len arg # ts'" "len \<le> length arg" "denotes args ts'"
    by (auto simp: denotes_def list_all2_Cons1)
  let ?t = "take len arg" and ?h = "CHR ''$'' # dec_nat len @ CRLF"
  have b: "bulk ?t = ?h @ ?t @ CRLF" using ts(2) by (simp add: bulk_def min_def)
  have L: "sdslen s + length ?h + len + 2 + length (concat (map bulk ts')) + 3 < 2 ^ 31"
    using Cons.prems(3) ts(1,2) b by (simp add: min_def split: if_splits)
  have len: "len mod 2 ^ 32 = len" "len < 2 ^ 32" using L by simp_all
  obtain s1 where s1: "sdscatfmt A s (''$%u'' @ CRLF) [ArgUInt len] = Some s1" "sds_ok s1"
      "sds_content s1 = sds_content s @ ?h"
    using sdscatfmt_CRLF [OF g Cons.prems(1) render_header(2) [OF len(2)]] L by (auto simp: CRLF_def)
  have l1: "sdslen s1 = sdslen s + length ?h" using s1 sds_ok_len Cons.prems(1) by simp
  have "sdslen s1 + len < size_limit" using L l1 by (simp add: size_limit_def)
  from yields_granted [OF sdscatlen_spec [OF s1(2) this ts(2)] g] obtain s2 where s2:
      "sdscatlen A s1 arg len = Some (Ptr s2)" "sds_ok s2" "sds_content s2 = sds_content s1 @ ?t"
      "sdslen s2 = sdslen s1 + len" by auto
  have "sdslen s2 + 2 < size_limit" using L l1 s2(4) by (simp add: size_limit_def)
  from yields_granted [OF sdscatlen_spec [OF s2(2) this, of CRLF] g] obtain s3 where s3:
      "sdscatlen A s2 CRLF 2 = Some (Ptr s3)" "sds_ok s3" "sds_content s3 = sds_content s2 @ CRLF"
      "sdslen s3 = sdslen s2 + 2" by (auto simp: CRLF_def)
  have "sdslen s3 + length (concat (map bulk ts')) + 3 < 2 ^ 31" using L l1 s2(4) s3(4) by simp
  from Cons.IH [OF s3(2) ts(3) this] obtain s4 where s4: "sds_bulks A s3 args = Some s4" "sds_ok s4"
      "sds_content s4 = sds_content s3 @ concat (map bulk ts')" by blast
  show ?case using s1 s2 s3 s4 len(1) ts(1) b by (simp add: a)
qed

lemma FormatSdsCommandArgv_spec:
  assumes g: "\<forall>n. grant A n" and a: "argv_denotes argv argvlen ts" and lim: "length (command ts) + 3 < 2 ^ 31"
  shows "\<exists>s. redisFormatSdsCommandArgv A True (int (length argv)) argv argvlen = Some (Ptr s, int (length (command ts))) \<and>
    sds_ok s \<and> sds_content s = command ts"
proof -
  obtain args where args: "arg_lens (length argv) argv argvlen = Some args" "denotes args ts"
    using arg_lens_spec [OF a] .
  have n: "length argv = length ts"
    using a by (rule argv_length)
  have few: "length ts < 2 ^ 31" using few_args [of ts "2 ^ 31"] lim by simp
  then have u: "usz_of_int (int (length ts)) = length ts" by (simp add: usz_of_int_id)
  have tot: "foldl (\<lambda>n (t, len). usz (n + bulklen len)) (1 + countDigits (length ts) + 2) args = length (command ts)"
    using total_usz [of "1 + countDigits (length ts) + 2" ts] lim
    by (simp add: foldl_snd denotes_lens [OF args(2)] length_command countDigits_length)
  obtain s where s: "sdsempty A = Some (Ptr s)" "sds_ok s" "sds_content s = []"
    using yields_granted [OF sdsempty_spec g] by auto
  have l: "sdslen s = 0" using s sds_ok_len by simp
  have "sdslen s + length (command ts) < size_limit" using l lim by (simp add: size_limit_def)
  from yields_granted [OF sdsMakeRoomFor_spec [OF s(2) this] g] obtain s1 where s1:
    "sdsMakeRoomFor A s (length (command ts)) = Some (Ptr s1)" "sds_ok s1" "sds_content s1 = []" "sdslen s1 = 0"
    using s(3) l by auto
  let ?h = "CHR ''*'' # dec_nat (length ts) @ CRLF"
  obtain s2 where s2: "sdscatfmt A s1 (''*%i'' @ CRLF) [ArgInt (int (length ts))] = Some s2" "sds_ok s2"
      "sds_content s2 = ?h"
    using sdscatfmt_CRLF [OF g s1(2) render_header(1) [OF few]] lim s1(3,4)
    by (auto simp: CRLF_def length_command)
  have "sdslen s2 = length ?h" using s2 sds_ok_len by metis
  then have "sdslen s2 + length (concat (map bulk ts)) + 3 < 2 ^ 31" using lim by (simp add: length_command)
  from sds_bulks_spec [OF g s2(2) args(2) this] obtain s3 where s3: "sds_bulks A s2 args = Some s3" "sds_ok s3"
      "sds_content s3 = command ts" using s2(3) by (auto simp: command_def)
  have "int32 (int (length (command ts))) = int (length (command ts))" using lim by (simp add: int32_id)
  then show ?thesis
    using s s1 s2 s3 sds_ok_len [OF s3(2)] args(1) tot
    by (simp add: redisFormatSdsCommandArgv_def n u)
qed

section \<open>A command read back\<close>

lemma value_ok_args: "length ts < 2 ^ 31 \<Longrightarrow> value_ok 0 (VArr (map VStr ts))"
  by auto

lemma command_read_back:
  assumes g: "\<forall>n. grant A n" and h: "heap_ready h" "\<forall>b \<ge> nxt h. objs h b = None"
    and lim: "length (command ts) < 2 ^ 31 - 1"
  shows "\<exists>r r1 r2. redisReaderCreate A h = Some (Ptr r) \<and>
    redisReaderFeed A r (Ptr (command ts)) (length (command ts)) = Some (r1, REDIS_OK) \<and>
    get_replies 1 r1 = Some (r2, [nxt h]) \<and>
    live (objs (world r2)) (nxt h) (VArr (map VStr ts)) \<and> unread r2 = []"
proof -
  let ?v = "VArr (map VStr ts)"
  have c: "concat (map encode [?v]) = command ts" by (simp only: command_encode list.map concat.simps append_Nil2)
  have "length ts < 2 ^ 31" using few_args [OF lim] by simp
  from stream_roundtrip [OF g h, of "[?v]"] value_ok_args [OF this] lim
  show ?thesis unfolding c by auto
qed

section \<open>An incomplete conversion\<close>

lemma digits_at_end:
  assumes "list_all is_digit wd" and "wd \<noteq> []"
  shows "conversion_step fp A s (hd wd) (tl wd) (VaInt i # ap) =
    (if length wd < 12 then None else Some (Inr (tl wd, ap, Ptr s)))"
proof -
  have "set (dropWhile (\<lambda>c. c \<in> set fmt_flags) wd) \<subseteq> set wd" by (auto dest: set_dropWhileD)
  then have d: "dropWhile is_digit (dropWhile (\<lambda>c. c \<in> set fmt_flags) wd) = []"
    using assms(1) by (auto simp: dropWhile_eq_Nil_conv list_all_iff)
  then have sk: "skip_spec (hd wd # tl wd) = []" by (simp only: skip_spec_def Let_def list.collapse [OF assms(2)] d list.case)
  have "is_digit (hd wd)" using assms by (cases wd) auto
  then have n: "hd wd \<noteq> CHR ''s''" "hd wd \<noteq> CHR ''b''" "hd wd \<noteq> CHR ''%''"
    by (auto simp: is_digit_def uch_def)
  have "length (tl wd) + 3 = length wd + 2" using assms(2) by (cases wd) auto
  then show ?thesis
    using n sk by (simp add: conversion_step_def conv_kind_def arg_matches_def Let_def)
qed

section \<open>Properties\<close>

text \<open>
  C24. A format of words and conversions yields one argument per word: the command is the array of
  bulk strings whose contents are the words with their conversions replaced. Interpolated strings are
  never split or scanned again, whatever bytes they hold. For every allocator the call returns this
  command and its length, or \<open>- 1\<close> when an allocation was refused.
\<close>

theorem format_one_argument_per_word:
  assumes "format_ok fp ts" and "NUL \<notin> set (format_text ts)"
    and "length (command (cmd_fields fp ts)) < 2 ^ 31 - 1"
  shows "formats A (redisvFormatCommand fp A True (format_text ts) (format_args ts)) (command (cmd_fields fp ts))"
  using assms by (rule redisvFormatCommand_spec)

theorem format_one_argument_per_word_witness:
  "formats generous
     (redisvFormatCommand (\<lambda>_ _. []) generous True ''S%s  %b:%03d'' [VaPtr ''T a'', VaPtr [CR, NUL], VaSize 2, VaInt 7])
     (command [''ST a'', [CR, NUL, CHR '':''] @ ''007''])"
proof -
  let ?ts = "[Some (Lit (CHR ''S'')), Some (Text ''T a''), None, None, Some (Bin [CR, NUL]), Some (Lit (CHR '':'')),
    Some (Conv ''0'' ''3'' '''' '''' (CHR ''d'') (VaInt 7))]"
  have f: "format_text ?ts = ''S%s  %b:%03d''" "format_args ?ts = [VaPtr ''T a'', VaPtr [CR, NUL], VaSize 2, VaInt 7]"
    by (simp_all add: format_text_def format_args_def)
  have v: "vsnprintf_text (\<lambda>_ _. []) ''%03d'' (VaInt 7) = Some ''007''" by code_simp
  then have w: "cmd_fields (\<lambda>_ _. []) ?ts = [''ST a'', [CR, NUL, CHR '':''] @ ''007'']"
    by (simp add: cmd_fields_def)
  have ok: "format_ok (\<lambda>_ _. []) ?ts"
    using v by (simp add: format_ok_def fmt_flags_def intfmts_def arg_matches_def size_kind_def is_digit_def uch_def)
  have "length (command [''ST a'', [CR, NUL, CHR '':''] @ ''007'']) = 26" by code_simp
  then show ?thesis
    using format_one_argument_per_word [OF ok, of generous] unfolding f w by simp
qed

text \<open>
  Round trip: the command that \<open>redisFormatCommandArgv\<close> writes for an argument vector, fed to a
  reader, comes back as one array reply whose elements are the strings of the vector, in order.
\<close>

theorem formatted_command_read_back:
  assumes "\<forall>n. grant A n" and "argv_denotes argv argvlen ts" and "length (command ts) < 2 ^ 31 - 1"
    and "heap_ready h" and "\<forall>b \<ge> nxt h. objs h b = None"
  shows "\<exists>r r1 r2. redisFormatCommandArgv A True (int (length argv)) argv argvlen =
      Some (Ptr (command ts @ [NUL]), int (length (command ts))) \<and>
    redisReaderCreate A h = Some (Ptr r) \<and>
    redisReaderFeed A r (Ptr (command ts)) (length (command ts)) = Some (r1, REDIS_OK) \<and>
    get_replies 1 r1 = Some (r2, [nxt h]) \<and>
    live (objs (world r2)) (nxt h) (VArr (map VStr ts)) \<and> unread r2 = []"
  using formats_granted [OF FormatCommandArgv_formats [OF assms(2,3)] assms(1)]
    command_read_back [OF assms(1,4,5,3)] by blast

theorem formatted_command_read_back_witness:
  "\<exists>h r r1 r2. redisFormatCommandArgv generous True 2 [''GET'', ''key''] Nullp =
      Some (Ptr (command [''GET'', ''key''] @ [NUL]), 22) \<and>
    redisReaderCreate generous h = Some (Ptr r) \<and>
    redisReaderFeed generous r (Ptr (command [''GET'', ''key''])) 22 = Some (r1, REDIS_OK) \<and>
    get_replies 1 r1 = Some (r2, [1]) \<and>
    live (objs (world r2)) 1 (VArr [VStr ''GET'', VStr ''key'']) \<and> unread r2 = []"
proof -
  let ?h = "\<lparr>objs = Map.empty, nxt = 1, granting = (\<lambda>_ _. True)\<rparr>"
  have l: "length (command [''GET'', ''key'']) = 22" by code_simp
  have a: "argv_denotes [''GET'', ''key''] Nullp [''GET'', ''key'']" by (simp add: argv_denotes_def)
  have h: "heap_ready ?h" "\<forall>b \<ge> nxt ?h. objs ?h b = None" by (simp_all add: heap_ready_def)
  have "length (command [''GET'', ''key'']) < 2 ^ 31 - 1" "\<forall>n. grant generous n" unfolding l by simp_all
  from formatted_command_read_back [OF this(2) a this(1) h] show ?thesis
    unfolding l by (intro exI [of _ ?h]) simp
qed

text \<open>
  The two ways of formatting an argument vector agree: \<open>redisFormatSdsCommandArgv\<close> and
  \<open>redisFormatCommandArgv\<close> produce the same bytes and return the same length.
\<close>

theorem argv_formatters_agree:
  assumes "\<forall>n. grant A n" and "argv_denotes argv argvlen ts" and "length (command ts) + 3 < 2 ^ 31"
  shows "\<exists>s cmd n. redisFormatSdsCommandArgv A True (int (length argv)) argv argvlen = Some (Ptr s, n) \<and>
    redisFormatCommandArgv A True (int (length argv)) argv argvlen = Some (Ptr cmd, n) \<and>
    sds_ok s \<and> cmd = sds_content s @ [NUL]"
proof -
  have "length (command ts) < 2 ^ 31 - 1" using assms(3) by simp
  from formats_granted [OF FormatCommandArgv_formats [OF assms(2) this] assms(1)]
    FormatSdsCommandArgv_spec [OF assms] show ?thesis by auto
qed

theorem argv_formatters_agree_witness:
  "\<exists>s cmd n. redisFormatSdsCommandArgv generous True 2 [''ECHO'', ''xyz''] (Ptr [4, 2]) = Some (Ptr s, n) \<and>
    redisFormatCommandArgv generous True 2 [''ECHO'', ''xyz''] (Ptr [4, 2]) = Some (Ptr cmd, n) \<and>
    sds_ok s \<and> cmd = sds_content s @ [NUL]"
proof -
  have a: "argv_denotes [''ECHO'', ''xyz''] (Ptr [4, 2]) [''ECHO'', ''xy'']"
    by (simp add: argv_denotes_def denotes_def)
  have "length (command [''ECHO'', ''xy'']) = 22" by code_simp
  then show ?thesis using argv_formatters_agree [OF _ a, of generous] by simp
qed

text \<open>
  A format that ends inside a conversion, after the digits of its field width, takes the
  execution out of defined behaviour: the end of the format counts as an integer conversion
  (\<open>strchr\<close> finds the terminating NUL), and the format is read behind its end.
\<close>

theorem format_ends_in_width:
  assumes "list_all is_digit wd" and "wd \<noteq> []" and "length wd < 12" and "\<forall>n. grant A n"
  shows "redisvFormatCommand fp A True (CHR ''%'' # wd) (VaInt i # ap) = None"
proof -
  obtain s where s: "sdsempty A = Some (Ptr s)" using yields_granted [OF sdsempty_spec assms(4)] by blast
  have "NUL \<notin> set wd" using assms(1) by (auto simp: list_all_iff is_digit_def uch_def)
  then have "cstr (CHR ''%'' # wd) = CHR ''%'' # wd" by simp
  moreover have "fmt_cmd_loop fp A (CHR ''%'' # wd) (VaInt i # ap) \<lparr>curargv = [], totlen = 0, curarg = s, touched = False\<rparr> = None"
    using digits_at_end [OF assms(1,2), of fp A s i ap] assms(2,3)
    by (cases wd) (simp_all add: fmt_cmd_loop.simps(2))
  ultimately show ?thesis by (simp add: redisvFormatCommand_def s)
qed

theorem format_ends_in_width_witness:
  "redisvFormatCommand (\<lambda>_ _. []) generous True ''%5'' [VaInt 3] = None"
  using format_ends_in_width [of "''5''" generous "\<lambda>_ _. []" 3 "[]"] by (simp add: is_digit_def uch_def)

end
