(* ===== verification/Context.thy ===== *)
theory Context
  imports Reply "HOL-Library.Signed_Division"
begin

unbundle bit_operations_syntax

text \<open>
  The connection context of \<open>hiredis.h\<close> and the operating system it talks to.

  The system is a function: given the calls made so far, with their results, and the next call, it
  answers with a result. A run is then determined by the system, and every theorem holds for all
  systems or for those with a stated behaviour. The calls made are recorded in \<open>trace\<close>; a call that
  fails sets \<open>errno\<close>.
\<close>

section \<open>The operating system\<close>

record timeval =
  tv_sec :: int
  tv_usec :: int

record addrinfo =
  ai_family :: int
  ai_socktype :: int
  ai_protocol :: int
  ai_addr :: bytes

datatype sockopt =
    SO_REUSEADDR int
  | SO_KEEPALIVE int
  | TCP_KEEPIDLE int
  | TCP_KEEPINTVL int
  | TCP_KEEPCNT int
  | TCP_NODELAY int
  | SO_RCVTIMEO timeval
  | SO_SNDTIMEO timeval

datatype syscall =
    SysRead int nat
  | SysWrite int bytes
  | SysClose int
  | SysSocket int int int
  | SysSetsockopt int sockopt
  | SysGetSoError int
  | SysGetfl int
  | SysSetfl int int
  | SysPoll int int
  | SysConnect int bytes
  | SysBind int bytes
  | SysGetaddrinfo "bytes ptr" "bytes ptr" int

text \<open>
  A result: the value returned, the error number of a failure, the bytes read, the value of
  \<open>SO_ERROR\<close>, and the addresses found.
\<close>

record sysres =
  ret :: int
  failno :: int
  rdata :: bytes
  so_error :: int
  addrs_found :: "addrinfo list"

record sys =
  os :: "(syscall \<times> sysres) list \<Rightarrow> syscall \<Rightarrow> sysres"
  trace :: "(syscall \<times> sysres) list"
  errno :: int
  strerror :: "int \<Rightarrow> bytes"
  gai_strerror :: "int \<Rightarrow> bytes"

definition sys_call :: "sys \<Rightarrow> syscall \<Rightarrow> sys \<times> sysres" where
  "sys_call s c =
     (let r = os s (trace s) c
      in (s\<lparr>trace := trace s @ [(c, r)], errno := if ret r = -1 then failno r else errno s\<rparr>, r))"

text \<open>Error numbers and socket constants (Linux).\<close>

definition EINTR :: int where "EINTR = 4"
definition EAGAIN :: int where "EAGAIN = 11"
definition EADDRNOTAVAIL :: int where "EADDRNOTAVAIL = 99"
definition ETIMEDOUT :: int where "ETIMEDOUT = 110"
definition EHOSTUNREACH :: int where "EHOSTUNREACH = 113"
definition EINPROGRESS :: int where "EINPROGRESS = 115"
definition AF_LOCAL :: int where "AF_LOCAL = 1"
definition AF_INET :: int where "AF_INET = 2"
definition AF_INET6 :: int where "AF_INET6 = 10"
definition SOCK_STREAM :: int where "SOCK_STREAM = 1"
definition O_NONBLOCK :: int where "O_NONBLOCK = 2048"

lemmas errno_codes = EINTR_def EAGAIN_def EADDRNOTAVAIL_def ETIMEDOUT_def EHOSTUNREACH_def EINPROGRESS_def

section \<open>Flags\<close>

definition REDIS_BLOCK :: "32 word" where "REDIS_BLOCK = 0x1"
definition REDIS_CONNECTED :: "32 word" where "REDIS_CONNECTED = 0x2"
definition REDIS_DISCONNECTING :: "32 word" where "REDIS_DISCONNECTING = 0x4"
definition REDIS_FREEING :: "32 word" where "REDIS_FREEING = 0x8"
definition REDIS_IN_CALLBACK :: "32 word" where "REDIS_IN_CALLBACK = 0x10"
definition REDIS_SUBSCRIBED :: "32 word" where "REDIS_SUBSCRIBED = 0x20"
definition REDIS_MONITORING :: "32 word" where "REDIS_MONITORING = 0x40"
definition REDIS_REUSEADDR :: "32 word" where "REDIS_REUSEADDR = 0x80"
definition REDIS_KEEPALIVE_INTERVAL :: int where "REDIS_KEEPALIVE_INTERVAL = 15"
definition REDIS_CONNECT_RETRIES :: nat where "REDIS_CONNECT_RETRIES = 10"

lemmas redis_flags =
  REDIS_BLOCK_def REDIS_CONNECTED_def REDIS_DISCONNECTING_def REDIS_FREEING_def
  REDIS_IN_CALLBACK_def REDIS_SUBSCRIBED_def REDIS_MONITORING_def REDIS_REUSEADDR_def

text \<open>\<open>flags & x\<close> as a condition.\<close>

definition has :: "32 word \<Rightarrow> 32 word \<Rightarrow> bool" where
  "has f x \<longleftrightarrow> f AND x \<noteq> 0"

lemma has_set: "has (f OR x) y \<longleftrightarrow> has f y \<or> x AND y \<noteq> 0"
  by (simp add: has_def bit.conj_disj_distrib2 or_eq_0_iff)

lemma has_clear: "x AND y = 0 \<Longrightarrow> has (f AND NOT x) y \<longleftrightarrow> has f y"
proof -
  assume "x AND y = 0"
  have "(f AND NOT x) AND y = f AND y"
  proof (rule bit_eqI)
    fix n
    have "bit (x AND y) n = False" using \<open>x AND y = 0\<close> by simp
    then show "bit ((f AND NOT x) AND y) n = bit (f AND y) n"
      by (auto simp: bit_and_iff bit_not_iff dest: bit_imp_le_length)
  qed
  then show ?thesis by (simp add: has_def)
qed

lemma has_clear_self: "\<not> has (f AND NOT x) x"
proof -
  have "(f AND NOT x) AND x = 0" by (rule bit_eqI) (auto simp: bit_and_iff bit_not_iff)
  then show ?thesis by (simp add: has_def)
qed

lemma has_set_self: "x \<noteq> 0 \<Longrightarrow> has (f OR x) x"
  by (simp add: has_set)

section \<open>The context\<close>

datatype redisConnectionType = REDIS_CONN_TCP | REDIS_CONN_UNIX

text \<open>
  The reader may be NULL; then only the heap of the reply objects is left (\<open>Inl\<close>). The structure also
  holds the system, which stands for everything outside the process.
\<close>

record redisContext =
  cerr :: int
  cerrstr :: bytes
  fd :: int
  cflags :: "32 word"
  obuf :: "sds ptr"
  reader :: "rheap + rheap redisReader"
  connection_type :: redisConnectionType
  timeout :: "timeval ptr"
  tcp_host :: "bytes ptr"
  tcp_source_addr :: "bytes ptr"
  tcp_port :: int
  unix_path :: "bytes ptr"
  io :: sys

definition io_call :: "redisContext \<Rightarrow> syscall \<Rightarrow> redisContext \<times> sysres" where
  "io_call c call = (let (s, r) = sys_call (io c) call in (c\<lparr>io := s\<rparr>, r))"

definition the_reader :: "redisContext \<Rightarrow> rheap redisReader option" where
  "the_reader c = (case reader c of Inl _ \<Rightarrow> None | Inr r \<Rightarrow> Some r)"

definition reply_heap :: "redisContext \<Rightarrow> rheap" where
  "reply_heap c = (case reader c of Inl h \<Rightarrow> h | Inr r \<Rightarrow> world r)"

definition set_reply_heap :: "redisContext \<Rightarrow> rheap \<Rightarrow> redisContext" where
  "set_reply_heap c h =
     (case reader c of Inl _ \<Rightarrow> c\<lparr>reader := Inl h\<rparr> | Inr r \<Rightarrow> c\<lparr>reader := Inr (r\<lparr>world := h\<rparr>)\<rparr>)"

text \<open>\<open>strerror_r\<close> into a buffer of \<open>n\<close> bytes.\<close>

definition redis_strerror_r :: "sys \<Rightarrow> int \<Rightarrow> nat \<Rightarrow> bytes" where
  "redis_strerror_r s e n = take (n - 1) (cstr (strerror s e))"

definition redisSetError :: "redisContext \<Rightarrow> int \<Rightarrow> bytes ptr \<Rightarrow> redisContext option" where
  "redisSetError c type msg =
     (let c = c\<lparr>cerr := type\<rparr> in
      case msg of
        Ptr t \<Rightarrow> (let len = (if cstrlen t < 128 - 1 then cstrlen t else 128 - 1)
                  in Some (c\<lparr>cerrstr := take len (cstr t)\<rparr>))
      | Nullp \<Rightarrow>
          (if type = REDIS_ERR_IO
           then Some (c\<lparr>cerrstr := redis_strerror_r (io c) (errno (io c)) 128\<rparr>) else None))"

lemma redisSetError_Ptr [simp]:
  "redisSetError c type (Ptr t) = Some (c\<lparr>cerr := type, cerrstr := take 127 (cstr t)\<rparr>)"
  by (simp add: redisSetError_def cstrlen_def Let_def)

lemma redisSetError_IO:
  "redisSetError c REDIS_ERR_IO Nullp =
     Some (c\<lparr>cerr := REDIS_ERR_IO, cerrstr := redis_strerror_r (io c) (errno (io c)) 128\<rparr>)"
  by (simp add: redisSetError_def)

end
