(* ===== verification/Net.thy ===== *)
theory Net
  imports Context
begin

text \<open>
  The socket layer (\<open>net.c\<close>): creating, configuring and connecting the socket of a context, and what
  every failure leaves in the context.

  An argument that may be the very pointer the context already holds (\<open>redisReconnect\<close> passes the
  fields of the context) is a value of \<open>own_arg\<close>: \<open>Own\<close>, or another pointer.
\<close>

datatype 'a own_arg = Own | Other "'a ptr"

primrec resolve :: "'a ptr \<Rightarrow> 'a own_arg \<Rightarrow> 'a ptr" where
  "resolve own Own = own"
| "resolve own (Other p) = p"

section \<open>Errors and options\<close>

definition redisContextCloseFd :: "redisContext \<Rightarrow> redisContext" where
  "redisContextCloseFd c =
     (if 0 \<le> fd c then (fst (io_call c (SysClose (fd c))))\<lparr>fd := -1\<rparr> else c)"

text \<open>\<open>errorno = errno\<close>, then the prefix and the text of the error in a buffer of 128 bytes.\<close>

definition redisSetErrorFromErrno :: "redisContext \<Rightarrow> int \<Rightarrow> bytes \<Rightarrow> redisContext option" where
  "redisSetErrorFromErrno c type prefix =
     (let errorno = errno (io c);
          pre = (if prefix = [] then [] else fst (snprintf 128 (prefix @ '': '')))
      in redisSetError c type (Ptr (pre @ redis_strerror_r (io c) errorno (128 - length pre))))"

definition fail_errno :: "redisContext \<Rightarrow> bytes \<Rightarrow> (redisContext \<times> int) option" where
  "fail_errno c prefix = do {
     c \<leftarrow> redisSetErrorFromErrno c REDIS_ERR_IO prefix;
     Some (redisContextCloseFd c, REDIS_ERR) }"

definition redisSetReuseAddr :: "redisContext \<Rightarrow> (redisContext \<times> int) option" where
  "redisSetReuseAddr c =
     (let (c, r) = io_call c (SysSetsockopt (fd c) (SO_REUSEADDR 1)) in
      if ret r = -1 then fail_errno c [] else Some (c, REDIS_OK))"

definition redisCreateSocket :: "redisContext \<Rightarrow> int \<Rightarrow> (redisContext \<times> int) option" where
  "redisCreateSocket c type =
     (let (c, s) = io_call c (SysSocket type SOCK_STREAM 0) in
      if ret s = -1 then do {
        c \<leftarrow> redisSetErrorFromErrno c REDIS_ERR_IO [];
        Some (c, REDIS_ERR) }
      else
        (let c = c\<lparr>fd := ret s\<rparr> in
         if type = AF_INET then do {
           (c, rv) \<leftarrow> redisSetReuseAddr c;
           (if rv = REDIS_ERR then Some (c, REDIS_ERR) else Some (c, REDIS_OK)) }
         else Some (c, REDIS_OK)))"

definition redisSetBlocking :: "redisContext \<Rightarrow> bool \<Rightarrow> (redisContext \<times> int) option" where
  "redisSetBlocking c blocking =
     (let (c, r) = io_call c (SysGetfl (fd c)) in
      if ret r = -1 then fail_errno c ''fcntl(F_GETFL)''
      else
        (let fl = (if blocking then ret r AND NOT O_NONBLOCK else ret r OR O_NONBLOCK);
             (c, r) = io_call c (SysSetfl (fd c) fl)
         in if ret r = -1 then fail_errno c ''fcntl(F_SETFL)'' else Some (c, REDIS_OK)))"

text \<open>The options of \<open>redisKeepAlive\<close> (glibc), set one after the other until one fails.\<close>

fun set_options :: "redisContext \<Rightarrow> (sockopt \<times> (int \<Rightarrow> bool)) list \<Rightarrow> (redisContext \<times> int) option" where
  "set_options c [] = Some (c, REDIS_OK)"
| "set_options c ((opt, bad) # opts) =
     (let (c, r) = io_call c (SysSetsockopt (fd c) opt) in
      if bad (ret r) then do {
        c \<leftarrow> redisSetError c REDIS_ERR_OTHER (Ptr (strerror (io c) (errno (io c))));
        Some (c, REDIS_ERR) }
      else set_options c opts)"

definition redisKeepAlive :: "redisContext \<Rightarrow> int \<Rightarrow> (redisContext \<times> int) option" where
  "redisKeepAlive c interval =
     set_options c
       [(SO_KEEPALIVE 1, \<lambda>r. r = -1), (TCP_KEEPIDLE interval, \<lambda>r. r < 0),
        (TCP_KEEPINTVL (let v = interval sdiv 3 in if v = 0 then 1 else v), \<lambda>r. r < 0),
        (TCP_KEEPCNT 3, \<lambda>r. r < 0)]"

definition redisSetTcpNoDelay :: "redisContext \<Rightarrow> (redisContext \<times> int) option" where
  "redisSetTcpNoDelay c =
     (let (c, r) = io_call c (SysSetsockopt (fd c) (TCP_NODELAY 1)) in
      if ret r = -1 then fail_errno c ''setsockopt(TCP_NODELAY)'' else Some (c, REDIS_OK))"

section \<open>Timeouts\<close>

definition MAX_MSEC :: int where
  "MAX_MSEC = (int LONG_MAX - 999) sdiv 1000"

text \<open>The timeout in milliseconds, \<open>- 1\<close> for none; the second component is the status.\<close>

definition redisContextTimeoutMsec :: "redisContext \<Rightarrow> int \<times> int" where
  "redisContextTimeoutMsec c =
     (case timeout c of
        Nullp \<Rightarrow> (-1, REDIS_OK)
      | Ptr t \<Rightarrow>
          if 1000000 < tv_usec t \<or> MAX_MSEC < tv_sec t then (-1, REDIS_ERR)
          else
            (let msec = int64 (int64 (tv_sec t * 1000) + int64 (tv_usec t + 999) sdiv 1000)
             in (if msec < 0 \<or> INT_MAX < msec then INT_MAX else msec, REDIS_OK)))"

definition redisContextSetTimeout :: "redisContext \<Rightarrow> timeval \<Rightarrow> (redisContext \<times> int) option" where
  "redisContextSetTimeout c tv =
     (let (c, r) = io_call c (SysSetsockopt (fd c) (SO_RCVTIMEO tv)) in
      if ret r = -1 then do {
        c \<leftarrow> redisSetErrorFromErrno c REDIS_ERR_IO ''setsockopt(SO_RCVTIMEO)'';
        Some (c, REDIS_ERR) }
      else
        (let (c, r) = io_call c (SysSetsockopt (fd c) (SO_SNDTIMEO tv)) in
         if ret r = -1 then do {
           c \<leftarrow> redisSetErrorFromErrno c REDIS_ERR_IO ''setsockopt(SO_SNDTIMEO)'';
           Some (c, REDIS_ERR) }
         else Some (c, REDIS_OK)))"

text \<open>Taking over the timeout argument. The result of the \<open>malloc\<close> is written to unchecked.\<close>

definition keep_timeout :: "allocator \<Rightarrow> redisContext \<Rightarrow> timeval own_arg \<Rightarrow> redisContext option" where
  "keep_timeout A c arg =
     (case resolve (timeout c) arg of
        Nullp \<Rightarrow> Some (c\<lparr>timeout := Nullp\<rparr>)
      | Ptr t \<Rightarrow>
          if arg = Own then Some c
          else if timeout c = Nullp \<and> \<not> grant A 16 then None
          else Some (c\<lparr>timeout := Ptr t\<rparr>))"

text \<open>\<open>strdup\<close>; its result is not checked either, but only passed on.\<close>

definition strdup :: "allocator \<Rightarrow> bytes ptr \<Rightarrow> bytes ptr option" where
  "strdup A p =
     (case p of
        Nullp \<Rightarrow> None
      | Ptr t \<Rightarrow> Some (if grant A (cstrlen t + 1) then Ptr (cstr t) else Nullp))"

section \<open>Waiting for a connection\<close>

definition redisCheckSocketError :: "redisContext \<Rightarrow> (redisContext \<times> int) option" where
  "redisCheckSocketError c =
     (let (c, r) = io_call c (SysGetSoError (fd c)) in
      if ret r = -1 then do {
        c \<leftarrow> redisSetErrorFromErrno c REDIS_ERR_IO ''getsockopt(SO_ERROR)'';
        Some (c, REDIS_ERR) }
      else if so_error r \<noteq> 0 then do {
        c \<leftarrow> redisSetErrorFromErrno (c\<lparr>io := (io c)\<lparr>errno := so_error r\<rparr>\<rparr>) REDIS_ERR_IO [];
        Some (c, REDIS_ERR) }
      else Some (c, REDIS_OK))"

definition redisContextWaitReady :: "redisContext \<Rightarrow> int \<Rightarrow> (redisContext \<times> int) option" where
  "redisContextWaitReady c msec =
     (if errno (io c) = EINPROGRESS then
        (let (c, res) = io_call c (SysPoll (fd c) (int32 msec)) in
         if ret res = -1 then fail_errno c ''poll(2)''
         else if ret res = 0 then fail_errno (c\<lparr>io := (io c)\<lparr>errno := ETIMEDOUT\<rparr>\<rparr>) []
         else do {
           (c, rv) \<leftarrow> redisCheckSocketError c;
           (if rv \<noteq> REDIS_OK then Some (c, REDIS_ERR) else Some (c, REDIS_OK)) })
      else fail_errno c [])"

section \<open>Connecting over TCP\<close>

fun bind_loop :: "redisContext \<Rightarrow> int \<Rightarrow> addrinfo list \<Rightarrow> redisContext \<times> bool" where
  "bind_loop c s [] = (c, False)"
| "bind_loop c s (b # bs) =
     (let (c, r) = io_call c (SysBind s (ai_addr b)) in
      if ret r \<noteq> -1 then (c, True) else bind_loop c s bs)"

text \<open>Binding to the source address; \<open>False\<close> is \<open>goto error\<close>.\<close>

definition bind_source :: "redisContext \<Rightarrow> int \<Rightarrow> int \<Rightarrow> bool \<Rightarrow> (redisContext \<times> bool) option" where
  "bind_source c s family reuseaddr =
     (let (c, rv) = io_call c (SysGetaddrinfo (tcp_source_addr c) Nullp family) in
      if ret rv \<noteq> 0 then do {
        c \<leftarrow> redisSetError c REDIS_ERR_OTHER
               (Ptr (fst (snprintf 128 (''Can'' @ [APOS] @ ''t get addr: '' @ gai_strerror (io c) (ret rv)))));
        Some (c, False) }
      else
        (let (c, bad) = (if reuseaddr
                         then let (c, r) = io_call c (SysSetsockopt s (SO_REUSEADDR 1)) in (c, ret r < 0)
                         else (c, False))
         in if bad then Some (c, False)
            else
              (let (c, bound) = bind_loop c s (addrs_found rv) in
               if \<not> bound then do {
                 c \<leftarrow> redisSetError c REDIS_ERR_OTHER
                        (Ptr (fst (snprintf 128 (''Can'' @ [APOS] @ ''t bind socket: '' @ strerror (io c) (errno (io c))))));
                 Some (c, False) }
               else Some (c, True))))"

text \<open>One pass over the body of the loop: leave it with a status, go on with the next address, or try this one again.\<close>

datatype attempt = Finish int | Next_Addr | Addr_Retry

definition after_connect :: "redisContext \<Rightarrow> bool \<Rightarrow> (redisContext \<times> attempt) option" where
  "after_connect c blocking = do {
     (c, rv) \<leftarrow> (if blocking then redisSetBlocking c True else Some (c, REDIS_OK));
     (if rv \<noteq> REDIS_OK then Some (c, Finish REDIS_ERR)
      else do {
        (c, rv) \<leftarrow> redisSetTcpNoDelay c;
        (if rv \<noteq> REDIS_OK then Some (c, Finish REDIS_ERR)
         else Some (c\<lparr>cflags := cflags c OR REDIS_CONNECTED\<rparr>, Finish REDIS_OK)) }) }"

definition try_connect :: "redisContext \<Rightarrow> int \<Rightarrow> addrinfo \<Rightarrow> bool \<Rightarrow> bool \<Rightarrow> int \<Rightarrow> nat
    \<Rightarrow> (redisContext \<times> attempt) option" where
  "try_connect c s p blocking reuseaddr msec reuses =
     (case io_call c (SysConnect s (ai_addr p)) of
        (c, r) \<Rightarrow>
          if ret r = -1 then
            (if errno (io c) = EHOSTUNREACH then Some (redisContextCloseFd c, Next_Addr)
             else if errno (io c) = EINPROGRESS \<and> \<not> blocking then after_connect c blocking
             else if errno (io c) = EADDRNOTAVAIL \<and> reuseaddr then
               (if REDIS_CONNECT_RETRIES \<le> reuses + 1 then Some (c, Finish REDIS_ERR)
                else Some (redisContextCloseFd c, Addr_Retry))
             else do {
               (c, rv) \<leftarrow> redisContextWaitReady c msec;
               (if rv \<noteq> REDIS_OK then Some (c, Finish REDIS_ERR) else after_connect c blocking) })
          else after_connect c blocking)"

definition connect_addr :: "redisContext \<Rightarrow> addrinfo \<Rightarrow> bool \<Rightarrow> bool \<Rightarrow> int \<Rightarrow> int \<Rightarrow> nat
    \<Rightarrow> (redisContext \<times> attempt) option" where
  "connect_addr c p blocking reuseaddr family msec reuses =
     (case io_call c (SysSocket (ai_family p) (ai_socktype p) (ai_protocol p)) of
        (c, s) \<Rightarrow>
          if ret s = -1 then Some (c, Next_Addr)
          else do {
            (c, rv) \<leftarrow> redisSetBlocking (c\<lparr>fd := ret s\<rparr>) False;
            (if rv \<noteq> REDIS_OK then Some (c, Finish REDIS_ERR)
             else do {
               (c, ok) \<leftarrow> (if tcp_source_addr c \<noteq> Nullp then bind_source c (ret s) family reuseaddr
                          else Some (c, True));
               (if \<not> ok then Some (c, Finish REDIS_ERR)
                else try_connect c (ret s) p blocking reuseaddr msec reuses) }) })"

function connect_loop :: "redisContext \<Rightarrow> addrinfo list \<Rightarrow> bool \<Rightarrow> bool \<Rightarrow> int \<Rightarrow> int \<Rightarrow> nat
    \<Rightarrow> (redisContext \<times> int) option" where
  "connect_loop c [] blocking reuseaddr family msec reuses = do {
     c \<leftarrow> redisSetError c REDIS_ERR_OTHER
            (Ptr (fst (snprintf 128 (''Can'' @ [APOS] @ ''t create socket: '' @ strerror (io c) (errno (io c))))));
     Some (c, REDIS_ERR) }"
| "connect_loop c (p # ps) blocking reuseaddr family msec reuses =
     (case connect_addr c p blocking reuseaddr family msec reuses of
        None \<Rightarrow> None
      | Some (c, Finish rv) \<Rightarrow> Some (c, rv)
      | Some (c, Next_Addr) \<Rightarrow> connect_loop c ps blocking reuseaddr family msec reuses
      | Some (c, Addr_Retry) \<Rightarrow>
          (if REDIS_CONNECT_RETRIES \<le> reuses + 1 then None
           else connect_loop c (p # ps) blocking reuseaddr family msec (reuses + 1)))"
  by pat_completeness auto
termination
  by (relation "measures [\<lambda>(c, ps, b, r, f, m, reuses). length ps,
                          \<lambda>(c, ps, b, r, f, m, reuses). REDIS_CONNECT_RETRIES - reuses]") auto

declare connect_loop.simps(2) [simp del]

definition redisContextConnectBindTcp :: "allocator \<Rightarrow> redisContext \<Rightarrow> bytes own_arg \<Rightarrow> int
    \<Rightarrow> timeval own_arg \<Rightarrow> bytes own_arg \<Rightarrow> (redisContext \<times> int) option" where
  "redisContextConnectBindTcp A c addr port tmo source_addr =
     (let blocking = has (cflags c) REDIS_BLOCK;
          reuseaddr = has (cflags c) REDIS_REUSEADDR;
          c = c\<lparr>connection_type := REDIS_CONN_TCP, tcp_port := port\<rparr>
      in do {
        addr_val \<leftarrow> Some (resolve (tcp_host c) addr);
        h \<leftarrow> (if addr = Own then Some (tcp_host c) else strdup A addr_val);
        c \<leftarrow> keep_timeout A (c\<lparr>tcp_host := h\<rparr>) tmo;
        (case redisContextTimeoutMsec c of
           (msec, rv) \<Rightarrow>
             if rv \<noteq> REDIS_OK then do {
               c \<leftarrow> redisSetError c REDIS_ERR_IO (Ptr ''Invalid timeout specified'');
               Some (c, REDIS_ERR) }
             else do {
               sa \<leftarrow> (case resolve (tcp_source_addr c) source_addr of
                        Nullp \<Rightarrow> Some Nullp
                      | Ptr t \<Rightarrow> if source_addr = Own then Some (Ptr t) else strdup A (Ptr t));
               let c = c\<lparr>tcp_source_addr := sa\<rparr>;
               let portstr = fst (snprintf 6 (dec_int port));
               let (c, r4) = io_call c (SysGetaddrinfo (tcp_host c) (Ptr portstr) AF_INET);
               (if ret r4 = 0 then connect_loop c (addrs_found r4) blocking reuseaddr AF_INET msec 0
                else
                  (let host = (if addr = Own then tcp_host c else addr_val);
                       (c, r6) = io_call c (SysGetaddrinfo host (Ptr portstr) AF_INET6)
                   in if ret r6 = 0 then connect_loop c (addrs_found r6) blocking reuseaddr AF_INET6 msec 0
                      else do {
                        c \<leftarrow> redisSetError c REDIS_ERR_OTHER (Ptr (gai_strerror (io c) (ret r6)));
                        Some (c, REDIS_ERR) })) }) })"

definition redisContextConnectTcp :: "allocator \<Rightarrow> redisContext \<Rightarrow> bytes own_arg \<Rightarrow> int
    \<Rightarrow> timeval own_arg \<Rightarrow> (redisContext \<times> int) option" where
  "redisContextConnectTcp A c addr port tmo =
     redisContextConnectBindTcp A c addr port tmo (Other Nullp)"

section \<open>Connecting over a Unix socket\<close>

text \<open>\<open>sun_path\<close> has 108 bytes, of which \<open>strncpy\<close> fills at most 107.\<close>

definition redisContextConnectUnix :: "allocator \<Rightarrow> redisContext \<Rightarrow> bytes own_arg \<Rightarrow> timeval own_arg
    \<Rightarrow> (redisContext \<times> int) option" where
  "redisContextConnectUnix A c path tmo =
     (let blocking = has (cflags c) REDIS_BLOCK in do {
        (c, rv) \<leftarrow> redisCreateSocket c AF_LOCAL;
        (if rv < 0 then Some (c, REDIS_ERR)
         else do {
           (c, rv) \<leftarrow> redisSetBlocking c False;
           (if rv \<noteq> REDIS_OK then Some (c, REDIS_ERR)
            else do {
              let c = c\<lparr>connection_type := REDIS_CONN_UNIX\<rparr>;
              let path_val = resolve (unix_path c) path;
              up \<leftarrow> (if path = Own then Some (unix_path c) else strdup A path_val);
              c \<leftarrow> keep_timeout A (c\<lparr>unix_path := up\<rparr>) tmo;
              (case redisContextTimeoutMsec c of
                 (msec, rv) \<Rightarrow>
                   if rv \<noteq> REDIS_OK then Some (c, REDIS_ERR)
                   else do {
                     pv \<leftarrow> deref path_val;
                     let (c, r) = io_call c (SysConnect (fd c) (take 107 (cstr pv)));
                     (c, rv) \<leftarrow>
                       (if ret r = -1 \<and> \<not> (errno (io c) = EINPROGRESS \<and> \<not> blocking)
                        then redisContextWaitReady c msec else Some (c, REDIS_OK));
                     (if rv \<noteq> REDIS_OK then Some (c, REDIS_ERR)
                      else do {
                        (c, rv) \<leftarrow> (if blocking then redisSetBlocking c True else Some (c, REDIS_OK));
                        (if rv \<noteq> REDIS_OK then Some (c, REDIS_ERR)
                         else Some (c\<lparr>cflags := cflags c OR REDIS_CONNECTED\<rparr>, REDIS_OK)) }) }) }) }) })"

end
