(* ===== verification/Net_Theorems.thy ===== *)
theory Net_Theorems
  imports Net
begin

text \<open>
  The properties of the socket layer: the conversion of timeouts, and what a finished attempt to
  connect leaves in the context. An operation of the layer either succeeds and leaves error and flags
  as they were, or fails and records an error (\<open>steps\<close>).
\<close>

section \<open>Outcomes of the operations\<close>

definition steps :: "redisContext \<Rightarrow> (redisContext \<times> int) option \<Rightarrow> bool" where
  "steps c m \<longleftrightarrow> (\<exists>c' rv. m = Some (c', rv) \<and> cflags c' = cflags c \<and>
     (rv = REDIS_OK \<and> cerr c' = cerr c \<or> rv = REDIS_ERR \<and> cerr c' \<noteq> 0))"

lemma steps_OK [intro]: "cflags c' = cflags c \<Longrightarrow> cerr c' = cerr c \<Longrightarrow> steps c (Some (c', REDIS_OK))"
  by (simp add: steps_def)

lemma steps_ERR [intro]: "cflags c' = cflags c \<Longrightarrow> cerr c' \<noteq> 0 \<Longrightarrow> steps c (Some (c', REDIS_ERR))"
  by (simp add: steps_def)

lemma OK_not_ERR [simp]: "REDIS_OK \<noteq> REDIS_ERR" "REDIS_ERR \<noteq> REDIS_OK" "REDIS_ERR < 0" "\<not> REDIS_OK < 0"
  by (simp_all add: redis_codes)

lemma ERR_codes [simp]: "REDIS_ERR_IO \<noteq> 0" "REDIS_ERR_OTHER \<noteq> 0" "REDIS_ERR_EOF \<noteq> 0" "REDIS_ERR_OOM \<noteq> 0"
  by (simp_all add: redis_codes)

lemma io_call_fields [simp]:
  "cflags (fst (io_call c q)) = cflags c" "cerr (fst (io_call c q)) = cerr c" "fd (fst (io_call c q)) = fd c"
  "timeout (fst (io_call c q)) = timeout c" "tcp_source_addr (fst (io_call c q)) = tcp_source_addr c"
  by (simp_all add: io_call_def case_prod_unfold Let_def)

lemma close_fields [simp]:
  "cflags (redisContextCloseFd c) = cflags c" "cerr (redisContextCloseFd c) = cerr c"
  by (simp_all add: redisContextCloseFd_def)

lemma from_errno:
  "\<exists>t. redisSetErrorFromErrno c type prefix = Some (c\<lparr>cerr := type, cerrstr := t\<rparr>)"
  unfolding redisSetErrorFromErrno_def Let_def redisSetError_Ptr by blast

lemma fail_errno_steps:
  assumes "cflags c' = cflags c"
  shows "steps c (fail_errno c' prefix)"
proof -
  obtain t where "redisSetErrorFromErrno c' REDIS_ERR_IO prefix = Some (c'\<lparr>cerr := REDIS_ERR_IO, cerrstr := t\<rparr>)"
    using from_errno by blast
  then show ?thesis using assms by (auto simp: fail_errno_def)
qed

lemma error_steps:
  assumes "cflags c' = cflags c"
  shows "steps c (do { c \<leftarrow> redisSetErrorFromErrno c' REDIS_ERR_IO prefix; Some (c, REDIS_ERR) })"
proof -
  obtain t where "redisSetErrorFromErrno c' REDIS_ERR_IO prefix = Some (c'\<lparr>cerr := REDIS_ERR_IO, cerrstr := t\<rparr>)"
    using from_errno by blast
  then show ?thesis using assms by auto
qed

lemma steps_bind:
  assumes "steps c m"
    and "\<And>c'. cflags c' = cflags c \<Longrightarrow> cerr c' = cerr c \<Longrightarrow> Q (k (c', REDIS_OK))"
    and "\<And>c'. cflags c' = cflags c \<Longrightarrow> cerr c' \<noteq> 0 \<Longrightarrow> Q (k (c', REDIS_ERR))"
  shows "Q (m \<bind> k)"
  using assms by (auto simp: steps_def)

lemma SetReuseAddr_steps: "cflags c' = cflags c \<Longrightarrow> cerr c' = cerr c \<Longrightarrow> steps c (redisSetReuseAddr c')"
  by (auto simp: redisSetReuseAddr_def case_prod_unfold Let_def fail_errno_steps)

lemma SetBlocking_steps: "cflags c' = cflags c \<Longrightarrow> cerr c' = cerr c \<Longrightarrow> steps c (redisSetBlocking c' b)"
  by (auto simp: redisSetBlocking_def case_prod_unfold Let_def fail_errno_steps)

lemma TcpNoDelay_steps: "cflags c' = cflags c \<Longrightarrow> cerr c' = cerr c \<Longrightarrow> steps c (redisSetTcpNoDelay c')"
  by (auto simp: redisSetTcpNoDelay_def case_prod_unfold Let_def fail_errno_steps)

lemma CreateSocket_steps:
  assumes "cflags c' = cflags c" and "cerr c' = cerr c"
  shows "steps c (redisCreateSocket c' type)"
proof -
  let ?c = "(fst (io_call c' (SysSocket type SOCK_STREAM 0)))\<lparr>fd := ret (snd (io_call c' (SysSocket type SOCK_STREAM 0)))\<rparr>"
  have r: "steps c (redisSetReuseAddr ?c)" by (rule SetReuseAddr_steps) (use assms in simp_all)
  have "steps c (redisSetReuseAddr ?c \<bind> (\<lambda>(c, rv). if rv = REDIS_ERR then Some (c, REDIS_ERR) else Some (c, REDIS_OK)))"
    by (rule steps_bind [OF r]) auto
  then show ?thesis
    using assms error_steps [of "fst (io_call c' (SysSocket type SOCK_STREAM 0))" c]
    by (auto simp: redisCreateSocket_def case_prod_unfold Let_def)
qed

lemma CheckSocketError_steps: "cflags c' = cflags c \<Longrightarrow> cerr c' = cerr c \<Longrightarrow> steps c (redisCheckSocketError c')"
  by (auto simp: redisCheckSocketError_def case_prod_unfold Let_def intro!: error_steps)

lemma WaitReady_steps:
  assumes "cflags c' = cflags c" and "cerr c' = cerr c"
  shows "steps c (redisContextWaitReady c' msec)"
proof -
  let ?c = "fst (io_call c' (SysPoll (fd c') (int32 msec)))"
  have r: "steps c (redisCheckSocketError ?c)" by (rule CheckSocketError_steps) (use assms in simp_all)
  have "steps c (redisCheckSocketError ?c \<bind> (\<lambda>(c, rv). if rv \<noteq> REDIS_OK then Some (c, REDIS_ERR) else Some (c, REDIS_OK)))"
    by (rule steps_bind [OF r]) auto
  then show ?thesis
    using assms by (auto simp: redisContextWaitReady_def case_prod_unfold Let_def fail_errno_steps)
qed

section \<open>Connecting\<close>

text \<open>
  The outcome of an attempt: connected, or an error that is recorded in the context. With
  \<open>REDIS_REUSEADDR\<close> (\<open>ru\<close>) some failures are not recorded.
\<close>

definition settled :: "redisContext \<Rightarrow> bool \<Rightarrow> redisContext \<Rightarrow> int \<Rightarrow> bool" where
  "settled c ru c' rv \<longleftrightarrow>
     rv = REDIS_OK \<and> cflags c' = cflags c OR REDIS_CONNECTED \<and> cerr c' = cerr c \<or>
     rv = REDIS_ERR \<and> cflags c' = cflags c \<and> (cerr c' \<noteq> 0 \<or> ru)"

definition tried :: "redisContext \<Rightarrow> bool \<Rightarrow> nat \<Rightarrow> (redisContext \<times> attempt) option \<Rightarrow> bool" where
  "tried c ru reuses m \<longleftrightarrow> (\<exists>c' a. m = Some (c', a) \<and>
     (case a of
        Finish rv \<Rightarrow> settled c ru c' rv
      | Next_Addr \<Rightarrow> cflags c' = cflags c \<and> cerr c' = cerr c
      | Addr_Retry \<Rightarrow> cflags c' = cflags c \<and> cerr c' = cerr c \<and> reuses + 1 < REDIS_CONNECT_RETRIES))"

lemma tried_error: "cflags c' = cflags c \<Longrightarrow> cerr c' \<noteq> 0 \<or> ru \<Longrightarrow> tried c ru n (Some (c', Finish REDIS_ERR))"
  by (simp add: tried_def settled_def)

lemma tried_next: "cflags c' = cflags c \<Longrightarrow> cerr c' = cerr c \<Longrightarrow> tried c ru n (Some (c', Next_Addr))"
  by (simp add: tried_def)

lemma after_connect_tried:
  assumes "cflags c' = cflags c" and "cerr c' = cerr c"
  shows "tried c ru n (after_connect c' blocking)"
proof -
  have s: "steps c (if blocking then redisSetBlocking c' True else Some (c', REDIS_OK))"
    using assms by (auto intro: SetBlocking_steps)
  show ?thesis
    unfolding after_connect_def
  proof (rule steps_bind [OF s], goal_cases)
    case (1 d)
    have "steps c (redisSetTcpNoDelay d)" using 1 by (rule TcpNoDelay_steps)
    then have "tried c ru n (redisSetTcpNoDelay d \<bind> (\<lambda>(c, rv).
        if rv \<noteq> REDIS_OK then Some (c, Finish REDIS_ERR)
        else Some (c\<lparr>cflags := cflags c OR REDIS_CONNECTED\<rparr>, Finish REDIS_OK)))"
      by (rule steps_bind) (auto simp: tried_error, simp add: tried_def settled_def)
    then show ?case by simp
  next
    case (2 d)
    then show ?case by (simp add: tried_error)
  qed
qed

lemma bind_loop_fields [simp]:
  "cflags (fst (bind_loop c s bs)) = cflags c" "cerr (fst (bind_loop c s bs)) = cerr c"
  by (induction bs arbitrary: c) (simp_all add: case_prod_unfold Let_def)

text \<open>Binding: \<open>False\<close> comes with a recorded error, unless setting \<open>SO_REUSEADDR\<close> failed.\<close>

lemma bind_source_spec:
  "\<exists>c' ok. bind_source c s family ru = Some (c', ok) \<and> cflags c' = cflags c \<and>
    (if ok then cerr c' = cerr c else cerr c' \<noteq> 0 \<or> ru)"
  by (cases ru) (auto simp: bind_source_def case_prod_unfold Let_def)

lemma try_connect_tried:
  assumes "cflags d = cflags c" and "cerr d = cerr c"
  shows "tried c ru n (try_connect d s p blocking ru msec n)"
proof -
  obtain e r where e: "io_call d (SysConnect s (ai_addr p)) = (e, r)" by fastforce
  have f: "cflags e = cflags c" "cerr e = cerr c"
    using assms io_call_fields(1,2) [of d "SysConnect s (ai_addr p)"] e by simp_all
  have w: "tried c ru n (do {
      (c, rv) \<leftarrow> redisContextWaitReady e msec;
      (if rv \<noteq> REDIS_OK then Some (c, Finish REDIS_ERR) else after_connect c blocking) })"
    by (rule steps_bind [OF WaitReady_steps [OF f]]) (auto simp: after_connect_tried tried_error)
  have "tried c ru n (Some (redisContextCloseFd e, Addr_Retry))" if "\<not> REDIS_CONNECT_RETRIES \<le> n + 1"
    using f that by (simp add: tried_def)
  then show ?thesis
    unfolding try_connect_def e prod.case
    using f w after_connect_tried [OF f] by (auto intro!: tried_next tried_error)
qed

lemma connect_addr_tried: "tried c ru n (connect_addr c p blocking ru family msec n)"
proof -
  obtain e s where e: "io_call c (SysSocket (ai_family p) (ai_socktype p) (ai_protocol p)) = (e, s)" by fastforce
  have f: "cflags e = cflags c" "cerr e = cerr c"
    using io_call_fields(1,2) [of c "SysSocket (ai_family p) (ai_socktype p) (ai_protocol p)"] e by simp_all
  have bound: "\<exists>d' ok. (if tcp_source_addr d \<noteq> Nullp then bind_source d (ret s) family ru else Some (d, True)) =
      Some (d', ok) \<and> cflags d' = cflags d \<and> (if ok then cerr d' = cerr d else cerr d' \<noteq> 0 \<or> ru)" for d
    using bind_source_spec [of d "ret s" family ru] by auto
  have go: "tried c ru n (do {
      (c, ok) \<leftarrow> (if tcp_source_addr d \<noteq> Nullp then bind_source d (ret s) family ru else Some (d, True));
      (if \<not> ok then Some (c, Finish REDIS_ERR) else try_connect c (ret s) p blocking ru msec n) })"
    if d: "cflags d = cflags c" "cerr d = cerr c" for d
  proof -
    from bound [of d] obtain d' ok where d': "(if tcp_source_addr d \<noteq> Nullp then bind_source d (ret s) family ru
        else Some (d, True)) = Some (d', ok)" "cflags d' = cflags d"
        "if ok then cerr d' = cerr d else cerr d' \<noteq> 0 \<or> ru" by blast
    with d show ?thesis by (cases ok) (auto simp: tried_error try_connect_tried)
  qed
  have "steps c (redisSetBlocking (e\<lparr>fd := ret s\<rparr>) False)" by (rule SetBlocking_steps) (use f in simp_all)
  then have "tried c ru n (redisSetBlocking (e\<lparr>fd := ret s\<rparr>) False \<bind> (\<lambda>(c, rv).
      if rv \<noteq> REDIS_OK then Some (c, Finish REDIS_ERR)
      else do {
        (c, ok) \<leftarrow> (if tcp_source_addr c \<noteq> Nullp then bind_source c (ret s) family ru else Some (c, True));
        (if \<not> ok then Some (c, Finish REDIS_ERR) else try_connect c (ret s) p blocking ru msec n) }))"
    by (rule steps_bind) (simp_all only: prod.case simp_thms if_True if_False OK_not_ERR go tried_error)
  then show ?thesis
    unfolding connect_addr_def e prod.case using f by (simp add: tried_next)
qed

lemma connect_loop_settled:
  "cflags d = cflags c \<Longrightarrow> cerr d = cerr c \<Longrightarrow>
   \<exists>c' rv. connect_loop d ps blocking ru family msec n = Some (c', rv) \<and> settled c ru c' rv"
proof (induction d ps blocking ru family msec n rule: connect_loop.induct)
  case (1 d blocking ru family msec n)
  then show ?case by (simp add: settled_def)
next
  case (2 d p ps blocking ru family msec n)
  from connect_addr_tried [of d ru n p blocking family msec] obtain e a where
    e: "connect_addr d p blocking ru family msec n = Some (e, a)"
    "case a of Finish rv \<Rightarrow> settled d ru e rv
      | Next_Addr \<Rightarrow> cflags e = cflags d \<and> cerr e = cerr d
      | Addr_Retry \<Rightarrow> cflags e = cflags d \<and> cerr e = cerr d \<and> n + 1 < REDIS_CONNECT_RETRIES"
    by (auto simp: tried_def)
  show ?case
  proof (cases a)
    case (Finish rv)
    with e "2.prems" show ?thesis by (simp add: settled_def connect_loop.simps(2))
  next
    case Next_Addr
    with e "2.IH"(1) [OF e(1), of e] "2.prems" show ?thesis by (auto simp: connect_loop.simps(2))
  next
    case Addr_Retry
    with e "2.IH"(2) [OF e(1), of e] "2.prems" show ?thesis by (auto simp: connect_loop.simps(2))
  qed
qed

lemma keep_timeout_fields:
  assumes "\<forall>n. grant A n"
  shows "\<exists>c'. keep_timeout A c t = Some c' \<and> cflags c' = cflags c \<and> cerr c' = cerr c \<and>
    tcp_source_addr c' = tcp_source_addr c \<and> unix_path c' = unix_path c \<and> tcp_host c' = tcp_host c \<and>
    timeout c' = resolve (timeout c) t"
  using assms by (cases t) (auto simp: keep_timeout_def split: ptr.splits)

lemma Tcp_settled:
  assumes g: "\<forall>n. grant A n" and a: "addr = Own \<or> resolve (tcp_host c) addr \<noteq> Nullp"
  shows "\<exists>c' rv. redisContextConnectBindTcp A c addr port tmo sa = Some (c', rv) \<and>
    settled c (has (cflags c) REDIS_REUSEADDR) c' rv"
proof -
  let ?ru = "has (cflags c) REDIS_REUSEADDR"
  let ?c = "c\<lparr>connection_type := REDIS_CONN_TCP, tcp_port := port\<rparr>"
  have "\<exists>h. (if addr = Own then Some (tcp_host ?c) else strdup A (resolve (tcp_host ?c) addr)) = Some h"
    using a by (cases "resolve (tcp_host c) addr") (auto simp: strdup_def)
  then obtain h where h: "(if addr = Own then Some (tcp_host ?c) else strdup A (resolve (tcp_host ?c) addr)) = Some h"
    by blast
  obtain c1 where c1: "keep_timeout A (?c\<lparr>tcp_host := h\<rparr>) tmo = Some c1" "cflags c1 = cflags c" "cerr c1 = cerr c"
    using keep_timeout_fields [OF g, of "?c\<lparr>tcp_host := h\<rparr>" tmo] by auto
  have "\<exists>q. (case resolve (tcp_source_addr c1) sa of Nullp \<Rightarrow> Some Nullp
      | Ptr t \<Rightarrow> if sa = Own then Some (Ptr t) else strdup A (Ptr t)) = Some q"
    by (auto simp: strdup_def split: ptr.splits)
  then obtain q where q: "(case resolve (tcp_source_addr c1) sa of Nullp \<Rightarrow> Some Nullp
      | Ptr t \<Rightarrow> if sa = Own then Some (Ptr t) else strdup A (Ptr t)) = Some q" by blast
  obtain msec tv where tm: "redisContextTimeoutMsec c1 = (msec, tv)" by fastforce
  let ?d = "c1\<lparr>tcp_source_addr := q\<rparr>" and ?p = "Ptr (fst (snprintf 6 (dec_int port)))"
  let ?r4 = "io_call ?d (SysGetaddrinfo (tcp_host ?d) ?p AF_INET)"
  let ?host = "if addr = Own then tcp_host (fst ?r4) else resolve (tcp_host ?c) addr"
  let ?r6 = "io_call (fst ?r4) (SysGetaddrinfo ?host ?p AF_INET6)"
  have 4: "cflags (fst ?r4) = cflags c" "cerr (fst ?r4) = cerr c" using c1 by simp_all
  have 6: "cflags (fst ?r6) = cflags c" "cerr (fst ?r6) = cerr c" using 4 by simp_all
  note loop = connect_loop_settled [OF 4, of "addrs_found (snd ?r4)" _ ?ru AF_INET msec 0]
    connect_loop_settled [OF 6, of "addrs_found (snd ?r6)" _ ?ru AF_INET6 msec 0]
  have err: "\<exists>c' rv. Some (d\<lparr>cerr := e, cerrstr := t\<rparr>, REDIS_ERR) = Some (c', rv) \<and> settled c ?ru c' rv"
    if "cflags d = cflags c" "e \<noteq> 0" for d e t
    using that by (simp add: settled_def)
  show ?thesis
    unfolding redisContextConnectBindTcp_def Let_def bind.bind_lunit h c1(1) tm q case_prod_unfold prod.sel
      redisSetError_Ptr
    by (cases "tv = REDIS_OK"; cases "ret (snd ?r4) = 0"; cases "ret (snd ?r6) = 0")
       (simp_all only: if_True if_False simp_thms loop err 4 6 c1 ERR_codes not_False_eq_True)
qed

section \<open>Exhausted retries\<close>

text \<open>A system on which every \<open>connect\<close> fails with \<open>EADDRNOTAVAIL\<close> and everything else succeeds.\<close>

definition no_addr_available :: "redisContext \<Rightarrow> bool" where
  "no_addr_available c \<longleftrightarrow>
     (\<forall>tr call. ret (os (io c) tr call) = (case call of SysConnect _ _ \<Rightarrow> -1 | SysGetaddrinfo _ _ _ \<Rightarrow> 0 | _ \<Rightarrow> 1)) \<and>
     (\<forall>tr s a. failno (os (io c) tr (SysConnect s a)) = EADDRNOTAVAIL) \<and>
     (\<forall>tr h p f. addrs_found (os (io c) tr (SysGetaddrinfo h p f)) \<noteq> [])"

lemma io_call_os [simp]: "os (io (fst (io_call c q))) = os (io c)"
  by (simp add: io_call_def sys_call_def case_prod_unfold Let_def)

lemma io_call_result: "snd (io_call c q) = os (io c) (trace (io c)) q"
  by (simp add: io_call_def sys_call_def case_prod_unfold Let_def)

lemma io_call_errno: "errno (io (fst (io_call c q))) =
    (if ret (os (io c) (trace (io c)) q) = -1 then failno (os (io c) (trace (io c)) q) else errno (io c))"
  by (simp add: io_call_def sys_call_def case_prod_unfold Let_def)

lemma no_addr_cong: "os (io d) = os (io c) \<Longrightarrow> no_addr_available d \<longleftrightarrow> no_addr_available c"
  by (simp add: no_addr_available_def)

lemma set_blocking_ok:
  assumes "no_addr_available c"
  shows "\<exists>d. redisSetBlocking c b = Some (d, REDIS_OK) \<and> os (io d) = os (io c) \<and> cerr d = cerr c \<and>
    tcp_source_addr d = tcp_source_addr c"
proof -
  have "ret (os (io c) tr (SysGetfl f)) \<noteq> -1" "ret (os (io c) tr (SysSetfl f v)) \<noteq> -1" for tr f v
    using assms by (simp_all add: no_addr_available_def)
  then show ?thesis
    by (simp add: redisSetBlocking_def case_prod_unfold Let_def io_call_result)
qed

lemma close_fd_os [simp]: "os (io (redisContextCloseFd c)) = os (io c)"
  "tcp_source_addr (redisContextCloseFd c) = tcp_source_addr c"
  by (simp_all add: redisContextCloseFd_def)

lemma connect_addr_retries:
  assumes n: "no_addr_available c" and sa: "tcp_source_addr c = Nullp"
  shows "\<exists>d. connect_addr c p b True family msec n =
      Some (d, if REDIS_CONNECT_RETRIES \<le> n + 1 then Finish REDIS_ERR else Addr_Retry) \<and>
    no_addr_available d \<and> tcp_source_addr d = Nullp \<and> cerr d = cerr c"
proof -
  obtain e s where e: "io_call c (SysSocket (ai_family p) (ai_socktype p) (ai_protocol p)) = (e, s)" by fastforce
  have s: "ret s \<noteq> -1" using n io_call_result [of c "SysSocket (ai_family p) (ai_socktype p) (ai_protocol p)"] e
    by (simp add: no_addr_available_def)
  have eo: "os (io e) = os (io c)" "cerr e = cerr c" "tcp_source_addr e = Nullp"
    using io_call_os [of c "SysSocket (ai_family p) (ai_socktype p) (ai_protocol p)"]
      io_call_fields(2,5) [of c "SysSocket (ai_family p) (ai_socktype p) (ai_protocol p)"] e sa by simp_all
  have "no_addr_available (e\<lparr>fd := ret s\<rparr>)" using n eo(1) by (simp add: no_addr_available_def)
  from set_blocking_ok [OF this, of False] obtain d where
    d: "redisSetBlocking (e\<lparr>fd := ret s\<rparr>) False = Some (d, REDIS_OK)" "os (io d) = os (io c)" "cerr d = cerr c"
      "tcp_source_addr d = Nullp" using eo by auto
  obtain g r where g: "io_call d (SysConnect (ret s) (ai_addr p)) = (g, r)" by fastforce
  have r: "ret r = -1" "errno (io g) = EADDRNOTAVAIL"
    using n d(2) io_call_result [of d "SysConnect (ret s) (ai_addr p)"] io_call_errno [of d "SysConnect (ret s) (ai_addr p)"] g
    by (simp_all add: no_addr_available_def)
  have go: "os (io g) = os (io c)" "cerr g = cerr c" "tcp_source_addr g = Nullp"
    using io_call_os [of d "SysConnect (ret s) (ai_addr p)"] io_call_fields(2,5) [of d "SysConnect (ret s) (ai_addr p)"] g d
    by simp_all
  have neq: "EADDRNOTAVAIL \<noteq> EHOSTUNREACH" "EADDRNOTAVAIL \<noteq> EINPROGRESS" by (simp_all add: errno_codes)
  have tc: "try_connect d (ret s) p b True msec n = Some (if REDIS_CONNECT_RETRIES \<le> n + 1
      then (g, Finish REDIS_ERR) else (redisContextCloseFd g, Addr_Retry))"
    using r neq by (simp add: try_connect_def g)
  show ?thesis
    unfolding connect_addr_def e prod.case
    using s d go tc no_addr_cong [of _ c] n by simp
qed

lemma connect_loop_exhausted:
  "no_addr_available c \<Longrightarrow> tcp_source_addr c = Nullp \<Longrightarrow> n < REDIS_CONNECT_RETRIES \<Longrightarrow>
   \<exists>d. connect_loop c (p # ps) b True family msec n = Some (d, REDIS_ERR) \<and> cerr d = cerr c"
proof (induction "REDIS_CONNECT_RETRIES - n" arbitrary: c n)
  case 0
  then show ?case by simp
next
  case (Suc k)
  obtain d where d: "connect_addr c p b True family msec n =
      Some (d, if REDIS_CONNECT_RETRIES \<le> n + 1 then Finish REDIS_ERR else Addr_Retry)"
    "no_addr_available d" "tcp_source_addr d = Nullp" "cerr d = cerr c"
    using connect_addr_retries [OF Suc.prems(1,2)] by blast
  show ?case
  proof (cases "REDIS_CONNECT_RETRIES \<le> n + 1")
    case True
    with d show ?thesis by (simp add: connect_loop.simps(2))
  next
    case False
    with Suc.hyps(1) [OF _ d(2,3), of "n + 1"] Suc.hyps(2) d show ?thesis by (auto simp: connect_loop.simps(2))
  qed
qed

section \<open>Properties\<close>


definition quiet_sys :: sys where
  "quiet_sys = \<lparr>os = (\<lambda>tr call. \<lparr>ret = (case call of SysConnect _ _ \<Rightarrow> -1 | SysGetaddrinfo _ _ _ \<Rightarrow> 0 | _ \<Rightarrow> 1),
       failno = EADDRNOTAVAIL, rdata = [], so_error = 0,
       addrs_found = [\<lparr>ai_family = AF_INET, ai_socktype = SOCK_STREAM, ai_protocol = 6, ai_addr = ''127.0.0.1''\<rparr>]\<rparr>),
     trace = [], errno = 0, strerror = (\<lambda>_. ''error''), gai_strerror = (\<lambda>_. ''gai error'')\<rparr>"

definition blank_context :: "32 word \<Rightarrow> redisContext" where
  "blank_context f = \<lparr>cerr = 0, cerrstr = [], fd = 0, cflags = f, obuf = Nullp,
     reader = Inl \<lparr>objs = Map.empty, nxt = 1, granting = (\<lambda>_ _. True)\<rparr>,
     connection_type = REDIS_CONN_TCP, timeout = Nullp, tcp_host = Nullp, tcp_source_addr = Nullp,
     tcp_port = 0, unix_path = Nullp, io = quiet_sys\<rparr>"


text \<open>
  With \<open>REDIS_REUSEADDR\<close>, when no local address is available, the ten attempts are used up and
  \<open>REDIS_ERR\<close> is returned while the error of the context is still as before: an unconnected context
  that reports no error.
\<close>

theorem exhausted_retries_unreported:
  assumes "no_addr_available c" and "has (cflags c) REDIS_REUSEADDR" and "\<forall>n. grant A n"
  shows "\<exists>c'. redisContextConnectBindTcp A c (Other (Ptr host)) port (Other Nullp) (Other Nullp) =
      Some (c', REDIS_ERR) \<and> cerr c' = cerr c"
proof -
  let ?c = "c\<lparr>connection_type := REDIS_CONN_TCP, tcp_port := port, tcp_host := Ptr (cstr host),
    timeout := Nullp, tcp_source_addr := Nullp\<rparr>"
  let ?q = "SysGetaddrinfo (Ptr (cstr host)) (Ptr (fst (snprintf 6 (dec_int port)))) AF_INET"
  obtain d r where d: "io_call ?c ?q = (d, r)" by fastforce
  have r: "ret r = 0" "addrs_found r \<noteq> []"
    using assms(1) io_call_result [of ?c ?q] d by (simp_all add: no_addr_available_def)
  have "no_addr_available d" "tcp_source_addr d = Nullp" "cerr d = cerr c"
    using assms(1) io_call_os [of ?c ?q] io_call_fields(2,5) [of ?c ?q] d by (simp_all add: no_addr_available_def)
  moreover obtain p ps where "addrs_found r = p # ps" using r(2) by (cases "addrs_found r") auto
  ultimately obtain e where e: "connect_loop d (addrs_found r) (has (cflags c) REDIS_BLOCK) True AF_INET (-1) 0 =
      Some (e, REDIS_ERR)" "cerr e = cerr c"
    using connect_loop_exhausted [of d 0 p ps "has (cflags c) REDIS_BLOCK" AF_INET "-1"]
    by (force simp: REDIS_CONNECT_RETRIES_def)
  have "redisContextTimeoutMsec (c\<lparr>connection_type := REDIS_CONN_TCP, tcp_port := port,
      tcp_host := Ptr (cstr host), timeout := Nullp\<rparr>) = (-1, REDIS_OK)"
    by (simp add: redisContextTimeoutMsec_def)
  then show ?thesis
    using d e r assms(2,3)
    by (simp add: redisContextConnectBindTcp_def Let_def strdup_def keep_timeout_def)
qed

theorem exhausted_retries_unreported_witness:
  "\<exists>c'. redisContextConnectBindTcp generous (blank_context REDIS_REUSEADDR) (Other (Ptr ''localhost'')) 6379
      (Other Nullp) (Other Nullp) = Some (c', REDIS_ERR) \<and> cerr c' = 0"
proof -
  have "no_addr_available (blank_context REDIS_REUSEADDR)"
    by (simp add: no_addr_available_def blank_context_def quiet_sys_def)
  from exhausted_retries_unreported [OF this, of generous] show ?thesis
    by (simp add: blank_context_def has_def redis_flags)
qed

text \<open>
  C26. A valid timeout is converted to milliseconds without overflow: rounded up to the next whole
  millisecond, and limited to \<open>INT_MAX\<close>.
\<close>

theorem timeout_msec_rounds_up:
  assumes "timeout c = Ptr t" and "0 \<le> tv_sec t" and "tv_sec t \<le> MAX_MSEC"
    and "0 \<le> tv_usec t" and "tv_usec t \<le> 1000000"
  shows "\<exists>m. redisContextTimeoutMsec c = (min INT_MAX m, REDIS_OK) \<and>
    tv_sec t * 1000000 + tv_usec t \<le> m * 1000 \<and> m * 1000 < tv_sec t * 1000000 + tv_usec t + 1000"
proof -
  have mx: "MAX_MSEC = 9223372036854774"
    by (simp add: MAX_MSEC_def LONG_MAX_def)
  let ?u = "(tv_usec t + 999) div 1000"
  have u: "0 \<le> ?u" "?u \<le> 1000" using assms(4,5) by auto
  have d: "int64 (tv_usec t + 999) sdiv 1000 = ?u"
    using assms(4,5) by (simp add: int64_id signed_divide_int_def)
  have s: "int64 (tv_sec t * 1000) = tv_sec t * 1000" using assms(2,3) mx by (simp add: int64_id)
  have m: "int64 (tv_sec t * 1000 + ?u) = tv_sec t * 1000 + ?u" using assms(2,3) mx u by (simp add: int64_id)
  have "\<not> tv_sec t * 1000 + ?u < 0" using assms(2) u by simp
  then have "redisContextTimeoutMsec c = (min INT_MAX (tv_sec t * 1000 + ?u), REDIS_OK)"
    using assms by (simp add: redisContextTimeoutMsec_def d s m Let_def min_def)
  moreover have "tv_usec t \<le> ?u * 1000" "?u * 1000 < tv_usec t + 1000" by linarith+
  ultimately show ?thesis by (intro exI [of _ "tv_sec t * 1000 + ?u"]) simp
qed

theorem timeout_msec_rounds_up_witness:
  "\<exists>m. redisContextTimeoutMsec ((blank_context 0)\<lparr>timeout := Ptr \<lparr>tv_sec = 1, tv_usec = 500001\<rparr>\<rparr>) =
      (min INT_MAX m, REDIS_OK) \<and> 1500001 \<le> m * 1000 \<and> m * 1000 < 1501001"
  using timeout_msec_rounds_up [of "(blank_context 0)\<lparr>timeout := Ptr \<lparr>tv_sec = 1, tv_usec = 500001\<rparr>\<rparr>"
      "\<lparr>tv_sec = 1, tv_usec = 500001\<rparr>"]
  by (simp add: MAX_MSEC_def LONG_MAX_def)

end
