(* ===== verification/Connection.thy ===== *)
theory Connection
  imports Net Format
begin

text \<open>
  The synchronous API of \<open>hiredis.c\<close> (lines 572 to 1024): creating, freeing and reconnecting a
  context, its two buffers, replies, and commands. A function that frees the context returns what is
  left of it: the system and the heap of the replies.
\<close>

section \<open>Creating and freeing a context\<close>

text \<open>
  \<open>calloc\<close> clears the structure; \<open>sizeof(redisContext)\<close> is 216. The reader owns the reply heap \<open>h\<close>.
\<close>

definition redisFree :: "redisContext \<Rightarrow> (sys \<times> rheap) option" where
  "redisFree c =
     (let c = (if 0 < fd c then fst (io_call c (SysClose (fd c))) else c) in
      case reader c of
        Inl h \<Rightarrow> Some (io c, h)
      | Inr r \<Rightarrow> do { h \<leftarrow> redisReaderFree r; Some (io c, h) })"

definition redisFreeKeepFd :: "redisContext \<Rightarrow> (sys \<times> rheap \<times> int) option" where
  "redisFreeKeepFd c = do { (s, h) \<leftarrow> redisFree (c\<lparr>fd := -1\<rparr>); Some (s, h, fd c) }"

text \<open>\<open>Inl\<close> is a NULL result, with the system and the heap as they were or were left.\<close>

type_synonym new_context = "(sys \<times> rheap) + redisContext"

definition reader_or_heap :: "rheap \<Rightarrow> rheap redisReader ptr \<Rightarrow> rheap + rheap redisReader" where
  "reader_or_heap h p = (case p of Nullp \<Rightarrow> Inl h | Ptr r \<Rightarrow> Inr r)"

definition redisContextInit :: "allocator \<Rightarrow> sys \<Rightarrow> rheap \<Rightarrow> new_context option" where
  "redisContextInit A s h =
     (if \<not> grant A 216 then Some (Inl (s, h))
      else do {
        ob \<leftarrow> sdsempty A;
        rd \<leftarrow> redisReaderCreate A h;
        let c = \<lparr>cerr = 0, cerrstr = [], fd = 0, cflags = 0, obuf = ob, reader = reader_or_heap h rd,
                 connection_type = REDIS_CONN_TCP, timeout = Nullp, tcp_host = Nullp,
                 tcp_source_addr = Nullp, tcp_port = 0, unix_path = Nullp, io = s\<rparr>;
        (if ob = Nullp \<or> rd = Nullp then do { r \<leftarrow> redisFree c; Some (Inl r) }
         else Some (Inr c)) })"

text \<open>
  The old buffer and reader are freed and replaced; the new ones are not checked. The old error text
  is overwritten with NULs up to its length, which leaves the empty string.
\<close>

definition redisReconnect :: "allocator \<Rightarrow> redisContext \<Rightarrow> (redisContext \<times> int) option" where
  "redisReconnect A c =
     (let c = c\<lparr>cerr := 0, cerrstr := []\<rparr>;
          c = (if 0 < fd c then fst (io_call c (SysClose (fd c))) else c)
      in do {
        r \<leftarrow> the_reader c;
        h \<leftarrow> redisReaderFree r;
        ob \<leftarrow> sdsempty A;
        rd \<leftarrow> redisReaderCreate A h;
        let c = c\<lparr>obuf := ob, reader := reader_or_heap h rd\<rparr>;
        (case connection_type c of
           REDIS_CONN_TCP \<Rightarrow> redisContextConnectBindTcp A c Own (tcp_port c) Own Own
         | REDIS_CONN_UNIX \<Rightarrow> redisContextConnectUnix A c Own Own) })"

section \<open>Opening a connection\<close>

text \<open>The common shape: initialise, set flags, connect, and return the context whatever the status.\<close>

definition open_with :: "allocator \<Rightarrow> sys \<Rightarrow> rheap \<Rightarrow> (32 word \<Rightarrow> 32 word)
    \<Rightarrow> (redisContext \<Rightarrow> (redisContext \<times> int) option) \<Rightarrow> new_context option" where
  "open_with A s h fl connect = do {
     r \<leftarrow> redisContextInit A s h;
     (case r of
        Inl x \<Rightarrow> Some (Inl x)
      | Inr c \<Rightarrow> do { (c, rv) \<leftarrow> connect (c\<lparr>cflags := fl (cflags c)\<rparr>); Some (Inr c) }) }"

definition set_block :: "32 word \<Rightarrow> 32 word" where "set_block f = f OR REDIS_BLOCK"
definition clear_block :: "32 word \<Rightarrow> 32 word" where "clear_block f = f AND NOT REDIS_BLOCK"

definition redisConnect :: "allocator \<Rightarrow> sys \<Rightarrow> rheap \<Rightarrow> bytes \<Rightarrow> int \<Rightarrow> new_context option" where
  "redisConnect A s h ip port =
     open_with A s h set_block (\<lambda>c. redisContextConnectTcp A c (Other (Ptr ip)) port (Other Nullp))"

definition redisConnectWithTimeout :: "allocator \<Rightarrow> sys \<Rightarrow> rheap \<Rightarrow> bytes \<Rightarrow> int \<Rightarrow> timeval
    \<Rightarrow> new_context option" where
  "redisConnectWithTimeout A s h ip port tv =
     open_with A s h set_block (\<lambda>c. redisContextConnectTcp A c (Other (Ptr ip)) port (Other (Ptr tv)))"

definition redisConnectNonBlock :: "allocator \<Rightarrow> sys \<Rightarrow> rheap \<Rightarrow> bytes \<Rightarrow> int \<Rightarrow> new_context option" where
  "redisConnectNonBlock A s h ip port =
     open_with A s h clear_block (\<lambda>c. redisContextConnectTcp A c (Other (Ptr ip)) port (Other Nullp))"

definition redisConnectBindNonBlock :: "allocator \<Rightarrow> sys \<Rightarrow> rheap \<Rightarrow> bytes \<Rightarrow> int \<Rightarrow> bytes ptr
    \<Rightarrow> new_context option" where
  "redisConnectBindNonBlock A s h ip port source_addr =
     open_with A s h clear_block
       (\<lambda>c. redisContextConnectBindTcp A c (Other (Ptr ip)) port (Other Nullp) (Other source_addr))"

definition redisConnectBindNonBlockWithReuse :: "allocator \<Rightarrow> sys \<Rightarrow> rheap \<Rightarrow> bytes \<Rightarrow> int \<Rightarrow> bytes ptr
    \<Rightarrow> new_context option" where
  "redisConnectBindNonBlockWithReuse A s h ip port source_addr =
     open_with A s h (\<lambda>f. clear_block f OR REDIS_REUSEADDR)
       (\<lambda>c. redisContextConnectBindTcp A c (Other (Ptr ip)) port (Other Nullp) (Other source_addr))"

definition redisConnectUnix :: "allocator \<Rightarrow> sys \<Rightarrow> rheap \<Rightarrow> bytes \<Rightarrow> new_context option" where
  "redisConnectUnix A s h path =
     open_with A s h set_block (\<lambda>c. redisContextConnectUnix A c (Other (Ptr path)) (Other Nullp))"

definition redisConnectUnixWithTimeout :: "allocator \<Rightarrow> sys \<Rightarrow> rheap \<Rightarrow> bytes \<Rightarrow> timeval
    \<Rightarrow> new_context option" where
  "redisConnectUnixWithTimeout A s h path tv =
     open_with A s h set_block (\<lambda>c. redisContextConnectUnix A c (Other (Ptr path)) (Other (Ptr tv)))"

definition redisConnectUnixNonBlock :: "allocator \<Rightarrow> sys \<Rightarrow> rheap \<Rightarrow> bytes \<Rightarrow> new_context option" where
  "redisConnectUnixNonBlock A s h path =
     open_with A s h clear_block (\<lambda>c. redisContextConnectUnix A c (Other (Ptr path)) (Other Nullp))"

definition redisConnectFd :: "allocator \<Rightarrow> sys \<Rightarrow> rheap \<Rightarrow> int \<Rightarrow> new_context option" where
  "redisConnectFd A s h n = do {
     r \<leftarrow> redisContextInit A s h;
     (case r of
        Inl x \<Rightarrow> Some (Inl x)
      | Inr c \<Rightarrow> Some (Inr (c\<lparr>fd := n, cflags := cflags c OR (REDIS_BLOCK OR REDIS_CONNECTED)\<rparr>))) }"

definition redisSetTimeout :: "redisContext \<Rightarrow> timeval \<Rightarrow> (redisContext \<times> int) option" where
  "redisSetTimeout c tv =
     (if has (cflags c) REDIS_BLOCK then redisContextSetTimeout c tv else Some (c, REDIS_ERR))"

definition redisEnableKeepAlive :: "redisContext \<Rightarrow> (redisContext \<times> int) option" where
  "redisEnableKeepAlive c = do {
     (c, rv) \<leftarrow> redisKeepAlive c REDIS_KEEPALIVE_INTERVAL;
     Some (c, if rv \<noteq> REDIS_OK then REDIS_ERR else REDIS_OK) }"

section \<open>The two buffers\<close>

text \<open>A failed call that is to be tried again later.\<close>

definition try_later :: "redisContext \<Rightarrow> bool" where
  "try_later c \<longleftrightarrow>
     errno (io c) = EAGAIN \<and> \<not> has (cflags c) REDIS_BLOCK \<or> errno (io c) = EINTR"

definition redisBufferRead :: "allocator \<Rightarrow> redisContext \<Rightarrow> (redisContext \<times> int) option" where
  "redisBufferRead A c =
     (if cerr c \<noteq> 0 then Some (c, REDIS_ERR)
      else
        (let (c, res) = io_call c (SysRead (fd c) (1024 * 16)); nread = int32 (ret res) in
         if nread = -1 then
           (if try_later c then Some (c, REDIS_OK)
            else do { c \<leftarrow> redisSetError c REDIS_ERR_IO Nullp; Some (c, REDIS_ERR) })
         else if nread = 0 then do {
           c \<leftarrow> redisSetError c REDIS_ERR_EOF (Ptr ''Server closed the connection'');
           Some (c, REDIS_ERR) }
         else do {
           r \<leftarrow> the_reader c;
           (r, rv) \<leftarrow> redisReaderFeed A r (Ptr (rdata res)) (usz_of_int nread);
           let c = c\<lparr>reader := Inr r\<rparr>;
           (if rv \<noteq> REDIS_OK then do {
              c \<leftarrow> redisSetError c (err r) (Ptr (errstr r));
              Some (c, REDIS_ERR) }
            else Some (c, REDIS_OK)) }))"

text \<open>The third component is the value of \<open>*done\<close>, which is only set when \<open>REDIS_OK\<close> is returned.\<close>

definition redisBufferWrite :: "allocator \<Rightarrow> redisContext \<Rightarrow> (redisContext \<times> int \<times> bool option) option" where
  "redisBufferWrite A c =
     (if cerr c \<noteq> 0 then Some (c, REDIS_ERR, None)
      else do {
        ob \<leftarrow> deref (obuf c);
        (c, rv) \<leftarrow>
          (if 0 < sdslen ob then do {
             t \<leftarrow> get_bytes (buf ob) 0 (sdslen ob);
             let (c, res) = io_call c (SysWrite (fd c) t);
             let nwritten = int32 (ret res);
             (if nwritten = -1 then
                (if try_later c then Some (c, REDIS_OK)
                 else do { c \<leftarrow> redisSetError c REDIS_ERR_IO Nullp; Some (c, REDIS_ERR) })
              else if 0 < nwritten then
                (if nwritten = int32 (int (sdslen ob)) then do {
                   e \<leftarrow> sdsempty A;
                   Some (c\<lparr>obuf := e\<rparr>, REDIS_OK) }
                 else do {
                   s \<leftarrow> sdsrange ob nwritten (-1);
                   Some (c\<lparr>obuf := Ptr s\<rparr>, REDIS_OK) })
              else Some (c, REDIS_OK)) }
           else Some (c, REDIS_OK));
        (if rv = REDIS_ERR then Some (c, REDIS_ERR, None)
         else do { ob \<leftarrow> deref (obuf c); Some (c, REDIS_OK, Some (sdslen ob = 0)) }) })"

section \<open>Replies\<close>

definition redisGetReplyFromReader :: "redisContext \<Rightarrow> (redisContext \<times> nat \<times> int) option" where
  "redisGetReplyFromReader c = do {
     r \<leftarrow> the_reader c;
     (r, rep, rv) \<leftarrow> redisReaderGetReply r True;
     let c = c\<lparr>reader := Inr r\<rparr>;
     (if rv = REDIS_ERR then do {
        c \<leftarrow> redisSetError c (err r) (Ptr (errstr r));
        Some (c, 0, REDIS_ERR) }
      else Some (c, rep, REDIS_OK)) }"

text \<open>The two loops of a blocking \<open>redisGetReply\<close>; a loop that never ends has the value \<open>None\<close>.\<close>

partial_function (option) write_all :: "allocator \<Rightarrow> redisContext \<Rightarrow> (redisContext \<times> int) option" where
  "write_all A c = do {
     x \<leftarrow> redisBufferWrite A c;
     (if fst (snd x) = REDIS_ERR then Some (fst x, REDIS_ERR)
      else if snd (snd x) = Some True then Some (fst x, REDIS_OK)
      else write_all A (fst x)) }"

partial_function (option) read_reply :: "allocator \<Rightarrow> redisContext \<Rightarrow> (redisContext \<times> nat \<times> int) option" where
  "read_reply A c = do {
     x \<leftarrow> redisBufferRead A c;
     (if snd x = REDIS_ERR then Some (fst x, 0, REDIS_ERR)
      else do {
        y \<leftarrow> redisGetReplyFromReader (fst x);
        (if snd (snd y) = REDIS_ERR then Some (fst y, 0, REDIS_ERR)
         else if fst (snd y) \<noteq> 0 then Some y
         else read_reply A (fst y)) }) }"

declare write_all.simps [code] read_reply.simps [code]

definition redisGetReply :: "allocator \<Rightarrow> redisContext \<Rightarrow> (redisContext \<times> nat \<times> int) option" where
  "redisGetReply A c = do {
     (c, aux, rv) \<leftarrow> redisGetReplyFromReader c;
     (if rv = REDIS_ERR then Some (c, 0, REDIS_ERR)
      else if aux = 0 \<and> has (cflags c) REDIS_BLOCK then do {
        (c, rv) \<leftarrow> write_all A c;
        (if rv = REDIS_ERR then Some (c, 0, REDIS_ERR) else read_reply A c) }
      else Some (c, aux, REDIS_OK)) }"

section \<open>Commands\<close>

definition append_command :: "allocator \<Rightarrow> redisContext \<Rightarrow> bytes \<Rightarrow> nat \<Rightarrow> (redisContext \<times> int) option" where
  "append_command A c cmd len = do {
     ob \<leftarrow> deref (obuf c);
     newbuf \<leftarrow> sdscatlen A ob cmd len;
     (case newbuf of
        Nullp \<Rightarrow> do {
          c \<leftarrow> redisSetError c REDIS_ERR_OOM (Ptr ''Out of memory'');
          Some (c, REDIS_ERR) }
      | Ptr s \<Rightarrow> Some (c\<lparr>obuf := Ptr s\<rparr>, REDIS_OK)) }"

definition redisAppendFormattedCommand :: "allocator \<Rightarrow> redisContext \<Rightarrow> bytes \<Rightarrow> nat
    \<Rightarrow> (redisContext \<times> int) option" where
  "redisAppendFormattedCommand A c cmd len = do {
     (c, rv) \<leftarrow> append_command A c cmd len;
     Some (c, if rv \<noteq> REDIS_OK then REDIS_ERR else REDIS_OK) }"

definition redisvAppendCommand :: "(bytes \<Rightarrow> nat \<Rightarrow> bytes) \<Rightarrow> allocator \<Rightarrow> redisContext \<Rightarrow> bytes \<Rightarrow> va_arg list
    \<Rightarrow> (redisContext \<times> int) option" where
  "redisvAppendCommand fp A c format ap = do {
     (cmd, len) \<leftarrow> redisvFormatCommand fp A True format ap;
     (if len = -1 then do {
        c \<leftarrow> redisSetError c REDIS_ERR_OOM (Ptr ''Out of memory''); Some (c, REDIS_ERR) }
      else if len = -2 then do {
        c \<leftarrow> redisSetError c REDIS_ERR_OTHER (Ptr ''Invalid format string''); Some (c, REDIS_ERR) }
      else do {
        cmd \<leftarrow> deref cmd;
        (c, rv) \<leftarrow> append_command A c cmd (usz_of_int len);
        Some (c, if rv \<noteq> REDIS_OK then REDIS_ERR else REDIS_OK) }) }"

definition redisAppendCommand :: "(bytes \<Rightarrow> nat \<Rightarrow> bytes) \<Rightarrow> allocator \<Rightarrow> redisContext \<Rightarrow> bytes \<Rightarrow> va_arg list
    \<Rightarrow> (redisContext \<times> int) option" where
  "redisAppendCommand fp A c format ap = redisvAppendCommand fp A c format ap"

definition redisAppendCommandArgv :: "allocator \<Rightarrow> redisContext \<Rightarrow> int \<Rightarrow> bytes list \<Rightarrow> nat list ptr
    \<Rightarrow> (redisContext \<times> int) option" where
  "redisAppendCommandArgv A c argc argv argvlen = do {
     (cmd, len) \<leftarrow> redisFormatSdsCommandArgv A True argc argv argvlen;
     (if len = -1 then do {
        c \<leftarrow> redisSetError c REDIS_ERR_OOM (Ptr ''Out of memory''); Some (c, REDIS_ERR) }
      else do {
        cmd \<leftarrow> deref cmd;
        (c, rv) \<leftarrow> append_command A c (buf cmd) (usz_of_int len);
        Some (c, if rv \<noteq> REDIS_OK then REDIS_ERR else REDIS_OK) }) }"

text \<open>The result is a reply or NULL.\<close>

definition redisBlockForReply :: "allocator \<Rightarrow> redisContext \<Rightarrow> (redisContext \<times> nat) option" where
  "redisBlockForReply A c =
     (if has (cflags c) REDIS_BLOCK then do {
        (c, rep, rv) \<leftarrow> redisGetReply A c;
        Some (c, if rv \<noteq> REDIS_OK then 0 else rep) }
      else Some (c, 0))"

definition redisvCommand :: "(bytes \<Rightarrow> nat \<Rightarrow> bytes) \<Rightarrow> allocator \<Rightarrow> redisContext \<Rightarrow> bytes \<Rightarrow> va_arg list
    \<Rightarrow> (redisContext \<times> nat) option" where
  "redisvCommand fp A c format ap = do {
     (c, rv) \<leftarrow> redisvAppendCommand fp A c format ap;
     (if rv \<noteq> REDIS_OK then Some (c, 0) else redisBlockForReply A c) }"

definition redisCommand :: "(bytes \<Rightarrow> nat \<Rightarrow> bytes) \<Rightarrow> allocator \<Rightarrow> redisContext \<Rightarrow> bytes \<Rightarrow> va_arg list
    \<Rightarrow> (redisContext \<times> nat) option" where
  "redisCommand fp A c format ap = redisvCommand fp A c format ap"

definition redisCommandArgv :: "allocator \<Rightarrow> redisContext \<Rightarrow> int \<Rightarrow> bytes list \<Rightarrow> nat list ptr
    \<Rightarrow> (redisContext \<times> nat) option" where
  "redisCommandArgv A c argc argv argvlen = do {
     (c, rv) \<leftarrow> redisAppendCommandArgv A c argc argv argvlen;
     (if rv \<noteq> REDIS_OK then Some (c, 0) else redisBlockForReply A c) }"

end
