(* ===== verification/Callbacks.thy ===== *)
theory Callbacks
  imports Reader
begin

text \<open>
  The queues of reply callbacks of \<open>async.c\<close>: singly linked lists with a head and a tail pointer
  (\<open>__redisPushCallback\<close>, \<open>__redisShiftCallback\<close>), and the interface the rest of the asynchronous
  client relies on, a first-in first-out queue. NULL is address 0. A list owns its cells.
\<close>

section \<open>The linked lists\<close>

record redisCallback =
  cb_fn :: nat
  cb_privdata :: nat

record redisCallbackList =
  head :: nat
  tail :: nat
  cells :: "nat \<rightharpoonup> redisCallback \<times> nat"
  next_cell :: nat

definition empty_list :: redisCallbackList where
  "empty_list = \<lparr>head = 0, tail = 0, cells = Map.empty, next_cell = 1\<rparr>"

text \<open>\<open>tail->next = cb\<close>; every caller passes a callback to copy.\<close>

definition redisPushCallback :: "allocator \<Rightarrow> redisCallbackList \<Rightarrow> redisCallback
    \<Rightarrow> (redisCallbackList \<times> int) option" where
  "redisPushCallback A l source =
     (if \<not> grant A 24 then Some (l, REDIS_ERR_OOM)
      else
        (let cb = next_cell l;
             l = l\<lparr>cells := (cells l)(cb \<mapsto> (source, 0)), next_cell := cb + 1\<rparr>;
             l = (if head l = 0 then l\<lparr>head := cb\<rparr> else l)
         in do {
           l \<leftarrow> (if tail l \<noteq> 0 then do {
                    (x, _) \<leftarrow> cells l (tail l);
                    Some (l\<lparr>cells := (cells l)(tail l \<mapsto> (x, cb))\<rparr>) }
                 else Some l);
           Some (l\<lparr>tail := cb\<rparr>, REDIS_OK) }))"

definition redisShiftCallback :: "redisCallbackList \<Rightarrow> (redisCallbackList \<times> redisCallback option \<times> int) option" where
  "redisShiftCallback l =
     (let cb = head l in
      if cb \<noteq> 0 then do {
        (x, n) \<leftarrow> cells l cb;
        let l = l\<lparr>head := n\<rparr>;
        let l = (if cb = tail l then l\<lparr>tail := 0\<rparr> else l);
        Some (l\<lparr>cells := (cells l)(cb := None)\<rparr>, Some x, REDIS_OK) }
      else Some (l, None, REDIS_ERR))"

section \<open>What a list holds\<close>

fun linked :: "(nat \<rightharpoonup> redisCallback \<times> nat) \<Rightarrow> nat list \<Rightarrow> redisCallback list \<Rightarrow> bool" where
  "linked m [] xs \<longleftrightarrow> xs = []"
| "linked m (a # as) xs \<longleftrightarrow>
     (case xs of [] \<Rightarrow> False
      | x # xs \<Rightarrow> m a = Some (x, case as of [] \<Rightarrow> 0 | b # _ \<Rightarrow> b) \<and> linked m as xs)"

definition holds_queue :: "redisCallbackList \<Rightarrow> redisCallback list \<Rightarrow> bool" where
  "holds_queue l xs \<longleftrightarrow>
     (\<exists>as. linked (cells l) as xs \<and> distinct as \<and> (\<forall>a \<in> set as. 0 < a \<and> a < next_cell l) \<and> 0 < next_cell l \<and>
        head l = (case as of [] \<Rightarrow> 0 | a # _ \<Rightarrow> a) \<and> tail l = (if as = [] then 0 else last as))"

lemma linked_cong: "(\<And>a. a \<in> set as \<Longrightarrow> m a = m' a) \<Longrightarrow> linked m as xs \<longleftrightarrow> linked m' as xs"
  by (induction as arbitrary: xs) (auto split: list.splits)

lemma linked_nonempty: "linked m as xs \<Longrightarrow> as = [] \<longleftrightarrow> xs = []"
  by (cases as) (auto split: list.splits)

lemma linked_snoc:
  "linked m as xs \<Longrightarrow> as \<noteq> [] \<Longrightarrow> distinct as \<Longrightarrow> n \<notin> set as \<Longrightarrow>
     \<exists>y. m (last as) = Some (y, 0) \<and> linked (m(last as \<mapsto> (y, n), n \<mapsto> (x, 0))) (as @ [n]) (xs @ [x])"
proof (induction as arbitrary: xs)
  case (Cons a as)
  then obtain y ys where xs: "xs = y # ys" by (cases xs) auto
  show ?case
  proof (cases "as = []")
    case True
    with Cons.prems xs show ?thesis by auto
  next
    case False
    have "linked m as ys" "distinct as" "n \<notin> set as" using Cons.prems xs by auto
    from Cons.IH [OF this(1) False this(2,3)] obtain z where z: "m (last as) = Some (z, 0)"
      "linked (m(last as \<mapsto> (z, n), n \<mapsto> (x, 0))) (as @ [n]) (ys @ [x])" by blast
    let ?m = "m(last as \<mapsto> (z, n), n \<mapsto> (x, 0))"
    have "last as \<noteq> a" "n \<noteq> a" using Cons.prems False by auto
    then have "?m a = Some (y, case as @ [n] of [] \<Rightarrow> 0 | b # _ \<Rightarrow> b)"
      using Cons.prems(1) xs False by (cases as) simp_all
    then have "linked ?m (a # as @ [n]) (y # ys @ [x])"
      using z(2) by (simp only: linked.simps(2) list.case simp_thms)
    moreover have "last (a # as) = last as" using False by simp
    ultimately show ?thesis using z(1) xs by (simp only: append_Cons) blast
  qed
qed simp

lemma push_queue:
  assumes g: "grant A 24" and q: "holds_queue l xs"
  shows "\<exists>l'. redisPushCallback A l x = Some (l', REDIS_OK) \<and> holds_queue l' (xs @ [x])"
proof -
  from q obtain as where as: "linked (cells l) as xs" "distinct as" "\<forall>a \<in> set as. 0 < a \<and> a < next_cell l"
    "0 < next_cell l" "head l = (case as of [] \<Rightarrow> 0 | a # _ \<Rightarrow> a)" "tail l = (if as = [] then 0 else last as)"
    by (auto simp: holds_queue_def)
  let ?n = "next_cell l"
  have n: "?n \<notin> set as" using as(3) by auto
  show ?thesis
  proof (cases "as = []")
    case True
    let ?l = "l\<lparr>cells := (cells l)(?n \<mapsto> (x, 0)), next_cell := ?n + 1, head := ?n, tail := ?n\<rparr>"
    have "redisPushCallback A l x = Some (?l, REDIS_OK)"
      using True as(5,6) g by (simp add: redisPushCallback_def Let_def)
    moreover have "xs = []" using True as(1) by simp
    moreover have "holds_queue ?l [x]"
      unfolding holds_queue_def using as(4) by (intro exI [of _ "[?n]"]) simp
    ultimately show ?thesis by simp
  next
    case False
    obtain y where y: "cells l (last as) = Some (y, 0)"
        "linked ((cells l)(last as \<mapsto> (y, ?n), ?n \<mapsto> (x, 0))) (as @ [?n]) (xs @ [x])"
      using linked_snoc [OF as(1) False as(2) n] by blast
    have "last as \<in> set as" using False by simp
    then have ne: "last as \<noteq> ?n" "last as \<noteq> 0" using n as(3) by auto
    have hd: "head l \<noteq> 0" using False as(3,5) by (cases as) auto
    have h: "head l = (case as @ [?n] of [] \<Rightarrow> 0 | a # _ \<Rightarrow> a)" using False as(5) by (cases as) auto
    let ?m = "(cells l)(last as \<mapsto> (y, ?n), ?n \<mapsto> (x, 0))"
    let ?l = "l\<lparr>cells := ?m, next_cell := ?n + 1, tail := ?n\<rparr>"
    have "?m = (cells l)(?n \<mapsto> (x, 0), last as \<mapsto> (y, ?n))"
      using ne by (simp add: fun_upd_twist)
    then have "redisPushCallback A l x = Some (?l, REDIS_OK)"
      using g hd ne y(1) as(6) False by (simp add: redisPushCallback_def Let_def)
    moreover have "holds_queue ?l (xs @ [x])"
      unfolding holds_queue_def
    proof (intro exI [of _ "as @ [?n]"] conjI)
      show "linked (cells ?l) (as @ [?n]) (xs @ [x])" using y(2) by simp
      show "head ?l = (case as @ [?n] of [] \<Rightarrow> 0 | a # _ \<Rightarrow> a)" using h by simp
    qed (use as(2-4) n in auto)
    ultimately show ?thesis by blast
  qed
qed

lemma shift_queue_Cons:
  assumes q: "holds_queue l (x # xs)"
  shows "\<exists>l'. redisShiftCallback l = Some (l', Some x, REDIS_OK) \<and> holds_queue l' xs"
proof -
  from q obtain as where as: "linked (cells l) as (x # xs)" "distinct as" "\<forall>a \<in> set as. 0 < a \<and> a < next_cell l"
    "0 < next_cell l" "head l = (case as of [] \<Rightarrow> 0 | a # _ \<Rightarrow> a)" "tail l = (if as = [] then 0 else last as)"
    by (auto simp: holds_queue_def)
  then obtain a bs where bs: "as = a # bs" by (cases as) auto
  have "linked ((cells l)(a := None)) bs xs"
  proof -
    have "linked ((cells l)(a := None)) bs xs \<longleftrightarrow> linked (cells l) bs xs"
      using as(2) bs by (intro linked_cong) auto
    with as(1) bs show ?thesis by simp
  qed
  note rest = this
  have t: "a = tail l \<longleftrightarrow> bs = []" using as(2,6) bs by auto
  have a: "head l = a" "a \<noteq> 0" "cells l a = Some (x, case bs of [] \<Rightarrow> 0 | b # _ \<Rightarrow> b)"
    using as(1,3,5) bs by auto
  let ?l = "l\<lparr>head := (case bs of [] \<Rightarrow> 0 | b # _ \<Rightarrow> b), tail := (if bs = [] then 0 else tail l), cells := (cells l)(a := None)\<rparr>"
  have "redisShiftCallback l = Some (?l, Some x, REDIS_OK)"
    using a t by (cases "bs = []") (simp_all add: redisShiftCallback_def Let_def)
  moreover have "holds_queue ?l xs"
    unfolding holds_queue_def
  proof (intro exI [of _ bs] conjI)
    show "linked (cells ?l) bs xs" using rest by simp
    show "tail ?l = (if bs = [] then 0 else last bs)" using as(6) bs by simp
  qed (use as(2-4) bs in auto)
  ultimately show ?thesis by blast
qed

lemma shift_queue_Nil: "holds_queue l [] \<Longrightarrow> redisShiftCallback l = Some (l, None, REDIS_ERR)"
  by (auto simp: holds_queue_def redisShiftCallback_def dest: linked_nonempty)

lemma empty_queue: "holds_queue empty_list []"
  by (auto simp: holds_queue_def empty_list_def intro!: exI [of _ "[]"])

lemma head_queue: "holds_queue l xs \<Longrightarrow> head l = 0 \<longleftrightarrow> xs = []"
proof -
  assume "holds_queue l xs"
  then obtain as where as: "linked (cells l) as xs" "\<forall>a \<in> set as. 0 < a" "head l = (case as of [] \<Rightarrow> 0 | a # _ \<Rightarrow> a)"
    by (auto simp: holds_queue_def)
  then show ?thesis using linked_nonempty [OF as(1)] by (cases as) auto
qed

section \<open>The interface\<close>

text \<open>A queue: what was pushed first is shifted first, each element once.\<close>

locale fifo =
  fixes repr :: "'q \<Rightarrow> 'x list \<Rightarrow> bool"
    and empty :: 'q
    and push :: "'q \<Rightarrow> 'x \<Rightarrow> ('q \<times> int) option"
    and shift :: "'q \<Rightarrow> ('q \<times> 'x option \<times> int) option"
    and able :: bool
  assumes empty_law: "repr empty []"
    and push_law: "able \<Longrightarrow> repr q xs \<Longrightarrow> \<exists>q'. push q x = Some (q', REDIS_OK) \<and> repr q' (xs @ [x])"
    and shift_law: "repr q (x # xs) \<Longrightarrow> \<exists>q'. shift q = Some (q', Some x, REDIS_OK) \<and> repr q' xs"
    and shift_empty_law: "repr q [] \<Longrightarrow> shift q = Some (q, None, REDIS_ERR)"
begin

fun push_all :: "'q \<Rightarrow> 'x list \<Rightarrow> 'q option" where
  "push_all q [] = Some q"
| "push_all q (x # xs) = do { (q, _) \<leftarrow> push q x; push_all q xs }"

fun shift_n :: "nat \<Rightarrow> 'q \<Rightarrow> ('q \<times> 'x list) option" where
  "shift_n 0 q = Some (q, [])"
| "shift_n (Suc n) q = do {
     (q, x, _) \<leftarrow> shift q;
     (case x of None \<Rightarrow> Some (q, []) | Some x \<Rightarrow> do { (q, xs) \<leftarrow> shift_n n q; Some (q, x # xs) }) }"

lemma push_all_law: "able \<Longrightarrow> repr q ys \<Longrightarrow> \<exists>q'. push_all q xs = Some q' \<and> repr q' (ys @ xs)"
proof (induction xs arbitrary: q ys)
  case (Cons x xs)
  from push_law [OF Cons.prems] obtain q' where "push q x = Some (q', REDIS_OK)" "repr q' (ys @ [x])" by blast
  with Cons.IH [OF Cons.prems(1), of q'] show ?case by fastforce
qed simp

lemma shift_n_law: "repr q (xs @ ys) \<Longrightarrow> \<exists>q'. shift_n (length xs) q = Some (q', xs) \<and> repr q' ys"
proof (induction xs arbitrary: q)
  case (Cons x xs)
  from shift_law Cons.prems obtain q' where "shift q = Some (q', Some x, REDIS_OK)" "repr q' (xs @ ys)"
    by (metis append_Cons)
  with Cons.IH show ?case by fastforce
qed simp

lemma first_in_first_out:
  assumes able
  shows "\<exists>q q'. push_all empty xs = Some q \<and> shift_n (length xs) q = Some (q', xs) \<and>
    shift q' = Some (q', None, REDIS_ERR)"
  using push_all_law [OF assms empty_law, of xs] shift_n_law [of _ xs "[]"] shift_empty_law by fastforce

end

interpretation cbq: fifo holds_queue empty_list "redisPushCallback A" redisShiftCallback "grant A 24"
  for A :: allocator
  by unfold_locales (simp_all add: empty_queue push_queue shift_queue_Cons shift_queue_Nil)

end
