(* ===== verification/Async.thy ===== *)
theory Async
  imports Connection Callbacks Dict
begin

text \<open>
  The asynchronous client (\<open>async.c\<close>). A user callback is a function pointer (0 is NULL); what it does
  is a function of the environment that may change the context in any way, in particular by calling
  the operations below again. A context that was freed is marked \<open>freed\<close>; an access to it is a fault
  (\<open>alive\<close>). The calls of user functions are recorded in \<open>calls\<close>, those of the event library hooks in
  \<open>ev_log\<close>; hooks do not touch the context.
\<close>

section \<open>Channels\<close>

text \<open>
  The keys of the subscription tables are the contents of the sds names. A name has fewer than
  \<open>2 ^ 31\<close> bytes, so that the \<open>int\<close> lengths of \<open>callbackKeyCompare\<close> are exact.
\<close>

typedef channel = "{t :: bytes. length t < 2 ^ 31}"
  by (rule exI [of _ "[]"]) simp

setup_lifting type_definition_channel

lift_definition channel_text :: "channel \<Rightarrow> bytes" is "\<lambda>t. t" .

lift_definition as_channel :: "bytes \<Rightarrow> channel" is "\<lambda>t. if length t < 2 ^ 31 then t else []"
  by simp

definition channel_of :: "bytes \<Rightarrow> channel option" where
  "channel_of t = (if length t < 2 ^ 31 then Some (as_channel t) else None)"

lemma channel_text_of: "channel_of t = Some k \<Longrightarrow> channel_text k = t"
  by (auto simp: channel_of_def split: if_splits) (transfer, simp)

lemma channel_text_inject: "channel_text k1 = channel_text k2 \<longleftrightarrow> k1 = k2"
  by transfer simp

lemma channel_text_length: "length (channel_text k) < 2 ^ 31"
  by transfer simp

definition callbackHash :: "channel \<Rightarrow> 32 word" where
  "callbackHash k =
     (case dictGenHashFunction (channel_text k) (int32 (int (length (channel_text k)))) of
        Some h \<Rightarrow> h | None \<Rightarrow> 0)"

definition callbackValDup :: "redisCallback \<Rightarrow> redisCallback" where
  "callbackValDup src = \<lparr>cb_fn = cb_fn src, cb_privdata = cb_privdata src\<rparr>"

definition callbackKeyCompare :: "channel \<Rightarrow> channel \<Rightarrow> bool" where
  "callbackKeyCompare key1 key2 =
     (let l1 = int32 (int (length (channel_text key1))); l2 = int32 (int (length (channel_text key2)))
      in if l1 \<noteq> l2 then False
         else take (usz_of_int l1) (channel_text key1) = take (usz_of_int l1) (channel_text key2))"

definition callbackDict :: "(channel, redisCallback) dictType" where
  "callbackDict = \<lparr>hashFunction = callbackHash, keyDup = None, valDup = Some callbackValDup,
     keyCompare = Some callbackKeyCompare, keyDestructor = True, valDestructor = True\<rparr>"

section \<open>The asynchronous context\<close>

datatype hook = AddRead | DelRead | AddWrite | DelWrite | Cleanup

datatype user_call =
    ReplyCall nat nat nat
  | ConnectCall nat int
  | DisconnectCall nat int

text \<open>\<open>ac->errstr\<close> is NULL or points to the text in the inner context. A table that was released is \<open>Nullp\<close>.\<close>

record redisAsyncContext =
  ac_c :: redisContext
  ac_err :: int
  errstr_set :: bool
  ev_hooks :: "hook list"
  ev_log :: "hook list"
  onDisconnect :: nat
  onConnect :: nat
  replies :: redisCallbackList
  sub_invalid :: redisCallbackList
  sub_channels :: "(channel, redisCallback) dict ptr"
  sub_patterns :: "(channel, redisCallback) dict ptr"
  freed :: bool
  calls :: "user_call list"

record aenv =
  mem :: allocator
  run_fn :: "nat \<Rightarrow> redisAsyncContext \<Rightarrow> nat \<Rightarrow> nat \<Rightarrow> redisAsyncContext option"
  run_connect :: "nat \<Rightarrow> redisAsyncContext \<Rightarrow> int \<Rightarrow> redisAsyncContext option"
  run_disconnect :: "nat \<Rightarrow> redisAsyncContext \<Rightarrow> int \<Rightarrow> redisAsyncContext option"

definition alive :: "redisAsyncContext \<Rightarrow> redisAsyncContext option" where
  "alive ac = (if freed ac then None else Some ac)"

definition aflags :: "redisAsyncContext \<Rightarrow> 32 word" where
  "aflags ac = cflags (ac_c ac)"

definition set_aflags :: "redisAsyncContext \<Rightarrow> 32 word \<Rightarrow> redisAsyncContext" where
  "set_aflags ac f = ac\<lparr>ac_c := (ac_c ac)\<lparr>cflags := f\<rparr>\<rparr>"

text \<open>The macros \<open>_EL_ADD_READ\<close> and so on: a hook that is set is called.\<close>

definition el :: "hook \<Rightarrow> redisAsyncContext \<Rightarrow> redisAsyncContext" where
  "el h ac = (if h \<in> set (ev_hooks ac) then ac\<lparr>ev_log := ev_log ac @ [h]\<rparr> else ac)"

definition blank_dict :: "(channel, redisCallback) dict" where
  "blank_dict = \<lparr>table = [], dtype = callbackDict, ht_size = 0, sizemask = 0, used = 0, keyFrees = [], valFrees = []\<rparr>"

text \<open>NULL when the larger block is refused; the context is then unchanged.\<close>

definition redisAsyncInitialize :: "allocator \<Rightarrow> redisContext \<Rightarrow> redisAsyncContext ptr option" where
  "redisAsyncInitialize A c =
     (if \<not> grant A 376 then Some Nullp
      else
        (let c = c\<lparr>cflags := cflags c AND NOT REDIS_CONNECTED\<rparr> in do {
           channels \<leftarrow> dictCreate A blank_dict callbackDict;
           patterns \<leftarrow> dictCreate A blank_dict callbackDict;
           Some (Ptr \<lparr>ac_c = c, ac_err = 0, errstr_set = False, ev_hooks = [], ev_log = [],
             onDisconnect = 0, onConnect = 0, replies = empty_list, sub_invalid = empty_list,
             sub_channels = Ptr channels, sub_patterns = Ptr patterns, freed = False, calls = []\<rparr>) }))"

definition redisAsyncCopyError :: "redisAsyncContext \<Rightarrow> redisAsyncContext" where
  "redisAsyncCopyError ac = ac\<lparr>ac_err := cerr (ac_c ac), errstr_set := True\<rparr>"

type_synonym new_async = "(sys \<times> rheap) + redisAsyncContext"

text \<open>With the checks of \<open>redisAsyncConnect\<close> and \<open>redisAsyncConnectUnix\<close>.\<close>

definition async_checked :: "allocator \<Rightarrow> new_context option \<Rightarrow> new_async option" where
  "async_checked A r = do {
     r \<leftarrow> r;
     (case r of
        Inl x \<Rightarrow> Some (Inl x)
      | Inr c \<Rightarrow> do {
          p \<leftarrow> redisAsyncInitialize A c;
          (case p of
             Nullp \<Rightarrow> do { x \<leftarrow> redisFree c; Some (Inl x) }
           | Ptr ac \<Rightarrow> Some (Inr (redisAsyncCopyError ac))) }) }"

text \<open>
  The bind variants check nothing: a NULL context is extended as if it were a block (its fields are
  then indeterminate), and when the larger block is refused the context is lost, its socket open.
\<close>

definition async_unchecked :: "allocator \<Rightarrow> new_context option \<Rightarrow> new_async option" where
  "async_unchecked A r = do {
     r \<leftarrow> r;
     (case r of
        Inl x \<Rightarrow> (if grant A 376 then None else Some (Inl x))
      | Inr c \<Rightarrow> do {
          p \<leftarrow> redisAsyncInitialize A c;
          Some (case p of Nullp \<Rightarrow> Inl (io c, reply_heap c) | Ptr ac \<Rightarrow> Inr (redisAsyncCopyError ac)) }) }"

definition redisAsyncConnect :: "allocator \<Rightarrow> sys \<Rightarrow> rheap \<Rightarrow> bytes \<Rightarrow> int \<Rightarrow> new_async option" where
  "redisAsyncConnect A s h ip port = async_checked A (redisConnectNonBlock A s h ip port)"

definition redisAsyncConnectBind :: "allocator \<Rightarrow> sys \<Rightarrow> rheap \<Rightarrow> bytes \<Rightarrow> int \<Rightarrow> bytes ptr \<Rightarrow> new_async option" where
  "redisAsyncConnectBind A s h ip port source_addr =
     async_unchecked A (redisConnectBindNonBlock A s h ip port source_addr)"

definition redisAsyncConnectBindWithReuse :: "allocator \<Rightarrow> sys \<Rightarrow> rheap \<Rightarrow> bytes \<Rightarrow> int \<Rightarrow> bytes ptr
    \<Rightarrow> new_async option" where
  "redisAsyncConnectBindWithReuse A s h ip port source_addr =
     async_unchecked A (redisConnectBindNonBlockWithReuse A s h ip port source_addr)"

definition redisAsyncConnectUnix :: "allocator \<Rightarrow> sys \<Rightarrow> rheap \<Rightarrow> bytes \<Rightarrow> new_async option" where
  "redisAsyncConnectUnix A s h path = async_checked A (redisConnectUnixNonBlock A s h path)"

definition redisAsyncSetConnectCallback :: "redisAsyncContext \<Rightarrow> nat \<Rightarrow> redisAsyncContext \<times> int" where
  "redisAsyncSetConnectCallback ac f =
     (if onConnect ac = 0 then (el AddWrite (ac\<lparr>onConnect := f\<rparr>), REDIS_OK) else (ac, REDIS_ERR))"

definition redisAsyncSetDisconnectCallback :: "redisAsyncContext \<Rightarrow> nat \<Rightarrow> redisAsyncContext \<times> int" where
  "redisAsyncSetDisconnectCallback ac f =
     (if onDisconnect ac = 0 then (ac\<lparr>onDisconnect := f\<rparr>, REDIS_OK) else (ac, REDIS_ERR))"

section \<open>Running callbacks, freeing\<close>

definition redisRunCallback :: "aenv \<Rightarrow> redisAsyncContext \<Rightarrow> redisCallback \<Rightarrow> nat \<Rightarrow> redisAsyncContext option" where
  "redisRunCallback env ac cb rep =
     (if cb_fn cb \<noteq> 0 then do {
        let ac = set_aflags ac (aflags ac OR REDIS_IN_CALLBACK);
        let ac = ac\<lparr>calls := calls ac @ [ReplyCall (cb_fn cb) rep (cb_privdata cb)]\<rparr>;
        ac \<leftarrow> run_fn env (cb_fn cb) ac rep (cb_privdata cb);
        ac \<leftarrow> alive ac;
        Some (set_aflags ac (aflags ac AND NOT REDIS_IN_CALLBACK)) }
      else Some ac)"

text \<open>The two loops over the queues; the flag selects the queue of invalid commands.\<close>

definition queue_of :: "bool \<Rightarrow> redisAsyncContext \<Rightarrow> redisCallbackList" where
  "queue_of iv ac = (if iv then sub_invalid ac else replies ac)"

definition set_queue :: "bool \<Rightarrow> redisAsyncContext \<Rightarrow> redisCallbackList \<Rightarrow> redisAsyncContext" where
  "set_queue iv ac l = (if iv then ac\<lparr>sub_invalid := l\<rparr> else ac\<lparr>replies := l\<rparr>)"

partial_function (option) run_pending :: "aenv \<Rightarrow> bool \<Rightarrow> redisAsyncContext \<Rightarrow> redisAsyncContext option" where
  "run_pending env iv ac = do {
     x \<leftarrow> redisShiftCallback (queue_of iv ac);
     (case fst (snd x) of
        None \<Rightarrow> Some ac
      | Some cb \<Rightarrow> do {
          ac \<leftarrow> redisRunCallback env (set_queue iv ac (fst x)) cb 0;
          run_pending env iv ac }) }"

definition table_of :: "bool \<Rightarrow> redisAsyncContext \<Rightarrow> (channel, redisCallback) dict ptr" where
  "table_of pvariant ac = (if pvariant then sub_patterns ac else sub_channels ac)"

definition set_table :: "bool \<Rightarrow> redisAsyncContext \<Rightarrow> (channel, redisCallback) dict ptr \<Rightarrow> redisAsyncContext" where
  "set_table pvariant ac d = (if pvariant then ac\<lparr>sub_patterns := d\<rparr> else ac\<lparr>sub_channels := d\<rparr>)"

partial_function (option) run_subs :: "aenv \<Rightarrow> bool \<Rightarrow> (channel, redisCallback) dictIterator \<Rightarrow> redisAsyncContext
    \<Rightarrow> redisAsyncContext option" where
  "run_subs env pvariant it ac = do {
     d \<leftarrow> deref (table_of pvariant ac);
     x \<leftarrow> dictNext d it;
     (case snd x of
        Nullp \<Rightarrow> Some ac
      | Ptr de \<Rightarrow> do {
          ac \<leftarrow> redisRunCallback env ac (eval de) 0;
          run_subs env pvariant (fst x) ac }) }"

declare run_pending.simps [code] run_subs.simps [code]

definition release_subs :: "aenv \<Rightarrow> bool \<Rightarrow> redisAsyncContext \<Rightarrow> redisAsyncContext option" where
  "release_subs env pvariant ac = do {
     it \<leftarrow> dictGetIterator (mem env);
     ac \<leftarrow> run_subs env pvariant it ac;
     d \<leftarrow> deref (table_of pvariant ac);
     _ \<leftarrow> dictRelease d;
     Some (set_table pvariant ac Nullp) }"

definition run_on_disconnect :: "aenv \<Rightarrow> redisAsyncContext \<Rightarrow> redisAsyncContext option" where
  "run_on_disconnect env ac =
     (if onDisconnect ac \<noteq> 0 \<and> has (aflags ac) REDIS_CONNECTED then
        (let status = (if has (aflags ac) REDIS_FREEING then REDIS_OK
                       else if ac_err ac = 0 then REDIS_OK else REDIS_ERR)
         in do {
           ac \<leftarrow> run_disconnect env (onDisconnect ac)
                  (ac\<lparr>calls := calls ac @ [DisconnectCall (onDisconnect ac) status]\<rparr>) status;
           alive ac })
      else Some ac)"

definition redisAsyncFree_ctx :: "aenv \<Rightarrow> redisAsyncContext \<Rightarrow> redisAsyncContext option" where
  "redisAsyncFree_ctx env ac = do {
     ac \<leftarrow> run_pending env False ac;
     ac \<leftarrow> run_pending env True ac;
     ac \<leftarrow> release_subs env False ac;
     ac \<leftarrow> release_subs env True ac;
     let ac = el Cleanup ac;
     ac \<leftarrow> run_on_disconnect env ac;
     (s, h) \<leftarrow> redisFree (ac_c ac);
     Some (ac\<lparr>freed := True, ac_c := (ac_c ac)\<lparr>io := s, reader := Inl h, obuf := Nullp\<rparr>\<rparr>) }"

definition redisAsyncFree :: "aenv \<Rightarrow> redisAsyncContext \<Rightarrow> redisAsyncContext option" where
  "redisAsyncFree env ac = do {
     ac \<leftarrow> alive ac;
     let ac = set_aflags ac (aflags ac OR REDIS_FREEING);
     (if \<not> has (aflags ac) REDIS_IN_CALLBACK then redisAsyncFree_ctx env ac else Some ac) }"

text \<open>The assertion: no callback is pending at a clean disconnect.\<close>

definition redisAsyncDisconnect_ctx :: "aenv \<Rightarrow> redisAsyncContext \<Rightarrow> redisAsyncContext option" where
  "redisAsyncDisconnect_ctx env ac = do {
     let ac = redisAsyncCopyError ac;
     ac \<leftarrow>
       (if ac_err ac = 0 then do {
          (l, cb, ret) \<leftarrow> redisShiftCallback (replies ac);
          (if ret = REDIS_ERR then Some (ac\<lparr>replies := l\<rparr>) else None) }
        else Some (set_aflags ac (aflags ac OR REDIS_DISCONNECTING)));
     redisAsyncFree_ctx env ac }"

definition redisAsyncDisconnect :: "aenv \<Rightarrow> redisAsyncContext \<Rightarrow> redisAsyncContext option" where
  "redisAsyncDisconnect env ac = do {
     ac \<leftarrow> alive ac;
     let ac = set_aflags ac (aflags ac OR REDIS_DISCONNECTING);
     (if \<not> has (aflags ac) REDIS_IN_CALLBACK \<and> head (replies ac) = 0
      then redisAsyncDisconnect_ctx env ac else Some ac) }"

section \<open>Replies\<close>

text \<open>\<open>strcasecmp(s,lit) == 0\<close> for a literal.\<close>

definition same_nocase :: "bytes \<Rightarrow> bytes \<Rightarrow> bool" where
  "same_nocase t lit \<longleftrightarrow> map tolower (cstr t) = map tolower lit"

text \<open>\<open>reply->element[i]\<close>, dereferenced.\<close>

definition element_at :: "rheap \<Rightarrow> redisReply \<Rightarrow> nat \<Rightarrow> redisReply option" where
  "element_at h r i = do {
     es \<leftarrow> deref (element r);
     (if i < length es then hget h (es ! i) else None) }"

text \<open>The key of a name, and the lookup: an empty table is not searched, even for a NULL name.\<close>

definition channel_key :: "sds ptr \<Rightarrow> channel option" where
  "channel_key p = do { s \<leftarrow> deref p; channel_of (take (sdslen s) (buf s)) }"

definition find_channel :: "(channel, redisCallback) dict \<Rightarrow> sds ptr
    \<Rightarrow> (channel, redisCallback) dictEntry ptr option" where
  "find_channel d p =
     (if ht_size d = 0 then Some Nullp else do { k \<leftarrow> channel_key p; dictFind d k })"

definition redisGetSubscribeCallback :: "allocator \<Rightarrow> redisAsyncContext \<Rightarrow> nat \<Rightarrow> redisCallback
    \<Rightarrow> (redisAsyncContext \<times> redisCallback) option" where
  "redisGetSubscribeCallback A ac rep dstcb = do {
     let h = reply_heap (ac_c ac);
     r \<leftarrow> hget h rep;
     (if rtype r = REDIS_REPLY_ARRAY then
        (if elements r < 2 then None
         else do {
           e0 \<leftarrow> element_at h r 0;
           (if rtype e0 \<noteq> REDIS_REPLY_STRING then None
            else do {
              stype \<leftarrow> deref (str e0);
              s0 \<leftarrow> peek stype 0;
              let pvariant = (tolower s0 = CHR ''p'');
              callbacks \<leftarrow> deref (table_of pvariant ac);
              e1 \<leftarrow> element_at h r 1;
              (if rtype e1 \<noteq> REDIS_REPLY_STRING then None
               else do {
                 nm \<leftarrow> deref (str e1);
                 p \<leftarrow> sdsnewlen A (Ptr nm) (strlen e1);
                 de \<leftarrow> find_channel callbacks p;
                 (case de of
                    Nullp \<Rightarrow> Some (ac, dstcb)
                  | Ptr de \<Rightarrow>
                      (if same_nocase (drop (if pvariant then 1 else 0) stype) ''unsubscribe'' then do {
                         k \<leftarrow> channel_key p;
                         (d, _) \<leftarrow> dictDelete callbacks k;
                         let ac = set_table pvariant ac (Ptr d);
                         e2 \<leftarrow> element_at h r 2;
                         (if rtype e2 \<noteq> REDIS_REPLY_INTEGER then None
                          else Some (if integer e2 = 0
                                     then set_aflags ac (aflags ac AND NOT REDIS_SUBSCRIBED) else ac,
                                     eval de)) }
                       else Some (ac, eval de))) }) }) })
      else do {
        (l, cb, _) \<leftarrow> redisShiftCallback (sub_invalid ac);
        Some (ac\<lparr>sub_invalid := l\<rparr>, case cb of None \<Rightarrow> dstcb | Some x \<Rightarrow> x) }) }"

text \<open>\<open>c->reader->fn->freeObject(reply)\<close>.\<close>

definition free_object :: "redisAsyncContext \<Rightarrow> nat \<Rightarrow> redisAsyncContext option" where
  "free_object ac rep = do {
     r \<leftarrow> the_reader (ac_c ac);
     fs \<leftarrow> deref (fn r);
     f \<leftarrow> deref (freeObject fs);
     w \<leftarrow> f (world r) rep;
     Some (ac\<lparr>ac_c := set_reply_heap (ac_c ac) w\<rparr>) }"

definition null_callback :: redisCallback where
  "null_callback = \<lparr>cb_fn = 0, cb_privdata = 0\<rparr>"

text \<open>No reply is left: the first branches of the loop. The result tells whether the context is kept.\<close>

definition no_reply :: "aenv \<Rightarrow> redisAsyncContext \<Rightarrow> redisCallback \<Rightarrow> redisAsyncContext option" where
  "no_reply env ac cb = do {
     ob \<leftarrow> (if has (aflags ac) REDIS_DISCONNECTING then do { ob \<leftarrow> deref (obuf (ac_c ac)); Some (sdslen ob) }
            else Some 1);
     (if has (aflags ac) REDIS_DISCONNECTING \<and> ob = 0 \<and> head (replies ac) = 0
      then redisAsyncDisconnect_ctx env ac
      else if has (aflags ac) REDIS_MONITORING then do {
        (l, _) \<leftarrow> redisPushCallback (mem env) (replies ac) cb;
        Some (ac\<lparr>replies := l\<rparr>) }
      else Some ac) }"

text \<open>
  The callback of a reply: the next regular one, or that of a subscription. \<open>Inl\<close> means that the
  context was disconnected because of a spontaneous error reply.
\<close>

definition find_callback :: "aenv \<Rightarrow> redisAsyncContext \<Rightarrow> nat \<Rightarrow> redisCallback
    \<Rightarrow> (redisAsyncContext + redisAsyncContext \<times> redisCallback) option" where
  "find_callback env ac rep cb = do {
     (l, x, rv) \<leftarrow> redisShiftCallback (replies ac);
     let ac = ac\<lparr>replies := l\<rparr>;
     (case x of
        Some cb \<Rightarrow> Some (Inr (ac, cb))
      | None \<Rightarrow> do {
          r \<leftarrow> hget (reply_heap (ac_c ac)) rep;
          (if rtype r = REDIS_REPLY_ERROR then do {
             t \<leftarrow> deref (str r);
             let c = (ac_c ac)\<lparr>cerr := REDIS_ERR_OTHER, cerrstr := fst (snprintf 128 (cstr t))\<rparr>;
             ac \<leftarrow> free_object (ac\<lparr>ac_c := c\<rparr>) rep;
             ac \<leftarrow> redisAsyncDisconnect_ctx env ac;
             Some (Inl ac) }
           else if \<not> has (aflags ac) REDIS_SUBSCRIBED \<and> \<not> has (aflags ac) REDIS_MONITORING then None
           else if has (aflags ac) REDIS_SUBSCRIBED then do {
             y \<leftarrow> redisGetSubscribeCallback (mem env) ac rep cb;
             Some (Inr y) }
           else Some (Inr (ac, cb))) }) }"

text \<open>Delivery of one reply; \<open>Inl\<close>: the context was freed.\<close>

definition deliver :: "aenv \<Rightarrow> redisAsyncContext \<Rightarrow> nat \<Rightarrow> redisCallback
    \<Rightarrow> (redisAsyncContext + redisAsyncContext) option" where
  "deliver env ac rep cb =
     (if cb_fn cb \<noteq> 0 then do {
        ac \<leftarrow> redisRunCallback env ac cb rep;
        ac \<leftarrow> free_object ac rep;
        (if has (aflags ac) REDIS_FREEING then do {
           ac \<leftarrow> redisAsyncFree_ctx env ac; Some (Inl ac) }
         else Some (Inr ac)) }
      else do { ac \<leftarrow> free_object ac rep; Some (Inr ac) })"

partial_function (option) process_replies :: "aenv \<Rightarrow> redisAsyncContext \<Rightarrow> redisCallback
    \<Rightarrow> redisAsyncContext option" where
  "process_replies env ac cb = do {
     x \<leftarrow> redisGetReply (mem env) (ac_c ac);
     (if snd (snd x) \<noteq> REDIS_OK then redisAsyncDisconnect_ctx env (ac\<lparr>ac_c := fst x\<rparr>)
      else if fst (snd x) = 0 then no_reply env (ac\<lparr>ac_c := fst x\<rparr>) cb
      else do {
        f \<leftarrow> find_callback env (ac\<lparr>ac_c := fst x\<rparr>) (fst (snd x)) cb;
        (case f of
           Inl ac \<Rightarrow> Some ac
         | Inr y \<Rightarrow> do {
             d \<leftarrow> deliver env (fst y) (fst (snd x)) (snd y);
             (case d of Inl ac \<Rightarrow> Some ac | Inr ac \<Rightarrow> process_replies env ac (snd y)) }) }) }"

declare process_replies.simps [code]

definition redisProcessCallbacks :: "aenv \<Rightarrow> redisAsyncContext \<Rightarrow> redisAsyncContext option" where
  "redisProcessCallbacks env ac = process_replies env ac null_callback"

section \<open>Events\<close>

definition run_on_connect :: "aenv \<Rightarrow> redisAsyncContext \<Rightarrow> int \<Rightarrow> redisAsyncContext option" where
  "run_on_connect env ac status =
     (if onConnect ac \<noteq> 0
      then run_connect env (onConnect ac) (ac\<lparr>calls := calls ac @ [ConnectCall (onConnect ac) status]\<rparr>) status
      else Some ac)"

definition redisAsyncHandleConnect :: "aenv \<Rightarrow> redisAsyncContext \<Rightarrow> (redisAsyncContext \<times> int) option" where
  "redisAsyncHandleConnect env ac = do {
     (c, rv) \<leftarrow> redisCheckSocketError (ac_c ac);
     let ac = ac\<lparr>ac_c := c\<rparr>;
     (if rv = REDIS_ERR then
        (if errno (io c) = EINPROGRESS then Some (ac, REDIS_OK)
         else do {
           ac \<leftarrow> run_on_connect env ac REDIS_ERR;
           ac \<leftarrow> alive ac;
           ac \<leftarrow> redisAsyncDisconnect_ctx env ac;
           Some (ac, REDIS_ERR) })
      else do {
        ac \<leftarrow> run_on_connect env (set_aflags ac (aflags ac OR REDIS_CONNECTED)) REDIS_OK;
        Some (ac, REDIS_OK) }) }"

text \<open>The guard both handlers start with; \<open>False\<close> is an early return.\<close>

definition ensure_connected :: "aenv \<Rightarrow> redisAsyncContext \<Rightarrow> (redisAsyncContext \<times> bool) option" where
  "ensure_connected env ac =
     (if \<not> has (aflags ac) REDIS_CONNECTED then do {
        (ac, rv) \<leftarrow> redisAsyncHandleConnect env ac;
        (if rv \<noteq> REDIS_OK then Some (ac, False)
         else do { ac \<leftarrow> alive ac; Some (ac, has (aflags ac) REDIS_CONNECTED) }) }
      else Some (ac, True))"

definition redisAsyncHandleRead :: "aenv \<Rightarrow> redisAsyncContext \<Rightarrow> redisAsyncContext option" where
  "redisAsyncHandleRead env ac = do {
     ac \<leftarrow> alive ac;
     (ac, go) \<leftarrow> ensure_connected env ac;
     (if \<not> go then Some ac
      else do {
        (c, rv) \<leftarrow> redisBufferRead (mem env) (ac_c ac);
        let ac = ac\<lparr>ac_c := c\<rparr>;
        (if rv = REDIS_ERR then redisAsyncDisconnect_ctx env ac
         else redisProcessCallbacks env (el AddRead ac)) }) }"

definition redisAsyncHandleWrite :: "aenv \<Rightarrow> redisAsyncContext \<Rightarrow> redisAsyncContext option" where
  "redisAsyncHandleWrite env ac = do {
     ac \<leftarrow> alive ac;
     (ac, go) \<leftarrow> ensure_connected env ac;
     (if \<not> go then Some ac
      else do {
        (c, rv, dn) \<leftarrow> redisBufferWrite (mem env) (ac_c ac);
        let ac = ac\<lparr>ac_c := c\<rparr>;
        (if rv = REDIS_ERR then redisAsyncDisconnect_ctx env ac
         else Some (el AddRead (if dn \<noteq> Some True then el AddWrite ac else el DelWrite ac))) }) }"

section \<open>Commands\<close>

text \<open>\<open>strchr\<close> from an offset: the offset of the character, or null when the string ends before it.\<close>

fun find_char :: "bytes \<Rightarrow> char \<Rightarrow> nat \<Rightarrow> nat ptr option" where
  "find_char [] ch p = None"
| "find_char (x # t) ch p = (if x = ch then Some (Ptr p) else if x = NUL then Some Nullp else find_char t ch (p + 1))"

definition strchr_at :: "bytes \<Rightarrow> nat \<Rightarrow> char \<Rightarrow> nat ptr option" where
  "strchr_at b p ch = (if p \<le> length b then find_char (drop p b) ch p else None)"

text \<open>\<open>strtol(s,NULL,10)\<close>: blanks, a sign, digits; the result is limited to the range of \<open>long\<close>.\<close>

definition strtol :: "bytes \<Rightarrow> int" where
  "strtol s =
     (let t = dropWhile isspace s;
          neg = (take 1 t = ''-'');
          u = (if neg \<or> take 1 t = ''+'' then tl t else t);
          n = int (digits_value 0 (takeWhile is_digit u));
          v = (if neg then - n else n)
      in max (- (2 ^ 63)) (min (2 ^ 63 - 1) v))"

text \<open>
  Offsets into the command stand for pointers; the arithmetic on them wraps. The result is null or
  the offsets of the next argument and of the string, and its length.
\<close>

definition nextArgument :: "bytes \<Rightarrow> nat \<Rightarrow> (nat \<times> nat \<times> nat) ptr option" where
  "nextArgument b start = do {
     x \<leftarrow> peek b start;
     q \<leftarrow> (if x \<noteq> CHR ''$'' then strchr_at b start (CHR ''$'') else Some (Ptr start));
     (case q of
        Nullp \<Rightarrow> Some Nullp
      | Ptr p \<Rightarrow> do {
          let len = usz_of_int (int32 (strtol (drop (p + 1) b)));
          r \<leftarrow> strchr_at b p CR;
          p \<leftarrow> deref r;
          Some (Ptr (usz (p + 2 + len + 2), p + 2, len)) }) }"

text \<open>\<open>strncasecmp(s,lit,strlen(lit)) == 0\<close> at an offset of a block.\<close>

fun prefix_nocase :: "bytes \<Rightarrow> nat \<Rightarrow> bytes \<Rightarrow> bool option" where
  "prefix_nocase b p [] = Some True"
| "prefix_nocase b p (x # lit) = do {
     y \<leftarrow> peek b p;
     (if tolower y \<noteq> tolower x then Some False else prefix_nocase b (p + 1) lit) }"

text \<open>Registering the callback for every channel of a subscription.\<close>

partial_function (option) subscribe_all :: "allocator \<Rightarrow> bytes \<Rightarrow> bool \<Rightarrow> redisCallback \<Rightarrow> nat
    \<Rightarrow> redisAsyncContext \<Rightarrow> redisAsyncContext option" where
  "subscribe_all A cmd pvariant cb p ac = do {
     x \<leftarrow> nextArgument cmd p;
     (case x of
        Nullp \<Rightarrow> Some ac
      | Ptr y \<Rightarrow> do {
          q \<leftarrow> sdsnewlen A (Ptr (drop (fst (snd y)) cmd)) (snd (snd y));
          k \<leftarrow> channel_key q;
          d \<leftarrow> deref (table_of pvariant ac);
          z \<leftarrow> (if grant A 24 then dictReplace A d k cb else None);
          subscribe_all A cmd pvariant cb (fst y) (set_table pvariant ac (Ptr (fst z))) }) }"

declare subscribe_all.simps [code]

text \<open>Entering the callback of a command; \<open>Inl\<close> is the early return with an error.\<close>

definition register_callback :: "allocator \<Rightarrow> redisAsyncContext \<Rightarrow> redisCallback \<Rightarrow> bytes
    \<Rightarrow> (redisAsyncContext + redisAsyncContext) option" where
  "register_callback A ac cb cmd = do {
     x \<leftarrow> nextArgument cmd 0;
     (p, cs, _) \<leftarrow> deref x;
     p0 \<leftarrow> peek cmd p;
     let hasnext = (p0 = CHR ''$'');
     c0 \<leftarrow> peek cmd cs;
     let pvariant = (tolower c0 = CHR ''p'');
     let cs = cs + (if pvariant then 1 else 0);
     sub \<leftarrow> (if hasnext then prefix_nocase cmd cs (''subscribe'' @ CRLF) else Some False);
     (if sub then do {
        ac \<leftarrow> subscribe_all A cmd pvariant cb p (set_aflags ac (aflags ac OR REDIS_SUBSCRIBED));
        Some (Inr ac) }
      else do {
        unsub \<leftarrow> prefix_nocase cmd cs (''unsubscribe'' @ CRLF);
        (if unsub then Some (if has (aflags ac) REDIS_SUBSCRIBED then Inr ac else Inl ac)
         else do {
           mon \<leftarrow> prefix_nocase cmd cs (''monitor'' @ CRLF);
           (if mon then do {
              let ac = set_aflags ac (aflags ac OR REDIS_MONITORING);
              (l, _) \<leftarrow> redisPushCallback A (replies ac) cb;
              Some (Inr (ac\<lparr>replies := l\<rparr>)) }
            else if has (aflags ac) REDIS_SUBSCRIBED then do {
              (l, _) \<leftarrow> redisPushCallback A (sub_invalid ac) cb;
              Some (Inr (ac\<lparr>sub_invalid := l\<rparr>)) }
            else do {
              (l, _) \<leftarrow> redisPushCallback A (replies ac) cb;
              Some (Inr (ac\<lparr>replies := l\<rparr>)) }) }) }) }"

text \<open>The result of appending the command to the output buffer is not looked at.\<close>

definition async_command :: "allocator \<Rightarrow> redisAsyncContext \<Rightarrow> nat \<Rightarrow> nat \<Rightarrow> bytes \<Rightarrow> nat
    \<Rightarrow> (redisAsyncContext \<times> int) option" where
  "async_command A ac f priv cmd len = do {
     ac \<leftarrow> alive ac;
     (if has (aflags ac) (REDIS_DISCONNECTING OR REDIS_FREEING) then Some (ac, REDIS_ERR)
      else do {
        r \<leftarrow> register_callback A ac \<lparr>cb_fn = f, cb_privdata = priv\<rparr> cmd;
        (case r of
           Inl ac \<Rightarrow> Some (ac, REDIS_ERR)
         | Inr ac \<Rightarrow> do {
             (c, _) \<leftarrow> append_command A (ac_c ac) cmd len;
             Some (el AddWrite (ac\<lparr>ac_c := c\<rparr>), REDIS_OK) }) }) }"

definition redisvAsyncCommand :: "(bytes \<Rightarrow> nat \<Rightarrow> bytes) \<Rightarrow> allocator \<Rightarrow> redisAsyncContext \<Rightarrow> nat \<Rightarrow> nat
    \<Rightarrow> bytes \<Rightarrow> va_arg list \<Rightarrow> (redisAsyncContext \<times> int) option" where
  "redisvAsyncCommand fp A ac f priv format ap = do {
     (cmd, len) \<leftarrow> redisvFormatCommand fp A True format ap;
     (if len < 0 then Some (ac, REDIS_ERR)
      else do { cmd \<leftarrow> deref cmd; async_command A ac f priv cmd (usz_of_int len) }) }"

definition redisAsyncCommand :: "(bytes \<Rightarrow> nat \<Rightarrow> bytes) \<Rightarrow> allocator \<Rightarrow> redisAsyncContext \<Rightarrow> nat \<Rightarrow> nat
    \<Rightarrow> bytes \<Rightarrow> va_arg list \<Rightarrow> (redisAsyncContext \<times> int) option" where
  "redisAsyncCommand fp A ac f priv format ap = redisvAsyncCommand fp A ac f priv format ap"

definition redisAsyncCommandArgv :: "allocator \<Rightarrow> redisAsyncContext \<Rightarrow> nat \<Rightarrow> nat \<Rightarrow> int \<Rightarrow> bytes list
    \<Rightarrow> nat list ptr \<Rightarrow> (redisAsyncContext \<times> int) option" where
  "redisAsyncCommandArgv A ac f priv argc argv argvlen = do {
     (cmd, len) \<leftarrow> redisFormatSdsCommandArgv A True argc argv argvlen;
     (if len < 0 then Some (ac, REDIS_ERR)
      else do { cmd \<leftarrow> deref cmd; async_command A ac f priv (buf cmd) (usz_of_int len) }) }"

definition redisAsyncFormattedCommand :: "allocator \<Rightarrow> redisAsyncContext \<Rightarrow> nat \<Rightarrow> nat \<Rightarrow> bytes \<Rightarrow> nat
    \<Rightarrow> (redisAsyncContext \<times> int) option" where
  "redisAsyncFormattedCommand A ac f priv cmd len = async_command A ac f priv cmd len"

end
