(* ===== verification/Lifecycle.thy ===== *)
theory Lifecycle
  imports Async Net_Theorems
begin

text \<open>
  The life of an asynchronous context as a state machine: the calls of the API and of the event
  library are its steps, and every state an application can reach keeps the order of the
  notifications. User callbacks may change the context in any way, except that they neither free it
  under the hands of its caller nor touch the record of calls (\<open>tame\<close>).
\<close>

section \<open>Flags and results\<close>

text \<open>Operations on the connection leave its flags alone.\<close>

lemma buffer_read_flags: "redisBufferRead A c = Some (d, rv) \<Longrightarrow> cflags d = cflags c"
  by (auto simp: redisBufferRead_def Let_def redisSetError_def redis_codes io_call_def sys_call_def
      split: if_splits bind_splits ptr.splits)

lemma buffer_write_flags: "redisBufferWrite A c = Some (d, rv, dn) \<Longrightarrow> cflags d = cflags c"
  by (auto simp: redisBufferWrite_def Let_def redisSetError_def redis_codes io_call_def sys_call_def
      split: if_splits bind_splits ptr.splits)

lemma from_reader_flags: "redisGetReplyFromReader c = Some (d, a, rv) \<Longrightarrow> cflags d = cflags c"
  by (auto simp: redisGetReplyFromReader_def Let_def split: if_splits bind_splits)

lemma append_flags: "append_command A c cmd n = Some (d, rv) \<Longrightarrow> cflags d = cflags c"
  by (auto simp: append_command_def split: bind_splits ptr.splits)

lemma socket_error_flags: "redisCheckSocketError c = Some (d, rv) \<Longrightarrow> cflags d = cflags c"
  using CheckSocketError_steps [OF refl refl, of c] by (auto simp: steps_def)

lemma write_all_flags: "write_all A c = Some (d, rv) \<Longrightarrow> cflags d = cflags c"
proof -
  have "write_all A c = Some x \<Longrightarrow> cflags (fst x) = cflags c" for x
  proof (induction rule: write_all.raw_induct [rotated, consumes 1, case_names step])
    case (step loop A c x)
    then obtain d rv dn where d: "redisBufferWrite A c = Some (d, rv, dn)"
      by (cases "redisBufferWrite A c") auto
    with step(2) consider "fst x = d" | "loop A d = Some x"
      by (auto split: if_splits)
    then show ?case using buffer_write_flags [OF d] step(1) by cases auto
  qed
  then show "write_all A c = Some (d, rv) \<Longrightarrow> cflags d = cflags c" by fastforce
qed

lemma read_reply_flags: "read_reply A c = Some (d, a, rv) \<Longrightarrow> cflags d = cflags c"
proof -
  have "read_reply A c = Some x \<Longrightarrow> cflags (fst x) = cflags c" for x
  proof (induction rule: read_reply.raw_induct [rotated, consumes 1, case_names step])
    case (step loop A c x)
    then obtain d rv where d: "redisBufferRead A c = Some (d, rv)"
      by (cases "redisBufferRead A c") auto
    show ?case
    proof (cases "rv = REDIS_ERR")
      case True
      then show ?thesis using step(2) d buffer_read_flags [OF d] by auto
    next
      case False
      then obtain e a rw where e: "redisGetReplyFromReader d = Some (e, a, rw)"
        using step(2) d by (cases "redisGetReplyFromReader d") auto
      with step(2) d False consider "fst x = e" | "loop A e = Some x" by (auto split: if_splits)
      then show ?thesis using buffer_read_flags [OF d] from_reader_flags [OF e] step(1) by cases auto
    qed
  qed
  then show "read_reply A c = Some (d, a, rv) \<Longrightarrow> cflags d = cflags c" by fastforce
qed

lemma get_reply_flags: "redisGetReply A c = Some (d, a, rv) \<Longrightarrow> cflags d = cflags c"
  by (auto simp: redisGetReply_def dest!: from_reader_flags write_all_flags read_reply_flags
      split: if_splits bind_splits)

section \<open>What an operation notifies\<close>

fun is_reply :: "user_call \<Rightarrow> bool" where
  "is_reply (ReplyCall f a p) = True" | "is_reply _ = False"

fun is_connect :: "user_call \<Rightarrow> bool" where
  "is_connect (ConnectCall f st) = True" | "is_connect _ = False"

fun is_disconnect :: "user_call \<Rightarrow> bool" where
  "is_disconnect (DisconnectCall f st) = True" | "is_disconnect _ = False"

abbreviation conn :: "redisAsyncContext \<Rightarrow> bool" where
  "conn ac \<equiv> has (aflags ac) REDIS_CONNECTED"

definition unrecorded :: "redisAsyncContext \<Rightarrow> redisAsyncContext \<Rightarrow> bool" where
  "unrecorded ac ac' \<longleftrightarrow> calls ac' = calls ac \<and> freed ac' = freed ac \<and> conn ac' = conn ac"

definition tame :: "aenv \<Rightarrow> bool" where
  "tame env \<longleftrightarrow>
     (\<forall>f ac a p ac'. run_fn env f ac a p = Some ac' \<longrightarrow> unrecorded ac ac') \<and>
     (\<forall>f ac st ac'. run_connect env f ac st = Some ac' \<longrightarrow> unrecorded ac ac') \<and>
     (\<forall>f ac st ac'. run_disconnect env f ac st = Some ac' \<longrightarrow> unrecorded ac ac')"

text \<open>Reply callbacks only; then the context is as alive and as connected as before.\<close>

definition quiet :: "redisAsyncContext \<Rightarrow> redisAsyncContext \<Rightarrow> bool" where
  "quiet ac ac' \<longleftrightarrow> (\<exists>rs. calls ac' = calls ac @ rs \<and> list_all is_reply rs) \<and> freed ac' = freed ac \<and> conn ac' = conn ac"

text \<open>Freed, after reply callbacks and at most one notification, which only a connected context gives.\<close>

definition closed :: "redisAsyncContext \<Rightarrow> redisAsyncContext \<Rightarrow> bool" where
  "closed ac ac' \<longleftrightarrow> freed ac' \<and>
     (\<exists>rs ds. calls ac' = calls ac @ rs @ ds \<and> list_all is_reply rs \<and> (ds = [] \<or> conn ac \<and> (\<exists>f st. ds = [DisconnectCall f st])))"

lemma quietI [intro]: "calls ac' = calls ac \<Longrightarrow> freed ac' = freed ac \<Longrightarrow> conn ac' = conn ac \<Longrightarrow> quiet ac ac'"
  by (simp add: quiet_def)

lemma quiet_trans [trans]:
  assumes "quiet a b" and "quiet b c" shows "quiet a c"
proof -
  from assms obtain xs ys where "calls b = calls a @ xs" "list_all is_reply xs" "calls c = calls b @ ys" "list_all is_reply ys"
    by (auto simp: quiet_def)
  then have "calls c = calls a @ (xs @ ys)" "list_all is_reply (xs @ ys)" by simp_all
  with assms show ?thesis by (auto simp: quiet_def)
qed

lemma quiet_closed [trans]:
  assumes "quiet a b" and "closed b c" shows "closed a c"
proof -
  from assms obtain xs ys ds where "calls b = calls a @ xs" "list_all is_reply xs" "conn b = conn a"
    "calls c = calls b @ ys @ ds" "list_all is_reply ys" "ds = [] \<or> conn b \<and> (\<exists>f st. ds = [DisconnectCall f st])" "freed c"
    unfolding quiet_def closed_def by blast
  then have "calls c = calls a @ (xs @ ys) @ ds" "list_all is_reply (xs @ ys)"
    "ds = [] \<or> conn a \<and> (\<exists>f st. ds = [DisconnectCall f st])" "freed c" by simp_all
  then show ?thesis unfolding closed_def by blast
qed

lemma aflags_simps [simp]:
  "aflags (ac\<lparr>ac_c := c\<rparr>) = cflags c" "aflags (set_aflags ac f) = f" "calls (set_aflags ac f) = calls ac"
  "freed (set_aflags ac f) = freed ac"
  by (simp_all add: aflags_def set_aflags_def)

lemma conn_flags [simp]:
  "has (f OR REDIS_IN_CALLBACK) REDIS_CONNECTED = has f REDIS_CONNECTED"
  "has (f AND NOT REDIS_IN_CALLBACK) REDIS_CONNECTED = has f REDIS_CONNECTED"
  "has (f OR REDIS_DISCONNECTING) REDIS_CONNECTED = has f REDIS_CONNECTED"
  "has (f OR REDIS_FREEING) REDIS_CONNECTED = has f REDIS_CONNECTED"
  "has (f OR REDIS_SUBSCRIBED) REDIS_CONNECTED = has f REDIS_CONNECTED"
  "has (f AND NOT REDIS_SUBSCRIBED) REDIS_CONNECTED = has f REDIS_CONNECTED"
  "has (f OR REDIS_MONITORING) REDIS_CONNECTED = has f REDIS_CONNECTED"
proof -
  have d: "REDIS_IN_CALLBACK AND REDIS_CONNECTED = 0" "REDIS_SUBSCRIBED AND REDIS_CONNECTED = 0"
    "REDIS_DISCONNECTING AND REDIS_CONNECTED = 0" "REDIS_FREEING AND REDIS_CONNECTED = 0"
    "REDIS_MONITORING AND REDIS_CONNECTED = 0" by (simp_all add: redis_flags)
  show "has (f OR REDIS_IN_CALLBACK) REDIS_CONNECTED = has f REDIS_CONNECTED"
    "has (f AND NOT REDIS_IN_CALLBACK) REDIS_CONNECTED = has f REDIS_CONNECTED"
    "has (f OR REDIS_DISCONNECTING) REDIS_CONNECTED = has f REDIS_CONNECTED"
    "has (f OR REDIS_FREEING) REDIS_CONNECTED = has f REDIS_CONNECTED"
    "has (f OR REDIS_SUBSCRIBED) REDIS_CONNECTED = has f REDIS_CONNECTED"
    "has (f AND NOT REDIS_SUBSCRIBED) REDIS_CONNECTED = has f REDIS_CONNECTED"
    "has (f OR REDIS_MONITORING) REDIS_CONNECTED = has f REDIS_CONNECTED"
    using d by (simp_all add: has_set has_clear)
qed

lemma el_quiet [simp]: "calls (el h ac) = calls ac" "freed (el h ac) = freed ac" "aflags (el h ac) = aflags ac"
  by (simp_all add: el_def aflags_def)

lemma set_queue_simps [simp]: "calls (set_queue iv ac l) = calls ac" "freed (set_queue iv ac l) = freed ac"
  "aflags (set_queue iv ac l) = aflags ac"
  by (simp_all add: set_queue_def aflags_def)

lemma set_table_simps [simp]: "calls (set_table v ac d) = calls ac" "freed (set_table v ac d) = freed ac"
  "aflags (set_table v ac d) = aflags ac"
  by (simp_all add: set_table_def aflags_def)

lemma other_fields [simp]: "aflags (ac\<lparr>replies := l\<rparr>) = aflags ac" "aflags (ac\<lparr>sub_invalid := l\<rparr>) = aflags ac"
  "aflags (ac\<lparr>calls := cs\<rparr>) = aflags ac" "aflags (ac\<lparr>onConnect := f\<rparr>) = aflags ac"
  "aflags (ac\<lparr>onDisconnect := f\<rparr>) = aflags ac"
  by (simp_all add: aflags_def)

lemma alive_Some [simp]: "alive ac = Some ac' \<longleftrightarrow> ac' = ac \<and> \<not> freed ac"
  by (auto simp: alive_def)

lemma alive_live: "\<not> freed ac \<Longrightarrow> alive ac = Some ac"
  by simp

lemma run_callback_quiet:
  assumes "tame env" and "redisRunCallback env ac cb a = Some ac'"
  shows "quiet ac ac'"
proof (cases "cb_fn cb = 0")
  case True
  then show ?thesis using assms(2) by (auto simp: redisRunCallback_def)
next
  case False
  let ?b = "(set_aflags ac (aflags ac OR REDIS_IN_CALLBACK))\<lparr>calls := calls ac @ [ReplyCall (cb_fn cb) a (cb_privdata cb)]\<rparr>"
  from False assms(2) obtain b where b: "run_fn env (cb_fn cb) ?b a (cb_privdata cb) = Some b"
    and ac': "ac' = set_aflags b (aflags b AND NOT REDIS_IN_CALLBACK)"
    by (auto simp: redisRunCallback_def split: bind_splits)
  have "unrecorded ?b b" using assms(1) b unfolding tame_def by blast
  then show ?thesis by (simp add: unrecorded_def quiet_def ac')
qed

lemma run_pending_quiet:
  assumes "run_pending env iv ac = Some ac'" and "tame env"
  shows "quiet ac ac'"
  using assms
proof (induction rule: run_pending.raw_induct [rotated, consumes 1, case_names step])
  case (step loop env iv ac ac')
  then obtain l x rv where x: "redisShiftCallback (queue_of iv ac) = Some (l, x, rv)"
    by (cases "redisShiftCallback (queue_of iv ac)") auto
  show ?case
  proof (cases x)
    case None
    then show ?thesis using step(2) x by auto
  next
    case (Some cb)
    with step(2) x obtain b where b: "redisRunCallback env (set_queue iv ac l) cb 0 = Some b" "loop env iv b = Some ac'"
      by (auto split: bind_splits)
    have "quiet ac (set_queue iv ac l)" by (rule quietI) simp_all
    also have "quiet (set_queue iv ac l) b" using run_callback_quiet [OF step(3) b(1)] .
    also have "quiet b ac'" using step(1) [OF b(2) step(3)] .
    finally show ?thesis .
  qed
qed

lemma run_subs_quiet:
  assumes "run_subs env v it ac = Some ac'" and "tame env"
  shows "quiet ac ac'"
  using assms
proof (induction rule: run_subs.raw_induct [rotated, consumes 1, case_names step])
  case (step loop env v it ac ac')
  then obtain d x where d: "deref (table_of v ac) = Some d" "dictNext d it = Some x"
    by (cases "deref (table_of v ac)"; cases "dictNext (the (deref (table_of v ac))) it") auto
  show ?case
  proof (cases "snd x")
    case Nullp
    then show ?thesis using step(2) d by auto
  next
    case (Ptr de)
    with step(2) d obtain b where b: "redisRunCallback env ac (eval de) 0 = Some b" "loop env v (fst x) b = Some ac'"
      by (auto split: bind_splits)
    have "quiet ac b" using run_callback_quiet [OF step(3) b(1)] .
    also have "quiet b ac'" using step(1) [OF b(2) step(3)] .
    finally show ?thesis .
  qed
qed

lemma release_subs_quiet:
  assumes "tame env" and "release_subs env v ac = Some ac'"
  shows "quiet ac ac'"
proof -
  from assms(2) obtain it b d where "run_subs env v it ac = Some b" "ac' = set_table v b Nullp"
    unfolding release_subs_def Let_def Option.bind_eq_Some_conv by (elim exE conjE) (rule that, assumption, simp)
  moreover have "quiet b (set_table v b Nullp)" by (rule quietI) simp_all
  ultimately show ?thesis using run_subs_quiet [OF _ assms(1)] quiet_trans by blast
qed

lemma on_disconnect:
  assumes "tame env" and "run_on_disconnect env ac = Some b"
  shows "\<exists>ds. calls b = calls ac @ ds \<and> (ds = [] \<or> conn ac \<and> (\<exists>f st. ds = [DisconnectCall f st]))"
proof (cases "onDisconnect ac \<noteq> 0 \<and> conn ac")
  case False
  then show ?thesis using assms(2) by (auto simp: run_on_disconnect_def)
next
  case True
  with assms(2) obtain st where
    "run_disconnect env (onDisconnect ac) (ac\<lparr>calls := calls ac @ [DisconnectCall (onDisconnect ac) st]\<rparr>) st = Some b"
    by (auto simp: run_on_disconnect_def Let_def split: bind_splits)
  with assms(1) have "unrecorded (ac\<lparr>calls := calls ac @ [DisconnectCall (onDisconnect ac) st]\<rparr>) b"
    unfolding tame_def by blast
  then show ?thesis using True by (auto simp: unrecorded_def)
qed

lemma free_ctx_closed:
  assumes "tame env" and "redisAsyncFree_ctx env ac = Some ac'"
  shows "closed ac ac'"
proof -
  from assms(2) obtain a1 a2 a3 a4 a5 x where
    a: "run_pending env False ac = Some a1" "run_pending env True a1 = Some a2" "release_subs env False a2 = Some a3"
      "release_subs env True a3 = Some a4" "run_on_disconnect env (el Cleanup a4) = Some a5" "redisFree (ac_c a5) = Some x"
      "ac' = a5\<lparr>freed := True, ac_c := (ac_c a5)\<lparr>io := fst x, reader := Inl (snd x), obuf := Nullp\<rparr>\<rparr>"
    unfolding redisAsyncFree_ctx_def Let_def Option.bind_eq_Some_conv
    by (elim exE conjE) (rule that, assumption+, simp add: case_prod_unfold)
  have "quiet ac a1" "quiet a1 a2" "quiet a2 a3" "quiet a3 a4"
    using a assms(1) run_pending_quiet release_subs_quiet by blast+
  moreover have "quiet a4 (el Cleanup a4)" by (rule quietI) simp_all
  ultimately have q: "quiet ac (el Cleanup a4)" using quiet_trans by blast
  from on_disconnect [OF assms(1) a(5)] obtain ds where
    "calls a5 = calls (el Cleanup a4) @ ds" "ds = [] \<or> conn (el Cleanup a4) \<and> (\<exists>f st. ds = [DisconnectCall f st])" by blast
  then have "closed (el Cleanup a4) ac'"
    using a(7) unfolding closed_def by (intro conjI exI [of _ "[]"] exI [of _ ds]) simp_all
  with q show ?thesis by (rule quiet_closed)
qed

lemma disconnect_ctx_closed:
  assumes "tame env" and "redisAsyncDisconnect_ctx env ac = Some ac'"
  shows "closed ac ac'"
proof -
  from assms(2) obtain b where b: "redisAsyncFree_ctx env b = Some ac'"
    and "calls b = calls ac" "freed b = freed ac" "conn b = conn ac"
    by (auto simp: redisAsyncDisconnect_ctx_def redisAsyncCopyError_def Let_def aflags_def set_aflags_def
        split: bind_splits if_splits)
  then have "quiet ac b" by blast
  with free_ctx_closed [OF assms(1) b] show ?thesis by (blast intro: quiet_closed)
qed

text \<open>The outcome of most operations.\<close>

definition runs :: "redisAsyncContext \<Rightarrow> redisAsyncContext \<Rightarrow> bool" where
  "runs ac ac' \<longleftrightarrow> quiet ac ac' \<or> closed ac ac'"

lemma runs_quiet [intro]: "quiet ac ac' \<Longrightarrow> runs ac ac'"
  and runs_closed [intro]: "closed ac ac' \<Longrightarrow> runs ac ac'"
  by (simp_all add: runs_def)

lemma quiet_runs [trans]: "quiet a b \<Longrightarrow> runs b c \<Longrightarrow> runs a c"
  unfolding runs_def using quiet_trans quiet_closed by blast

lemma Free_runs: "tame env \<Longrightarrow> redisAsyncFree env ac = Some ac' \<Longrightarrow> runs ac ac'"
proof -
  assume t: "tame env" and f: "redisAsyncFree env ac = Some ac'"
  let ?b = "set_aflags ac (aflags ac OR REDIS_FREEING)"
  have "quiet ac ?b" by (rule quietI) simp_all
  moreover have "runs ?b ac'"
    using f free_ctx_closed [OF t] by (auto simp: redisAsyncFree_def Let_def split: if_splits bind_splits)
  ultimately show ?thesis by (rule quiet_runs)
qed

lemma Disconnect_runs: "tame env \<Longrightarrow> redisAsyncDisconnect env ac = Some ac' \<Longrightarrow> runs ac ac'"
proof -
  assume t: "tame env" and f: "redisAsyncDisconnect env ac = Some ac'"
  let ?b = "set_aflags ac (aflags ac OR REDIS_DISCONNECTING)"
  have "quiet ac ?b" by (rule quietI) simp_all
  moreover have "runs ?b ac'"
    using f disconnect_ctx_closed [OF t] by (auto simp: redisAsyncDisconnect_def Let_def split: if_splits bind_splits)
  ultimately show ?thesis by (rule quiet_runs)
qed

lemma runs_push: "runs ac (ac\<lparr>replies := l\<rparr>)" "runs ac ac"
  by (intro runs_quiet quietI; simp)+

lemma no_reply_runs: "tame env \<Longrightarrow> no_reply env ac cb = Some ac' \<Longrightarrow> runs ac ac'"
  by (auto simp: no_reply_def Let_def intro: runs_push runs_closed disconnect_ctx_closed split: if_splits bind_splits)

lemma reply_heap_flags [simp]: "cflags (set_reply_heap c h) = cflags c"
  by (simp add: set_reply_heap_def split: sum.splits)

lemma free_object_quiet: "free_object ac a = Some ac' \<Longrightarrow> quiet ac ac'"
  by (auto simp: free_object_def aflags_def split: bind_splits)

lemma subscribe_callback_quiet: "redisGetSubscribeCallback A ac a cb = Some (ac', cb') \<Longrightarrow> quiet ac ac'"
proof -
  have "every (\<lambda>(b, y). quiet ac b) (redisGetSubscribeCallback A ac a cb)"
    unfolding redisGetSubscribeCallback_def Let_def
    by (intro every_rules) (auto intro!: quietI)
  then show "redisGetSubscribeCallback A ac a cb = Some (ac', cb') \<Longrightarrow> quiet ac ac'"
    by (simp add: every_def)
qed

lemma find_callback_runs:
  assumes "tame env" and "find_callback env ac a cb = Some r"
  shows "case r of Inl ac' \<Rightarrow> closed ac ac' | Inr (ac', cb') \<Rightarrow> quiet ac ac'"
proof -
  from assms(2) obtain l x rv where x: "redisShiftCallback (replies ac) = Some (l, x, rv)"
    by (auto simp: find_callback_def split: bind_splits)
  let ?b = "ac\<lparr>replies := l\<rparr>"
  have b: "quiet ac ?b" by (rule quietI) simp_all
  show ?thesis
  proof (cases x)
    case (Some y)
    then have "r = Inr (?b, y)" using assms(2) x by (simp add: find_callback_def)
    then show ?thesis using b by simp
  next
    case None
    with assms(2) x obtain ob where ob: "hget (reply_heap (ac_c ac)) a = Some ob"
      by (auto simp: find_callback_def Let_def split: bind_splits)
    show ?thesis
    proof (cases "rtype ob = REDIS_REPLY_ERROR")
      case True
      then obtain e1 e2 c1 b1 b2 where b1: "free_object (?b\<lparr>ac_c := (ac_c ac)\<lparr>cerr := e1, cerrstr := e2\<rparr>\<rparr>) a = Some b1"
          "redisAsyncDisconnect_ctx env b1 = Some b2" "r = Inl b2"
        using assms(2) x None ob by (auto simp: find_callback_def Let_def split: bind_splits)
      have "quiet ?b (?b\<lparr>ac_c := (ac_c ac)\<lparr>cerr := e1, cerrstr := e2\<rparr>\<rparr>)" by (rule quietI) (simp_all add: aflags_def)
      with b free_object_quiet [OF b1(1)] have "quiet ac b1" using quiet_trans by blast
      with disconnect_ctx_closed [OF assms(1) b1(2)] b1(3) show ?thesis using quiet_closed by auto
    next
      case False
      with assms(2) x None ob consider (same) "r = Inr (?b, cb)"
        | (sub) b1 y where "redisGetSubscribeCallback (mem env) ?b a cb = Some (b1, y)" "r = Inr (b1, y)"
        by (auto simp: find_callback_def Let_def split: if_splits bind_splits)
      then show ?thesis
      proof cases
        case same
        then show ?thesis using b by simp
      next
        case sub
        then show ?thesis using b subscribe_callback_quiet [OF sub(1)] quiet_trans by auto
      qed
    qed
  qed
qed

lemma deliver_runs:
  assumes "tame env" and "deliver env ac a cb = Some r"
  shows "case r of Inl ac' \<Rightarrow> closed ac ac' | Inr ac' \<Rightarrow> quiet ac ac'"
proof (cases "cb_fn cb = 0")
  case True
  then obtain b where "free_object ac a = Some b" "r = Inr b"
    using assms(2) by (auto simp: deliver_def split: bind_splits)
  then show ?thesis using free_object_quiet by simp
next
  case False
  with assms(2) obtain b1 b2 where b: "redisRunCallback env ac cb a = Some b1" "free_object b1 a = Some b2"
    and r: "(if has (aflags b2) REDIS_FREEING then do { ac \<leftarrow> redisAsyncFree_ctx env b2; Some (Inl ac) }
      else Some (Inr b2)) = Some r"
    by (auto simp: deliver_def split: bind_splits)
  have q: "quiet ac b2" using run_callback_quiet [OF assms(1) b(1)] free_object_quiet [OF b(2)] quiet_trans by blast
  then show ?thesis
    using r free_ctx_closed [OF assms(1)] quiet_closed by (auto split: if_splits bind_splits)
qed

lemma process_runs:
  assumes "process_replies env ac cb = Some ac'" and "tame env"
  shows "runs ac ac'"
  using assms
proof (induction rule: process_replies.raw_induct [rotated, consumes 1, case_names step])
  case (step loop env ac cb ac')
  then obtain d a rv where d: "redisGetReply (mem env) (ac_c ac) = Some (d, a, rv)"
    by (cases "redisGetReply (mem env) (ac_c ac)") auto
  let ?b = "ac\<lparr>ac_c := d\<rparr>"
  have b: "quiet ac ?b" using get_reply_flags [OF d] by (intro quietI) (simp_all add: aflags_def)
  have "runs ?b ac'"
  proof (cases "rv = REDIS_OK \<and> a \<noteq> 0")
    case False
    then show ?thesis using step(2) d disconnect_ctx_closed [OF step(3)] no_reply_runs [OF step(3)]
      by (auto split: if_splits)
  next
    case True
    with step(2) d obtain f where f: "find_callback env ?b a cb = Some f"
      "(case f of Inl ac \<Rightarrow> Some ac
        | Inr y \<Rightarrow> do {
            x \<leftarrow> deliver env (fst y) a (snd y);
            (case x of Inl ac \<Rightarrow> Some ac | Inr ac \<Rightarrow> loop env ac (snd y)) }) = Some ac'"
      by (auto split: bind_splits)
    note fc = find_callback_runs [OF step(3) f(1)]
    show ?thesis
    proof (cases f)
      case (Inl x)
      then show ?thesis using f(2) fc by auto
    next
      case (Inr y)
      then obtain x where x: "deliver env (fst y) a (snd y) = Some x"
        "(case x of Inl ac \<Rightarrow> Some ac | Inr ac \<Rightarrow> loop env ac (snd y)) = Some ac'"
        using f(2) by (auto split: bind_splits)
      have q: "quiet ?b (fst y)" using fc Inr by (auto split: prod.splits)
      have "runs (fst y) ac'"
      proof (cases x)
        case (Inl z)
        then show ?thesis using x deliver_runs [OF step(3) x(1)] by auto
      next
        case (Inr z)
        then have "quiet (fst y) z" "runs z ac'"
          using x(2) deliver_runs [OF step(3) x(1)] step(1) [OF _ step(3)] by auto
        then show ?thesis by (rule quiet_runs)
      qed
      with q show ?thesis by (rule quiet_runs)
    qed
  qed
  with b show ?case by (rule quiet_runs)
qed

section \<open>Connecting\<close>

text \<open>The outcome of the first event: at most one notification, while not connected.\<close>

definition connects :: "redisAsyncContext \<Rightarrow> redisAsyncContext \<Rightarrow> bool" where
  "connects ac b \<longleftrightarrow> \<not> conn ac \<and> freed b = freed ac \<and>
     (calls b = calls ac \<or> (\<exists>f st. calls b = calls ac @ [ConnectCall f st]))"

lemma run_on_connect_connects:
  assumes "tame env" and "run_on_connect env ac st = Some b"
  shows "freed b = freed ac" "conn b = conn ac" "calls b = calls ac \<or> (\<exists>f st. calls b = calls ac @ [ConnectCall f st])"
proof -
  have "freed b = freed ac \<and> conn b = conn ac \<and> (calls b = calls ac \<or> (\<exists>f st. calls b = calls ac @ [ConnectCall f st]))"
  proof (cases "onConnect ac = 0")
    case True
    then show ?thesis using assms(2) by (simp add: run_on_connect_def)
  next
    case False
    then have "run_connect env (onConnect ac) (ac\<lparr>calls := calls ac @ [ConnectCall (onConnect ac) st]\<rparr>) st = Some b"
      using assms(2) by (simp add: run_on_connect_def)
    then have "unrecorded (ac\<lparr>calls := calls ac @ [ConnectCall (onConnect ac) st]\<rparr>) b"
      using assms(1) unfolding tame_def by blast
    then show ?thesis by (auto simp: unrecorded_def)
  qed
  then show "freed b = freed ac" "conn b = conn ac" "calls b = calls ac \<or> (\<exists>f st. calls b = calls ac @ [ConnectCall f st])"
    by blast+
qed

lemma HandleConnect_outcome:
  assumes t: "tame env" and n: "\<not> conn ac" and h: "redisAsyncHandleConnect env ac = Some (ac', rv)"
  shows "rv = REDIS_OK \<and> (quiet ac ac' \<or> connects ac ac' \<and> conn ac') \<or>
    rv = REDIS_ERR \<and> (\<exists>b. connects ac b \<and> \<not> conn b \<and> closed b ac')"
proof -
  from h obtain c rw where c: "redisCheckSocketError (ac_c ac) = Some (c, rw)"
    by (auto simp: redisAsyncHandleConnect_def split: bind_splits)
  let ?b = "ac\<lparr>ac_c := c\<rparr>"
  have fl: "aflags ?b = aflags ac" using socket_error_flags [OF c] by (simp add: aflags_def)
  show ?thesis
  proof (cases "rw = REDIS_ERR")
    case False
    then have "run_on_connect env (set_aflags ?b (aflags ?b OR REDIS_CONNECTED)) REDIS_OK = Some ac'" "rv = REDIS_OK"
      using h c by (auto simp: redisAsyncHandleConnect_def Let_def split: bind_splits)
    note r = run_on_connect_connects [OF t this(1)]
    moreover have "has (aflags ?b OR REDIS_CONNECTED) REDIS_CONNECTED" by (simp add: has_set_self redis_flags)
    ultimately have "connects ac ac'" "conn ac'" using n by (simp_all add: connects_def)
    with \<open>rv = REDIS_OK\<close> show ?thesis by blast
  next
    case True
    show ?thesis
    proof (cases "errno (io c) = EINPROGRESS")
      case prog: True
      then have "ac' = ?b" "rv = REDIS_OK" using h c True by (simp_all add: redisAsyncHandleConnect_def)
      then show ?thesis using fl by (auto intro!: quietI)
    next
      case False
      then obtain b where b: "run_on_connect env ?b REDIS_ERR = Some b" "redisAsyncDisconnect_ctx env b = Some ac'"
        "rv = REDIS_ERR"
        using h c True by (auto simp: redisAsyncHandleConnect_def split: bind_splits)
      note r = run_on_connect_connects [OF t b(1)]
      then have "connects ac b" "\<not> conn b" using n fl by (simp_all add: connects_def)
      with disconnect_ctx_closed [OF t b(2)] b(3) show ?thesis by blast
    qed
  qed
qed

text \<open>An event of the socket.\<close>

definition event :: "redisAsyncContext \<Rightarrow> redisAsyncContext \<Rightarrow> bool" where
  "event ac ac' \<longleftrightarrow> runs ac ac' \<or>
     (\<exists>b. connects ac b \<and> (conn b \<and> runs b ac' \<or> \<not> conn b \<and> closed b ac'))"

lemma event_intro:
  assumes t: "tame env" and e: "ensure_connected env ac = Some (b, go)" and f: "\<not> freed ac"
    and r: "go \<Longrightarrow> \<not> freed b \<Longrightarrow> runs b ac'" and stop: "\<not> go \<Longrightarrow> ac' = b"
  shows "event ac ac'"
proof (cases "conn ac")
  case True
  then show ?thesis using e r f by (auto simp: ensure_connected_def event_def)
next
  case False
  with e obtain c rv where h: "redisAsyncHandleConnect env ac = Some (c, rv)" and c: "b = c"
    and g: "go \<longleftrightarrow> rv = REDIS_OK \<and> conn c" and live: "rv = REDIS_OK \<longrightarrow> \<not> freed c"
    by (auto simp: ensure_connected_def split: bind_splits if_splits)
  from HandleConnect_outcome [OF t False h] consider
      (same) "rv = REDIS_OK" "quiet ac c" | (ok) "rv = REDIS_OK" "connects ac c" "conn c"
    | (err) d where "rv = REDIS_ERR" "connects ac d" "\<not> conn d" "closed d c" by blast
  then show ?thesis
  proof cases
    case same
    then have "\<not> go" using g False by (simp add: quiet_def)
    then show ?thesis using same(2) stop c by (auto simp: event_def)
  next
    case ok
    then show ?thesis using g live c r by (auto simp: event_def)
  next
    case err
    then have "\<not> go" using g by auto
    then show ?thesis using err stop c by (auto simp: event_def)
  qed
qed

lemma HandleRead_event:
  assumes t: "tame env" and h: "redisAsyncHandleRead env ac = Some ac'"
  shows "event ac ac'"
proof -
  from h have f: "\<not> freed ac" by (auto simp: redisAsyncHandleRead_def split: bind_splits)
  with h obtain b go where e: "ensure_connected env ac = Some (b, go)"
    by (auto simp: redisAsyncHandleRead_def split: bind_splits)
  show ?thesis
  proof (rule event_intro [OF t e f])
    assume g: "go"
    with h f e obtain c rv where c: "redisBufferRead (mem env) (ac_c b) = Some (c, rv)"
      and n: "(if rv = REDIS_ERR then redisAsyncDisconnect_ctx env (b\<lparr>ac_c := c\<rparr>)
        else redisProcessCallbacks env (el AddRead (b\<lparr>ac_c := c\<rparr>))) = Some ac'"
      by (auto simp: redisAsyncHandleRead_def Let_def split: bind_splits)
    have q: "quiet b (b\<lparr>ac_c := c\<rparr>)" "quiet b (el AddRead (b\<lparr>ac_c := c\<rparr>))"
      using buffer_read_flags [OF c] aflags_def [of b] by (auto intro!: quietI)
    show "runs b ac'"
      using n q disconnect_ctx_closed [OF t] process_runs [OF _ t] quiet_runs runs_closed
      unfolding redisProcessCallbacks_def by (metis (full_types))
  next
    assume "\<not> go"
    then show "ac' = b" using h f e by (simp add: redisAsyncHandleRead_def alive_live)
  qed
qed

lemma HandleWrite_event:
  assumes t: "tame env" and h: "redisAsyncHandleWrite env ac = Some ac'"
  shows "event ac ac'"
proof -
  from h have f: "\<not> freed ac" by (auto simp: redisAsyncHandleWrite_def split: bind_splits)
  with h obtain b go where e: "ensure_connected env ac = Some (b, go)"
    by (auto simp: redisAsyncHandleWrite_def split: bind_splits)
  show ?thesis
  proof (rule event_intro [OF t e f])
    assume g: "go"
    with h f e obtain c rv dn where c: "redisBufferWrite (mem env) (ac_c b) = Some (c, rv, dn)"
      and n: "(if rv = REDIS_ERR then redisAsyncDisconnect_ctx env (b\<lparr>ac_c := c\<rparr>)
        else Some (el AddRead (if dn \<noteq> Some True then el AddWrite (b\<lparr>ac_c := c\<rparr>) else el DelWrite (b\<lparr>ac_c := c\<rparr>)))) = Some ac'"
      by (auto simp: redisAsyncHandleWrite_def Let_def split: bind_splits)
    have q: "quiet b (b\<lparr>ac_c := c\<rparr>)" "quiet b (el AddRead (el AddWrite (b\<lparr>ac_c := c\<rparr>)))"
      "quiet b (el AddRead (el DelWrite (b\<lparr>ac_c := c\<rparr>)))"
      using buffer_write_flags [OF c] aflags_def [of b] by (auto intro!: quietI)
    show "runs b ac'"
      using n q disconnect_ctx_closed [OF t] quiet_runs runs_closed by (auto split: if_splits)
  next
    assume "\<not> go"
    then show "ac' = b" using h f e by (simp add: redisAsyncHandleWrite_def alive_live)
  qed
qed

section \<open>Commands\<close>

lemma subscribe_all_quiet: "subscribe_all A cmd v cb p ac = Some ac' \<Longrightarrow> quiet ac ac'"
proof (induction rule: subscribe_all.raw_induct [rotated, consumes 1, case_names step])
  case (step loop A cmd v cb p ac ac')
  then obtain x where x: "nextArgument cmd p = Some x" by (cases "nextArgument cmd p") auto
  show ?case
  proof (cases x)
    case Nullp
    then show ?thesis using step(2) x by auto
  next
    case (Ptr y)
    then obtain z where "loop A cmd v cb (fst y) (set_table v ac (Ptr (fst z))) = Some ac'"
      using step(2) x by (auto split: bind_splits)
    from step(1) [OF this] have "quiet (set_table v ac (Ptr (fst z))) ac'" .
    moreover have "quiet ac (set_table v ac (Ptr (fst z)))" by (rule quietI) simp_all
    ultimately show ?thesis using quiet_trans by blast
  qed
qed

lemma register_quiet:
  assumes "register_callback A ac cb cmd = Some r"
  shows "case r of Inl ac' \<Rightarrow> quiet ac ac' | Inr ac' \<Rightarrow> quiet ac ac'"
proof -
  have s: "quiet ac b" if "subscribe_all A cmd v cb p (set_aflags ac (aflags ac OR REDIS_SUBSCRIBED)) = Some b" for v p b
    using subscribe_all_quiet [OF that] by (rule quiet_trans [rotated]) (rule quietI; simp)
  have "every (\<lambda>r. case r of Inl b \<Rightarrow> quiet ac b | Inr b \<Rightarrow> quiet ac b) (register_callback A ac cb cmd)"
    unfolding register_callback_def Let_def
    by (intro every_rules; (drule s)?; simp; (rule quietI; simp)?)
  then show ?thesis using assms by (rule everyD)
qed

lemma command_quiet: "async_command A ac f p cmd n = Some (ac', rv) \<Longrightarrow> quiet ac ac' \<and> \<not> freed ac"
proof -
  assume c: "async_command A ac f p cmd n = Some (ac', rv)"
  then have l: "\<not> freed ac" by (auto simp: async_command_def split: bind_splits)
  show ?thesis
  proof (cases "has (aflags ac) (REDIS_DISCONNECTING OR REDIS_FREEING)")
    case True
    then show ?thesis using c l by (auto simp: async_command_def alive_live intro!: quietI)
  next
    case False
    with c l obtain r where r: "register_callback A ac \<lparr>cb_fn = f, cb_privdata = p\<rparr> cmd = Some r"
      by (auto simp: async_command_def alive_live split: bind_splits)
    show ?thesis
    proof (cases r)
      case (Inl b)
      then show ?thesis using c l False r register_quiet [OF r] by (auto simp: async_command_def alive_live)
    next
      case (Inr b)
      then obtain d rw where d: "append_command A (ac_c b) cmd n = Some (d, rw)" "ac' = el AddWrite (b\<lparr>ac_c := d\<rparr>)"
        using c l False r by (auto simp: async_command_def alive_live split: bind_splits)
      have "quiet b ac'" using append_flags [OF d(1)] aflags_def [of b] by (auto intro!: quietI simp: d(2))
      then show ?thesis using register_quiet [OF r] Inr l quiet_trans by auto
    qed
  qed
qed

lemma Argv_quiet: "redisAsyncCommandArgv A ac f p argc argv lens = Some (ac', rv) \<Longrightarrow> quiet ac ac'"
  by (auto simp: redisAsyncCommandArgv_def dest: command_quiet split: bind_splits if_splits)

lemma Command_quiet: "redisAsyncCommand fp A ac f p format ap = Some (ac', rv) \<Longrightarrow> quiet ac ac'"
  by (auto simp: redisAsyncCommand_def redisvAsyncCommand_def dest: command_quiet split: bind_splits if_splits)

section \<open>Steps and reachable states\<close>

text \<open>A call of the application or of the event library on a context that was not freed.\<close>

inductive api_step :: "aenv \<Rightarrow> redisAsyncContext \<Rightarrow> redisAsyncContext \<Rightarrow> bool" for env where
  set_connect: "redisAsyncSetConnectCallback ac f = (ac', rv) \<Longrightarrow> \<not> freed ac \<Longrightarrow> api_step env ac ac'"
| set_disconnect: "redisAsyncSetDisconnectCallback ac f = (ac', rv) \<Longrightarrow> \<not> freed ac \<Longrightarrow> api_step env ac ac'"
| argv_command: "redisAsyncCommandArgv (mem env) ac f p argc argv lens = Some (ac', rv) \<Longrightarrow> \<not> freed ac \<Longrightarrow> api_step env ac ac'"
| format_command: "redisAsyncCommand fp (mem env) ac f p format ap = Some (ac', rv) \<Longrightarrow> \<not> freed ac \<Longrightarrow> api_step env ac ac'"
| readable: "redisAsyncHandleRead env ac = Some ac' \<Longrightarrow> \<not> freed ac \<Longrightarrow> api_step env ac ac'"
| writable: "redisAsyncHandleWrite env ac = Some ac' \<Longrightarrow> \<not> freed ac \<Longrightarrow> api_step env ac ac'"
| disconnect: "redisAsyncDisconnect env ac = Some ac' \<Longrightarrow> \<not> freed ac \<Longrightarrow> api_step env ac ac'"
| free: "redisAsyncFree env ac = Some ac' \<Longrightarrow> \<not> freed ac \<Longrightarrow> api_step env ac ac'"

inductive_cases api_stepE: "api_step env ac ac'"

definition created :: "aenv \<Rightarrow> redisAsyncContext \<Rightarrow> bool" where
  "created env ac \<longleftrightarrow> (\<exists>s h.
     (\<exists>ip port. redisAsyncConnect (mem env) s h ip port = Some (Inr ac)) \<or>
     (\<exists>ip port src. redisAsyncConnectBind (mem env) s h ip port src = Some (Inr ac)) \<or>
     (\<exists>ip port src. redisAsyncConnectBindWithReuse (mem env) s h ip port src = Some (Inr ac)) \<or>
     (\<exists>path. redisAsyncConnectUnix (mem env) s h path = Some (Inr ac)))"

inductive reachable :: "aenv \<Rightarrow> redisAsyncContext \<Rightarrow> bool" for env where
  start: "created env ac \<Longrightarrow> reachable env ac"
| further: "reachable env ac \<Longrightarrow> api_step env ac ac' \<Longrightarrow> reachable env ac'"

lemma step_event:
  assumes "tame env" and "api_step env ac ac'"
  shows "event ac ac' \<and> \<not> freed ac"
  using assms(2)
proof cases
  case (set_connect f rv)
  then have "quiet ac ac'" by (auto simp: redisAsyncSetConnectCallback_def intro!: quietI split: if_splits)
  then show ?thesis using set_connect by (auto simp: event_def)
next
  case (set_disconnect f rv)
  then have "quiet ac ac'" by (auto simp: redisAsyncSetDisconnectCallback_def intro!: quietI split: if_splits)
  then show ?thesis using set_disconnect by (auto simp: event_def)
next
  case (argv_command f p argc argv lens rv)
  then show ?thesis using Argv_quiet by (auto simp: event_def)
next
  case (format_command fp f p format ap rv)
  then show ?thesis using Command_quiet by (auto simp: event_def)
next
  case readable
  then show ?thesis using HandleRead_event assms(1) by blast
next
  case writable
  then show ?thesis using HandleWrite_event assms(1) by blast
next
  case disconnect
  then show ?thesis using Disconnect_runs assms(1) by (auto simp: event_def)
next
  case free
  then show ?thesis using Free_runs assms(1) by (auto simp: event_def)
qed

text \<open>The order of notifications.\<close>

definition orderly :: "redisAsyncContext \<Rightarrow> bool" where
  "orderly ac \<longleftrightarrow> length (filter is_connect (calls ac)) \<le> 1 \<and>
     (\<not> freed ac \<and> \<not> conn ac \<longrightarrow> filter is_connect (calls ac) = []) \<and>
     list_all (\<lambda>x. \<not> is_disconnect x) (if freed ac then butlast (calls ac) else calls ac)"

lemma replies_neither: "list_all is_reply rs \<Longrightarrow> filter is_connect rs = []"
  "list_all is_reply rs \<Longrightarrow> list_all (\<lambda>x. \<not> is_disconnect x) rs"
proof -
  have "is_reply x \<Longrightarrow> \<not> is_connect x \<and> \<not> is_disconnect x" for x by (cases x) simp_all
  then show "list_all is_reply rs \<Longrightarrow> filter is_connect rs = []"
    "list_all is_reply rs \<Longrightarrow> list_all (\<lambda>x. \<not> is_disconnect x) rs"
    by (auto simp: list_all_iff filter_empty_conv)
qed

lemma orderly_quiet: "orderly ac \<Longrightarrow> \<not> freed ac \<Longrightarrow> quiet ac b \<Longrightarrow> orderly b"
  by (auto simp: orderly_def quiet_def replies_neither)

lemma orderly_closed:
  assumes "orderly ac" and "\<not> freed ac" and "closed ac b"
  shows "orderly b"
proof -
  from assms(3) obtain rs ds where b: "freed b" "calls b = calls ac @ rs @ ds" "list_all is_reply rs"
    "ds = [] \<or> (\<exists>f st. ds = [DisconnectCall f st])" by (auto simp: closed_def)
  have "list_all (\<lambda>x. \<not> is_disconnect x) (calls ac @ rs)"
    using assms(1,2) replies_neither(2) [OF b(3)] by (simp add: orderly_def)
  then have "list_all (\<lambda>x. \<not> is_disconnect x) (butlast (calls b))"
    using b(2,4) by (auto simp: list_all_iff butlast_append dest: in_set_butlastD split: if_splits)
  moreover have "filter is_connect (calls b) = filter is_connect (calls ac)"
    using b(2,4) replies_neither(1) [OF b(3)] by auto
  ultimately show ?thesis using assms(1) b(1) by (simp add: orderly_def)
qed

lemma orderly_runs: "orderly ac \<Longrightarrow> \<not> freed ac \<Longrightarrow> runs ac b \<Longrightarrow> orderly b"
  unfolding runs_def using orderly_quiet orderly_closed by blast

lemma orderly_event:
  assumes "orderly ac" and "\<not> freed ac" and "event ac ac'"
  shows "orderly ac'"
proof (cases "runs ac ac'")
  case True
  then show ?thesis using assms orderly_runs by blast
next
  case False
  then obtain b where b: "connects ac b" "conn b \<and> runs b ac' \<or> \<not> conn b \<and> closed b ac'"
    using assms(3) by (auto simp: event_def)
  let ?b = "set_aflags b (aflags b OR REDIS_CONNECTED)"
  have l: "\<not> freed b" using b(1) assms(2) by (simp add: connects_def)
  have c: "length (filter is_connect (calls b)) \<le> 1" "list_all (\<lambda>x. \<not> is_disconnect x) (calls b)"
    using b(1) assms(1,2) by (auto simp: connects_def orderly_def)
  from b(2) show ?thesis
  proof
    assume "conn b \<and> runs b ac'"
    moreover from this c l have "orderly b" by (simp add: orderly_def)
    ultimately show ?thesis using orderly_runs l by blast
  next
    assume d: "\<not> conn b \<and> closed b ac'"
    then obtain rs where "freed ac'" "calls ac' = calls b @ rs" "list_all is_reply rs" by (auto simp: closed_def)
    moreover from this c have "list_all (\<lambda>x. \<not> is_disconnect x) (butlast (calls ac'))"
      using replies_neither(2) by (auto simp: list_all_iff dest!: in_set_butlastD)
    ultimately show ?thesis using c replies_neither(1) by (simp add: orderly_def)
  qed
qed

definition unused :: "redisAsyncContext \<Rightarrow> bool" where
  "unused ac \<longleftrightarrow> calls ac = [] \<and> \<not> freed ac"

lemma Initialize_unused: "redisAsyncInitialize A c = Some (Ptr x) \<Longrightarrow> unused (redisAsyncCopyError x)"
  by (auto simp: redisAsyncInitialize_def Let_def unused_def redisAsyncCopyError_def split: if_splits bind_splits)

lemma checked_unused:
  assumes "async_checked A r = Some (Inr ac)"
  shows "unused ac"
proof -
  from assms obtain c p where c: "r = Some (Inr c)" "redisAsyncInitialize A c = Some p"
    by (auto simp: async_checked_def split: bind_splits sum.splits)
  then show ?thesis
    using assms Initialize_unused by (cases p) (auto simp: async_checked_def split: bind_splits)
qed

lemma unchecked_unused:
  assumes "async_unchecked A r = Some (Inr ac)"
  shows "unused ac"
proof -
  from assms obtain c p where c: "r = Some (Inr c)" "redisAsyncInitialize A c = Some p"
    by (auto simp: async_unchecked_def split: bind_splits sum.splits if_splits)
  then show ?thesis
    using assms Initialize_unused by (cases p) (auto simp: async_unchecked_def)
qed

lemma created_orderly:
  assumes "created env ac"
  shows "orderly ac"
proof -
  from assms obtain A r where "async_checked A r = Some (Inr ac) \<or> async_unchecked A r = Some (Inr ac)"
    unfolding created_def redisAsyncConnect_def redisAsyncConnectBind_def redisAsyncConnectBindWithReuse_def
      redisAsyncConnectUnix_def
    by (elim exE disjE) (rule that, (erule disjI1 | erule disjI2))+
  then have "unused ac" using checked_unused unchecked_unused by metis
  then show ?thesis by (simp add: orderly_def unused_def)
qed

lemma reachable_orderly:
  assumes "tame env" and "reachable env ac"
  shows "orderly ac"
  using assms(2)
proof induction
  case (start ac)
  then show ?case by (rule created_orderly)
next
  case (further ac ac')
  then show ?case using step_event [OF assms(1)] orderly_event by blast
qed

end
