(* ===== verification/Transport.thy ===== *)
theory Transport
  imports Connection Format_Theorems Reader_Split Net_Theorems
begin

text \<open>
  The bytes that cross the wire. \<open>sent\<close> and \<open>received\<close> are what the system took from the client and
  gave to it, read off the trace of system calls. Writing moves bytes from the output buffer to
  \<open>sent\<close>, none lost, none twice; reading moves bytes from the peer to the reader, in pieces chosen by the system.
\<close>

section \<open>What went over the wire\<close>

fun taken :: "syscall \<times> sysres \<Rightarrow> bytes" where
  "taken (SysWrite f t, r) = take (nat (ret r)) t"
| "taken _ = []"

fun given :: "syscall \<times> sysres \<Rightarrow> bytes" where
  "given (SysRead f n, r) = rdata r"
| "given _ = []"

definition sent :: "redisContext \<Rightarrow> bytes" where
  "sent c = concat (map taken (trace (io c)))"

definition received :: "redisContext \<Rightarrow> bytes" where
  "received c = concat (map given (trace (io c)))"

text \<open>\<open>write\<close> as documented: it takes some of the bytes it is given, or fails.\<close>

definition write_sound :: "sys \<Rightarrow> bool" where
  "write_sound s \<longleftrightarrow> (\<forall>tr f t. - 1 \<le> ret (os s tr (SysWrite f t)) \<and> ret (os s tr (SysWrite f t)) \<le> int (length t))"

text \<open>The peer keeps taking bytes: every write of a nonempty text takes at least one.\<close>

definition write_live :: "sys \<Rightarrow> bool" where
  "write_live s \<longleftrightarrow> (\<forall>tr f t. t \<noteq> [] \<longrightarrow> 0 < ret (os s tr (SysWrite f t)))"

text \<open>
  The peer sends \<open>S\<close> once it has been sent \<open>q\<close>: as long as not all of \<open>S\<close> has arrived, a read gives some
  of the bytes that follow, at most as many as asked for.
\<close>

definition serves :: "sys \<Rightarrow> bytes \<Rightarrow> bytes \<Rightarrow> bool" where
  "serves s q S \<longleftrightarrow>
     (\<forall>tr f n. 0 < n \<longrightarrow> concat (map taken tr) = q \<longrightarrow> strict_prefix (concat (map given tr)) S \<longrightarrow>
        (let r = os s tr (SysRead f n) in
         0 < ret r \<and> ret r \<le> int n \<and> ret r = int (length (rdata r)) \<and> prefix (concat (map given tr) @ rdata r) S))"

lemma servesD:
  assumes "serves s q S" and "concat (map taken tr) = q" and "strict_prefix (concat (map given tr)) S" and "0 < n"
  shows "0 < ret (os s tr (SysRead f n))" "ret (os s tr (SysRead f n)) \<le> int n"
    "ret (os s tr (SysRead f n)) = int (length (rdata (os s tr (SysRead f n))))"
    "prefix (concat (map given tr) @ rdata (os s tr (SysRead f n))) S"
  using assms unfolding serves_def Let_def by blast+

definition out_text :: "redisContext \<Rightarrow> bytes \<Rightarrow> bool" where
  "out_text c t \<longleftrightarrow> (\<exists>b. obuf c = Ptr b \<and> sds_ok b \<and> sds_content b = t)"

text \<open>A system call on the trace.\<close>

lemma io_call_eq:
  "io_call c q = (c\<lparr>io := (io c)\<lparr>trace := trace (io c) @ [(q, os (io c) (trace (io c)) q)],
      errno := (if ret (os (io c) (trace (io c)) q) = -1 then failno (os (io c) (trace (io c)) q) else errno (io c))\<rparr>\<rparr>,
    os (io c) (trace (io c)) q)"
  by (simp add: io_call_def sys_call_def Let_def)

lemma after_call:
  assumes "io_call c q = (d, r)"
  shows "r = os (io c) (trace (io c)) q" "sent d = sent c @ taken (q, r)" "received d = received c @ given (q, r)"
    "os (io d) = os (io c)" "d = c\<lparr>io := io d\<rparr>" "trace (io d) = trace (io c) @ [(q, r)]"
  using assms by (auto simp: io_call_eq sent_def received_def)

section \<open>Writing\<close>

text \<open>What a write may change: the buffer, the system and, when it fails, the error.\<close>

definition wrote :: "redisContext \<Rightarrow> redisContext \<Rightarrow> bool" where
  "wrote c c' \<longleftrightarrow> c' = c\<lparr>obuf := obuf c', io := io c', cerr := cerr c', cerrstr := cerrstr c'\<rparr> \<and>
     os (io c') = os (io c) \<and> received c' = received c"

lemma wrote_refl [simp]: "wrote c c"
  by (simp add: wrote_def)

lemma wrote_trans: "wrote c d \<Longrightarrow> wrote d e \<Longrightarrow> wrote c e"
  by (cases c; cases d; cases e) (simp add: wrote_def)

lemma wroteD:
  assumes "wrote c d"
  shows "reader d = reader c" "cflags d = cflags c" "fd d = fd c" "os (io d) = os (io c)" "received d = received c"
proof -
  have d: "d = c\<lparr>obuf := obuf d, io := io d, cerr := cerr d, cerrstr := cerrstr d\<rparr>" using assms by (simp add: wrote_def)
  show "reader d = reader c" "cflags d = cflags c" "fd d = fd c" by (subst d, simp)+
  show "os (io d) = os (io c)" "received d = received c" using assms by (simp_all add: wrote_def)
qed

text \<open>One write: the bytes sent and those still in the buffer are together what they were.\<close>

definition write_outcome :: "redisContext \<Rightarrow> bytes \<Rightarrow> redisContext \<Rightarrow> bytes \<Rightarrow> int \<Rightarrow> bool option \<Rightarrow> bool" where
  "write_outcome c t d u rv dn \<longleftrightarrow> wrote c d \<and> out_text d u \<and> sent d @ u = sent c @ t \<and>
     (rv = REDIS_OK \<and> cerr d = 0 \<and> dn = Some (u = []) \<or> rv = REDIS_ERR \<and> cerr d = REDIS_ERR_IO \<and> dn = None)"

lemma sds_room: "sds_ok s \<Longrightarrow> sdslen s \<le> length (buf s)"
  by (metis length_take min.absorb_iff2 nat_le_linear sds_content_def sds_ok_len)

text \<open>What a write returns, by what the system returned.\<close>

lemma write_run:
  assumes e: "cerr c = 0" and b: "obuf c = Ptr b" "sds_ok b" "sds_content b = t" and t: "t \<noteq> []" and len: "length t < 2 ^ 31 - 1"
    and call: "io_call c (SysWrite (fd c) t) = (d, r)" and rng: "- 1 \<le> ret r" "ret r \<le> int (length t)"
  shows "ret r = - 1 \<Longrightarrow> try_later d \<Longrightarrow> redisBufferWrite A c = Some (d, REDIS_OK, Some False)"
    "ret r = - 1 \<Longrightarrow> \<not> try_later d \<Longrightarrow> redisBufferWrite A c =
       Some (d\<lparr>cerr := REDIS_ERR_IO, cerrstr := redis_strerror_r (io d) (errno (io d)) 128\<rparr>, REDIS_ERR, None)"
    "ret r = 0 \<Longrightarrow> redisBufferWrite A c = Some (d, REDIS_OK, Some False)"
    "ret r = int (length t) \<Longrightarrow> sdsempty A = Some (Ptr x) \<Longrightarrow> sdslen x = 0 \<Longrightarrow>
       redisBufferWrite A c = Some (d\<lparr>obuf := Ptr x\<rparr>, REDIS_OK, Some True)"
    "0 < ret r \<Longrightarrow> ret r < int (length t) \<Longrightarrow> sdsrange b (ret r) (-1) = Some x \<Longrightarrow> sdslen x \<noteq> 0 \<Longrightarrow>
       redisBufferWrite A c = Some (d\<lparr>obuf := Ptr x\<rparr>, REDIS_OK, Some False)"
proof -
  have lt: "sdslen b = length t" using b sds_ok_len by auto
  have "get_bytes (buf b) 0 (sdslen b) = Some t"
    using b(3) sds_room [OF b(2)] by (simp add: get_bytes_Some sds_content_def)
  note run = redisBufferWrite_def Let_def e b(1) lt this [unfolded lt] call
  have i: "int32 (ret r) = ret r" "int32 (int (length t)) = int (length t)" "int32 (-1) = -1" "int32 0 = 0"
    using rng len by (simp_all add: int32_id)
  obtain s' where d: "d = c\<lparr>io := s'\<rparr>" using after_call(5) [OF call] by blast
  have dd: "obuf d = Ptr b" "0 < length t" using b(1) t by (simp_all add: d)
  show "ret r = - 1 \<Longrightarrow> try_later d \<Longrightarrow> redisBufferWrite A c = Some (d, REDIS_OK, Some False)"
    and "ret r = 0 \<Longrightarrow> redisBufferWrite A c = Some (d, REDIS_OK, Some False)"
    and "ret r = int (length t) \<Longrightarrow> sdsempty A = Some (Ptr x) \<Longrightarrow> sdslen x = 0 \<Longrightarrow>
       redisBufferWrite A c = Some (d\<lparr>obuf := Ptr x\<rparr>, REDIS_OK, Some True)"
    and "0 < ret r \<Longrightarrow> ret r < int (length t) \<Longrightarrow> sdsrange b (ret r) (-1) = Some x \<Longrightarrow> sdslen x \<noteq> 0 \<Longrightarrow>
       redisBufferWrite A c = Some (d\<lparr>obuf := Ptr x\<rparr>, REDIS_OK, Some False)"
    using i dd t by (simp_all add: run)
  show "ret r = - 1 \<Longrightarrow> \<not> try_later d \<Longrightarrow> redisBufferWrite A c =
       Some (d\<lparr>cerr := REDIS_ERR_IO, cerrstr := redis_strerror_r (io d) (errno (io d)) 128\<rparr>, REDIS_ERR, None)"
    using i dd t by (simp add: run redisSetError_IO)
qed

lemma write_outcomeI:
  assumes call: "io_call c (SysWrite (fd c) t) = (d, r)" and io: "io d' = io d"
    and d': "d' = c\<lparr>obuf := obuf d', io := io d', cerr := cerr d', cerrstr := cerrstr d'\<rparr>"
    and x: "obuf d' = Ptr x" "sds_ok x" "sds_content x = drop (nat (ret r)) t"
    and res: "rv = REDIS_OK \<and> cerr d' = 0 \<and> dn = Some (sds_content x = []) \<or> rv = REDIS_ERR \<and> cerr d' = REDIS_ERR_IO \<and> dn = None"
  shows "write_outcome c t d' (sds_content x) rv dn"
proof -
  have "received d' = received c" "sent d' @ sds_content x = sent c @ t" "os (io d') = os (io c)"
    using after_call(2-4) [OF call] x(3) io by (simp_all add: received_def sent_def)
  then show ?thesis using d' x res unfolding write_outcome_def wrote_def out_text_def by blast
qed

lemma buffer_write:
  assumes g: "\<forall>n. grant A n" and e: "cerr c = 0" and o: "out_text c t" and len: "length t < 2 ^ 31 - 1"
    and s: "write_sound (io c)"
  shows "\<exists>d u rv dn. redisBufferWrite A c = Some (d, rv, dn) \<and> write_outcome c t d u rv dn \<and>
    (write_live (io c) \<longrightarrow> rv = REDIS_OK \<and> (t \<noteq> [] \<longrightarrow> length u < length t))"
proof -
  from o obtain b where b: "obuf c = Ptr b" "sds_ok b" "sds_content b = t" by (auto simp: out_text_def)
  show ?thesis
  proof (cases "t = []")
    case True
    then have "redisBufferWrite A c = Some (c, REDIS_OK, Some True)"
      using e b sds_ok_len [OF b(2)] by (simp add: redisBufferWrite_def)
    moreover have "write_outcome c t c [] REDIS_OK (Some True)" using True e o by (simp add: write_outcome_def)
    ultimately show ?thesis using True by blast
  next
    case False
    obtain d r where call: "io_call c (SysWrite (fd c) t) = (d, r)" by fastforce
    note a = after_call [OF call] and out = write_outcomeI [OF call]
    have rng: "- 1 \<le> ret r" "ret r \<le> int (length t)" using s unfolding write_sound_def a(1) by blast+
    note run = write_run [OF e b False len call rng]
    have live: "write_live (io c) \<Longrightarrow> 0 < ret r" using False unfolding write_live_def a(1) by blast
    obtain s' where d: "d = c\<lparr>io := s'\<rparr>" using a(5) by blast
    have kept: "write_outcome c t d t REDIS_OK (Some False)" if "nat (ret r) = 0"
      using out [of d b REDIS_OK "Some False"] that b e False by (simp add: d)
    consider (failed) "ret r = -1" | (none) "ret r = 0" | (all) "ret r = int (length t)" "0 < ret r"
      | (some) "0 < ret r" "ret r < int (length t)" using rng by linarith
    then show ?thesis
    proof cases
      case failed
      let ?d = "d\<lparr>cerr := REDIS_ERR_IO, cerrstr := redis_strerror_r (io d) (errno (io d)) 128\<rparr>"
      have "write_outcome c t ?d t REDIS_ERR None"
        using out [of ?d b REDIS_ERR None] failed b by (simp add: d)
      then show ?thesis using run(1,2) failed kept live by (cases "try_later d") auto
    next
      case none
      then show ?thesis using run(3) kept live by auto
    next
      case all
      obtain x where x: "sdsempty A = Some (Ptr x)" "sds_ok x" "sds_content x = []"
        using yields_granted [OF sdsempty_spec g] by auto
      have "write_outcome c t (d\<lparr>obuf := Ptr x\<rparr>) [] REDIS_OK (Some True)"
        using out [of "d\<lparr>obuf := Ptr x\<rparr>" x REDIS_OK "Some True"] x all e by (simp add: d)
      then show ?thesis using run(4) [OF all(1) x(1)] x(2,3) sds_ok_len False by (metis length_greater_0_conv list.size(3))
    next
      case some
      obtain x where x: "sdsrange b (ret r) (-1) = Some x" "sds_ok x" "sds_content x = range_text (ret r) (-1) t"
        using sdsrange_spec [OF b(2), of "ret r" "-1"] b(3) sds_ok_len [OF b(2)] len some by auto
      then have u: "sds_content x = drop (nat (ret r)) t"
        using some by (simp add: range_text_def norm_pos_def nat_diff_distrib)
      then have ne: "sds_content x \<noteq> []" "length (sds_content x) < length t" using some by auto
      have "write_outcome c t (d\<lparr>obuf := Ptr x\<rparr>) (sds_content x) REDIS_OK (Some False)"
        using out [of "d\<lparr>obuf := Ptr x\<rparr>" x REDIS_OK "Some False"] x(2) u ne e by (simp add: d)
      then show ?thesis using run(5) [OF some x(1)] ne x(2) sds_ok_len by auto
    qed
  qed
qed

text \<open>The loop of \<open>redisGetReply\<close>: with a live peer it ends, and everything was sent.\<close>

lemma write_all_spec:
  assumes g: "\<forall>n. grant A n" and e: "cerr c = 0" and o: "out_text c t" and len: "length t < 2 ^ 31 - 1"
    and s: "write_sound (io c)" "write_live (io c)"
  shows "\<exists>d. write_all A c = Some (d, REDIS_OK) \<and> wrote c d \<and> out_text d [] \<and> sent d = sent c @ t \<and> cerr d = 0"
  using e o len s
proof (induction "length t" arbitrary: t c rule: less_induct)
  case less
  obtain d u dn where d: "redisBufferWrite A c = Some (d, REDIS_OK, dn)" "write_outcome c t d u REDIS_OK dn"
    "t \<noteq> [] \<longrightarrow> length u < length t"
    using buffer_write [OF g less.prems(1-4)] less.prems(5) by blast
  then have w: "wrote c d" "out_text d u" "sent d @ u = sent c @ t" "cerr d = 0" "dn = Some (u = [])"
    by (auto simp: write_outcome_def redis_codes)
  show ?case
  proof (cases "u = []")
    case True
    then have "write_all A c = Some (d, REDIS_OK)"
      using d(1) w(5) by (subst write_all.simps) (simp add: redis_codes)
    then show ?thesis using w True by auto
  next
    case False
    have step: "write_all A c = write_all A d"
      using d(1) w(5) False by (subst write_all.simps) (simp add: redis_codes)
    have "t \<noteq> []"
    proof
      assume "t = []"
      have "redisBufferWrite A c = Some (c, REDIS_OK, Some True)"
        using less.prems(1,2) sds_ok_len \<open>t = []\<close> by (auto simp: redisBufferWrite_def out_text_def)
      with d(1) w(5) False show False by simp
    qed
    then have l: "length u < length t" using d(3) by simp
    have io: "write_sound (io d)" "write_live (io d)"
      using less.prems(4,5) wroteD(4) [OF w(1)] by (simp_all add: write_sound_def write_live_def)
    have "length u < 2 ^ 31 - 1" using l less.prems(3) by simp
    from less.hyps [OF l w(4,2) this io] obtain e where
      "write_all A d = Some (e, REDIS_OK)" "wrote d e" "out_text e []" "sent e = sent d @ u" "cerr e = 0" by blast
    then show ?thesis using step w wrote_trans by auto
  qed
qed

section \<open>Reading\<close>

text \<open>What a read may change: the reader and the system.\<close>

definition read_only :: "redisContext \<Rightarrow> redisContext \<Rightarrow> bool" where
  "read_only c d \<longleftrightarrow> d = c\<lparr>reader := reader d, io := io d\<rparr> \<and> os (io d) = os (io c) \<and> sent d = sent c"

lemma read_onlyD:
  assumes "read_only c d"
  shows "cerr d = cerr c" "cflags d = cflags c" "obuf d = obuf c" "os (io d) = os (io c)" "sent d = sent c"
proof -
  have d: "d = c\<lparr>reader := reader d, io := io d\<rparr>" using assms by (simp add: read_only_def)
  show "cerr d = cerr c" "cflags d = cflags c" "obuf d = obuf c" by (subst d, simp)+
  show "os (io d) = os (io c)" "sent d = sent c" using assms by (simp_all add: read_only_def)
qed

lemma read_only_trans: "read_only c d \<Longrightarrow> read_only d e \<Longrightarrow> read_only c e"
  by (cases c; cases d; cases e) (simp add: read_only_def)

text \<open>The reader of the context waits for the reply that ends with \<open>F\<close>; \<open>t\<close> has yet to arrive.\<close>

definition waits :: "redisContext \<Rightarrow> bytes \<Rightarrow> rheap redisReader \<Rightarrow> bool" where
  "waits c t F \<longleftrightarrow> (\<exists>r. reader c = Inr r \<and> awaits t r F)"

definition next_read :: "redisContext \<Rightarrow> sysres" where
  "next_read c = os (io c) (trace (io c)) (SysRead (fd c) (1024 * 16))"

lemma read_piece:
  assumes g: "\<forall>n. grant A n" and e: "cerr c = 0" and r: "reader c = Inr r" "awaits (p @ u) r F" and p: "p \<noteq> []"
    and x: "rdata (next_read c) = p" "ret (next_read c) = int (length p)" "length p \<le> 16384"
  shows "\<exists>d r'. redisBufferRead A c = Some (d, REDIS_OK) \<and> read_only c d \<and>
    received d = received c @ p \<and> reader d = Inr r' \<and> awaits u r' F \<and> rlen r' \<noteq> 0"
proof -
  obtain d y where call: "io_call c (SysRead (fd c) (1024 * 16)) = (d, y)" by fastforce
  note a = after_call [OF call, folded next_read_def]
  have i: "int32 (ret y) = ret y" "usz_of_int (ret y) = length (rdata y)" "0 < ret y"
    using x a(1) p by (simp_all add: int32_id usz_of_int_id)
  obtain s' where d: "d = c\<lparr>io := s'\<rparr>" using a(5) by blast
  obtain r' where f: "redisReaderFeed A r (Ptr p) (length p) = Some (r', REDIS_OK)" "awaits u r' F" "rlen r' \<noteq> 0"
    using feed_awaits [OF g r(2) p] by blast
  have "redisBufferRead A c = Some (d\<lparr>reader := Inr r'\<rparr>, REDIS_OK)"
    using e call i f(1) r(1) d x(1) a(1) by (simp add: redisBufferRead_def the_reader_def)
  moreover have "read_only c (d\<lparr>reader := Inr r'\<rparr>)"
    using a(2,4) d by (simp add: read_only_def sent_def)
  moreover have "received (d\<lparr>reader := Inr r'\<rparr>) = received c @ p"
    using a(1,3) x(1) by (simp add: received_def)
  ultimately show ?thesis using f(2,3) by (intro exI [of _ "d\<lparr>reader := Inr r'\<rparr>"] exI [of _ r']) simp
qed

lemma buffer_read:
  assumes g: "\<forall>n. grant A n" and e: "cerr c = 0" and r: "reader c = Inr r" "awaits t r F" and t: "t \<noteq> []"
    and s: "serves (io c) (sent c) (received c @ t)"
  shows "\<exists>d r' p u. redisBufferRead A c = Some (d, REDIS_OK) \<and> read_only c d \<and> t = p @ u \<and> p \<noteq> [] \<and>
    received d = received c @ p \<and> reader d = Inr r' \<and> awaits u r' F \<and> rlen r' \<noteq> 0"
proof -
  let ?x = "next_read c"
  have "strict_prefix (concat (map given (trace (io c)))) (received c @ t)"
    using t by (simp add: strict_prefix_def received_def)
  note sv = servesD [OF s _ this, of "1024 * 16" "fd c", folded next_read_def received_def]
  have x: "0 < ret ?x" "ret ?x \<le> 16384" "ret ?x = int (length (rdata ?x))"
      "prefix (received c @ rdata ?x) (received c @ t)"
    using sv by (simp_all add: sent_def)
  from x(4) obtain u where u: "t = rdata ?x @ u" by (auto simp: prefix_def)
  have p: "rdata ?x \<noteq> []" "length (rdata ?x) \<le> 16384" using x(1-3) by auto
  have "awaits (rdata ?x @ u) r F" using r(2) u by simp
  from read_piece [OF g e r(1) this p(1) refl x(3) p(2)] show ?thesis using u p(1) by blast
qed

text \<open>The reply is there: the reader is idle again, and what it has not consumed yet comes next.\<close>

definition replied :: "redisContext \<Rightarrow> bytes \<Rightarrow> rheap redisReader \<Rightarrow> redisContext \<Rightarrow> bool" where
  "replied c t F d \<longleftrightarrow> read_only c d \<and>
     (\<exists>r u. reader d = Inr r \<and> idle r \<and> world r = world F \<and> unread F = unread r @ u \<and> received d @ u = received c @ t \<and>
        rlen r + length u < 2 ^ 31 - 1)"

lemma get_from_reader:
  assumes r: "reader c = Inr r" "awaits t r F" and n: "rlen r \<noteq> 0" and F: "reply F \<noteq> 0"
  shows "\<exists>d a. redisGetReplyFromReader c = Some (d, a, REDIS_OK) \<and> read_only c d \<and> received d = received c \<and>
    (a = reply F \<and> replied c t F d \<or> a = 0 \<and> t \<noteq> [] \<and> waits d t F)"
proof -
  obtain r' a where g: "redisReaderGetReply r True = Some (r', a, REDIS_OK)"
    "a = reply F \<and> idle r' \<and> unread F = unread r' @ t \<and> world r' = world F \<and> rlen r' + length t < 2 ^ 31 - 1 \<or>
     a = 0 \<and> t \<noteq> [] \<and> awaits t r' F"
    using get_awaits [OF r(2) n] by blast
  let ?d = "c\<lparr>reader := Inr r'\<rparr>"
  have "redisGetReplyFromReader c = Some (?d, a, REDIS_OK)"
    using r(1) g(1) by (simp add: redisGetReplyFromReader_def the_reader_def)
  moreover have "read_only c ?d" "received ?d = received c" by (simp_all add: read_only_def sent_def received_def)
  ultimately show ?thesis using g(2) by (auto simp: replied_def waits_def)
qed

lemma read_reply_spec:
  assumes g: "\<forall>n. grant A n" and F: "reply F \<noteq> 0"
  shows "cerr c = 0 \<Longrightarrow> waits c t F \<Longrightarrow> t \<noteq> [] \<Longrightarrow> serves (io c) (sent c) (received c @ t) \<Longrightarrow>
    \<exists>d. read_reply A c = Some (d, reply F, REDIS_OK) \<and> replied c t F d"
proof (induction "length t" arbitrary: t c rule: less_induct)
  case less
  then obtain r where r: "reader c = Inr r" "awaits t r F" by (auto simp: waits_def)
  from buffer_read [OF g less.prems(1) r less.prems(3,4)] obtain d r' p u where
    d: "redisBufferRead A c = Some (d, REDIS_OK)" "read_only c d" "t = p @ u" "p \<noteq> []"
      "received d = received c @ p" "reader d = Inr r'" "awaits u r' F" "rlen r' \<noteq> 0" by blast
  from get_from_reader [OF d(6-8) F] obtain e a where e: "redisGetReplyFromReader d = Some (e, a, REDIS_OK)"
    "read_only d e" "received e = received d" "a = reply F \<and> replied d u F e \<or> a = 0 \<and> u \<noteq> [] \<and> waits e u F" by blast
  show ?case
  proof (cases "a = 0")
    case False
    then have "read_reply A c = Some (e, reply F, REDIS_OK)"
      using d(1) e F by (subst read_reply.simps) (auto simp: redis_codes)
    moreover have "replied c t F e"
      using e(4) False d(2,3,5) read_only_trans by (auto simp: replied_def)
    ultimately show ?thesis by blast
  next
    case True
    then have e': "u \<noteq> []" "waits e u F" "read_only d e" "received e = received d" using e(2-4) F by auto
    have step: "read_reply A c = read_reply A e"
      using d(1) e(1) True by (subst read_reply.simps) (simp add: redis_codes)
    have ce: "read_only c e" using read_only_trans d(2) e'(3) by blast
    have "length u < length t" using d(3,4) by simp
    moreover have "cerr e = 0" using read_onlyD(1) [OF ce] less.prems(1) by simp
    moreover have "serves (io e) (sent e) (received e @ u)"
      using less.prems(4) read_onlyD(4,5) [OF ce] d(3,5) e'(4) by (simp add: serves_def)
    ultimately obtain f where f: "read_reply A e = Some (f, reply F, REDIS_OK)" "replied e u F f"
      using less.hyps e'(1,2) by blast
    then have "replied c t F f"
      using ce read_only_trans d(3,5) e'(4) by (auto simp: replied_def)
    then show ?thesis using step f(1) by auto
  qed
qed

section \<open>Commands and replies\<close>

text \<open>
  A blocking connection between two calls: no error, \<open>q\<close> still in the output buffer, \<open>t\<close> yet to
  arrive, and a peer that sends it when it has got everything.
\<close>

definition connected :: "redisContext \<Rightarrow> bytes \<Rightarrow> bytes \<Rightarrow> rheap redisReader \<Rightarrow> bool" where
  "connected c q t r \<longleftrightarrow> cerr c = 0 \<and> has (cflags c) REDIS_BLOCK \<and> out_text c q \<and> length q < 2 ^ 31 - 1 \<and>
     reader c = Inr r \<and> idle r \<and> rlen r + length t < 2 ^ 31 - 1 \<and>
     write_sound (io c) \<and> write_live (io c) \<and> serves (io c) (sent c @ q) (received c @ t)"

lemma append_text:
  assumes g: "\<forall>n. grant A n" and o: "out_text c q" and s: "sds_ok s" and lim: "length q + length (sds_content s) < 2 ^ 31"
  shows "\<exists>x. append_command A c (buf s) (length (sds_content s)) = Some (c\<lparr>obuf := Ptr x\<rparr>, REDIS_OK) \<and>
    out_text (c\<lparr>obuf := Ptr x\<rparr>) (q @ sds_content s)"
proof -
  from o obtain b where b: "obuf c = Ptr b" "sds_ok b" "sds_content b = q" by (auto simp: out_text_def)
  have bs: "take (length (sds_content s)) (buf s) = sds_content s" "length (sds_content s) \<le> length (buf s)"
    using sds_room [OF s] sds_ok_len [OF s] by (metis sds_content_def, metis)
  have "sdslen b + length (sds_content s) < size_limit" using lim sds_ok_len [OF b(2)] b(3) by (simp add: size_limit_def)
  from yields_granted [OF sdscatlen_spec [OF b(2) this bs(2)] g] obtain x where
    x: "sdscatlen A b (buf s) (length (sds_content s)) = Some (Ptr x)" "sds_ok x" "sds_content x = q @ sds_content s"
    using bs(1) b(3) by auto
  then show ?thesis using b(1) by (auto simp: append_command_def out_text_def)
qed

lemma append_step:
  assumes g: "\<forall>n. grant A n" and o: "out_text c q" and a: "argv_denotes argv argvlen ts"
    and lim: "length q + length (command ts) + 3 < 2 ^ 31"
  shows "\<exists>b. redisAppendCommandArgv A c (int (length argv)) argv argvlen = Some (c\<lparr>obuf := Ptr b\<rparr>, REDIS_OK) \<and>
    out_text (c\<lparr>obuf := Ptr b\<rparr>) (q @ command ts)"
proof -
  obtain s where s: "redisFormatSdsCommandArgv A True (int (length argv)) argv argvlen =
      Some (Ptr s, int (length (command ts)))" "sds_ok s" "sds_content s = command ts"
    using FormatSdsCommandArgv_spec [OF g a] lim by auto
  have u: "usz_of_int (int (length (command ts))) = length (command ts)" using lim by (simp add: usz_of_int_id)
  have "length q + length (sds_content s) < 2 ^ 31" using lim s(3) by simp
  from append_text [OF g o s(2) this] show ?thesis using s(1,3) u by (auto simp: redisAppendCommandArgv_def)
qed

lemma connected_append:
  assumes "connected c q t r" and "\<forall>n. grant A n" and "argv_denotes argv argvlen ts"
    and "length q + length (command ts) + 3 < 2 ^ 31"
    and "serves (io c) (sent c @ q @ command ts) (received c @ t)"
  shows "\<exists>d. redisAppendCommandArgv A c (int (length argv)) argv argvlen = Some (d, REDIS_OK) \<and>
    connected d (q @ command ts) t r \<and> sent d = sent c \<and> received d = received c \<and> io d = io c"
proof -
  have o: "out_text c q" using assms(1) by (simp add: connected_def)
  from append_step [OF assms(2) o assms(3,4)] obtain b where
    "redisAppendCommandArgv A c (int (length argv)) argv argvlen = Some (c\<lparr>obuf := Ptr b\<rparr>, REDIS_OK)"
    "out_text (c\<lparr>obuf := Ptr b\<rparr>) (q @ command ts)" by blast
  then show ?thesis using assms(1,4,5) by (intro exI [of _ "c\<lparr>obuf := Ptr b\<rparr>"]) (simp add: connected_def sent_def received_def)
qed

text \<open>The first look into the reader: the reply may have arrived already, with bytes that were left over.\<close>

lemma look_first:
  assumes r: "reader c = Inr r" "idle r" and F: "awaits t r F" "reply F \<noteq> 0" "unread F = rest" and u: "unread r @ t = encode v @ rest"
  shows "\<exists>d a. redisGetReplyFromReader c = Some (d, a, REDIS_OK) \<and> read_only c d \<and> received d = received c \<and>
    (a = reply F \<and> replied c t F d \<and> unread r \<noteq> [] \<or> a = 0 \<and> t \<noteq> [] \<and> waits d t F)"
proof (cases "rlen r = 0")
  case True
  then have "unread r = []" using r(2) by (auto simp: idle_def elim: reader_okE)
  then have "t \<noteq> []" using u length_encode [of v] by auto
  moreover have "redisGetReplyFromReader c = Some (c, 0, REDIS_OK)"
    using r(1) get_empty [OF F(1) True] by (simp add: redisGetReplyFromReader_def the_reader_def)
  ultimately show ?thesis using r(1) F(1) by (auto simp: waits_def read_only_def)
next
  case False
  from get_from_reader [OF r(1) F(1) False F(2)] obtain d a where d: "redisGetReplyFromReader c = Some (d, a, REDIS_OK)"
    "read_only c d" "received d = received c"
    "a = reply F \<and> replied c t F d \<or> a = 0 \<and> t \<noteq> [] \<and> waits d t F" by blast
  have "unread r \<noteq> []" if rp: "replied c t F d"
  proof
    assume "unread r = []"
    then have t: "t = encode v @ rest" using u by (metis append_Nil)
    obtain x y where xy: "unread F = x @ y" "received d @ y = received c @ t"
      using rp unfolding replied_def by blast
    have "y = t" using xy(2) d(3) by simp
    then have "length rest = length x + length t" using xy(1) F(3) by (metis length_append)
    moreover have "length t = length (encode v) + length rest" using t by (metis length_append)
    ultimately have "length (encode v) = 0" by simp
    then show False using length_encode [of v] by simp
  qed
  then show ?thesis using d by blast
qed

text \<open>The connection after a reply was taken, wherever the writing has left the output buffer.\<close>

lemma connected_replied:
  assumes c: "connected c q t r" and rp: "replied d t F f"
    and d: "cerr d = 0" "cflags d = cflags c" "os (io d) = os (io c)" "out_text d p" "length p < 2 ^ 31 - 1"
      "sent d @ p = sent c @ q" "received d = received c"
  shows "\<exists>t' r'. connected f p t' r' \<and> world r' = world F \<and> unread r' @ t' = unread F \<and> sent f @ p = sent c @ q \<and>
    received f @ t' = received c @ t"
proof -
  from rp obtain r' t' where x: "read_only d f" "reader f = Inr r'" "idle r'" "world r' = world F"
    "unread F = unread r' @ t'" "received f @ t' = received d @ t" "rlen r' + length t' < 2 ^ 31 - 1"
    by (auto simp: replied_def)
  note ro = read_onlyD [OF x(1)]
  have "connected f p t' r'"
    using c d x ro by (simp add: connected_def write_sound_def write_live_def serves_def out_text_def)
  then show ?thesis using x d ro by (intro exI [of _ t'] exI [of _ r']) simp
qed

text \<open>One call of \<open>redisGetReply\<close>; the buffer is flushed unless the reply had already arrived.\<close>

lemma connected_reply:
  assumes g: "\<forall>n. grant A n" and c: "connected c q t r" and u: "unread r @ t = encode v @ rest" and v: "value_ok 0 v"
  shows "\<exists>d p t' r'. redisGetReply A c = Some (d, nxt (world r), REDIS_OK) \<and> connected d p t' r' \<and>
    world r' = took r v \<and> unread r' @ t' = rest \<and> sent d @ p = sent c @ q \<and> received d @ t' = received c @ t \<and>
    (unread r = [] \<or> q = [] \<longrightarrow> p = [])"
proof -
  from c have e: "cerr c = 0" and bl: "has (cflags c) REDIS_BLOCK" and o: "out_text c q" "length q < 2 ^ 31 - 1"
    and r: "reader c = Inr r" "idle r" "rlen r + length t < 2 ^ 31 - 1"
    and s: "write_sound (io c)" "write_live (io c)" "serves (io c) (sent c @ q) (received c @ t)"
    by (auto simp: connected_def)
  obtain F where F: "awaits t r F" "reply F = nxt (world r)" "unread F = rest" "world F = took r v"
    using idle_awaits [OF r(2) u v r(3)] by blast
  have nz: "reply F \<noteq> 0" using F(2) r(2) by (auto simp: idle_def heap_ready_def)
  obtain d a where d: "redisGetReplyFromReader c = Some (d, a, REDIS_OK)" "read_only c d" "received d = received c"
    "a = reply F \<and> replied c t F d \<and> unread r \<noteq> [] \<or> a = 0 \<and> t \<noteq> [] \<and> waits d t F"
    using look_first [OF r(1,2) F(1) nz F(3) u] by blast
  note ro = read_onlyD [OF d(2)]
  show ?thesis
  proof (cases "a = 0")
    case False
    then have "redisGetReply A c = Some (d, nxt (world r), REDIS_OK)"
      using d nz F(2) by (simp add: redisGetReply_def redis_codes)
    moreover have rp: "replied c t F d" and "unread r \<noteq> []" using d(4) False by simp_all
    moreover note connected_replied [OF c rp e refl refl o refl refl]
    ultimately show ?thesis using F(3,4) by metis
  next
    case True
    then have w: "t \<noteq> []" "waits d t F" using d(4) nz by auto
    have io: "write_sound (io d)" "write_live (io d)" using s ro by (simp_all add: write_sound_def write_live_def)
    have od: "out_text d q" using o(1) ro(3) by (simp add: out_text_def)
    have "cerr d = 0" using ro(1) e by simp
    from write_all_spec [OF g this od o(2) io] obtain x where
      x: "write_all A d = Some (x, REDIS_OK)" "wrote d x" "out_text x []" "sent x = sent d @ q" "cerr x = 0" by blast
    note wd = wroteD [OF x(2)]
    have wx: "waits x t F" using w(2) wd(1) by (simp add: waits_def)
    have "serves (io x) (sent x) (received x @ t)" using s(3) wd ro x(4) d(3) by (simp add: serves_def)
    from read_reply_spec [OF g nz x(5) wx w(1) this] obtain f where
      f: "read_reply A x = Some (f, reply F, REDIS_OK)" "replied x t F f" by blast
    have "redisGetReply A c = Some (f, nxt (world r), REDIS_OK)"
      using d(1) True ro(2) bl x(1) f(1) F(2) by (simp add: redisGetReply_def redis_codes)
    moreover have "\<exists>t' r'. connected f [] t' r' \<and> world r' = world F \<and> unread r' @ t' = unread F \<and> sent f @ [] = sent c @ q \<and>
        received f @ t' = received c @ t"
      by (rule connected_replied [OF c f(2) x(5) _ _ x(3)]) (use wd ro x(4) d(3) in simp_all)
    ultimately show ?thesis using F(3,4) by metis
  qed
qed

end
