(* ===== verification/Arguments.thy ===== *)
theory Arguments
  imports Lifecycle Transport Dict_Map
begin

text \<open>
  How the asynchronous client reads back the command it has just formatted: \<open>nextArgument\<close> steps from
  one argument of the wire form to the next, and the first of them decides what the command does.
\<close>

section \<open>Characters of a command\<close>

lemma digits_value_digits_val: "(\<forall>c \<in> set s. is_digit c) \<Longrightarrow> int (digits_value a s) = digits_val (int a) s"
proof (induction s arbitrary: a)
  case (Cons c s)
  have "int (a * 10 + (uch c - 48)) = int a * 10 + digit_val c"
    using Cons.prems by (simp add: digit_val_def is_digit_def of_nat_diff)
  then show ?case using Cons by (simp add: digits_val_def)
qed (simp add: digits_val_def)

lemma digits_value_dec_nat: "digits_value 0 (dec_nat n) = n"
  using digits_value_digits_val [of "dec_nat n" 0] digits_val_dec_nat dec_nat_digits by simp

lemma digit_plain: "is_digit c \<Longrightarrow> \<not> isspace c \<and> c \<noteq> CHR ''-'' \<and> c \<noteq> CHR ''+'' \<and> c \<noteq> CR \<and> c \<noteq> NUL \<and> c \<noteq> CHR ''$''"
  by (auto simp: is_digit_def isspace_def uch_def)

lemma strtol_dec_nat:
  assumes "n < 2 ^ 31" and "z = [] \<or> \<not> is_digit (hd z)"
  shows "strtol (dec_nat n @ z) = int n"
proof -
  obtain d ds where d: "dec_nat n = d # ds" by (cases "dec_nat n") auto
  have dg: "\<forall>c \<in> set (dec_nat n). is_digit c" using dec_nat_digits by blast
  then have "dropWhile isspace (dec_nat n @ z) = dec_nat n @ z" "take 1 (dec_nat n @ z) \<noteq> ''-''" "take 1 (dec_nat n @ z) \<noteq> ''+''"
    using digit_plain [of d] by (auto simp: d)
  moreover have "takeWhile is_digit (dec_nat n @ z) = dec_nat n"
    using dg assms(2) by (cases z) (auto simp: takeWhile_append)
  ultimately show ?thesis using assms(1) by (simp add: strtol_def digits_value_dec_nat)
qed

lemma find_char_here: "ch \<notin> set s \<Longrightarrow> NUL \<notin> set s \<Longrightarrow> find_char (s @ ch # z) ch p = Some (Ptr (p + length s))"
  by (induction s arbitrary: p) auto

section \<open>Stepping through the arguments\<close>

lemma next_bulk:
  assumes b: "b = pre @ bulk t @ post" and t: "length t < 2 ^ 31" and l: "length pre + length (bulk t) < 2 ^ 32"
  shows "nextArgument b (length pre) = Some (Ptr (length pre + length (bulk t), length pre + length (bulk t) - length t - 2, length t))"
proof -
  let ?n = "dec_nat (length t)" and ?p = "length pre"
  have b': "b = pre @ CHR ''$'' # ?n @ CR # LF # t @ CRLF @ post" by (simp add: b bulk_def CRLF_def)
  have dg: "CR \<notin> set ?n" "NUL \<notin> set ?n" using dec_nat_digits digit_plain by blast+
  have dr: "drop (?p + 1) b = ?n @ CR # LF # t @ CRLF @ post" "drop ?p b = (CHR ''$'' # ?n) @ CR # LF # t @ CRLF @ post"
    by (simp_all add: b')
  have x: "peek b ?p = Some (CHR ''$'')" by (simp add: peek_def b')
  have cr: "strchr_at b ?p CR = Some (Ptr (?p + length (CHR ''$'' # ?n)))"
    unfolding strchr_at_def dr(2) using dg by (subst find_char_here) (simp_all add: b')
  have n: "strtol (drop (?p + 1) b) = int (length t)"
    unfolding dr(1) using t by (intro strtol_dec_nat) (simp_all add: is_digit_def uch_def)
  have i: "usz_of_int (int32 (int (length t))) = length t" using t by (simp add: int32_id usz_of_int_id)
  have lb: "length (bulk t) = 1 + length ?n + 2 + length t + 2" by (simp add: bulk_def)
  have "?p + length (bulk t) < 2 ^ 64" using l by simp
  then show ?thesis
    unfolding nextArgument_def x using cr n i lb by (simp add: usz_def add.assoc Let_def)
qed

lemma skip_header:
  assumes "b = command ts @ post" and "ts = t # us"
  shows "nextArgument b 0 = nextArgument b (1 + length (dec_nat (length ts)) + 2)"
proof -
  let ?h = "CHR ''*'' # dec_nat (length ts) @ CRLF"
  have b: "b = ?h @ CHR ''$'' # tl (concat (map bulk ts) @ post)" using assms by (simp add: command_def bulk_def)
  have d: "CHR ''$'' \<notin> set ?h" "NUL \<notin> set ?h" using dec_nat_digits digit_plain by (auto simp: CRLF_def)
  let ?p = "length ?h"
  have "strchr_at b 0 (CHR ''$'') = Some (Ptr ?p)"
    using find_char_here [OF d, of "tl (concat (map bulk ts) @ post)" 0] b by (simp add: strchr_at_def)
  moreover have "peek b 0 = Some (CHR ''*'')" "peek b ?p = Some (CHR ''$'')"
    by (subst b, simp add: peek_def nth_append)+
  moreover have "?p = 1 + length (dec_nat (length ts)) + 2" by simp
  ultimately show ?thesis unfolding nextArgument_def by simp
qed

lemma next_none: "b = pre @ NUL # post \<Longrightarrow> nextArgument b (length pre) = Some Nullp"
  by (simp add: nextArgument_def peek_def strchr_at_def)

section \<open>The name of the command\<close>

lemma tolower_CR: "tolower c = CR \<longleftrightarrow> c = CR"
proof -
  have u: "uch CR = 13" by (simp add: uch_def)
  have "uch (tolower c) = uch CR \<Longrightarrow> uch c = uch CR" unfolding u by (auto simp: tolower_def split: if_splits)
  then have "tolower c = CR \<Longrightarrow> c = CR" by simp
  moreover have "tolower CR = CR" by (simp add: tolower_def u)
  ultimately show ?thesis by blast
qed

lemma drop_step: "drop p b = x # r \<Longrightarrow> peek b p = Some x \<and> drop (Suc p) b = r"
  by (metis drop_Suc drop_all drop_tl hd_drop_conv_nth list.distinct(1) list.sel(1,3) not_le peek_def)

lemma prefix_nocase_word:
  "drop p b = name @ CRLF @ z \<Longrightarrow> CR \<notin> set name \<Longrightarrow> CR \<notin> set w \<Longrightarrow> map tolower w = w \<Longrightarrow>
   prefix_nocase b p (w @ CRLF) = Some (map tolower name = w)"
proof (induction w arbitrary: name p)
  case Nil
  show ?case
  proof (cases name)
    case (Cons x xs)
    then show ?thesis using drop_step Nil.prems(1,2) tolower_CR [of x] tolower_CR [of CR] by (fastforce simp: CRLF_def)
  next
    case name: Nil
    then have "drop p b = CR # LF # z" using Nil.prems(1) by (simp add: CRLF_def)
    then have "peek b p = Some CR" "peek b (Suc p) = Some LF" using drop_step by metis+
    then show ?thesis using name by (simp add: CRLF_def)
  qed
next
  case (Cons a w)
  show ?case
  proof (cases name)
    case Nil
    then have "peek b p = Some CR" using drop_step Cons.prems(1) by (simp add: CRLF_def)
    then show ?thesis using Nil Cons.prems(3,4) tolower_CR [of CR] by auto
  next
    case name: (Cons x xs)
    then have d: "peek b p = Some x" "drop (p + 1) b = xs @ CRLF @ z" using drop_step Cons.prems(1) by fastforce+
    then have "prefix_nocase b (p + 1) (w @ CRLF) = Some (map tolower xs = w)" using Cons name by simp
    then show ?thesis using d name Cons.prems(4) by simp
  qed
qed

section \<open>Registering\<close>

text \<open>What the name of the command means: its variant for patterns, and the rest in lower case.\<close>

definition for_patterns :: "bytes \<Rightarrow> bool" where
  "for_patterns name \<longleftrightarrow> map tolower (take 1 name) = ''p''"

definition verb :: "bytes \<Rightarrow> bytes" where
  "verb name = map tolower (if for_patterns name then tl name else name)"

definition queued :: "allocator \<Rightarrow> redisCallback \<Rightarrow> redisAsyncContext \<Rightarrow> (redisAsyncContext + redisAsyncContext) option" where
  "queued A cb ac = do { (l, _) \<leftarrow> redisPushCallback A (replies ac) cb; Some (Inr (ac\<lparr>replies := l\<rparr>)) }"

definition registered :: "allocator \<Rightarrow> redisAsyncContext \<Rightarrow> redisCallback \<Rightarrow> bytes list
    \<Rightarrow> (redisAsyncContext option) \<Rightarrow> (redisAsyncContext + redisAsyncContext) option" where
  "registered A ac cb ts subs =
     (if verb (hd ts) = ''subscribe'' \<and> tl ts \<noteq> [] then map_option Inr subs
      else if verb (hd ts) = ''unsubscribe'' then Some (if has (aflags ac) REDIS_SUBSCRIBED then Inr ac else Inl ac)
      else if verb (hd ts) = ''monitor'' then queued A cb (set_aflags ac (aflags ac OR REDIS_MONITORING))
      else if has (aflags ac) REDIS_SUBSCRIBED
      then do { (l, _) \<leftarrow> redisPushCallback A (sub_invalid ac) cb; Some (Inr (ac\<lparr>sub_invalid := l\<rparr>)) }
      else queued A cb ac)"

lemma register_command:
  assumes b: "b = command (name # args) @ NUL # post" and l: "length (command (name # args)) < 2 ^ 32" "length name < 2 ^ 31" and cr: "CR \<notin> set name"
  defines "pre \<equiv> CHR ''*'' # dec_nat (length (name # args)) @ CRLF @ bulk name"
  shows "b = pre @ concat (map bulk args) @ NUL # post"
    and "register_callback A ac cb b = registered A ac cb (name # args)
      (subscribe_all A b (for_patterns name) cb (length pre) (set_aflags ac (aflags ac OR REDIS_SUBSCRIBED)))"
proof -
  let ?h = "CHR ''*'' # dec_nat (length (name # args)) @ CRLF" and ?rest = "concat (map bulk args) @ NUL # post"
  have b': "b = ?h @ bulk name @ ?rest" using b by (simp add: command_def)
  then show bp: "b = pre @ concat (map bulk args) @ NUL # post" by (simp add: pre_def)
  let ?cs = "length pre - length name - 2"
  have "1 + length (dec_nat (length (name # args))) + 2 = length ?h" by simp
  moreover have "length ?h + length (bulk name) = length pre" by (simp add: pre_def)
  moreover have hl: "length ?h + length (bulk name) < 2 ^ 32" using l(1) by (simp add: command_def)
  ultimately have x: "nextArgument b 0 = Some (Ptr (length pre, ?cs, length name))"
    using next_bulk [OF b' l(2) hl] skip_header [OF b refl] by simp
  have nx: "peek b (length pre) = Some (if args = [] then NUL else CHR ''$'')"
    by (cases args) (simp_all add: bp peek_def bulk_def nth_append)
  have "length pre = length (?h @ CHR ''$'' # dec_nat (length name) @ CRLF) + length name + 2"
    by (simp add: pre_def bulk_def)
  then have cs: "?cs = length (?h @ CHR ''$'' # dec_nat (length name) @ CRLF)" by simp
  have "b = (?h @ CHR ''$'' # dec_nat (length name) @ CRLF) @ name @ CRLF @ ?rest" using b' by (simp add: bulk_def)
  then have dr: "drop ?cs b = name @ CRLF @ ?rest" unfolding cs by (metis append_eq_conv_conj)
  have c0: "peek b ?cs = Some (hd (name @ CRLF))"
    using dr drop_step [of ?cs b] by (cases name) (simp_all add: CRLF_def)
  have pv: "tolower (hd (name @ CRLF)) = CHR ''p'' \<longleftrightarrow> for_patterns name"
    using tolower_CR [of CR] by (cases name) (simp_all add: for_patterns_def CRLF_def)
  let ?k = "?cs + (if for_patterns name then 1 else 0)" and ?base = "if for_patterns name then tl name else name"
  have "for_patterns name \<Longrightarrow> name \<noteq> []" by (auto simp: for_patterns_def)
  then have dk: "drop ?k b = ?base @ CRLF @ ?rest"
    using dr by (auto simp: drop_Suc drop_tl)
  have crb: "CR \<notin> set ?base" using cr by (cases name) auto
  have w: "prefix_nocase b ?k (w @ CRLF) = Some (verb name = w)" if "CR \<notin> set w" "map tolower w = w" for w
    using prefix_nocase_word [OF dk crb that] by (simp add: verb_def)
  have low: "map tolower ''subscribe'' = ''subscribe''" "map tolower ''unsubscribe'' = ''unsubscribe''"
    "map tolower ''monitor'' = ''monitor''" by code_simp+
  have words: "prefix_nocase b ?k (''subscribe'' @ CRLF) = Some (verb name = ''subscribe'')"
    "prefix_nocase b ?k (''unsubscribe'' @ CRLF) = Some (verb name = ''unsubscribe'')"
    "prefix_nocase b ?k (''monitor'' @ CRLF) = Some (verb name = ''monitor'')"
    using w [OF _ low(1)] w [OF _ low(2)] w [OF _ low(3)] by simp_all
  show "register_callback A ac cb b = registered A ac cb (name # args)
      (subscribe_all A b (for_patterns name) cb (length pre) (set_aflags ac (aflags ac OR REDIS_SUBSCRIBED)))"
    unfolding register_callback_def x deref.simps Option.bind.bind_lunit prod.case nx c0 pv Let_def words
    by (cases "args = []") (simp_all add: registered_def queued_def map_conv_bind_option comp_def)
qed

section \<open>Subscribing\<close>

lemma as_channel_text: "length t < 2 ^ 31 \<Longrightarrow> channel_text (as_channel t) = t"
  by transfer simp

lemma channel_type_ok: "type_ok callbackDict"
proof -
  have "callbackKeyCompare x y \<longleftrightarrow> x = y" for x y
    using channel_text_length [of x] channel_text_length [of y]
    by (auto simp: callbackKeyCompare_def Let_def int32_id usz_of_int_id channel_text_inject)
  then show ?thesis by (simp add: type_ok_def callbackDict_def callbackValDup_def)
qed

lemma set_table_same: "table_of v ac = d \<Longrightarrow> set_table v ac d = ac"
  by (simp add: table_of_def set_table_def split: if_splits)

lemma set_table_table [simp]: "table_of v (set_table v ac d) = d" "set_table v (set_table v ac d) e = set_table v ac e"
  by (simp_all add: table_of_def set_table_def)

text \<open>The loop over the channels is the client \<open>store_all\<close> of the table.\<close>

lemma subscribe_all_store:
  assumes g: "\<forall>n. grant A n"
  shows "b = pre @ concat (map bulk chs) @ NUL # post \<Longrightarrow> length pre + length (concat (map bulk chs)) < 2 ^ 32 \<Longrightarrow> \<forall>t \<in> set chs. length t < 2 ^ 31 \<Longrightarrow> table_of v ac = Ptr d \<Longrightarrow>
    subscribe_all A b v cb (length pre) ac = do {
      d \<leftarrow> store_all (dictReplace A) d (map (\<lambda>t. (as_channel t, cb)) chs);
      Some (set_table v ac (Ptr d)) }"
proof (induction chs arbitrary: pre ac d)
  case Nil
  then show ?case by (subst subscribe_all.simps) (simp add: next_none set_table_same)
next
  case (Cons t chs)
  have b: "b = pre @ bulk t @ (concat (map bulk chs) @ NUL # post)" using Cons.prems(1) by simp
  let ?off = "length pre + length (bulk t) - length t - 2"
  have t: "length t < 2 ^ 31" and l: "length pre + length (bulk t) < 2 ^ 32" using Cons.prems(2,3) by simp_all
  have "?off = length (pre @ CHR ''$'' # dec_nat (length t) @ CRLF)" by (simp add: bulk_def)
  moreover have "b = (pre @ CHR ''$'' # dec_nat (length t) @ CRLF) @ t @ CRLF @ concat (map bulk chs) @ NUL # post"
    using b by (simp add: bulk_def)
  ultimately have dr: "drop ?off b = t @ CRLF @ concat (map bulk chs) @ NUL # post" by (metis append_eq_conv_conj)
  have "length t < size_limit" using t by (simp add: size_limit_def)
  then have "yields A (sdsnewlen A (Ptr (drop ?off b)) (length t)) (\<lambda>s. sds_ok s \<and> sds_content s = t)"
    using sdsnewlen_spec [of "length t" "Ptr (drop ?off b)" A] unfolding dr by simp
  from yields_granted [OF this g] obtain q where q: "sdsnewlen A (Ptr (drop ?off b)) (length t) = Some (Ptr q)"
    "sds_content q = t" by blast
  have k: "channel_key (Ptr q) = Some (as_channel t)"
    using q(2) t by (simp add: channel_key_def channel_of_def flip: sds_content_def)
  show ?case
  proof (cases "dictReplace A d (as_channel t) cb")
    case None
    then show ?thesis
      using next_bulk [OF b t l] q(1) k Cons.prems(4) g by (subst subscribe_all.simps) simp
  next
    case (Some z)
    have "subscribe_all A b v cb (length pre) ac = subscribe_all A b v cb (length (pre @ bulk t)) (set_table v ac (Ptr (fst z)))"
      using next_bulk [OF b t l] q(1) k Cons.prems(4) g Some by (subst subscribe_all.simps) simp
    also have "\<dots> = do {
        d \<leftarrow> store_all (dictReplace A) (fst z) (map (\<lambda>t. (as_channel t, cb)) chs);
        Some (set_table v (set_table v ac (Ptr (fst z))) (Ptr d)) }"
      using Cons.prems b by (intro Cons.IH) simp_all
    finally show ?thesis using Some by (simp add: case_prod_unfold)
  qed
qed

text \<open>Where a callback is found: the table of its kind, by the text of the channel.\<close>

definition subscribed :: "bool \<Rightarrow> redisAsyncContext \<Rightarrow> bytes \<Rightarrow> redisCallback option" where
  "subscribed v ac t = (case table_of v ac of Nullp \<Rightarrow> None
     | Ptr d \<Rightarrow> if length t < 2 ^ 31 then dict_map d (as_channel t) else None)"

definition tables_ok :: "redisAsyncContext \<Rightarrow> nat \<Rightarrow> bool" where
  "tables_ok ac n \<longleftrightarrow> (\<forall>v. \<exists>d. table_of v ac = Ptr d \<and> dict_ok d \<and> used d + n \<le> 2 ^ 30)"

lemma as_channel_eq: "length s < 2 ^ 31 \<Longrightarrow> length t < 2 ^ 31 \<Longrightarrow> as_channel s = as_channel t \<longleftrightarrow> s = t"
  by (metis as_channel_text)

lemma subscribe_all_spec:
  assumes g: "\<forall>n. grant A n" and b: "b = pre @ concat (map bulk chs) @ NUL # post"
    and l: "length pre + length (concat (map bulk chs)) < 2 ^ 32"
    and n: "\<forall>t \<in> set chs. length t < 2 ^ 31" and ok: "tables_ok ac (length chs)"
  shows "\<exists>d. subscribe_all A b v cb (length pre) ac = Some (set_table v ac (Ptr d)) \<and> dict_ok d \<and>
    subscribed v (set_table v ac (Ptr d)) = (\<lambda>t. if t \<in> set chs then Some cb else subscribed v ac t)"
proof -
  from ok obtain d where d: "table_of v ac = Ptr d" "dict_ok d" "used d + length chs \<le> 2 ^ 30"
    by (auto simp: tables_ok_def)
  let ?kvs = "map (\<lambda>t. (as_channel t, cb)) chs"
  have "used d + length ?kvs \<le> 2 ^ 30" using d(3) by simp
  from hashed.store_all_law [OF g d(2) this] obtain e where e: "store_all (dictReplace A) d ?kvs = Some e" "dict_ok e"
    "dict_map e = dict_map d ++ map_of (rev ?kvs)" by blast
  have look: "dict_map e (as_channel t) = (if t \<in> set chs then Some cb else dict_map d (as_channel t))" if "length t < 2 ^ 31" for t
  proof (cases "t \<in> set chs")
    case True
    then obtain x where x: "map_of (rev ?kvs) (as_channel t) = Some x"
      by (metis (no_types, lifting) fst_conv image_eqI list.set_map map_of_eq_None_iff not_Some_eq set_rev)
    then have "x = cb" by (auto dest!: map_of_SomeD)
    then show ?thesis using x True e(3) by simp
  next
    case False
    then have "map_of (rev ?kvs) (as_channel t) = None"
      using n that by (auto simp: map_of_eq_None_iff as_channel_eq)
    then show ?thesis using False e(3) by (simp add: map_add_def)
  qed
  have "subscribe_all A b v cb (length pre) ac = Some (set_table v ac (Ptr e))"
    using subscribe_all_store [OF g b l n d(1)] e(1) by simp
  moreover have "subscribed v (set_table v ac (Ptr e)) = (\<lambda>t. if t \<in> set chs then Some cb else subscribed v ac t)"
    using look n d(1) by (auto simp: subscribed_def)
  ultimately show ?thesis using e(2) by blast
qed

section \<open>Issuing a command\<close>

lemma sds_buffer: "sds_ok s \<Longrightarrow> \<exists>z. buf s = sds_content s @ NUL # z"
  unfolding sds_ok_def sds_wf_def sds_content_def by (metis id_take_nth_drop)

definition open_for_commands :: "redisAsyncContext \<Rightarrow> bool" where
  "open_for_commands ac \<longleftrightarrow> \<not> freed ac \<and> \<not> has (aflags ac) (REDIS_DISCONNECTING OR REDIS_FREEING)"

text \<open>The command is entered in the queue or table its name asks for, and then appended to the output.\<close>

lemma issue_command:
  assumes g: "\<forall>n. grant A n" and o: "open_for_commands ac" and a: "argv_denotes argv lens (name # args)"
    and lim: "length (command (name # args)) + 3 < 2 ^ 31" and cr: "CR \<notin> set name"
  shows "\<exists>b pre post s. b = pre @ concat (map bulk args) @ NUL # post \<and> length pre + length (concat (map bulk args)) < 2 ^ 32 \<and>
    sds_ok s \<and> sds_content s = command (name # args) \<and>
    redisAsyncCommandArgv A ac f p (int (length argv)) argv lens = do {
      r \<leftarrow> registered A ac \<lparr>cb_fn = f, cb_privdata = p\<rparr> (name # args)
        (subscribe_all A b (for_patterns name) \<lparr>cb_fn = f, cb_privdata = p\<rparr> (length pre) (set_aflags ac (aflags ac OR REDIS_SUBSCRIBED)));
      (case r of
         Inl ac \<Rightarrow> Some (ac, REDIS_ERR)
       | Inr ac \<Rightarrow> do {
           (c, _) \<leftarrow> append_command A (ac_c ac) (buf s) (length (sds_content s));
           Some (el AddWrite (ac\<lparr>ac_c := c\<rparr>), REDIS_OK) }) }"
proof -
  obtain s where s: "redisFormatSdsCommandArgv A True (int (length argv)) argv lens = Some (Ptr s, int (length (command (name # args))))"
    "sds_ok s" "sds_content s = command (name # args)"
    using FormatSdsCommandArgv_spec [OF g a lim] by blast
  obtain post where b: "buf s = command (name # args) @ NUL # post" using sds_buffer [OF s(2)] s(3) by auto
  have u: "usz_of_int (int (length (command (name # args)))) = length (command (name # args))"
    using lim by (simp add: usz_of_int_id)
  have l: "length (command (name # args)) < 2 ^ 32" "length name < 2 ^ 31"
    using lim by (simp_all add: command_def bulk_def)
  let ?pre = "CHR ''*'' # dec_nat (length (name # args)) @ CRLF @ bulk name"
  note r = register_command [OF b l cr]
  have n: "length ?pre + length (concat (map bulk args)) < 2 ^ 32" using l(1) by (simp add: command_def)
  have "alive ac = Some ac" "\<not> has (aflags ac) (REDIS_DISCONNECTING OR REDIS_FREEING)"
    using o by (simp_all add: open_for_commands_def)
  then have "redisAsyncCommandArgv A ac f p (int (length argv)) argv lens = do {
      r \<leftarrow> registered A ac \<lparr>cb_fn = f, cb_privdata = p\<rparr> (name # args)
        (subscribe_all A (buf s) (for_patterns name) \<lparr>cb_fn = f, cb_privdata = p\<rparr> (length ?pre) (set_aflags ac (aflags ac OR REDIS_SUBSCRIBED)));
      (case r of
         Inl ac \<Rightarrow> Some (ac, REDIS_ERR)
       | Inr ac \<Rightarrow> do {
           (c, _) \<leftarrow> append_command A (ac_c ac) (buf s) (length (sds_content s));
           Some (el AddWrite (ac\<lparr>ac_c := c\<rparr>), REDIS_OK) }) }"
    by (simp only: redisAsyncCommandArgv_def async_command_def s(1,3) u r(2) Option.bind.bind_lunit prod.case deref.simps if_False
      of_nat_less_0_iff simp_thms)
  with r(1) s(2,3) n show ?thesis by blast
qed

end
