(* ===== verification/Dispatch.thy ===== *)
theory Dispatch
  imports Lifecycle Transport
begin

text \<open>
  From the bytes of the socket to the callbacks: what one read event and a sequence of them deliver.
  A connected context has callbacks queued and a stream of values on its way to it, in pieces of any
  size; every value goes to the callback whose turn it is, as a live object, and is then freed.
\<close>

section \<open>A stream on its way\<close>

text \<open>The heap after an object has been built, and its shape before: nothing at or above \<open>nxt\<close>.\<close>

definition built :: "rheap \<Rightarrow> rvalue \<Rightarrow> rheap" where
  "built h v = h\<lparr>objs := place (nxt h) v (objs h), nxt := nxt h + ticks v\<rparr>"

definition fresh :: "rheap \<Rightarrow> bool" where
  "fresh h \<longleftrightarrow> heap_ready h \<and> (\<forall>b \<ge> nxt h. objs h b = None)"

definition spent :: "rheap \<Rightarrow> rvalue \<Rightarrow> rheap" where
  "spent h v = h\<lparr>nxt := nxt h + ticks v\<rparr>"

text \<open>
  \<open>t\<close> is what has not arrived of the values \<open>vs\<close>, and \<open>h\<close> the heap before the first of them. Behind
  the last value the reader waits for one more, here a nil that is never sent.
\<close>

definition streaming :: "redisContext \<Rightarrow> rheap \<Rightarrow> bytes \<Rightarrow> rvalue list \<Rightarrow> bool" where
  "streaming c h t vs \<longleftrightarrow> cerr c = 0 \<and> fresh h \<and> (\<forall>v \<in> set vs. value_ok 0 v) \<and> (vs = [] \<longrightarrow> t = []) \<and>
     (\<exists>r F. reader c = Inr r \<and> (t = [] \<and> vs \<noteq> [] \<longrightarrow> rlen r \<noteq> 0) \<and>
        (let v = (if vs = [] then VNil else hd vs) in
         awaits (if vs = [] then encode v else t) r F \<and> reply F = nxt h \<and> world F = built h v \<and>
         unread F = concat (map encode (tl vs))))"

lemma streamingI:
  assumes "cerr c = 0" and "fresh (world r)" and "\<forall>v \<in> set vs. value_ok 0 v" and "reader c = Inr r" and "idle r"
    and "unread r @ t = concat (map encode vs)" and "rlen r + length t < 2 ^ 31 - 1" and "vs = [] \<Longrightarrow> pos r < 1024"
  shows "streaming c (world r) t vs"
proof (cases vs)
  case Nil
  have "unread r = []" "t = []" using assms(6) Nil by simp_all
  moreover from assms(5) have "length (unread r) = rlen r - pos r" "pos r \<le> rlen r" by (auto simp: idle_def elim: reader_okE)
  ultimately have "rlen r + length (encode VNil) < 2 ^ 31 - 1" using assms(8) Nil by simp
  moreover have "value_ok 0 VNil" by simp
  ultimately obtain F where "awaits (encode VNil) r F" "reply F = nxt (world r)" "unread F = []" "world F = took r VNil"
    using idle_awaits [OF assms(5), of "encode VNil" VNil "[]"] \<open>unread r = []\<close> by auto
  then show ?thesis
    unfolding streaming_def Let_def using Nil \<open>t = []\<close> assms(1,2,4) by (auto simp: built_def took_def simp del: encode.simps place.simps ticks.simps)
next
  case (Cons v ws)
  have "length (unread r) \<le> rlen r" using assms(5) by (auto simp: idle_def elim: reader_okE)
  then have n: "t = [] \<longrightarrow> rlen r \<noteq> 0" using assms(6) Cons length_encode [of v] by auto
  from Cons  have "unread r @ t = encode v @ concat (map encode ws)" "value_ok 0 v" using assms(3,6) by simp_all
  from idle_awaits [OF assms(5) this assms(7)] show ?thesis
    using n Cons assms(1-4) by (auto simp: streaming_def built_def took_def)
qed

lemma free_built: "fresh h \<Longrightarrow> freeReplyObject (built h v) (nxt h) = Some (spent h v)"
proof -
  assume "fresh h"
  then have "0 < nxt h" "\<And>b. nxt h \<le> b \<Longrightarrow> objs (spent h v) b = None"
    by (simp_all add: fresh_def heap_ready_def spent_def)
  from freeReplyObject_placed [OF this] show ?thesis by (simp add: built_def spent_def)
qed

lemma fresh_spent: "fresh h \<Longrightarrow> fresh (spent h v)"
  by (simp add: fresh_def spent_def heap_ready_def)

lemma live_built: "fresh h \<Longrightarrow> live (objs (built h v)) (nxt h) v"
  using live_place(1) by (simp add: fresh_def built_def)

text \<open>Asking for a reply: it is not complete, or it is the next value.\<close>

definition completed :: "redisContext \<Rightarrow> rheap \<Rightarrow> bytes \<Rightarrow> rvalue \<Rightarrow> rvalue list \<Rightarrow> bool" where
  "completed d h t v ws \<longleftrightarrow> cerr d = 0 \<and> fresh h \<and> (\<forall>v \<in> set ws. value_ok 0 v) \<and>
     (\<exists>r. reader d = Inr r \<and> idle r \<and> world r = built h v \<and> unread r @ t = concat (map encode ws) \<and>
        rlen r + length t < 2 ^ 31 - 1 \<and> pos r < 1024)"

lemma streaming_get:
  assumes s: "streaming c h t vs" and b: "\<not> has (cflags c) REDIS_BLOCK"
  shows "\<exists>d a. redisGetReply A c = Some (d, a, REDIS_OK) \<and> d = c\<lparr>reader := reader d\<rparr> \<and>
    (a = 0 \<and> streaming d h t vs \<and> (t = [] \<longrightarrow> vs = []) \<or>
     a = nxt h \<and> a \<noteq> 0 \<and> (\<exists>v ws. vs = v # ws \<and> completed d h t v ws))"
proof -
  let ?v = "if vs = [] then VNil else hd vs" and ?t = "if vs = [] then encode VNil else t"
  from s obtain r F where r: "reader c = Inr r" "awaits ?t r F" "reply F = nxt h" "world F = built h ?v"
      "unread F = concat (map encode (tl vs))" "t = [] \<and> vs \<noteq> [] \<longrightarrow> rlen r \<noteq> 0" and e: "cerr c = 0" "fresh h" "\<forall>v \<in> set vs. value_ok 0 v" "vs = [] \<longrightarrow> t = []"
    by (auto simp: streaming_def Let_def del: encode.simps split: if_splits)
  have get: "redisGetReply A c = Some (c\<lparr>reader := Inr r'\<rparr>, a, REDIS_OK)"
    if "redisReaderGetReply r True = Some (r', a, REDIS_OK)" for r' a
    using that r(1) b
    by (simp add: redisGetReply_def redisGetReplyFromReader_def the_reader_def)
  have nxt: "nxt h \<noteq> 0" using e(2) by (simp add: fresh_def heap_ready_def)
  show ?thesis
  proof (cases "rlen r = 0")
    case True
    have "c\<lparr>reader := Inr r\<rparr> = c" using r(1) by simp
    with get [OF get_empty [OF r(2) True]] s r(1,6) True show ?thesis by auto
  next
    case False
    from get_awaits [OF r(2) False] obtain r' a where g: "redisReaderGetReply r True = Some (r', a, REDIS_OK)"
      "a = reply F \<and> idle r' \<and> unread F = unread r' @ ?t \<and> world r' = world F \<and> rlen r' + length ?t < 2 ^ 31 - 1 \<and> pos r' < 1024 \<or>
       a = 0 \<and> ?t \<noteq> [] \<and> awaits ?t r' F" by blast
    note get = get [OF g(1)]
    from g(2) show ?thesis
    proof
      assume a: "a = reply F \<and> idle r' \<and> unread F = unread r' @ ?t \<and> world r' = world F \<and> rlen r' + length ?t < 2 ^ 31 - 1 \<and> pos r' < 1024"
      have "vs \<noteq> []"
      proof
        assume "vs = []"
        then have "unread F = []" "?t \<noteq> []" using r(5) length_encode [of VNil] by auto
        then show False using a by simp
      qed
      then obtain v ws where vs: "vs = v # ws" by (cases vs) auto
      moreover from vs have "completed (c\<lparr>reader := Inr r'\<rparr>) h t v ws"
        using a e r(4,5) by (simp add: completed_def)
      moreover have "a = nxt h" using a r(3) by simp
      ultimately show ?thesis using get nxt by auto
    next
      assume a: "a = 0 \<and> ?t \<noteq> [] \<and> awaits ?t r' F"
      then have "streaming (c\<lparr>reader := Inr r'\<rparr>) h t vs"
        using s r(3-5) e by (auto simp: streaming_def Let_def del: encode.simps split: if_splits)
      with get a show ?thesis by (auto split: if_splits)
    qed
  qed
qed

section \<open>The callback of a value\<close>

text \<open>
  What the callbacks do: for every value they accept, as a live object, they leave the context as it
  is, but they may issue commands, that is, fill the output buffer and queue more callbacks.
\<close>

definition accepts :: "aenv \<Rightarrow> (nat \<Rightarrow> nat \<Rightarrow> rvalue \<Rightarrow> bool) \<Rightarrow> bool" where
  "accepts env Q \<longleftrightarrow> (\<forall>f p v ac a. Q f p v \<longrightarrow> live (objs (reply_heap (ac_c ac))) a v \<longrightarrow>
     (\<exists>ob l e. run_fn env f ac a p = Some (ac\<lparr>ac_c := (ac_c ac)\<lparr>obuf := ob\<rparr>, replies := l, ev_log := e\<rparr>) \<and>
        (\<forall>xs. holds_queue (replies ac) xs \<longrightarrow> (\<exists>ys. holds_queue l (xs @ ys)))))"

definition delivered :: "redisCallback \<Rightarrow> nat \<Rightarrow> user_call list" where
  "delivered x a = (if cb_fn x = 0 then [] else [ReplyCall (cb_fn x) a (cb_privdata x)])"

definition takes :: "(nat \<Rightarrow> nat \<Rightarrow> rvalue \<Rightarrow> bool) \<Rightarrow> redisCallback \<Rightarrow> rvalue \<Rightarrow> bool" where
  "takes Q x v \<longleftrightarrow> cb_fn x = 0 \<or> Q (cb_fn x) (cb_privdata x) v"

text \<open>Connected, with nothing under way that ends the connection.\<close>

definition steady :: "32 word \<Rightarrow> bool" where
  "steady f \<longleftrightarrow> has f REDIS_CONNECTED \<and> \<not> has f REDIS_BLOCK \<and> \<not> has f REDIS_DISCONNECTING \<and> \<not> has f REDIS_FREEING \<and>
     \<not> has f REDIS_IN_CALLBACK \<and> \<not> has f REDIS_MONITORING"

lemma in_callback_undone: "\<not> has f x \<Longrightarrow> (f OR x) AND NOT x = (f :: 32 word)"
proof (rule bit_eqI)
  fix n
  assume "\<not> has f x"
  then have "\<not> (bit f n \<and> bit x n)" by (metis bit_0_eq bit_and_iff bot_apply bot_bool_def has_def)
  then show "bit ((f OR x) AND NOT x) n = bit f n"
    by (auto simp: bit_and_iff bit_or_iff bit_not_iff dest: bit_imp_le_length)
qed

definition serving :: "redisAsyncContext \<Rightarrow> rheap \<Rightarrow> bytes \<Rightarrow> rvalue list \<Rightarrow> redisCallback list \<Rightarrow> bool" where
  "serving ac h t vs xs \<longleftrightarrow> \<not> freed ac \<and> steady (aflags ac) \<and> streaming (ac_c ac) h t vs \<and> holds_queue (replies ac) xs"

lemma completed_freed:
  assumes c: "completed (ac_c ac) h t v ws"
  shows "\<exists>d. free_object ac (nxt h) = Some (ac\<lparr>ac_c := d\<rparr>) \<and> streaming d (spent h v) t ws \<and>
    d = (ac_c ac)\<lparr>reader := reader d\<rparr>"
proof -
  from c obtain r where r: "reader (ac_c ac) = Inr r" "idle r" "world r = built h v" "cerr (ac_c ac) = 0"
    "unread r @ t = concat (map encode ws)" "rlen r + length t < 2 ^ 31 - 1" "pos r < 1024" "fresh h"
    "\<forall>v \<in> set ws. value_ok 0 v" by (auto simp: completed_def)
  let ?r = "r\<lparr>world := spent h v\<rparr>" and ?d = "(ac_c ac)\<lparr>reader := Inr (r\<lparr>world := spent h v\<rparr>)\<rparr>"
  have f: "free_object ac (nxt h) = Some (ac\<lparr>ac_c := ?d\<rparr>)"
    using r free_built [OF r(8)]
    by (simp add: free_object_def the_reader_def idle_def defaultFunctions_def set_reply_heap_def)
  have s: "streaming ?d (world ?r) t ws"
  proof (rule streamingI)
    show "idle ?r" using r(2) fresh_spent [OF r(8)] by (auto simp: idle_def fresh_def reader_ok_def)
    show "unread ?r @ t = concat (map encode ws)" using r(5) by (simp add: unread_def content_def)
  qed (use r fresh_spent in simp_all)
  show ?thesis using f s by (intro exI [of _ ?d]) simp
qed

lemma deliver_value:
  assumes acc: "accepts env Q" and c: "completed (ac_c ac) h t v ws" and q: "holds_queue (replies ac) (x # xs)"
    and f: "steady (aflags ac)" "\<not> freed ac" and x: "takes Q x v"
  shows "\<exists>l ac' ys. find_callback env ac (nxt h) cb = Some (Inr (ac\<lparr>replies := l\<rparr>, x)) \<and>
    deliver env (ac\<lparr>replies := l\<rparr>) (nxt h) x = Some (Inr ac') \<and> serving ac' (spent h v) t ws (xs @ ys) \<and>
    calls ac' = calls ac @ delivered x (nxt h) \<and> io (ac_c ac') = io (ac_c ac) \<and> fd (ac_c ac') = fd (ac_c ac)"
proof -
  from shift_queue_Cons [OF q] obtain l where l: "redisShiftCallback (replies ac) = Some (l, Some x, REDIS_OK)"
    "holds_queue l xs" by blast
  let ?ac = "ac\<lparr>replies := l\<rparr>"
  have find: "find_callback env ac (nxt h) cb = Some (Inr (?ac, x))" using l(1) by (simp add: find_callback_def)
  show ?thesis
  proof (cases "cb_fn x = 0")
    case True
    from completed_freed [of ?ac h t v ws] c obtain d where d: "free_object ?ac (nxt h) = Some (?ac\<lparr>ac_c := d\<rparr>)"
      "streaming d (spent h v) t ws" "d = (ac_c ac)\<lparr>reader := reader d\<rparr>" by auto
    have g: "cflags d = cflags (ac_c ac)" "io d = io (ac_c ac)" "fd d = fd (ac_c ac)" by (subst d(3), simp)+
    have "deliver env ?ac (nxt h) x = Some (Inr (?ac\<lparr>ac_c := d\<rparr>))" using True d(1) by (simp add: deliver_def)
    moreover have "serving (?ac\<lparr>ac_c := d\<rparr>) (spent h v) t ws (xs @ [])"
      using d(2) f l(2) g by (simp add: serving_def aflags_def)
    ultimately show ?thesis using find True g
      by (intro exI [of _ l] exI [of _ "?ac\<lparr>ac_c := d\<rparr>"] exI [of _ "[]"]) (simp add: delivered_def)
  next
    case False
    let ?b = "(set_aflags ?ac (aflags ac OR REDIS_IN_CALLBACK))\<lparr>calls := calls ac @ [ReplyCall (cb_fn x) (nxt h) (cb_privdata x)]\<rparr>"
    have "live (objs (reply_heap (ac_c ?b))) (nxt h) v"
      using c live_built [of h v] by (auto simp: completed_def reply_heap_def set_aflags_def)
    then obtain ob l' e where run: "run_fn env (cb_fn x) ?b (nxt h) (cb_privdata x) =
        Some (?b\<lparr>ac_c := (ac_c ?b)\<lparr>obuf := ob\<rparr>, replies := l', ev_log := e\<rparr>)"
      and l': "\<forall>xs. holds_queue (replies ?b) xs \<longrightarrow> (\<exists>ys. holds_queue l' (xs @ ys))"
      using acc x False unfolding accepts_def takes_def by blast
    from l' l(2) obtain ys where ys: "holds_queue l' (xs @ ys)" by (auto simp: set_aflags_def)
    let ?c = "?b\<lparr>ac_c := (ac_c ac)\<lparr>obuf := ob\<rparr>, replies := l', ev_log := e\<rparr>"
    have undo: "(aflags ac OR REDIS_IN_CALLBACK) AND NOT REDIS_IN_CALLBACK = aflags ac"
      using f(1) in_callback_undone by (simp add: steady_def)
    have rc: "redisRunCallback env ?ac x (nxt h) = Some ?c"
      using False run undo f(2) by (simp add: redisRunCallback_def Let_def set_aflags_def aflags_def alive_def)
    have "completed (ac_c ?c) h t v ws" using c by (simp add: completed_def)
    from completed_freed [OF this] obtain d where d: "free_object ?c (nxt h) = Some (?c\<lparr>ac_c := d\<rparr>)"
      "streaming d (spent h v) t ws" "d = (ac_c ?c)\<lparr>reader := reader d\<rparr>" by auto
    have g: "cflags d = cflags (ac_c ac)" "io d = io (ac_c ac)" "fd d = fd (ac_c ac)" by (subst d(3), simp)+
    have "deliver env ?ac (nxt h) x = Some (Inr (?c\<lparr>ac_c := d\<rparr>))"
      using False rc d(1) f(1) g by (simp add: deliver_def steady_def aflags_def)
    moreover have "serving (?c\<lparr>ac_c := d\<rparr>) (spent h v) t ws (xs @ ys)"
      using d(2) f ys g by (simp add: serving_def aflags_def set_aflags_def)
    moreover have "calls (?c\<lparr>ac_c := d\<rparr>) = calls ac @ delivered x (nxt h)" using False by (simp add: delivered_def)
    ultimately show ?thesis using find g by (intro exI) (auto simp: set_aflags_def)
  qed
qed

section \<open>The loop over the replies\<close>

definition spent_all :: "rheap \<Rightarrow> rvalue list \<Rightarrow> rheap" where
  "spent_all h vs = h\<lparr>nxt := nxt h + sum_list (map ticks vs)\<rparr>"

text \<open>
  The outcome of reading: the first \<open>k\<close> values went to the first \<open>k\<close> callbacks, and all of them when
  nothing more is to come.
\<close>

definition dispatched :: "redisAsyncContext \<Rightarrow> rheap \<Rightarrow> rvalue list \<Rightarrow> redisCallback list \<Rightarrow> bytes \<Rightarrow> nat
    \<Rightarrow> redisAsyncContext \<Rightarrow> bool" where
  "dispatched ac h vs xs t k ac' \<longleftrightarrow> k \<le> length vs \<and> (t = [] \<longrightarrow> k = length vs) \<and>
     (\<exists>ys. serving ac' (spent_all h (take k vs)) t (drop k vs) (drop k xs @ ys)) \<and>
     calls ac' = calls ac @ concat (map2 delivered (take k xs) (addrs (nxt h) vs))"

lemma dispatched_step:
  assumes "dispatched b (spent h v) vs (xs @ ys) t k ac'" and "calls b = calls ac @ delivered x (nxt h)"
    and "length vs \<le> length xs"
  shows "dispatched ac h (v # vs) (x # xs) t (Suc k) ac'"
proof -
  have "k \<le> length xs" using assms(1,3) by (simp add: dispatched_def)
  then have "take k (xs @ ys) = take k xs" "drop k (xs @ ys) = drop k xs @ ys" by simp_all
  moreover have "spent_all (spent h v) (take k vs) = spent_all h (take (Suc k) (v # vs))"
    by (simp add: spent_all_def spent_def add.assoc)
  ultimately show ?thesis using assms(1,2) unfolding dispatched_def by (auto simp: spent_def)
qed

lemma process_serving:
  assumes acc: "accepts env Q"
  shows "serving ac h t vs xs \<Longrightarrow> length vs \<le> length xs \<Longrightarrow> list_all2 (takes Q) (take (length vs) xs) vs \<Longrightarrow>
    \<exists>ac' k. process_replies env ac cb = Some ac' \<and> dispatched ac h vs xs t k ac' \<and>
      io (ac_c ac') = io (ac_c ac) \<and> fd (ac_c ac') = fd (ac_c ac)"
proof (induction vs arbitrary: ac h xs cb)
  case (Nil ac h xs cb)
  then have s: "streaming (ac_c ac) h t []" and f: "steady (aflags ac)" by (simp_all add: serving_def)
  from streaming_get [OF s] f obtain d where d: "redisGetReply (mem env) (ac_c ac) = Some (d, 0, REDIS_OK)"
    "d = (ac_c ac)\<lparr>reader := reader d\<rparr>" "streaming d h t []"
    unfolding steady_def aflags_def by blast
  have g: "cflags d = cflags (ac_c ac)" "io d = io (ac_c ac)" "fd d = fd (ac_c ac)" by (subst d(2), simp)+
  have "process_replies env ac cb = Some (ac\<lparr>ac_c := d\<rparr>)"
    using d(1) f g by (subst process_replies.simps) (simp add: no_reply_def steady_def aflags_def)
  moreover have "serving (ac\<lparr>ac_c := d\<rparr>) h t [] (xs @ [])"
    using Nil.prems(1) d(3) g by (simp add: serving_def aflags_def)
  then have "dispatched ac h [] xs t 0 (ac\<lparr>ac_c := d\<rparr>)"
    unfolding dispatched_def by (intro conjI exI [of _ "[]"]) (simp_all add: spent_all_def)
  ultimately show ?case using g by auto
next
  case (Cons v vs ac h xs cb)
  then obtain x xs' where xs: "xs = x # xs'" by (cases xs) auto
  from Cons.prems(1) have s: "streaming (ac_c ac) h t (v # vs)" and f: "steady (aflags ac)" "\<not> freed ac"
    and q: "holds_queue (replies ac) xs" by (simp_all add: serving_def)
  from streaming_get [OF s] f obtain d a where d: "redisGetReply (mem env) (ac_c ac) = Some (d, a, REDIS_OK)"
    "d = (ac_c ac)\<lparr>reader := reader d\<rparr>"
    "a = 0 \<and> streaming d h t (v # vs) \<and> t \<noteq> [] \<or> a = nxt h \<and> a \<noteq> 0 \<and> completed d h t v vs"
    unfolding steady_def aflags_def by blast
  have g: "cflags d = cflags (ac_c ac)" "io d = io (ac_c ac)" "fd d = fd (ac_c ac)" by (subst d(2), simp)+
  let ?ac = "ac\<lparr>ac_c := d\<rparr>"
  from d(3) show ?case
  proof
    assume z: "a = 0 \<and> streaming d h t (v # vs) \<and> t \<noteq> []"
    then have "process_replies env ac cb = Some ?ac"
      using d(1) f(1) g by (subst process_replies.simps) (simp add: no_reply_def steady_def aflags_def)
    moreover have "serving ?ac h t (v # vs) (xs @ [])"
      using Cons.prems(1) z g by (simp add: serving_def aflags_def)
    then have "dispatched ac h (v # vs) xs t 0 ?ac"
      unfolding dispatched_def using z by (intro conjI exI [of _ "[]"]) (simp_all add: spent_all_def)
    ultimately show ?thesis using g by auto
  next
    assume a: "a = nxt h \<and> a \<noteq> 0 \<and> completed d h t v vs"
    have tk: "takes Q x v" "list_all2 (takes Q) (take (length vs) xs') vs" "length vs \<le> length xs'"
      using Cons.prems(2,3) xs by simp_all
    have "holds_queue (replies ?ac) (x # xs')" "steady (aflags ?ac)" "\<not> freed ?ac" "completed (ac_c ?ac) h t v vs"
      using q xs f g a by (simp_all add: aflags_def)
    from deliver_value [OF acc this(4,1,2,3) tk(1)] obtain l b ys where
      b: "find_callback env ?ac (nxt h) cb = Some (Inr (?ac\<lparr>replies := l\<rparr>, x))"
        "deliver env (?ac\<lparr>replies := l\<rparr>) (nxt h) x = Some (Inr b)" "serving b (spent h v) t vs (xs' @ ys)"
        "calls b = calls ?ac @ delivered x (nxt h)" "io (ac_c b) = io (ac_c ?ac)" "fd (ac_c b) = fd (ac_c ?ac)" by blast
    have "calls b = calls ac @ delivered x (nxt h)" using b(4) by simp
    note step = dispatched_step [OF _ this tk(3)]
    have "length vs \<le> length (xs' @ ys)" "take (length vs) (xs' @ ys) = take (length vs) xs'" using tk(3) by simp_all
    with Cons.IH [OF b(3)] tk(2) obtain e k where e: "process_replies env b x = Some e"
      "dispatched b (spent h v) vs (xs' @ ys) t k e" "io (ac_c e) = io (ac_c b)" "fd (ac_c e) = fd (ac_c b)" by metis
    have "process_replies env ac cb = Some e"
      using d(1) a b(1,2) e(1) by (subst process_replies.simps) simp
    moreover have "dispatched ac h (v # vs) xs t (Suc k) e"
      unfolding xs by (rule step [OF e(2)])
    ultimately show ?thesis using e(3,4) b(5,6) g by auto
  qed
qed

section \<open>Read events\<close>

text \<open>
  A read that does not block: there is nothing, or a piece that continues the stream \<open>S\<close>.
\<close>

definition polls :: "sys \<Rightarrow> bytes \<Rightarrow> bool" where
  "polls s S \<longleftrightarrow> (\<forall>tr f. prefix (concat (map given tr)) S \<longrightarrow>
     (let x = os s tr (SysRead f (1024 * 16)) in
      ret x = -1 \<and> failno x = EAGAIN \<and> rdata x = [] \<or>
      rdata x \<noteq> [] \<and> ret x = int (length (rdata x)) \<and> length (rdata x) \<le> 1024 * 16 \<and>
        prefix (concat (map given tr) @ rdata x) S))"

lemma streaming_piece:
  assumes s: "streaming c h (p @ u) vs" and g: "\<forall>n. grant A n" and p: "p \<noteq> []"
    and x: "rdata (next_read c) = p" "ret (next_read c) = int (length p)" "length p \<le> 16384"
  shows "\<exists>d. redisBufferRead A c = Some (d, REDIS_OK) \<and> read_only c d \<and> streaming d h u vs \<and> received d = received c @ p"
proof -
  from p have vs: "vs \<noteq> []" using s by (auto simp: streaming_def)
  with s obtain r F where r: "reader c = Inr r" "cerr c = 0" "awaits (p @ u) r F" "reply F = nxt h"
    "world F = built h (hd vs)" "unread F = concat (map encode (tl vs))" "fresh h" "\<forall>v \<in> set vs. value_ok 0 v"
    unfolding streaming_def Let_def by auto
  from read_piece [OF g r(2,1,3) p x] obtain d r' where
    d: "redisBufferRead A c = Some (d, REDIS_OK)" "read_only c d" "received d = received c @ p"
      "reader d = Inr r'" "awaits u r' F" "rlen r' \<noteq> 0" by blast
  then have "streaming d h u vs"
    using r vs read_onlyD(1) [OF d(2)] by (auto simp: streaming_def Let_def)
  with d show ?thesis by auto
qed

lemma polls_read:
  assumes p: "polls (io c) (received c @ t)" and s: "streaming c h t vs" and g: "\<forall>n. grant A n"
    and b: "\<not> has (cflags c) REDIS_BLOCK"
  shows "\<exists>d u. redisBufferRead A c = Some (d, REDIS_OK) \<and> read_only c d \<and> streaming d h u vs \<and>
    received d @ u = received c @ t"
proof -
  let ?x = "next_read c"
  have "prefix (concat (map given (trace (io c)))) (received c @ t)" by (simp add: received_def)
  with p have "ret ?x = -1 \<and> failno ?x = EAGAIN \<and> rdata ?x = [] \<or>
      rdata ?x \<noteq> [] \<and> ret ?x = int (length (rdata ?x)) \<and> length (rdata ?x) \<le> 1024 * 16 \<and>
        prefix (received c @ rdata ?x) (received c @ t)"
    unfolding polls_def Let_def next_read_def received_def by blast
  then show ?thesis
  proof
    assume x: "ret ?x = -1 \<and> failno ?x = EAGAIN \<and> rdata ?x = []"
    obtain d y where call: "io_call c (SysRead (fd c) (1024 * 16)) = (d, y)" by fastforce
    note a = after_call [OF call, folded next_read_def]
    have e: "cerr c = 0" using s by (simp add: streaming_def)
    have d: "cflags d = cflags c" "reader d = reader c" "cerr d = cerr c" by (subst a(5), simp)+
    have "errno (io d) = EAGAIN" using call x by (auto simp: io_call_eq next_read_def)
    then have "redisBufferRead A c = Some (d, REDIS_OK)"
      using e call x a(1) b d by (simp add: redisBufferRead_def try_later_def int32_id)
    moreover have "read_only c d"
      using a(2,4) d(2) by (simp add: read_only_def) (subst a(5), cases c, simp)
    moreover have "streaming d h t vs" using s d by (simp add: streaming_def)
    moreover have "received d = received c" using a(1,3) x by simp
    ultimately show ?thesis by blast
  next
    assume x: "rdata ?x \<noteq> [] \<and> ret ?x = int (length (rdata ?x)) \<and> length (rdata ?x) \<le> 1024 * 16 \<and>
      prefix (received c @ rdata ?x) (received c @ t)"
    then obtain u where u: "t = rdata ?x @ u" by (auto simp: prefix_def)
    have "length (rdata ?x) \<le> 16384" using x by simp
    with streaming_piece [OF _ g _ refl] s x show ?thesis unfolding u by fastforce
  qed
qed

lemma read_serving:
  assumes acc: "accepts env Q" and g: "\<forall>n. grant (mem env) n" and s: "serving ac h t vs xs"
    and p: "polls (io (ac_c ac)) (received (ac_c ac) @ t)"
    and xs: "length vs \<le> length xs" "list_all2 (takes Q) (take (length vs) xs) vs"
  shows "\<exists>ac' k u. redisAsyncHandleRead env ac = Some ac' \<and> dispatched ac h vs xs u k ac' \<and>
    received (ac_c ac') @ u = received (ac_c ac) @ t \<and> os (io (ac_c ac')) = os (io (ac_c ac))"
proof -
  have st: "streaming (ac_c ac) h t vs" "steady (aflags ac)" "\<not> freed ac" "holds_queue (replies ac) xs"
    using s by (simp_all add: serving_def)
  then have fl: "\<not> has (cflags (ac_c ac)) REDIS_BLOCK" "has (aflags ac) REDIS_CONNECTED"
    by (simp_all add: steady_def aflags_def)
  from polls_read [OF p st(1) g fl(1)] obtain d u where d: "redisBufferRead (mem env) (ac_c ac) = Some (d, REDIS_OK)"
    "read_only (ac_c ac) d" "streaming d h u vs" "received d @ u = received (ac_c ac) @ t" by blast
  let ?b = "el AddRead (ac\<lparr>ac_c := d\<rparr>)"
  have b: "ac_c ?b = d" "replies ?b = replies ac" "calls ?b = calls ac" "freed ?b = freed ac" by (simp_all add: el_def)
  have "aflags ?b = aflags ac" using b read_onlyD(2) [OF d(2)] by (simp add: aflags_def)
  then have "serving ?b h u vs xs" using st b d(3) by (simp add: serving_def)
  from process_serving [OF acc this xs] obtain e k where e: "redisProcessCallbacks env ?b = Some e"
    "dispatched ?b h vs xs u k e" "io (ac_c e) = io (ac_c ?b)"
    unfolding redisProcessCallbacks_def by blast
  have "redisAsyncHandleRead env ac = Some e"
    using st(3) fl(2) d(1) e(1) by (simp add: redisAsyncHandleRead_def ensure_connected_def alive_def)
  moreover have "dispatched ac h vs xs u k e" using e(2) b(3) by (simp add: dispatched_def)
  moreover have "received (ac_c e) = received d" using e(3) b(1) by (simp add: received_def)
  ultimately show ?thesis using d(4) e(3) b(1) read_onlyD(4) [OF d(2)] by auto
qed

fun read_events :: "aenv \<Rightarrow> nat \<Rightarrow> redisAsyncContext \<Rightarrow> redisAsyncContext option" where
  "read_events env 0 ac = Some ac"
| "read_events env (Suc n) ac = do { ac \<leftarrow> redisAsyncHandleRead env ac; read_events env n ac }"

lemma deliveries_join:
  assumes "k + j \<le> length vs" and "length vs \<le> length xs"
  shows "map2 delivered (take k xs) (addrs a vs) @
      map2 delivered (take j (drop k xs @ ys)) (addrs (a + sum_list (map ticks (take k vs))) (drop k vs)) =
    map2 delivered (take (k + j) xs) (addrs a vs)"
proof -
  let ?as = "addrs a (take k vs)" and ?bs = "addrs (a + sum_list (map ticks (take k vs))) (drop k vs)"
  have "addrs a vs = ?as @ ?bs" using addrs_append [of a "take k vs" "drop k vs"] by simp
  moreover have l: "length ?as = k" using assms(1) by simp
  moreover have "zip (take k xs) (?as @ ?bs) = zip (take k xs) ?as" using l by (simp add: zip_append2)
  moreover have "take (k + j) xs = take k xs @ take j (drop k xs)" by (rule take_add)
  moreover have "take j (drop k xs @ ys) = take j (drop k xs)" using assms by simp
  ultimately show ?thesis using assms by simp
qed

lemma dispatched_trans:
  assumes "dispatched ac h vs xs u k b" and n: "length vs \<le> length xs"
  obtains ys where "serving b (spent_all h (take k vs)) u (drop k vs) (drop k xs @ ys)"
    "length (drop k vs) \<le> length (drop k xs @ ys)"
    "list_all2 (takes Q) (take (length vs) xs) vs \<Longrightarrow>
      list_all2 (takes Q) (take (length (drop k vs)) (drop k xs @ ys)) (drop k vs)"
    "\<And>t j e. dispatched b (spent_all h (take k vs)) (drop k vs) (drop k xs @ ys) t j e \<Longrightarrow> dispatched ac h vs xs t (k + j) e"
proof -
  from assms obtain ys where ys: "serving b (spent_all h (take k vs)) u (drop k vs) (drop k xs @ ys)"
    and k: "k \<le> length vs" "calls b = calls ac @ concat (map2 delivered (take k xs) (addrs (nxt h) vs))"
    by (auto simp: dispatched_def)
  show thesis
  proof (rule that [OF ys])
    show "length (drop k vs) \<le> length (drop k xs @ ys)" using n by simp
    assume "list_all2 (takes Q) (take (length vs) xs) vs"
    from list_all2_dropI [OF this, of k]
    show "list_all2 (takes Q) (take (length (drop k vs)) (drop k xs @ ys)) (drop k vs)"
      using n by (simp add: drop_take)
  next
    fix t j e
    assume d: "dispatched b (spent_all h (take k vs)) (drop k vs) (drop k xs @ ys) t j e"
    then have "j \<le> length vs - k" by (simp add: dispatched_def)
    with k(1) have j: "k + j \<le> length vs" by simp
    have "spent_all (spent_all h (take k vs)) (take j (drop k vs)) = spent_all h (take (k + j) vs)"
      by (simp add: spent_all_def take_add add.assoc)
    moreover have "drop j (drop k xs @ ys) = drop (k + j) xs @ ys" using j n by (simp add: add.commute)
    moreover note deliveries_join [OF j n, of "nxt h" ys]
    ultimately show "dispatched ac h vs xs t (k + j) e"
      using d k unfolding dispatched_def
      by (auto simp: add.commute spent_all_def simp flip: concat_append)
  qed
qed

lemma dispatched_none: "serving ac h t vs xs \<Longrightarrow> (t = [] \<Longrightarrow> vs = []) \<Longrightarrow> dispatched ac h vs xs t 0 ac"
  unfolding dispatched_def by (intro conjI exI [of _ "[]"]) (auto simp: spent_all_def)

lemma events_serving:
  assumes acc: "accepts env Q" and g: "\<forall>n. grant (mem env) n"
  shows "serving ac h t vs xs \<Longrightarrow> (t = [] \<Longrightarrow> vs = []) \<Longrightarrow> polls (io (ac_c ac)) (received (ac_c ac) @ t) \<Longrightarrow>
    length vs \<le> length xs \<Longrightarrow> list_all2 (takes Q) (take (length vs) xs) vs \<Longrightarrow>
    \<exists>ac' k u. read_events env n ac = Some ac' \<and> dispatched ac h vs xs u k ac' \<and>
      received (ac_c ac') @ u = received (ac_c ac) @ t"
proof (induction n arbitrary: ac h t vs xs)
  case 0
  then show ?case using dispatched_none by fastforce
next
  case (Suc n)
  from read_serving [OF acc g Suc.prems(1,3-5)] obtain b k u where b: "redisAsyncHandleRead env ac = Some b"
    "dispatched ac h vs xs u k b" "received (ac_c b) @ u = received (ac_c ac) @ t"
    "os (io (ac_c b)) = os (io (ac_c ac))" by blast
  obtain ys where ys: "serving b (spent_all h (take k vs)) u (drop k vs) (drop k xs @ ys)"
    "length (drop k vs) \<le> length (drop k xs @ ys)"
    "list_all2 (takes Q) (take (length vs) xs) vs \<Longrightarrow>
      list_all2 (takes Q) (take (length (drop k vs)) (drop k xs @ ys)) (drop k vs)"
    "\<And>t j e. dispatched b (spent_all h (take k vs)) (drop k vs) (drop k xs @ ys) t j e \<Longrightarrow> dispatched ac h vs xs t (k + j) e"
    using dispatched_trans [OF b(2) Suc.prems(4)] by blast
  have "u = [] \<Longrightarrow> drop k vs = []" using b(2) by (simp add: dispatched_def)
  moreover have "polls (io (ac_c b)) (received (ac_c b) @ u)" using Suc.prems(3) b(3,4) by (simp add: polls_def)
  ultimately obtain e j w where "read_events env n b = Some e"
    "dispatched b (spent_all h (take k vs)) (drop k vs) (drop k xs @ ys) w j e" "received (ac_c e) @ w = received (ac_c b) @ u"
    using Suc.IH [OF ys(1) _ _ ys(2)] ys(3) [OF Suc.prems(5)] by blast
  then show ?case using ys(4) b(1,3) by (metis (no_types, lifting) bind.bind_lunit read_events.simps(2))
qed

end
