(* ===== verification/Subscriptions.thy ===== *)
theory Subscriptions
  imports Arguments Dispatch
begin

text \<open>
  What a command of the asynchronous client leaves in the context, and which callback a message of a
  subscription is for.
\<close>

section \<open>Commands\<close>

text \<open>Everything but the output buffer, the callbacks and the record of events is as it was.\<close>

definition issued :: "redisAsyncContext \<Rightarrow> redisAsyncContext \<Rightarrow> bool" where
  "issued ac ac' \<longleftrightarrow> (\<exists>ob l e. ac' = ac\<lparr>ac_c := (ac_c ac)\<lparr>obuf := ob\<rparr>, replies := l, ev_log := e\<rparr>)"

lemma el_log: "\<exists>e. el h ac = ac\<lparr>ev_log := e\<rparr>"
  by (simp add: el_def) (metis redisAsyncContext.surjective redisAsyncContext.update_convs(5))

definition plain :: "bytes \<Rightarrow> bool" where
  "plain name \<longleftrightarrow> verb name \<noteq> ''subscribe'' \<and> verb name \<noteq> ''unsubscribe'' \<and> verb name \<noteq> ''monitor'' \<and> CR \<notin> set name"

lemma append_after:
  assumes g: "\<forall>n. grant A n" and o: "out_text (ac_c ac) q" and s: "sds_ok s" "sds_content s = command ts"
    and lim: "length q + length (command ts) < 2 ^ 31"
  shows "\<exists>x e. (do {
      (c, _) \<leftarrow> append_command A (ac_c ac) (buf s) (length (sds_content s));
      Some (el AddWrite (ac\<lparr>ac_c := c\<rparr>), REDIS_OK) }) =
        Some (ac\<lparr>ac_c := (ac_c ac)\<lparr>obuf := Ptr x\<rparr>, ev_log := e\<rparr>, REDIS_OK) \<and>
      out_text ((ac_c ac)\<lparr>obuf := Ptr x\<rparr>) (q @ command ts)"
proof -
  have "length q + length (sds_content s) < 2 ^ 31" using lim s(2) by simp
  from append_text [OF g o s(1) this] obtain x where x:
    "append_command A (ac_c ac) (buf s) (length (sds_content s)) = Some ((ac_c ac)\<lparr>obuf := Ptr x\<rparr>, REDIS_OK)"
    "out_text ((ac_c ac)\<lparr>obuf := Ptr x\<rparr>) (q @ sds_content s)" by blast
  obtain e where "el AddWrite (ac\<lparr>ac_c := (ac_c ac)\<lparr>obuf := Ptr x\<rparr>\<rparr>) = ac\<lparr>ac_c := (ac_c ac)\<lparr>obuf := Ptr x\<rparr>, ev_log := e\<rparr>"
    using el_log [of AddWrite "ac\<lparr>ac_c := (ac_c ac)\<lparr>obuf := Ptr x\<rparr>\<rparr>"] by auto
  then show ?thesis using x s(2) by auto
qed

lemma plain_command:
  assumes g: "\<forall>n. grant A n" and o: "open_for_commands ac" and a: "argv_denotes argv lens (name # args)"
    and lim: "length q + length (command (name # args)) + 3 < 2 ^ 31" and p: "plain name"
    and ns: "\<not> has (aflags ac) REDIS_SUBSCRIBED" and q: "holds_queue (replies ac) xs" and ot: "out_text (ac_c ac) q"
  shows "\<exists>ac'. redisAsyncCommandArgv A ac f priv (int (length argv)) argv lens = Some (ac', REDIS_OK) \<and> issued ac ac' \<and>
    holds_queue (replies ac') (xs @ [\<lparr>cb_fn = f, cb_privdata = priv\<rparr>]) \<and> out_text (ac_c ac') (q @ command (name # args))"
proof -
  let ?cb = "\<lparr>cb_fn = f, cb_privdata = priv\<rparr>"
  have "length (command (name # args)) + 3 < 2 ^ 31" "CR \<notin> set name" using lim p by (simp_all add: plain_def)
  from issue_command [OF g o a this, where f = f and p = priv] obtain b pre post s where
    b: "b = pre @ concat (map bulk args) @ NUL # post" "length pre + length (concat (map bulk args)) < 2 ^ 32" and
    s: "sds_ok s" "sds_content s = command (name # args)"
    "redisAsyncCommandArgv A ac f priv (int (length argv)) argv lens = do {
      r \<leftarrow> registered A ac ?cb (name # args)
        (subscribe_all A b (for_patterns name) ?cb (length pre) (set_aflags ac (aflags ac OR REDIS_SUBSCRIBED)));
      (case r of
         Inl ac \<Rightarrow> Some (ac, REDIS_ERR)
       | Inr ac \<Rightarrow> do {
           (c, _) \<leftarrow> append_command A (ac_c ac) (buf s) (length (sds_content s));
           Some (el AddWrite (ac\<lparr>ac_c := c\<rparr>), REDIS_OK) }) }" by blast
  have "grant A 24" using g by simp
  from push_queue [OF this q] obtain l where l: "redisPushCallback A (replies ac) ?cb = Some (l, REDIS_OK)"
    "holds_queue l (xs @ [?cb])" by blast
  then have r: "registered A ac ?cb (name # args) m = Some (Inr (ac\<lparr>replies := l\<rparr>))" for m
    using p ns by (simp add: registered_def queued_def plain_def)
  have "out_text (ac_c (ac\<lparr>replies := l\<rparr>)) q" "length q + length (command (name # args)) < 2 ^ 31" using ot lim by simp_all
  from append_after [OF g this(1) s(1,2) this(2)] obtain x e where
    "redisAsyncCommandArgv A ac f priv (int (length argv)) argv lens =
        Some (ac\<lparr>replies := l, ac_c := (ac_c ac)\<lparr>obuf := Ptr x\<rparr>, ev_log := e\<rparr>, REDIS_OK)"
      "out_text ((ac_c ac)\<lparr>obuf := Ptr x\<rparr>) (q @ command (name # args))"
    unfolding s(3) r by auto
  moreover have "issued ac (ac\<lparr>replies := l, ac_c := (ac_c ac)\<lparr>obuf := Ptr x\<rparr>, ev_log := e\<rparr>)"
    unfolding issued_def by (intro exI [of _ "Ptr x"] exI [of _ l] exI [of _ e]) (cases ac, simp)
  ultimately show ?thesis using l(2) by auto
qed

lemma subscribe_command:
  assumes g: "\<forall>n. grant A n" and o: "open_for_commands ac" and a: "argv_denotes argv lens (name # chs)"
    and lim: "length q + length (command (name # chs)) + 3 < 2 ^ 31" and p: "verb name = ''subscribe''" "CR \<notin> set name" "chs \<noteq> []"
    and ok: "tables_ok ac (length chs)" and ot: "out_text (ac_c ac) q"
  shows "\<exists>ac' d e x. redisAsyncCommandArgv A ac f priv (int (length argv)) argv lens = Some (ac', REDIS_OK) \<and>
    ac' = set_table (for_patterns name) (ac\<lparr>ac_c := (ac_c ac)\<lparr>cflags := aflags ac OR REDIS_SUBSCRIBED, obuf := Ptr x\<rparr>, ev_log := e\<rparr>) (Ptr d) \<and>
    dict_ok d \<and>
    subscribed (for_patterns name) ac' = (\<lambda>t. if t \<in> set chs then Some \<lparr>cb_fn = f, cb_privdata = priv\<rparr>
      else subscribed (for_patterns name) ac t) \<and>
    out_text (ac_c ac') (q @ command (name # chs))"
proof -
  let ?cb = "\<lparr>cb_fn = f, cb_privdata = priv\<rparr>" and ?v = "for_patterns name" and ?ac = "set_aflags ac (aflags ac OR REDIS_SUBSCRIBED)"
  have "length (command (name # chs)) + 3 < 2 ^ 31" using lim by simp
  from issue_command [OF g o a this p(2), where f = f and p = priv] obtain b pre post s where
    b: "b = pre @ concat (map bulk chs) @ NUL # post" "length pre + length (concat (map bulk chs)) < 2 ^ 32" and
    s: "sds_ok s" "sds_content s = command (name # chs)"
    "redisAsyncCommandArgv A ac f priv (int (length argv)) argv lens = do {
      r \<leftarrow> registered A ac ?cb (name # chs) (subscribe_all A b ?v ?cb (length pre) ?ac);
      (case r of
         Inl ac \<Rightarrow> Some (ac, REDIS_ERR)
       | Inr ac \<Rightarrow> do {
           (c, _) \<leftarrow> append_command A (ac_c ac) (buf s) (length (sds_content s));
           Some (el AddWrite (ac\<lparr>ac_c := c\<rparr>), REDIS_OK) }) }" by blast
  have n: "\<forall>t \<in> set chs. length t < 2 ^ 31"
  proof
    fix t assume "t \<in> set chs"
    then have "length t \<le> length (concat (map bulk chs))" by (induction chs) (auto simp: bulk_def)
    then show "length t < 2 ^ 31" using lim by (simp add: command_def)
  qed
  have "tables_ok ?ac (length chs)" 
  proof -
    have "table_of v ?ac = table_of v ac" for v by (simp add: table_of_def set_aflags_def)
    then show ?thesis using ok by (simp only: tables_ok_def simp_thms)
  qed
  from subscribe_all_spec [OF g b n this] obtain d where d: "subscribe_all A b ?v ?cb (length pre) ?ac = Some (set_table ?v ?ac (Ptr d))"
    "dict_ok d" "subscribed ?v (set_table ?v ?ac (Ptr d)) = (\<lambda>t. if t \<in> set chs then Some ?cb else subscribed ?v ?ac t)" by blast
  then have r: "registered A ac ?cb (name # chs) (subscribe_all A b ?v ?cb (length pre) ?ac) = Some (Inr (set_table ?v ?ac (Ptr d)))"
    using p by (simp add: registered_def)
  have "out_text (ac_c (set_table ?v ?ac (Ptr d))) q" "length q + length (command (name # chs)) < 2 ^ 31"
    using ot lim by (simp_all add: set_table_def set_aflags_def out_text_def)
  from append_after [OF g this(1) s(1,2) this(2)] obtain x e where x:
    "redisAsyncCommandArgv A ac f priv (int (length argv)) argv lens =
        Some ((set_table ?v ?ac (Ptr d))\<lparr>ac_c := (ac_c (set_table ?v ?ac (Ptr d)))\<lparr>obuf := Ptr x\<rparr>, ev_log := e\<rparr>, REDIS_OK)"
      "out_text ((ac_c (set_table ?v ?ac (Ptr d)))\<lparr>obuf := Ptr x\<rparr>) (q @ command (name # chs))"
    unfolding s(3) r by auto
  let ?r = "set_table ?v (ac\<lparr>ac_c := (ac_c ac)\<lparr>cflags := aflags ac OR REDIS_SUBSCRIBED, obuf := Ptr x\<rparr>, ev_log := e\<rparr>) (Ptr d)"
  have e: "(set_table ?v ?ac (Ptr d))\<lparr>ac_c := (ac_c (set_table ?v ?ac (Ptr d)))\<lparr>obuf := Ptr x\<rparr>, ev_log := e\<rparr> = ?r"
    "ac_c ?r = (ac_c (set_table ?v ?ac (Ptr d)))\<lparr>obuf := Ptr x\<rparr>"
    by (simp_all add: set_table_def set_aflags_def)
  have "table_of ?v ?ac = table_of ?v ac" by (simp add: table_of_def set_aflags_def)
  then have se: "subscribed ?v ?r = subscribed ?v (set_table ?v ?ac (Ptr d))" "subscribed ?v ?ac = subscribed ?v ac"
    by (simp_all add: subscribed_def fun_eq_iff)
  have "subscribed ?v ?r = (\<lambda>t. if t \<in> set chs then Some ?cb else subscribed ?v ac t)" unfolding se(1) d(3) se(2) ..
  moreover have "out_text (ac_c ?r) (q @ command (name # chs))" using x(2) unfolding e(2) .
  moreover note x(1) [unfolded e(1)] d(2)
  ultimately show ?thesis by blast
qed

section \<open>Messages\<close>

text \<open>A message: its kind, its channel and a payload; the reply to an unsubscription ends in a number.\<close>

lemma three_elements:
  assumes "live (objs h) a (VArr [VStr k, VStr ch, x])" and "0 < a"
  shows "hget h a = Some (arr_reply 3 (Ptr (addrs (a + 2) [VStr k, VStr ch, x])))"
    and "element_at h (arr_reply 3 (Ptr (addrs (a + 2) [VStr k, VStr ch, x]))) 0 = Some (str_reply REDIS_REPLY_STRING k)"
    and "element_at h (arr_reply 3 (Ptr (addrs (a + 2) [VStr k, VStr ch, x]))) 1 = Some (str_reply REDIS_REPLY_STRING ch)"
    and "x = VInt n \<Longrightarrow> element_at h (arr_reply 3 (Ptr (addrs (a + 2) [VStr k, VStr ch, x]))) 2 = Some (int_reply n)"
  using assms by (auto simp: hget_def element_at_def arr_reply_def numeral_eq_Suc)

text \<open>The callback of a message, and the context after an unsubscription.\<close>

definition callback_for :: "redisAsyncContext \<Rightarrow> bytes \<Rightarrow> bytes \<Rightarrow> redisCallback \<Rightarrow> redisCallback" where
  "callback_for ac k ch cb = (case subscribed (for_patterns k) ac ch of Some x \<Rightarrow> x | None \<Rightarrow> cb)"

lemma verb_of_kind:
  assumes "NUL \<notin> set k"
  shows "same_nocase (drop (if for_patterns k then 1 else 0) (k @ [NUL])) ''unsubscribe'' \<longleftrightarrow> verb k = ''unsubscribe''"
proof -
  let ?b = "if for_patterns k then tl k else k"
  have d: "drop (if for_patterns k then 1 else 0) (k @ [NUL]) = ?b @ [NUL]"
    by (cases k) (auto simp: for_patterns_def)
  have "NUL \<notin> set ?b" using assms by (cases k) auto
  then have c: "cstr (?b @ [NUL]) = ?b" unfolding cstr_def by (subst takeWhile_append2) auto
  have m: "map tolower ''unsubscribe'' = ''unsubscribe''" by code_simp
  show ?thesis unfolding same_nocase_def verb_def d c m ..
qed

lemma find_subscribed:
  assumes g: "\<forall>n. grant A n" and ok: "tables_ok ac n" and l: "length ch < 2 ^ 31"
  shows "\<exists>p d de. sdsnewlen A (Ptr (ch @ [NUL])) (length ch) = Some (Ptr p) \<and> channel_key (Ptr p) = Some (as_channel ch) \<and>
    table_of v ac = Ptr d \<and> dict_ok d \<and> find_channel d (Ptr p) = Some de \<and>
    (case de of Nullp \<Rightarrow> subscribed v ac ch = None | Ptr e \<Rightarrow> subscribed v ac ch = Some (eval e))"
proof -
  have "length ch < size_limit" using l by (simp add: size_limit_def)
  then have "yields A (sdsnewlen A (Ptr (ch @ [NUL])) (length ch)) (\<lambda>s. sds_ok s \<and> sds_content s = ch)"
    using sdsnewlen_spec [of "length ch" "Ptr (ch @ [NUL])" A] by simp
  from yields_granted [OF this g] obtain p where p: "sdsnewlen A (Ptr (ch @ [NUL])) (length ch) = Some (Ptr p)"
    "sds_content p = ch" by blast
  then have k: "channel_key (Ptr p) = Some (as_channel ch)"
    using l by (simp add: channel_key_def channel_of_def flip: sds_content_def)
  from ok obtain d where d: "table_of v ac = Ptr d" "dict_ok d" by (auto simp: tables_ok_def)
  from hashed.find_law [OF d(2), of "as_channel ch"] obtain de where de: "dictFind d (as_channel ch) = Some de"
    "case de of Nullp \<Rightarrow> dict_map d (as_channel ch) = None | Ptr e \<Rightarrow> dict_map d (as_channel ch) = Some (eval e)" by blast
  have s: "subscribed v ac ch = dict_map d (as_channel ch)" using d(1) l by (simp add: subscribed_def)
  show ?thesis
  proof (cases "ht_size d = 0")
    case True
    then have "table d = []" using d(2) by (simp add: dict_ok_def)
    then have "dict_map d (as_channel ch) = None" by (simp add: dict_map_def entries_def)
    then show ?thesis using p k d s True by (intro exI [of _ p] exI [of _ d] exI [of _ Nullp]) (simp add: find_channel_def)
  next
    case False
    then show ?thesis
      using p k d de unfolding s by (intro exI [of _ p] exI [of _ d] exI [of _ de]) (simp add: find_channel_def)
  qed
qed

lemma message_callback:
  assumes g: "\<forall>n. grant A n" and ok: "tables_ok ac n" and l: "length ch < 2 ^ 31"
    and m: "live (objs (reply_heap (ac_c ac))) a (VArr [VStr k, VStr ch, x])" "0 < a"
    and k: "NUL \<notin> set k" "verb k \<noteq> ''unsubscribe''"
  shows "redisGetSubscribeCallback A ac a cb = Some (ac, callback_for ac k ch cb)"
proof -
  note e = three_elements [OF m]
  have s0: "peek (k @ [NUL]) 0 = Some (hd (k @ [NUL]))" by (cases k) (simp_all add: peek_def)
  have "tolower NUL \<noteq> CHR ''p''" by code_simp
  then have pv: "tolower (hd (k @ [NUL])) = CHR ''p'' \<longleftrightarrow> for_patterns k" by (cases k) (simp_all add: for_patterns_def)
  obtain p d de where f: "sdsnewlen A (Ptr (ch @ [NUL])) (length ch) = Some (Ptr p)"
    "table_of (for_patterns k) ac = Ptr d" "find_channel d (Ptr p) = Some de"
    "case de of Nullp \<Rightarrow> subscribed (for_patterns k) ac ch = None | Ptr e \<Rightarrow> subscribed (for_patterns k) ac ch = Some (eval e)"
    using find_subscribed [OF g ok l, of "for_patterns k"] by blast
  show ?thesis
    using f e(2,3) s0 verb_of_kind [OF k(1)] k(2)
    by (cases de) (simp_all add: redisGetSubscribeCallback_def e(1) pv arr_reply_def str_reply_def blank_reply_def callback_for_def)
qed

lemma unsubscribe_callback:
  assumes g: "\<forall>n. grant A n" and ok: "tables_ok ac n" and l: "length ch < 2 ^ 31"
    and m: "live (objs (reply_heap (ac_c ac))) a (VArr [VStr k, VStr ch, VInt i])" "0 < a"
    and k: "NUL \<notin> set k" "verb k = ''unsubscribe''" and s: "subscribed (for_patterns k) ac ch = Some y"
  shows "\<exists>ac'. redisGetSubscribeCallback A ac a cb = Some (ac', y) \<and> tables_ok ac' n \<and>
    subscribed (for_patterns k) ac' = (subscribed (for_patterns k) ac)(ch := None) \<and>
    subscribed (\<not> for_patterns k) ac' = subscribed (\<not> for_patterns k) ac \<and>
    aflags ac' = (if i = 0 then aflags ac AND NOT REDIS_SUBSCRIBED else aflags ac)"
proof -
  note e = three_elements [OF m]
  have s0: "peek (k @ [NUL]) 0 = Some (hd (k @ [NUL]))" by (cases k) (simp_all add: peek_def)
  have "tolower NUL \<noteq> CHR ''p''" by code_simp
  then have pv: "tolower (hd (k @ [NUL])) = CHR ''p'' \<longleftrightarrow> for_patterns k" by (cases k) (simp_all add: for_patterns_def)
  let ?v = "for_patterns k"
  obtain p d de where f: "sdsnewlen A (Ptr (ch @ [NUL])) (length ch) = Some (Ptr p)" "channel_key (Ptr p) = Some (as_channel ch)"
    "table_of ?v ac = Ptr d" "dict_ok d" "find_channel d (Ptr p) = Some de"
    "case de of Nullp \<Rightarrow> subscribed ?v ac ch = None | Ptr e \<Rightarrow> subscribed ?v ac ch = Some (eval e)"
    using find_subscribed [OF g ok l, of ?v] by blast
  then obtain en where en: "de = Ptr en" "eval en = y" using s by (cases de) auto
  from hashed.delete_law [OF f(4), of "as_channel ch"] obtain d' rc where d': "dictDelete d (as_channel ch) = Some (d', rc)"
    "dict_ok d'" "dict_map d' = (dict_map d)(as_channel ch := None)" "used d' \<le> used d" by blast
  let ?b = "set_table ?v ac (Ptr d')"
  let ?r = "if i = 0 then set_aflags ?b (aflags ?b AND NOT REDIS_SUBSCRIBED) else ?b"
  have run: "redisGetSubscribeCallback A ac a cb = Some (?r, y)"
    using f e(2,3) e(4) [OF refl] s0 verb_of_kind [OF k(1)] k(2) en d'(1)
    by (simp add: redisGetSubscribeCallback_def e(1) pv arr_reply_def str_reply_def blank_reply_def int_reply_def)
  have t: "table_of w ?r = (if w = ?v then Ptr d' else table_of w ac)" for w
    by (auto simp: table_of_def set_table_def set_aflags_def)
  have "tables_ok ?r n"
    unfolding tables_ok_def
  proof
    fix w
    from ok obtain dw where dw: "table_of w ac = Ptr dw" "dict_ok dw" "used dw + n \<le> 2 ^ 30" by (auto simp: tables_ok_def)
    show "\<exists>d. table_of w ?r = Ptr d \<and> dict_ok d \<and> used d + n \<le> 2 ^ 30"
      unfolding t using dw d'(2,4) f(3) by auto
  qed
  moreover have "subscribed ?v ?r = (subscribed ?v ac)(ch := None)"
    unfolding subscribed_def t using f(3) d'(3) l by (auto simp: fun_eq_iff as_channel_eq)
  moreover have "subscribed (\<not> ?v) ?r = subscribed (\<not> ?v) ac" unfolding subscribed_def t by simp
  moreover have "aflags ?r = (if i = 0 then aflags ac AND NOT REDIS_SUBSCRIBED else aflags ac)" by simp
  ultimately show ?thesis using run by blast
qed

end
