(* ===== verification/Connection_Theorems.thy ===== *)
theory Connection_Theorems
  imports Transport
begin

text \<open>
  The properties of the synchronous client over its transport: no byte is lost between the output
  buffer and the wire, replies do not depend on how the input is cut, and commands that were
  appended one after the other get their replies in order.
\<close>

section \<open>Pipelines\<close>

text \<open>Appending a list of commands, and asking for \<open>n\<close> replies.\<close>

fun append_commands :: "allocator \<Rightarrow> (bytes list \<times> nat list ptr) list \<Rightarrow> redisContext \<Rightarrow> redisContext option" where
  "append_commands A [] c = Some c"
| "append_commands A ((argv, lens) # cmds) c = do {
     (c, rv) \<leftarrow> redisAppendCommandArgv A c (int (length argv)) argv lens;
     append_commands A cmds c }"

fun collect_replies :: "allocator \<Rightarrow> nat \<Rightarrow> redisContext \<Rightarrow> (redisContext \<times> nat list) option" where
  "collect_replies A 0 c = Some (c, [])"
| "collect_replies A (Suc n) c = do {
     (c, a, rv) \<leftarrow> redisGetReply A c;
     (c, as) \<leftarrow> collect_replies A n c;
     Some (c, a # as) }"

definition all_denote :: "(bytes list \<times> nat list ptr) list \<Rightarrow> bytes list list \<Rightarrow> bool" where
  "all_denote cmds tss \<longleftrightarrow> list_all2 (\<lambda>(argv, lens) ts. argv_denotes argv lens ts) cmds tss"

lemma append_commands_spec:
  assumes g: "\<forall>n. grant A n"
  shows "all_denote cmds tss \<Longrightarrow> out_text c q \<Longrightarrow> length q + length (concat (map command tss)) + 3 < 2 ^ 31 \<Longrightarrow>
    \<exists>d. append_commands A cmds c = Some d \<and> out_text d (q @ concat (map command tss)) \<and> d = c\<lparr>obuf := obuf d\<rparr>"
proof (induction cmds arbitrary: c q tss)
  case Nil
  then show ?case by (simp add: all_denote_def)
next
  case (Cons x cmds)
  obtain argv lens where x: "x = (argv, lens)" by fastforce
  from Cons.prems(1) x obtain ts tss' where ts: "tss = ts # tss'" "argv_denotes argv lens ts" "all_denote cmds tss'"
    by (auto simp: all_denote_def list_all2_Cons1)
  have "length q + length (command ts) + 3 < 2 ^ 31" using Cons.prems(3) ts(1) by simp
  from append_step [OF g Cons.prems(2) ts(2) this] obtain b where
    b: "redisAppendCommandArgv A c (int (length argv)) argv lens = Some (c\<lparr>obuf := Ptr b\<rparr>, REDIS_OK)"
      "out_text (c\<lparr>obuf := Ptr b\<rparr>) (q @ command ts)" by blast
  have "length (q @ command ts) + length (concat (map command tss')) + 3 < 2 ^ 31" using Cons.prems(3) ts(1) by simp
  from Cons.IH [OF ts(3) b(2) this] obtain d where
    "append_commands A cmds (c\<lparr>obuf := Ptr b\<rparr>) = Some d" "out_text d ((q @ command ts) @ concat (map command tss'))"
      "d = c\<lparr>obuf := obuf d\<rparr>" by auto
  then show ?case using b(1) ts(1) x by auto
qed

lemma collect_replies_spec:
  assumes g: "\<forall>n. grant A n"
  shows "connected c q t r \<Longrightarrow> unread r @ t = concat (map encode vs) @ rest \<Longrightarrow> \<forall>v \<in> set vs. value_ok 0 v \<Longrightarrow>
    \<exists>d p t' r'. collect_replies A (length vs) c = Some (d, addrs (nxt (world r)) vs) \<and> connected d p t' r' \<and>
      objs (world r') = place_all (nxt (world r)) vs (objs (world r)) \<and> unread r' @ t' = rest \<and>
      sent d @ p = sent c @ q \<and> (unread r = [] \<and> vs \<noteq> [] \<or> q = [] \<longrightarrow> p = [])"
proof (induction vs arbitrary: c q t r)
  case Nil
  then show ?case by auto
next
  case (Cons v vs)
  have "unread r @ t = encode v @ (concat (map encode vs) @ rest)" using Cons.prems(2) by simp
  from connected_reply [OF g Cons.prems(1) this] Cons.prems(3) obtain d p t' r' where
    d: "redisGetReply A c = Some (d, nxt (world r), REDIS_OK)" "connected d p t' r'" "world r' = took r v"
      "unread r' @ t' = concat (map encode vs) @ rest" "sent d @ p = sent c @ q" "unread r = [] \<or> q = [] \<longrightarrow> p = []"
    by auto
  from Cons.IH [OF d(2,4)] Cons.prems(3) obtain e p' t'' r'' where
    e: "collect_replies A (length vs) d = Some (e, addrs (nxt (world r')) vs)" "connected e p' t'' r''"
      "objs (world r'') = place_all (nxt (world r')) vs (objs (world r'))" "unread r'' @ t'' = rest"
      "sent e @ p' = sent d @ p" "unread r' = [] \<and> vs \<noteq> [] \<or> p = [] \<longrightarrow> p' = []"
    by auto
  have "collect_replies A (length (v # vs)) c = Some (e, addrs (nxt (world r)) (v # vs))"
    using d(1,3) e(1) by (simp add: took_def)
  moreover have "objs (world r'') = place_all (nxt (world r)) (v # vs) (objs (world r))"
    using e(3) d(3) by (simp add: took_def)
  ultimately show ?case using d e by (intro exI [of _ e] exI [of _ p'] exI [of _ t''] exI [of _ r'']) auto
qed

section \<open>A connection at rest\<close>

definition at_rest :: "redisContext \<Rightarrow> rheap redisReader \<Rightarrow> bool" where
  "at_rest c r \<longleftrightarrow> cerr c = 0 \<and> has (cflags c) REDIS_BLOCK \<and> out_text c [] \<and> reader c = Inr r \<and> idle r \<and>
     unread r = [] \<and> (\<forall>a \<ge> nxt (world r). objs (world r) a = None)"

text \<open>The peer takes what it is sent and answers \<open>S\<close> to \<open>q\<close>.\<close>

definition peer_answers :: "redisContext \<Rightarrow> bytes \<Rightarrow> bytes \<Rightarrow> bool" where
  "peer_answers c q S \<longleftrightarrow> write_sound (io c) \<and> write_live (io c) \<and> serves (io c) (sent c @ q) (received c @ S)"

lemma rest_connected:
  assumes "at_rest c r" and "peer_answers c q S" and "length q < 2 ^ 31 - 1" and "rlen r + length S < 2 ^ 31 - 1"
    and "out_text d q" and "d = c\<lparr>obuf := obuf d\<rparr>"
  shows "connected d q S r"
proof -
  have "cerr d = cerr c" "cflags d = cflags c" "reader d = reader c" "io d = io c" by (subst assms(6), simp)+
  with assms show ?thesis by (simp add: connected_def at_rest_def peer_answers_def sent_def received_def)
qed

lemma rest_pipeline:
  assumes g: "\<forall>n. grant A n" and r: "at_rest c r" and a: "all_denote cmds tss"
    and p: "peer_answers c (concat (map command tss)) (concat (map encode vs))"
    and vs: "vs \<noteq> []" "\<forall>v \<in> set vs. value_ok 0 v"
    and lim: "length (concat (map command tss)) + 3 < 2 ^ 31" "rlen r + length (concat (map encode vs)) < 2 ^ 31 - 1"
  shows "\<exists>d e r'. append_commands A cmds c = Some d \<and>
    collect_replies A (length vs) d = Some (e, addrs (nxt (world r)) vs) \<and>
    sent e = sent c @ concat (map command tss) \<and> cerr e = 0 \<and> reader e = Inr r' \<and> idle r' \<and> unread r' = [] \<and>
    live_all (objs (world r')) (nxt (world r)) vs"
proof -
  have o: "out_text c []" and u: "unread r = []" and fresh: "\<forall>a \<ge> nxt (world r). objs (world r) a = None"
    using r by (simp_all add: at_rest_def)
  from append_commands_spec [OF g a o] lim(1) obtain d where d: "append_commands A cmds c = Some d"
    "out_text d (concat (map command tss))" "d = c\<lparr>obuf := obuf d\<rparr>" by auto
  have "length (concat (map command tss)) < 2 ^ 31 - 1" using lim(1) by simp
  from rest_connected [OF r p this lim(2) d(2,3)]
  have "connected d (concat (map command tss)) (concat (map encode vs)) r" .
  from collect_replies_spec [OF g this, of vs "[]"] u vs obtain e q t' r' where
    e: "collect_replies A (length vs) d = Some (e, addrs (nxt (world r)) vs)" "connected e q t' r'"
      "objs (world r') = place_all (nxt (world r)) vs (objs (world r))" "unread r' @ t' = []"
      "sent e @ q = sent d @ concat (map command tss)" "q = []"
    by auto
  have "sent d = sent c" by (subst d(3)) (simp add: sent_def)
  moreover have "live_all (objs (world r')) (nxt (world r)) vs"
    unfolding e(3) by (rule live_place(2)) (use fresh in simp)
  ultimately show ?thesis using d(1) e by (auto simp: connected_def)
qed

section \<open>A peer that follows a script\<close>

text \<open>It takes every write and sends \<open>S\<close> one byte at a time.\<close>

definition scripted :: "bytes \<Rightarrow> sys" where
  "scripted S = \<lparr>os = (\<lambda>tr call. \<lparr>ret = (case call of SysWrite f t \<Rightarrow> int (length t) | SysRead f n \<Rightarrow> 1 | _ \<Rightarrow> 0),
       failno = 0, rdata = (case call of SysRead f n \<Rightarrow> take 1 (drop (length (concat (map given tr))) S) | _ \<Rightarrow> []),
       so_error = 0, addrs_found = []\<rparr>),
     trace = [], errno = 0, strerror = (\<lambda>_. ''error''), gai_strerror = (\<lambda>_. ''gai error'')\<rparr>"

lemma scripted_serves: "serves (scripted S) q S"
  unfolding serves_def
proof (intro allI impI)
  fix tr f and n :: nat
  assume n: "0 < n" and p: "strict_prefix (concat (map given tr)) S"
  then obtain zs where zs: "S = concat (map given tr) @ zs" "zs \<noteq> []" by (auto simp: strict_prefix_def prefix_def)
  then obtain b u where S: "S = concat (map given tr) @ b # u" by (cases zs) auto
  then have "rdata (os (scripted S) tr (SysRead f n)) = [b]" by (simp add: scripted_def)
  moreover have "ret (os (scripted S) tr (SysRead f n)) = 1" by (simp add: scripted_def)
  moreover have "prefix (concat (map given tr) @ [b]) S" by (subst S) simp
  ultimately show "let r = os (scripted S) tr (SysRead f n) in
      0 < ret r \<and> ret r \<le> int n \<and> ret r = int (length (rdata r)) \<and> prefix (concat (map given tr) @ rdata r) S"
    using n by (simp add: Let_def)
qed

definition scripted_context :: "bytes \<Rightarrow> sds \<Rightarrow> rheap redisReader \<Rightarrow> redisContext" where
  "scripted_context S b r = (blank_context REDIS_BLOCK)\<lparr>obuf := Ptr b, reader := Inr r, io := scripted S\<rparr>"

lemma scripted_rest:
  "\<exists>b r. at_rest (scripted_context S b r) r \<and> nxt (world r) = 1 \<and> rlen r = 0 \<and>
    peer_answers (scripted_context S b r) q S \<and> sent (scripted_context S b r) = []"
proof -
  let ?h = "\<lparr>objs = Map.empty, nxt = 1, granting = (\<lambda>_ _. True)\<rparr>"
  obtain b where b: "sdsempty generous = Some (Ptr b)" "sds_ok b" "sds_content b = []"
    using yields_granted [OF sdsempty_spec, of generous] by auto
  have "heap_ready ?h" by (simp add: heap_ready_def)
  from create_idle [OF _ this, of generous] obtain r where r: "idle r" "unread r = []" "world r = ?h" "pos r = 0" by auto
  then have "rlen r = 0" by (auto simp: idle_def elim: reader_okE)
  moreover have "at_rest (scripted_context S b r) r"
    using b r by (simp add: at_rest_def scripted_context_def blank_context_def has_def redis_flags out_text_def)
  moreover have "write_sound (scripted S)" "write_live (scripted S)"
    by (simp_all add: scripted_def write_sound_def write_live_def)
  then have "peer_answers (scripted_context S b r) q S" "sent (scripted_context S b r) = []"
    using scripted_serves [of S q]
    by (simp_all add: peer_answers_def scripted_context_def sent_def received_def scripted_def)
  ultimately show ?thesis using r(3) by (intro exI [of _ b] exI [of _ r]) simp
qed

section \<open>Properties\<close>

text \<open>
  C4. Pipelining: commands that are appended one after the other and then asked for their replies are
  sent in order and exactly once, and the replies come back in the order the peer gave them, whatever
  pieces the system cuts the two byte streams into. Every call returns.
\<close>

theorem pipeline_in_order:
  assumes "\<forall>n. grant A n" and "at_rest c r" and "all_denote cmds tss"
    and "peer_answers c (concat (map command tss)) (concat (map encode vs))"
    and "vs \<noteq> []" and "\<forall>v \<in> set vs. value_ok 0 v"
    and "length (concat (map command tss)) + 3 < 2 ^ 31" and "rlen r + length (concat (map encode vs)) < 2 ^ 31 - 1"
  shows "\<exists>d e r'. append_commands A cmds c = Some d \<and>
    collect_replies A (length vs) d = Some (e, addrs (nxt (world r)) vs) \<and>
    sent e = sent c @ concat (map command tss) \<and> cerr e = 0 \<and> reader e = Inr r' \<and> unread r' = [] \<and>
    live_all (objs (world r')) (nxt (world r)) vs"
  using rest_pipeline [OF assms] by blast

theorem pipeline_in_order_witness:
  "\<exists>c d e r. append_commands generous [([''PING''], Nullp), ([''GET'', ''k''], Nullp)] c = Some d \<and>
    collect_replies generous 2 d = Some (e, [1, 3]) \<and>
    sent e = command [''PING''] @ command [''GET'', ''k''] \<and> reader e = Inr r \<and>
    live_all (objs (world r)) 1 [VStatus ''PONG'', VStr ''v'']"
proof -
  let ?vs = "[VStatus ''PONG'', VStr ''v'']" and ?tss = "[[''PING''], [''GET'', ''k'']]"
  obtain b r where c: "at_rest (scripted_context (concat (map encode ?vs)) b r) r" "nxt (world r) = 1" "rlen r = 0"
    "peer_answers (scripted_context (concat (map encode ?vs)) b r) (concat (map command ?tss)) (concat (map encode ?vs))"
    "sent (scripted_context (concat (map encode ?vs)) b r) = []"
    using scripted_rest by blast
  have a: "all_denote [([''PING''], Nullp), ([''GET'', ''k''], Nullp)] ?tss"
    by (simp add: all_denote_def argv_denotes_def)
  have n: "length (concat (map command ?tss)) = 34" "length (concat (map encode ?vs)) = 14" by code_simp+
  have v: "\<forall>v \<in> set ?vs. value_ok 0 v" by simp
  have m: "length (concat (map command ?tss)) + 3 < 2 ^ 31" "rlen r + length (concat (map encode ?vs)) < 2 ^ 31 - 1"
    unfolding n c(3) by simp_all
  have ev: "addrs 1 ?vs = [1, 3]" "length ?vs = 2" "concat (map command ?tss) = command [''PING''] @ command [''GET'', ''k'']"
    by simp_all
  have "\<forall>n. grant generous n" "?vs \<noteq> []" by simp_all
  from pipeline_in_order [OF this(1) c(1) a c(4) this(2) v m, unfolded c(2,5) ev append_Nil]
  show ?thesis by blast
qed

text \<open>
  C6. A command on a blocking connection gets its answer: \<open>redisCommandArgv\<close> sends exactly the command,
  waits until the whole reply has arrived, however many reads that takes, and returns an object that
  holds the peer's value; the connection is at rest again and can be used for the next command.
\<close>

theorem command_answered:
  assumes "\<forall>n. grant A n" and "at_rest c r" and "argv_denotes argv argvlen ts"
    and "peer_answers c (command ts) (encode v)" and "value_ok 0 v"
    and "length (command ts) + 3 < 2 ^ 31" and "rlen r + length (encode v) < 2 ^ 31 - 1"
  shows "\<exists>d r'. redisCommandArgv A c (int (length argv)) argv argvlen = Some (d, nxt (world r)) \<and>
    sent d = sent c @ command ts \<and> at_rest d r' \<and> live (objs (world r')) (nxt (world r)) v \<and>
    nxt (world r') = nxt (world r) + ticks v"
proof -
  have o: "out_text c []" and u: "unread r = []" and bl: "has (cflags c) REDIS_BLOCK"
    and fresh: "\<forall>a \<ge> nxt (world r). objs (world r) a = None"
    using assms(2) by (simp_all add: at_rest_def)
  from append_step [OF assms(1) o assms(3)] assms(6) obtain b where
    b: "redisAppendCommandArgv A c (int (length argv)) argv argvlen = Some (c\<lparr>obuf := Ptr b\<rparr>, REDIS_OK)"
      "out_text (c\<lparr>obuf := Ptr b\<rparr>) (command ts)" by auto
  let ?c = "c\<lparr>obuf := Ptr b\<rparr>"
  have "length (command ts) < 2 ^ 31 - 1" using assms(6) by simp
  from rest_connected [OF assms(2,4) this assms(7) b(2)] have "connected ?c (command ts) (encode v) r" by simp
  from connected_reply [OF assms(1) this, of v "[]"] u assms(5) obtain d p t' r' where
    d: "redisGetReply A ?c = Some (d, nxt (world r), REDIS_OK)" "connected d p t' r'" "world r' = took r v"
      "unread r' @ t' = []" "sent d @ p = sent ?c @ command ts" "p = []"
    by auto
  have "redisCommandArgv A c (int (length argv)) argv argvlen = Some (d, nxt (world r))"
    using b(1) bl d(1) by (simp add: redisCommandArgv_def redisBlockForReply_def)
  moreover have "sent d = sent c @ command ts" using d(5,6) by (simp add: sent_def)
  moreover have "live (objs (world r')) (nxt (world r)) v"
    unfolding d(3) took_def using live_place(1) fresh by simp
  moreover have "\<forall>a \<ge> nxt (world r'). objs (world r') a = None"
    using fresh d(3) place_outside(1) [of _ "nxt (world r)" v "objs (world r)"] by (simp add: took_def)
  then have "at_rest d r'" using d(2,4,6) by (simp add: connected_def at_rest_def)
  ultimately show ?thesis using d(3) by (auto simp: took_def)
qed

theorem command_answered_witness:
  "\<exists>c d r. redisCommandArgv generous c 2 [''INCR'', ''n''] Nullp = Some (d, 1) \<and>
    sent d = command [''INCR'', ''n''] \<and> at_rest d r \<and> live (objs (world r)) 1 (VInt 42)"
proof -
  obtain b r where c: "at_rest (scripted_context (encode (VInt 42)) b r) r" "nxt (world r) = 1" "rlen r = 0"
    "peer_answers (scripted_context (encode (VInt 42)) b r) (command [''INCR'', ''n'']) (encode (VInt 42))"
    "sent (scripted_context (encode (VInt 42)) b r) = []"
    using scripted_rest by blast
  have a: "argv_denotes [''INCR'', ''n''] Nullp [''INCR'', ''n'']" by (simp add: argv_denotes_def)
  have n: "length (command [''INCR'', ''n'']) = 21" "length (encode (VInt 42)) = 5" by code_simp+
  have m: "length (command [''INCR'', ''n'']) + 3 < 2 ^ 31" "rlen r + length (encode (VInt 42)) < 2 ^ 31 - 1"
    unfolding n c(3) by simp_all
  have l: "int (length [''INCR'', ''n'']) = 2" by simp
  have "\<forall>n. grant generous n" "value_ok 0 (VInt 42)" by simp_all
  from command_answered [OF this(1) c(1) a c(4) this(2) m, unfolded c(2,5) l append_Nil]
  show ?thesis by blast
qed

text \<open>
  C18. No write loses or repeats a byte, whatever the system does: what was sent and what is still in
  the buffer are together what they were. The call fails only by recording an I/O error, and it
  reports that it is done exactly when the buffer is empty.
\<close>

theorem write_conserves_bytes:
  assumes "\<forall>n. grant A n" and "cerr c = 0" and "out_text c t" and "length t < 2 ^ 31 - 1" and "write_sound (io c)"
  shows "\<exists>d u rv dn. redisBufferWrite A c = Some (d, rv, dn) \<and> out_text d u \<and> sent d @ u = sent c @ t \<and>
    received d = received c \<and> cflags d = cflags c \<and> reader d = reader c \<and>
    (rv = REDIS_OK \<and> cerr d = 0 \<and> dn = Some (u = []) \<or> rv = REDIS_ERR \<and> cerr d = REDIS_ERR_IO \<and> dn = None)"
proof -
  from buffer_write [OF assms] obtain d u rv dn where
    d: "redisBufferWrite A c = Some (d, rv, dn)" "write_outcome c t d u rv dn" by blast
  then have "wrote c d" by (simp add: write_outcome_def)
  with d wroteD [OF this] show ?thesis unfolding write_outcome_def by blast
qed

theorem write_conserves_bytes_witness:
  "\<exists>c d u rv dn. out_text c ''*1'' \<and> redisBufferWrite generous c = Some (d, rv, dn) \<and> sent d @ u = sent c @ ''*1'' \<and>
    out_text d u"
proof -
  obtain b r where c: "at_rest (scripted_context [] b r) r" "peer_answers (scripted_context [] b r) [] []"
    using scripted_rest by blast
  let ?c = "scripted_context [] b r"
  obtain s where s: "sdsnewlen generous (Ptr ''*1'') 2 = Some (Ptr s)" "sds_ok s" "sds_content s = ''*1''"
    using yields_granted [OF sdsnewlen_spec [of 2 "Ptr ''*1''" generous]] by (auto simp: size_limit_def)
  have "cerr (?c\<lparr>obuf := Ptr s\<rparr>) = 0" "write_sound (io (?c\<lparr>obuf := Ptr s\<rparr>))"
    using c by (simp_all add: at_rest_def peer_answers_def)
  moreover have o: "out_text (?c\<lparr>obuf := Ptr s\<rparr>) ''*1''" using s by (simp add: out_text_def)
  ultimately show ?thesis using write_conserves_bytes [of generous "?c\<lparr>obuf := Ptr s\<rparr>" "''*1''"] by fastforce
qed

end
