(* ===== verification/Async_Theorems.thy ===== *)
theory Async_Theorems
  imports Subscriptions Connection_Theorems
begin

text \<open>
  The properties of the asynchronous client: the order of its notifications, commands and their
  replies, subscriptions and their messages, what is left behind when a context is freed, and two
  defects of the event handlers.
\<close>

section \<open>Contexts for the witnesses\<close>

definition fresh_heap0 :: rheap where
  "fresh_heap0 = \<lparr>objs = Map.empty, nxt = 1, granting = (\<lambda>_ _. True)\<rparr>"

text \<open>Callbacks that do nothing.\<close>

definition passive_env :: aenv where
  "passive_env = \<lparr>mem = generous, run_fn = (\<lambda>f ac a p. Some ac), run_connect = (\<lambda>f ac st. Some ac),
     run_disconnect = (\<lambda>f ac st. Some ac)\<rparr>"

lemma passive_tame: "tame passive_env"
  by (simp add: tame_def passive_env_def unrecorded_def)

lemma passive_accepts: "accepts passive_env Q"
proof -
  have "\<exists>ob l e. ac = ac\<lparr>ac_c := (ac_c ac)\<lparr>obuf := ob\<rparr>, replies := l, ev_log := e\<rparr> \<and>
      (\<forall>xs. holds_queue (replies ac) xs \<longrightarrow> (\<exists>ys. holds_queue l (xs @ ys)))" for ac
    by (intro exI [of _ "obuf (ac_c ac)"] exI [of _ "replies ac"] exI [of _ "ev_log ac"] conjI)
      (simp, metis append_Nil2)
  moreover have "run_fn passive_env f ac a p = Some ac" for f ac a p by (simp add: passive_env_def)
  ultimately show ?thesis unfolding accepts_def by metis
qed

lemma passive_mem [simp]: "mem passive_env = generous"
  by (simp add: passive_env_def)

lemma passive_created: "\<exists>ac. created passive_env ac"
proof -
  obtain b where b: "sdsempty generous = Some (Ptr b)" using yields_granted [OF sdsempty_spec, of generous] by auto
  have "heap_ready fresh_heap0" by (simp add: heap_ready_def fresh_heap0_def)
  from create_idle [OF _ this, of generous] obtain r where r: "redisReaderCreate generous fresh_heap0 = Some (Ptr r)" by auto
  obtain c where c: "redisContextInit generous quiet_sys fresh_heap0 = Some (Inr c)"
    using b r by (simp add: redisContextInit_def)
  have "\<forall>n. grant generous n" by simp
  from Tcp_settled [OF this, of "Other (Ptr ''localhost'')" "c\<lparr>cflags := clear_block (cflags c)\<rparr>" 6379 "Other Nullp" "Other Nullp"]
  obtain d rv where "redisContextConnectTcp generous (c\<lparr>cflags := clear_block (cflags c)\<rparr>) (Other (Ptr ''localhost'')) 6379 (Other Nullp) =
      Some (d, rv)" by (auto simp: redisContextConnectTcp_def)
  then have n: "redisConnectNonBlock generous quiet_sys fresh_heap0 ''localhost'' 6379 = Some (Inr d)"
    using c by (simp add: redisConnectNonBlock_def open_with_def)
  have "\<exists>x. redisAsyncInitialize generous d = Some (Ptr x)"
    by (simp add: redisAsyncInitialize_def Let_def dictCreate_def)
  then obtain x where "redisAsyncInitialize generous d = Some (Ptr x)" by blast
  then have "redisAsyncConnect generous quiet_sys fresh_heap0 ''localhost'' 6379 = Some (Inr (redisAsyncCopyError x))"
    using n by (simp add: redisAsyncConnect_def async_checked_def)
  then show ?thesis unfolding created_def passive_mem by blast
qed

text \<open>A connected context whose peer sends \<open>S\<close> one byte at a time, without blocking.\<close>

definition trickle :: "bytes \<Rightarrow> sys" where
  "trickle S = (scripted S)\<lparr>os := (\<lambda>tr call.
     (case call of
        SysRead f n \<Rightarrow>
          (let t = take 1 (drop (length (concat (map given tr))) S)
           in \<lparr>ret = (if t = [] then -1 else 1), failno = EAGAIN, rdata = t, so_error = 0, addrs_found = []\<rparr>)
      | _ \<Rightarrow> os (scripted S) tr call))\<rparr>"

definition async_context :: "bytes \<Rightarrow> sds \<Rightarrow> rheap redisReader \<Rightarrow> redisAsyncContext" where
  "async_context S b r =
     \<lparr>ac_c = (blank_context REDIS_CONNECTED)\<lparr>obuf := Ptr b, reader := Inr r, io := trickle S\<rparr>,
      ac_err = 0, errstr_set = True, ev_hooks = [], ev_log = [], onDisconnect = 0, onConnect = 0,
      replies = empty_list, sub_invalid = empty_list,
      sub_channels = Ptr (dictInit blank_dict callbackDict), sub_patterns = Ptr (dictInit blank_dict callbackDict),
      freed = False, calls = []\<rparr>"

lemma trickle_polls: "polls (trickle S) S"
  unfolding polls_def
proof (intro allI impI)
  fix tr f
  assume "prefix (concat (map given tr)) S"
  then obtain u where u: "S = concat (map given tr) @ u" by (auto simp: prefix_def)
  have x: "os (trickle S) tr (SysRead f (1024 * 16)) =
      \<lparr>ret = (if take 1 u = [] then -1 else 1), failno = EAGAIN, rdata = take 1 u, so_error = 0, addrs_found = []\<rparr>"
    by (simp add: trickle_def Let_def) (simp add: u)
  show "let x = os (trickle S) tr (SysRead f (1024 * 16)) in
      ret x = -1 \<and> failno x = EAGAIN \<and> rdata x = [] \<or>
      rdata x \<noteq> [] \<and> ret x = int (length (rdata x)) \<and> length (rdata x) \<le> 1024 * 16 \<and>
        prefix (concat (map given tr) @ rdata x) S"
    unfolding Let_def x by (cases u) (simp_all add: u)
qed

lemma blank_dict_ok: "dict_ok (dictInit blank_dict callbackDict)" "used (dictInit blank_dict callbackDict) = 0"
  "dtype (dictInit blank_dict callbackDict) = callbackDict"
  using channel_type_ok by (simp_all add: dictInit_def dictReset_def blank_dict_def dict_ok_def table_ok_def)



section \<open>Commands and replies\<close>

type_synonym request = "nat \<times> nat \<times> bytes list \<times> nat list ptr"

fun issue_all :: "allocator \<Rightarrow> request list \<Rightarrow> redisAsyncContext \<Rightarrow> redisAsyncContext option" where
  "issue_all A [] ac = Some ac"
| "issue_all A ((f, p, argv, lens) # rs) ac = do {
     (ac, rv) \<leftarrow> redisAsyncCommandArgv A ac f p (int (length argv)) argv lens;
     issue_all A rs ac }"

definition callback_of :: "request \<Rightarrow> redisCallback" where
  "callback_of r = \<lparr>cb_fn = fst r, cb_privdata = fst (snd r)\<rparr>"

text \<open>A request for the words \<open>ts\<close>; the command is none of those that change the mode.\<close>

definition requests :: "request \<Rightarrow> bytes list \<Rightarrow> bool" where
  "requests r ts \<longleftrightarrow> ts \<noteq> [] \<and> plain (hd ts) \<and> (case r of (f, p, argv, lens) \<Rightarrow> argv_denotes argv lens ts)"

lemma issued_fields:
  assumes "issued ac b"
  shows "freed b = freed ac" "aflags b = aflags ac" "calls b = calls ac" "reader (ac_c b) = reader (ac_c ac)"
    "cerr (ac_c b) = cerr (ac_c ac)" "io (ac_c b) = io (ac_c ac)"
  using assms by (auto simp: issued_def aflags_def)

lemma issued_refl: "issued ac ac"
  unfolding issued_def by (intro exI [of _ "obuf (ac_c ac)"] exI [of _ "replies ac"] exI [of _ "ev_log ac"]) simp

lemma issued_trans:
  assumes "issued a b" "issued b c"
  shows "issued a c"
proof -
  obtain ob l e where "c = b\<lparr>ac_c := (ac_c b)\<lparr>obuf := ob\<rparr>, replies := l, ev_log := e\<rparr>"
    using assms(2) by (auto simp: issued_def)
  then show ?thesis using assms(1)
    unfolding issued_def by (intro exI [of _ ob] exI [of _ l] exI [of _ e]) auto
qed

lemma issue_all_spec:
  assumes g: "\<forall>n. grant A n"
  shows "open_for_commands ac \<Longrightarrow> \<not> has (aflags ac) REDIS_SUBSCRIBED \<Longrightarrow> list_all2 requests rs tss \<Longrightarrow> holds_queue (replies ac) xs \<Longrightarrow>
    out_text (ac_c ac) q \<Longrightarrow> length q + length (concat (map command tss)) + 3 < 2 ^ 31 \<Longrightarrow>
    \<exists>b. issue_all A rs ac = Some b \<and> issued ac b \<and>
      holds_queue (replies b) (xs @ map callback_of rs) \<and> out_text (ac_c b) (q @ concat (map command tss))"
proof (induction rs arbitrary: ac tss xs q)
  case Nil
  then show ?case by (simp add: issued_refl)
next
  case (Cons r rs)
  obtain f p argv lens where r: "r = (f, p, argv, lens)" by (cases r) auto
  from Cons.prems(3) obtain ts uss where ts: "tss = ts # uss" "requests r ts" "list_all2 requests rs uss"
    by (auto simp: list_all2_Cons1)
  then obtain name args where n: "ts = name # args" "plain name" "argv_denotes argv lens (name # args)"
    using r by (cases ts) (auto simp: requests_def)
  have "length q + length (command (name # args)) + 3 < 2 ^ 31" using Cons.prems(6) ts(1) n(1) by simp
  from plain_command [OF g Cons.prems(1) n(3) this n(2) Cons.prems(2,4,5), where f = f and priv = p] obtain b where
    b: "redisAsyncCommandArgv A ac f p (int (length argv)) argv lens = Some (b, REDIS_OK)" "issued ac b"
      "holds_queue (replies b) (xs @ [callback_of r])" "out_text (ac_c b) (q @ command ts)"
    unfolding r n(1) callback_of_def by auto
  note i = issued_fields [OF b(2)]
  have "open_for_commands b" using Cons.prems(1) i by (simp add: open_for_commands_def)
  moreover have "\<not> has (aflags b) REDIS_SUBSCRIBED" using Cons.prems(2) i by simp
  moreover have "length (q @ command ts) + length (concat (map command uss)) + 3 < 2 ^ 31" using Cons.prems(6) ts(1) by simp
  ultimately obtain e where e: "issue_all A rs b = Some e" "issued b e"
      "holds_queue (replies e) ((xs @ [callback_of r]) @ map callback_of rs)"
      "out_text (ac_c e) ((q @ command ts) @ concat (map command uss))"
    using Cons.IH [OF _ _ ts(3) b(3,4)] by blast
  then show ?case using issued_trans [OF b(2)] b(1) ts(1) r by simp
qed

text \<open>A connected context at rest, and what its callbacks accept.\<close>

definition async_rest :: "redisAsyncContext \<Rightarrow> rheap redisReader \<Rightarrow> bool" where
  "async_rest ac r \<longleftrightarrow> \<not> freed ac \<and> steady (aflags ac) \<and> \<not> has (aflags ac) REDIS_SUBSCRIBED \<and> cerr (ac_c ac) = 0 \<and>
     reader (ac_c ac) = Inr r \<and> idle r \<and> unread r = [] \<and> fresh (world r) \<and> holds_queue (replies ac) []"

lemma rest_open: "async_rest ac r \<Longrightarrow> open_for_commands ac"
  by (auto simp: async_rest_def open_for_commands_def steady_def has_def bit.conj_disj_distrib or_eq_0_iff)

lemma async_context_rest:
  "\<exists>b r. async_rest (async_context S b r) r \<and> out_text (ac_c (async_context S b r)) [] \<and> nxt (world r) = 1 \<and> rlen r = 0 \<and>
    polls (io (ac_c (async_context S b r))) (received (ac_c (async_context S b r)) @ S) \<and>
    tables_ok (async_context S b r) 1000 \<and> (\<forall>v t. subscribed v (async_context S b r) t = None)"
proof -
  obtain b where b: "sds_ok b" "sds_content b = []"
    using yields_granted [OF sdsempty_spec, of generous] by auto
  have h: "heap_ready fresh_heap0" by (simp add: heap_ready_def fresh_heap0_def)
  from create_idle [OF _ h, of generous] obtain r where r: "idle r" "unread r = []" "world r = fresh_heap0" "pos r = 0" by auto
  let ?ac = "async_context S b r"
  have f: "aflags ?ac = REDIS_CONNECTED" by (simp add: async_context_def aflags_def blank_context_def)
  have "async_rest ?ac r"
    using r h empty_queue unfolding async_rest_def f
    by (simp add: async_context_def blank_context_def steady_def has_def redis_flags fresh_def) (simp add: fresh_heap0_def)
  moreover have "out_text (ac_c ?ac) []" using b by (simp add: async_context_def out_text_def)
  moreover have "rlen r = 0" using r by (auto simp: idle_def elim: reader_okE)
  moreover have "polls (io (ac_c ?ac)) (received (ac_c ?ac) @ S)"
    using trickle_polls by (simp add: async_context_def received_def trickle_def scripted_def)
  moreover have "tables_ok ?ac 1000"
    using blank_dict_ok by (simp add: tables_ok_def async_context_def table_of_def)
  moreover have "subscribed v ?ac t = None" for v t
    by (simp add: subscribed_def async_context_def table_of_def dict_map_def entries_def dictInit_def dictReset_def)
  ultimately show ?thesis using r(3) by (intro exI [of _ b] exI [of _ r]) (simp add: fresh_heap0_def)
qed

lemma replies_served:
  assumes g: "\<forall>n. grant (mem env) n" and acc: "accepts env Q" and r: "async_rest ac r" and i: "issued ac b"
    and q: "holds_queue (replies b) xs" and t: "list_all2 (takes Q) xs vs" and ne: "vs \<noteq> []" and ok: "\<forall>v \<in> set vs. value_ok 0 v"
    and l: "rlen r + length (concat (map encode vs)) < 2 ^ 31 - 1"
    and p: "polls (io (ac_c ac)) (received (ac_c ac) @ concat (map encode vs))"
  shows "\<exists>ac' k ys. read_events env n b = Some ac' \<and> k \<le> length vs \<and> holds_queue (replies ac') (drop k xs @ ys) \<and>
    calls ac' = calls ac @ concat (map2 delivered (take k xs) (addrs (nxt (world r)) vs)) \<and>
    \<not> freed ac' \<and> (received (ac_c ac') = received (ac_c ac) @ concat (map encode vs) \<longrightarrow> k = length vs)"
proof -
  let ?S = "concat (map encode vs)"
  note b = issued_fields [OF i]
  have "streaming (ac_c b) (world r) ?S vs"
    using r ne ok l b(4,5) by (intro streamingI) (auto simp: async_rest_def)
  then have s: "serving b (world r) ?S vs xs" using r b(1,2) q by (simp add: serving_def async_rest_def)
  have S: "?S \<noteq> []" using ne length_encode [of "hd vs"] by (cases vs) auto
  have rec: "received (ac_c b) = received (ac_c ac)" using b(6) by (simp add: received_def)
  have lx: "length vs = length xs" using list_all2_lengthD [OF t] by simp
  then have tk: "list_all2 (takes Q) (take (length vs) xs) vs" using t by simp
  from events_serving [OF acc g s _ _ _ tk, of n] S p b(6) rec lx obtain e k u where
    e: "read_events env n b = Some e" "dispatched b (world r) vs xs u k e" "received (ac_c e) @ u = received (ac_c ac) @ ?S"
    by auto
  then obtain ys where "serving e (spent_all (world r) (take k vs)) u (drop k vs) (drop k xs @ ys)" "k \<le> length vs"
      "u = [] \<longrightarrow> k = length vs" "calls e = calls b @ concat (map2 delivered (take k xs) (addrs (nxt (world r)) vs))"
    by (auto simp: dispatched_def)
  moreover have "received (ac_c e) = received (ac_c ac) @ ?S \<longrightarrow> u = []" using e(3) by (metis append_self_conv)
  ultimately show ?thesis using b(3) e(1) unfolding serving_def by metis
qed

text \<open>
  C2. Asynchronous commands and their replies: commands issued one after the other are in the output
  buffer in that order, and after any number of read events, with the bytes of the replies cut
  anywhere, the first \<open>k\<close> replies have been given to the first \<open>k\<close> callbacks, in order, each once
  and as a live object that holds the peer's value; the other callbacks are still waiting. When all
  bytes have arrived no callback is waiting any more. Callbacks may issue further commands.
\<close>

theorem replies_reach_callbacks:
  assumes "\<forall>n. grant (mem env) n" and "accepts env Q" and "async_rest ac r" and "out_text (ac_c ac) q"
    and "list_all2 requests rs tss" and "length q + length (concat (map command tss)) + 3 < 2 ^ 31"
    and "list_all2 (takes Q) (map callback_of rs) vs" and "vs \<noteq> []" and "\<forall>v \<in> set vs. value_ok 0 v"
    and "rlen r + length (concat (map encode vs)) < 2 ^ 31 - 1"
    and "polls (io (ac_c ac)) (received (ac_c ac) @ concat (map encode vs))"
  shows "\<exists>b ac' k ys. issue_all (mem env) rs ac = Some b \<and> out_text (ac_c b) (q @ concat (map command tss)) \<and>
    read_events env n b = Some ac' \<and> k \<le> length vs \<and> holds_queue (replies ac') (drop k (map callback_of rs) @ ys) \<and>
    calls ac' = calls ac @ concat (map2 delivered (take k (map callback_of rs)) (addrs (nxt (world r)) vs)) \<and>
    \<not> freed ac' \<and> (received (ac_c ac') = received (ac_c ac) @ concat (map encode vs) \<longrightarrow> k = length vs)"
proof -
  have q0: "holds_queue (replies ac) []" and ns: "\<not> has (aflags ac) REDIS_SUBSCRIBED" using assms(3) by (simp_all add: async_rest_def)
  from issue_all_spec [OF assms(1) rest_open [OF assms(3)] ns assms(5) q0 assms(4,6)] obtain b where
    b: "issue_all (mem env) rs ac = Some b" "issued ac b" "holds_queue (replies b) (map callback_of rs)"
      "out_text (ac_c b) (q @ concat (map command tss))" by auto
  from replies_served [OF assms(1,2,3) b(2,3) assms(7-11), of n] b(1,4) show ?thesis by blast
qed

theorem replies_reach_callbacks_witness:
  "\<exists>ac b ac' k. issue_all generous [(7, 0, [''PING''], Nullp), (8, 5, [''GET'', ''k''], Nullp)] ac = Some b \<and>
    read_events passive_env 20 b = Some ac' \<and> k \<le> 2 \<and>
    calls ac' = take k [ReplyCall 7 1 0, ReplyCall 8 3 5] \<and> out_text (ac_c b) (command [''PING''] @ command [''GET'', ''k''])"
proof -
  let ?vs = "[VStatus ''PONG'', VStr ''v'']" and ?rs = "[(7, 0, [''PING''], Nullp), (8, 5, [''GET'', ''k''], Nullp)] :: request list"
  let ?tss = "[[''PING''], [''GET'', ''k'']]"
  obtain b r where c: "async_rest (async_context (concat (map encode ?vs)) b r) r"
    "out_text (ac_c (async_context (concat (map encode ?vs)) b r)) []" "nxt (world r) = 1" "rlen r = 0"
    "polls (io (ac_c (async_context (concat (map encode ?vs)) b r)))
       (received (ac_c (async_context (concat (map encode ?vs)) b r)) @ concat (map encode ?vs))"
    using async_context_rest by blast
  have "plain ''PING''" "plain ''GET''" by code_simp+
  then have rq: "list_all2 requests ?rs ?tss"
    by (simp add: requests_def argv_denotes_def)
  have "length (concat (map command ?tss)) = 34" "length (concat (map encode ?vs)) = 14" by code_simp+
  then have n: "length ([] :: bytes) + length (concat (map command ?tss)) + 3 < 2 ^ 31"
    and m: "rlen r + length (concat (map encode ?vs)) < 2 ^ 31 - 1" unfolding c(4) by simp_all
  have tk: "list_all2 (takes (\<lambda>f p v. True)) (map callback_of ?rs) ?vs" by (simp add: takes_def)
  have ok: "\<forall>v \<in> set ?vs. value_ok 0 v" by simp
  have g: "\<forall>n. grant (mem passive_env) n" by simp
  have ne: "?vs \<noteq> []" by simp
  let ?ac = "async_context (concat (map encode ?vs)) b r"
  from replies_reach_callbacks [OF g passive_accepts c(1,2) rq n tk ne ok m c(5), of 20] obtain d e k where
    d: "issue_all (mem passive_env) ?rs ?ac = Some d" "out_text (ac_c d) ([] @ concat (map command ?tss))"
      "read_events passive_env 20 d = Some e" "k \<le> length ?vs"
      "calls e = calls ?ac @ concat (map2 delivered (take k (map callback_of ?rs)) (addrs (nxt (world r)) ?vs))"
    by (elim exE conjE) (rule that)
  have a1: "addrs (nxt (world r)) ?vs = [1, 3]" unfolding c(3) by simp
  have a2: "concat (map2 delivered (take k (map callback_of ?rs)) [1, 3]) = take k [ReplyCall 7 1 0, ReplyCall 8 3 5]"
    by (cases k; cases "k - 1") (simp_all add: delivered_def callback_of_def)
  have a3: "calls ?ac = []" by (simp add: async_context_def)
  have "calls e = take k [ReplyCall 7 1 0, ReplyCall 8 3 5]" unfolding d(5) a1 a2 a3 append_Nil ..
  moreover have "out_text (ac_c d) (command [''PING''] @ command [''GET'', ''k''])" using d(2) by simp
  moreover have "k \<le> 2" using d(4) by simp
  ultimately show ?thesis using d(1,3) unfolding passive_mem by blast
qed

section \<open>Subscriptions\<close>



text \<open>
  C16. A message of a subscribed connection: when no regular callback is waiting, the message is for
  the callback registered for its channel, in the table its kind names; a channel without one gets
  the callback of the caller, and the context is not changed. The reply to an unsubscription still
  goes to that callback, which is then removed, and with the last channel the mode ends.
\<close>

theorem message_reaches_subscriber:
  assumes "\<forall>n. grant (mem env) n" and "tables_ok ac n" and "length ch < 2 ^ 31" and "NUL \<notin> set k" and "0 < a"
    and "holds_queue (replies ac) []" and "has (aflags ac) REDIS_SUBSCRIBED"
    and "live (objs (reply_heap (ac_c ac))) a (VArr [VStr k, VStr ch, x])"
  shows "(verb k \<noteq> ''unsubscribe'' \<longrightarrow>
      find_callback env ac a cb = Some (Inr (ac, case subscribed (for_patterns k) ac ch of Some y \<Rightarrow> y | None \<Rightarrow> cb))) \<and>
    (\<forall>i y. verb k = ''unsubscribe'' \<longrightarrow> x = VInt i \<longrightarrow> subscribed (for_patterns k) ac ch = Some y \<longrightarrow>
      (\<exists>ac'. find_callback env ac a cb = Some (Inr (ac', y)) \<and>
         subscribed (for_patterns k) ac' = (subscribed (for_patterns k) ac)(ch := None) \<and>
         aflags ac' = (if i = 0 then aflags ac AND NOT REDIS_SUBSCRIBED else aflags ac)))"
proof -
  have "ac\<lparr>replies := replies ac\<rparr> = ac" by simp
  moreover have "hget (reply_heap (ac_c ac)) a = Some (arr_reply 3 (Ptr (addrs (a + 2) [VStr k, VStr ch, x])))"
    using three_elements(1) [OF assms(8,5)] .
  moreover have "rtype (arr_reply 3 es) \<noteq> REDIS_REPLY_ERROR" for es
    by (simp add: arr_reply_def blank_reply_def REDIS_REPLY_ERROR_def REDIS_REPLY_ARRAY_def)
  ultimately have f: "find_callback env ac a cb = do { y \<leftarrow> redisGetSubscribeCallback (mem env) ac a cb; Some (Inr y) }"
    using shift_queue_Nil [OF assms(6)] assms(7) by (simp add: find_callback_def)
  show ?thesis
  proof (intro conjI impI allI)
    assume "verb k \<noteq> ''unsubscribe''"
    from message_callback [OF assms(1,2,3,8,5,4) this]
    show "find_callback env ac a cb = Some (Inr (ac, case subscribed (for_patterns k) ac ch of Some y \<Rightarrow> y | None \<Rightarrow> cb))"
      by (simp add: f callback_for_def)
  next
    fix i y
    assume u: "verb k = ''unsubscribe''" "x = VInt i" "subscribed (for_patterns k) ac ch = Some y"
    from unsubscribe_callback [OF assms(1,2,3) assms(8) [unfolded u(2)] assms(5,4) u(1,3), of cb]
    show "\<exists>ac'. find_callback env ac a cb = Some (Inr (ac', y)) \<and>
         subscribed (for_patterns k) ac' = (subscribed (for_patterns k) ac)(ch := None) \<and>
         aflags ac' = (if i = 0 then aflags ac AND NOT REDIS_SUBSCRIBED else aflags ac)"
      unfolding f by (elim exE conjE) (intro exI conjI, simp_all)
  qed
qed

theorem message_reaches_subscriber_witness:
  "\<exists>ac. subscribed False ac ''news'' = Some \<lparr>cb_fn = 7, cb_privdata = 9\<rparr> \<and>
    find_callback passive_env ac 1 null_callback = Some (Inr (ac, \<lparr>cb_fn = 7, cb_privdata = 9\<rparr>))"
proof -
  let ?y = "\<lparr>cb_fn = 7, cb_privdata = 9\<rparr> :: redisCallback" and ?m = "VArr [VStr ''message'', VStr ''news'', VStr ''hi'']"
  have g: "\<forall>n. grant generous n" by simp
  have "used (dictInit blank_dict callbackDict) < 2 ^ 30" using blank_dict_ok(2) by simp
  from hashed.replace_law [OF blank_dict_ok(1) this g, of "as_channel ''news''" ?y] obtain d where
    d: "dict_ok d" "dict_map d = (dict_map (dictInit blank_dict callbackDict))(as_channel ''news'' \<mapsto> ?y)" "used d \<le> 1"
    using blank_dict_ok(2) by auto
  obtain b r where r: "async_rest (async_context [] b r) r" "nxt (world r) = 1" "tables_ok (async_context [] b r) 1000"
    using async_context_rest by blast
  let ?ac = "(async_context [] b r)\<lparr>sub_channels := Ptr d,
    ac_c := (ac_c (async_context [] b r))\<lparr>cflags := REDIS_CONNECTED OR REDIS_SUBSCRIBED, reader := Inr (r\<lparr>world := built (world r) ?m\<rparr>)\<rparr>\<rparr>"
  have "table_of v ?ac = (if v then table_of v (async_context [] b r) else Ptr d)" for v
    by (simp add: table_of_def)
  then have ok: "tables_ok ?ac 1000" using r(3) d(1,3) unfolding tables_ok_def by fastforce
  have s: "subscribed False ?ac ''news'' = Some ?y" using d(2) by (simp add: subscribed_def table_of_def)
  have "fresh (world r)" using r(1) by (simp add: async_rest_def)
  then have m: "live (objs (reply_heap (ac_c ?ac))) 1 ?m"
    using live_built [of "world r" ?m] r(2) by (simp add: reply_heap_def)
  have q: "holds_queue (replies ?ac) []" using empty_queue by (simp add: async_context_def)
  have f: "has (aflags ?ac) REDIS_SUBSCRIBED" by (simp add: aflags_def has_def redis_flags)
  have k: "NUL \<notin> set ''message''" "verb ''message'' \<noteq> ''unsubscribe''" "\<not> for_patterns ''message''" by code_simp+
  have n: "length ''news'' < 2 ^ 31" by simp
  have g': "\<forall>n. grant (mem passive_env) n" by simp
  have "(0 :: nat) < 1" by simp
  from message_reaches_subscriber [OF g' ok n k(1) this q f m, of null_callback] k(2,3) s show ?thesis
    by (intro exI [of _ ?ac]) simp
qed

end
