(* ===== verification/Teardown.thy ===== *)
theory Teardown
  imports Async_Theorems
begin

text \<open>
  The end of a context: everything that waits for a reply is told, exactly once, and the rest of the
  event handlers' behaviour that a client has to know: a context freed by its connect callback is
  used again, and in monitor mode lines are lost.
\<close>

section \<open>Callbacks that ignore a NULL reply\<close>

definition deaf :: "aenv \<Rightarrow> bool" where
  "deaf env \<longleftrightarrow> (\<forall>f ac p. run_fn env f ac 0 p = Some ac) \<and> (\<forall>f ac st. run_disconnect env f ac st = Some ac)"

definition add_calls :: "user_call list \<Rightarrow> redisAsyncContext \<Rightarrow> redisAsyncContext" where
  "add_calls cs ac = ac\<lparr>calls := calls ac @ cs\<rparr>"

lemma add_calls_fields [simp]:
  "calls (add_calls cs ac) = calls ac @ cs" "freed (add_calls cs ac) = freed ac" "aflags (add_calls cs ac) = aflags ac"
  "ac_c (add_calls cs ac) = ac_c ac" "queue_of iv (add_calls cs ac) = queue_of iv ac" "table_of v (add_calls cs ac) = table_of v ac"
  "onDisconnect (add_calls cs ac) = onDisconnect ac" "ac_err (add_calls cs ac) = ac_err ac"
  "add_calls bs (add_calls cs ac) = add_calls (cs @ bs) ac" "add_calls [] ac = ac"
  by (simp_all add: add_calls_def aflags_def queue_of_def table_of_def)

lemma run_deaf:
  assumes "deaf env" and "\<not> freed ac" and "\<not> has (aflags ac) REDIS_IN_CALLBACK"
  shows "redisRunCallback env ac x 0 = Some (add_calls (delivered x 0) ac)"
proof (cases "cb_fn x = 0")
  case True
  then show ?thesis by (simp add: redisRunCallback_def delivered_def)
next
  case False
  have "(aflags ac OR REDIS_IN_CALLBACK) AND NOT REDIS_IN_CALLBACK = aflags ac" using in_callback_undone assms(3) by blast
  then show ?thesis
    using False assms by (simp add: redisRunCallback_def deaf_def alive_def delivered_def add_calls_def set_aflags_def aflags_def)
qed

definition told :: "redisCallback list \<Rightarrow> user_call list" where
  "told xs = concat (map (\<lambda>x. delivered x 0) xs)"

lemma told_simps [simp]: "told [] = []" "told (x # xs) = delivered x 0 @ told xs"
  by (simp_all add: told_def)

lemma set_queue_facts [simp]: "queue_of iv (set_queue iv ac l) = l" "queue_of (\<not> iv) (set_queue iv ac l) = queue_of (\<not> iv) ac"
  "set_queue iv (add_calls cs (set_queue iv ac l)) m = set_queue iv (add_calls cs ac) m"
  "set_queue iv (set_queue iv ac l) m = set_queue iv ac m"
  "table_of v (set_queue iv ac l) = table_of v ac" "onDisconnect (set_queue iv ac l) = onDisconnect ac"
  "ac_err (set_queue iv ac l) = ac_err ac" "ac_c (set_queue iv ac l) = ac_c ac"
  by (simp_all add: queue_of_def set_queue_def add_calls_def table_of_def)

lemma pending_told:
  assumes "deaf env"
  shows "holds_queue (queue_of iv ac) xs \<Longrightarrow> \<not> freed ac \<Longrightarrow> \<not> has (aflags ac) REDIS_IN_CALLBACK \<Longrightarrow>
    \<exists>l. run_pending env iv ac = Some (add_calls (told xs) (set_queue iv ac l)) \<and> holds_queue l []"
proof (induction xs arbitrary: ac)
  case (Nil ac)
  have "set_queue iv ac (queue_of iv ac) = ac" by (simp add: queue_of_def set_queue_def)
  then show ?case using shift_queue_Nil [OF Nil(1)] Nil(1)
    by (intro exI [of _ "queue_of iv ac"]) (subst run_pending.simps, simp)
next
  case (Cons x xs ac)
  from shift_queue_Cons [OF Cons.prems(1)] obtain l where l: "redisShiftCallback (queue_of iv ac) = Some (l, Some x, REDIS_OK)"
    "holds_queue l xs" by blast
  let ?b = "add_calls (delivered x 0) (set_queue iv ac l)"
  have r: "redisRunCallback env (set_queue iv ac l) x 0 = Some ?b"
    using run_deaf [OF assms] Cons.prems(2,3) by simp
  have "holds_queue (queue_of iv ?b) xs" "\<not> freed ?b" "\<not> has (aflags ?b) REDIS_IN_CALLBACK" using l(2) Cons.prems(2,3) by simp_all
  from Cons.IH [OF this] obtain m where m: "run_pending env iv ?b = Some (add_calls (told xs) (set_queue iv ?b m))" "holds_queue m []"
    by blast
  have "run_pending env iv ac = run_pending env iv ?b" using l(1) r by (subst run_pending.simps) simp
  moreover have "add_calls (told xs) (set_queue iv ?b m) = add_calls (told (x # xs)) (set_queue iv ac m)"
    by (simp add: add_calls_def set_queue_def)
  ultimately show ?case using m by metis
qed

lemma subs_told:
  assumes "deaf env" and n: "int32 (int (ht_size d)) = int (length (table d))"
  shows "-1 \<le> it_index it \<Longrightarrow> table_of v ac = Ptr d \<Longrightarrow> \<not> freed ac \<Longrightarrow> \<not> has (aflags ac) REDIS_IN_CALLBACK \<Longrightarrow>
    run_subs env v it ac = Some (add_calls (told (map eval (ahead d it))) ac)"
proof (induction "ahead d it" arbitrary: it ac)
  case Nil
  from dictNext_ahead [OF Nil(2) n] obtain it' p where p: "dictNext d it = Some (it', p)"
    "case p of Nullp \<Rightarrow> ahead d it = [] | Ptr e \<Rightarrow> ahead d it = e # ahead d it'" by blast
  with Nil(1) have "dictNext d it = Some (it', Nullp)" by (cases p) auto
  then show ?case using Nil by (subst run_subs.simps) simp
next
  case (Cons e es)
  from dictNext_ahead [OF Cons(3) n] obtain it' p where p: "dictNext d it = Some (it', p)" "-1 \<le> it_index it'"
    "case p of Nullp \<Rightarrow> ahead d it = [] | Ptr e \<Rightarrow> ahead d it = e # ahead d it'" by blast
  with Cons(2) have it': "dictNext d it = Some (it', Ptr e)" "-1 \<le> it_index it'" "es = ahead d it'" by (cases p; simp)+
  let ?b = "add_calls (delivered (eval e) 0) ac"
  have r: "redisRunCallback env ac (eval e) 0 = Some ?b" using run_deaf [OF assms(1)] Cons.prems(3,4) by simp
  have "run_subs env v it' ?b = Some (add_calls (told (map eval (ahead d it'))) ?b)"
    using Cons.prems by (intro Cons(1) it') simp_all
  then show ?case using it'(1,3) r Cons(2) [symmetric] Cons.prems(2) by (subst run_subs.simps) simp
qed

text \<open>The callbacks of a table, in the order of the iterator: one for every entry.\<close>

definition subscribers :: "bool \<Rightarrow> redisAsyncContext \<Rightarrow> redisCallback list" where
  "subscribers v ac = (case table_of v ac of Nullp \<Rightarrow> [] | Ptr d \<Rightarrow> map snd (entries d))"

definition small_tables :: "redisAsyncContext \<Rightarrow> bool" where
  "small_tables ac \<longleftrightarrow> (\<forall>v. \<exists>d. table_of v ac = Ptr d \<and> dict_ok d \<and> ht_size d < 2 ^ 31)"

lemma release_told:
  assumes e: "deaf env" and g: "\<forall>n. grant (mem env) n" and t: "table_of v ac = Ptr d" "dict_ok d" "ht_size d < 2 ^ 31"
    and f: "\<not> freed ac" "\<not> has (aflags ac) REDIS_IN_CALLBACK"
  shows "release_subs env v ac = Some (set_table v (add_calls (told (subscribers v ac)) ac) Nullp)"
proof -
  let ?it = "\<lparr>it_index = -1, it_entry = [], nextEntry = []\<rparr> :: (channel, redisCallback) dictIterator"
  have n: "int32 (int (ht_size d)) = int (length (table d))" using t(2,3) by (simp add: int32_id dict_ok_def)
  have "ahead d ?it = concat (table d)" by (simp add: ahead_def)
  then have s: "map eval (ahead d ?it) = subscribers v ac" using t(1) by (simp add: subscribers_def entries_def comp_def)
  have "run_subs env v ?it ac = Some (add_calls (told (subscribers v ac)) ac)"
    using subs_told [OF e n _ t(1) f, of ?it] s by simp
  moreover obtain x where "dictRelease d = Some x" using dictClear_spec [OF t(2)] by (auto simp: dictRelease_def)
  ultimately show ?thesis using g t(1) by (simp add: release_subs_def dictGetIterator_def)
qed

text \<open>The notification at the end.\<close>

definition farewell :: "redisAsyncContext \<Rightarrow> user_call list" where
  "farewell ac = (if onDisconnect ac \<noteq> 0 \<and> has (aflags ac) REDIS_CONNECTED then [DisconnectCall (onDisconnect ac) REDIS_OK] else [])"

lemma goodbye:
  assumes "deaf env" and "\<not> freed ac" and "has (aflags ac) REDIS_FREEING"
  shows "run_on_disconnect env ac = Some (add_calls (farewell ac) ac)"
  using assms by (simp add: run_on_disconnect_def deaf_def farewell_def add_calls_def alive_def)

lemma set_table_facts [simp]: "table_of (\<not> v) (set_table v ac d) = table_of (\<not> v) ac" "ac_c (set_table v ac d) = ac_c ac"
  "onDisconnect (set_table v ac d) = onDisconnect ac"
  by (simp_all add: table_of_def set_table_def)

lemma free_between_replies: "reader c = Inr r \<Longrightarrow> reply r = 0 \<Longrightarrow> \<exists>s h. redisFree c = Some (s, h)"
proof -
  assume r: "reader c = Inr r" "reply r = 0"
  have "reader (fst (io_call c q)) = Inr r" for q using r(1) by (simp add: io_call_eq)
  then show ?thesis using r by (simp add: redisFree_def Let_def redisReaderFree_def free_reply_def)
qed

lemma free_told:
  assumes "deaf env" and "\<forall>n. grant (mem env) n" and "\<not> freed ac" and "\<not> has (aflags ac) REDIS_IN_CALLBACK"
    and "holds_queue (replies ac) xs" and "holds_queue (sub_invalid ac) ys" and "small_tables ac"
    and "reader (ac_c ac) = Inr r" and "reply r = 0"
  shows "\<exists>ac'. redisAsyncFree env ac = Some ac' \<and> freed ac' \<and>
    calls ac' = calls ac @ told xs @ told ys @ told (subscribers False ac) @ told (subscribers True ac) @ farewell ac"
proof -
  let ?a = "set_aflags ac (aflags ac OR REDIS_FREEING)"
  have ic: "\<not> has (aflags ?a) REDIS_IN_CALLBACK" using assms(4) by (simp add: has_set redis_flags)
  have fr: "has (aflags ?a) REDIS_FREEING" by (simp add: has_set_self redis_flags)
  have a: "queue_of False ?a = replies ac" "queue_of True ?a = sub_invalid ac" "table_of v ?a = table_of v ac"
    "onDisconnect ?a = onDisconnect ac" "conn ?a = conn ac" for v
    by (simp_all add: queue_of_def table_of_def set_aflags_def)
  then have st: "subscribers v ?a = subscribers v ac" for v by (simp add: subscribers_def)
  from assms(7) a(3) obtain d0 d1 where d: "table_of False ?a = Ptr d0" "dict_ok d0" "ht_size d0 < 2 ^ 31"
    "table_of True ?a = Ptr d1" "dict_ok d1" "ht_size d1 < 2 ^ 31"
    unfolding small_tables_def by metis
  have live: "\<not> freed ?a" using assms(3) by simp
  have "holds_queue (queue_of False ?a) xs" using a(1) assms(5) by simp
  from pending_told [OF assms(1) this live ic] obtain l where
    p1: "run_pending env False ?a = Some (add_calls (told xs) (set_queue False ?a l))" by blast
  let ?b = "add_calls (told xs) (set_queue False ?a l)"
  have "queue_of True ?b = queue_of True ?a" by (simp add: queue_of_def set_queue_def add_calls_def)
  then have "holds_queue (queue_of True ?b) ys" "\<not> freed ?b" "\<not> has (aflags ?b) REDIS_IN_CALLBACK"
    using a(2) assms(6) live ic by simp_all
  from pending_told [OF assms(1) this] obtain m where
    p2: "run_pending env True ?b = Some (add_calls (told ys) (set_queue True ?b m))" by blast
  let ?c = "add_calls (told ys) (set_queue True ?b m)"
  have c: "table_of v ?c = table_of v ?a" "subscribers v ?c = subscribers v ac" for v
    using st by (simp_all add: subscribers_def)
  have c1: "\<not> freed ?c" "\<not> has (aflags ?c) REDIS_IN_CALLBACK" using live ic by simp_all
  have p3: "release_subs env False ?c = Some (set_table False (add_calls (told (subscribers False ac)) ?c) Nullp)"
    using release_told [OF assms(1,2) _ d(2,3) c1, of False] c d(1) by simp
  let ?d = "set_table False (add_calls (told (subscribers False ac)) ?c) Nullp"
  have "table_of True ?d = table_of True ?c" by (simp add: table_of_def set_table_def add_calls_def)
  then have dd: "table_of True ?d = Ptr d1" "subscribers True ?d = subscribers True ac"
    using c d(4) a(3) [of True] by (simp_all add: subscribers_def)
  have "\<not> freed ?d" "\<not> has (aflags ?d) REDIS_IN_CALLBACK" using c1 by simp_all
  from release_told [OF assms(1,2) dd(1) d(5,6) this]
  have p4: "release_subs env True ?d = Some (set_table True (add_calls (told (subscribers True ac)) ?d) Nullp)" using dd(2) by simp
  let ?e = "el Cleanup (set_table True (add_calls (told (subscribers True ac)) ?d) Nullp)"
  have fe: "farewell ?e = farewell ac" using a(4,5)
    by (simp add: farewell_def el_def set_table_def add_calls_def set_queue_def aflags_def set_aflags_def)
  have "\<not> freed ?e" "has (aflags ?e) REDIS_FREEING" using live fr by simp_all
  from goodbye [OF assms(1) this] have p5: "run_on_disconnect env ?e = Some (add_calls (farewell ac) ?e)" using fe by simp
  let ?f = "add_calls (farewell ac) ?e"
  have ec: "reader (ac_c ?f) = Inr r"
    using assms(8) by (simp add: el_def set_aflags_def)
  obtain s h where p6: "redisFree (ac_c ?f) = Some (s, h)"
    using free_between_replies [OF ec assms(9)] by blast
  let ?g = "?f\<lparr>freed := True, ac_c := (ac_c ?f)\<lparr>io := s, reader := Inl h, obuf := Nullp\<rparr>\<rparr>"
  have "redisAsyncFree_ctx env ?a = Some ?g"
    unfolding redisAsyncFree_ctx_def Let_def p1 Option.bind.bind_lunit p2 p3 p4 p5 p6 prod.case ..
  then have "redisAsyncFree env ac = Some ?g" using assms(3) ic by (simp add: redisAsyncFree_def alive_def)
  moreover have "calls ?g = calls ac @ told xs @ told ys @ told (subscribers False ac) @ told (subscribers True ac) @ farewell ac"
    by simp
  moreover have "freed ?g" by simp
  ultimately show ?thesis by blast
qed

section \<open>Properties\<close>

text \<open>
  C12. Freeing a context outside a callback runs everything that still waits, exactly once and with a
  NULL reply: the callbacks of regular commands in order, those of invalid ones, then one for every
  entry of the channel table and of the pattern table; then, if it was connected, the disconnect
  callback with \<open>REDIS_OK\<close>, as the last call; then the context is gone.
\<close>

theorem free_tells_everyone:
  assumes "deaf env" and "\<forall>n. grant (mem env) n" and "\<not> freed ac" and "\<not> has (aflags ac) REDIS_IN_CALLBACK"
    and "holds_queue (replies ac) xs" and "holds_queue (sub_invalid ac) ys" and "small_tables ac"
    and "reader (ac_c ac) = Inr r" and "reply r = 0"
  shows "\<exists>ac'. redisAsyncFree env ac = Some ac' \<and> freed ac' \<and>
    calls ac' = calls ac @ told xs @ told ys @ told (subscribers False ac) @ told (subscribers True ac) @ farewell ac"
  using assms by (rule free_told)

theorem free_tells_everyone_witness:
  "\<exists>ac ac'. redisAsyncFree passive_env ac = Some ac' \<and> freed ac' \<and>
    calls ac' = [ReplyCall 7 0 1, ReplyCall 8 0 2, DisconnectCall 9 REDIS_OK]"
proof -
  obtain b r where c: "async_rest (async_context [] b r) r" using async_context_rest by blast
  let ?x = "\<lparr>cb_fn = 7, cb_privdata = 1\<rparr>" and ?y = "\<lparr>cb_fn = 8, cb_privdata = 2\<rparr>"
  have g: "grant generous 24" by simp
  from push_queue [OF g empty_queue, of ?x] obtain l where "holds_queue l [?x]" by auto
  with push_queue [OF g this, of ?y] obtain m where m: "holds_queue m ([?x] @ [?y])" by auto
  let ?ac = "(async_context [] b r)\<lparr>replies := m, onDisconnect := 9\<rparr>"
  have t: "table_of v ?ac = Ptr (dictInit blank_dict callbackDict)" for v
    by (simp add: async_context_def table_of_def)
  have "small_tables ?ac"
    unfolding small_tables_def t using blank_dict_ok(1) by (simp add: dictInit_def dictReset_def)
  moreover have "subscribers v ?ac = []" for v
    unfolding subscribers_def t by (simp add: entries_def dictInit_def dictReset_def)
  moreover have "deaf passive_env" by (simp add: deaf_def passive_env_def)
  moreover have "\<forall>n. grant (mem passive_env) n" by simp
  moreover have "\<not> freed ?ac" "reader (ac_c ?ac) = Inr r" "calls ?ac = []" "holds_queue (sub_invalid ?ac) []"
    using empty_queue by (simp_all add: async_context_def)
  moreover have "reply r = 0" using c by (simp add: async_rest_def idle_def)
  moreover have "aflags ?ac = REDIS_CONNECTED" by (simp add: aflags_def async_context_def blank_context_def)
  moreover from this have "\<not> has (aflags ?ac) REDIS_IN_CALLBACK" "farewell ?ac = [DisconnectCall 9 REDIS_OK]"
    by (simp_all add: farewell_def has_def redis_flags)
  moreover have "holds_queue (replies ?ac) [?x, ?y]" using m by simp
  ultimately obtain ac' where "redisAsyncFree passive_env ?ac = Some ac'" "freed ac'"
    "calls ac' = calls ?ac @ told [?x, ?y] @ told [] @ told (subscribers False ?ac) @ told (subscribers True ?ac) @ farewell ?ac"
    using free_tells_everyone [of passive_env ?ac "[?x, ?y]" "[]" r] by blast
  then show ?thesis
    using \<open>calls ?ac = []\<close> \<open>farewell ?ac = _\<close> \<open>\<And>v. subscribers v ?ac = []\<close>
    by (intro exI [of _ ?ac] exI [of _ ac']) (simp add: delivered_def)
qed

text \<open>The context as the connect callback sees it.\<close>

definition at_connect :: "redisAsyncContext \<Rightarrow> redisContext \<Rightarrow> redisAsyncContext" where
  "at_connect ac c = (set_aflags (ac\<lparr>ac_c := c\<rparr>) (cflags c OR REDIS_CONNECTED))\<lparr>calls := calls ac @ [ConnectCall (onConnect ac) REDIS_OK]\<rparr>"

text \<open>
  C27. A connect callback that frees its context: the handler that called it goes on to read the flags
  of the freed context. Neither handler has a defined result, although the free itself succeeds; the
  flag that protects reply callbacks is not set here.
\<close>

theorem freed_in_connect_callback:
  assumes "\<not> freed ac" and "\<not> has (aflags ac) REDIS_CONNECTED" and "\<not> has (aflags ac) REDIS_IN_CALLBACK"
    and "redisCheckSocketError (ac_c ac) = Some (c, REDIS_OK)" and "onConnect ac \<noteq> 0"
    and "run_connect env (onConnect ac) (at_connect ac c) REDIS_OK = redisAsyncFree e (at_connect ac c)"
    and "redisAsyncFree e (at_connect ac c) = Some d"
  shows "redisAsyncHandleRead env ac = None \<and> redisAsyncHandleWrite env ac = None"
proof -
  have "\<not> has (aflags (set_aflags (at_connect ac c) (aflags (at_connect ac c) OR REDIS_FREEING))) REDIS_IN_CALLBACK"
    using assms(3) socket_error_flags [OF assms(4)]
    by (simp add: at_connect_def aflags_def has_set redis_flags set_aflags_def)
  then have "redisAsyncFree_ctx e (set_aflags (at_connect ac c) (aflags (at_connect ac c) OR REDIS_FREEING)) = Some d"
    using assms(7) by (auto simp: redisAsyncFree_def alive_def split: if_splits)
  then have d: "freed d"
    unfolding redisAsyncFree_ctx_def Let_def Option.bind_eq_Some_conv by auto
  have "redisAsyncHandleConnect env ac = Some (d, REDIS_OK)"
    using assms(4-7) by (simp add: redisAsyncHandleConnect_def run_on_connect_def at_connect_def set_aflags_def aflags_def)
  then have "ensure_connected env ac = None"
    using assms(2) d by (simp add: ensure_connected_def alive_def)
  then show ?thesis using assms(1) by (simp add: redisAsyncHandleRead_def redisAsyncHandleWrite_def alive_def)
qed

theorem freed_in_connect_callback_witness:
  "\<exists>ac c env d. run_connect env (onConnect ac) (at_connect ac c) REDIS_OK = Some d \<and> freed d \<and>
    redisAsyncHandleRead env ac = None \<and> redisAsyncHandleWrite env ac = None"
proof -
  obtain b r where c: "async_rest (async_context [] b r) r" using async_context_rest by blast
  let ?c = "(blank_context 0)\<lparr>obuf := Ptr b, reader := Inr r, io := trickle []\<rparr>"
  let ?ac = "(async_context [] b r)\<lparr>ac_c := ?c, onConnect := 3\<rparr>"
  obtain e where e: "redisCheckSocketError ?c = Some (e, REDIS_OK)" "e = ?c\<lparr>io := io e\<rparr>"
    by (simp add: redisCheckSocketError_def Let_def io_call_eq trickle_def scripted_def blank_context_def)
  let ?b = "at_connect ?ac e"
  have ec: "cflags e = 0" "reader e = Inr r" by (subst e(2), simp add: blank_context_def)+
  have "aflags ?b = REDIS_CONNECTED" using ec(1) by (simp add: at_connect_def aflags_def set_aflags_def)
  then have f: "\<not> has (aflags ?b) REDIS_IN_CALLBACK" by (simp add: has_def redis_flags)
  have t: "table_of v ?b = Ptr (dictInit blank_dict callbackDict)" for v
    by (simp add: async_context_def table_of_def at_connect_def set_aflags_def)
  have "small_tables ?b"
    unfolding small_tables_def t using blank_dict_ok(1) by (simp add: dictInit_def dictReset_def)
  moreover have "deaf passive_env" by (simp add: deaf_def passive_env_def)
  moreover have "\<forall>n. grant (mem passive_env) n" by simp
  moreover have "\<not> freed ?b" "holds_queue (sub_invalid ?b) []" "holds_queue (replies ?b) []" "reader (ac_c ?b) = Inr r"
    using empty_queue ec(2) by (simp_all add: async_context_def at_connect_def set_aflags_def)
  moreover have "reply r = 0" using c by (simp add: async_rest_def idle_def)
  ultimately obtain d where d: "redisAsyncFree passive_env ?b = Some d" "freed d"
    using free_told [of passive_env ?b "[]" "[]" r] f by blast
  let ?env = "passive_env\<lparr>run_connect := (\<lambda>f ac st. redisAsyncFree passive_env ac)\<rparr>"
  have a: "\<not> freed ?ac" "\<not> has (aflags ?ac) REDIS_CONNECTED" "\<not> has (aflags ?ac) REDIS_IN_CALLBACK" "onConnect ?ac \<noteq> 0"
    by (simp_all add: async_context_def aflags_def blank_context_def has_def)
  have x: "redisCheckSocketError (ac_c ?ac) = Some (e, REDIS_OK)" using e(1) by simp
  have y: "run_connect ?env (onConnect ?ac) ?b REDIS_OK = redisAsyncFree passive_env ?b" by simp
  from freed_in_connect_callback [OF a(1-3) x a(4) y d(1)] d y show ?thesis
    by (intro exI [of _ ?ac] exI [of _ e] exI [of _ ?env] exI [of _ d]) (simp only: simp_thms)
qed

section \<open>Monitor mode\<close>

definition watching :: "redisAsyncContext \<Rightarrow> rheap \<Rightarrow> bytes \<Rightarrow> rvalue list \<Rightarrow> redisCallback list \<Rightarrow> bool" where
  "watching ac h t vs xs \<longleftrightarrow> \<not> freed ac \<and> streaming (ac_c ac) h t vs \<and> holds_queue (replies ac) xs \<and>
     has (aflags ac) REDIS_CONNECTED \<and> has (aflags ac) REDIS_MONITORING \<and> \<not> has (aflags ac) REDIS_BLOCK \<and>
     \<not> has (aflags ac) REDIS_DISCONNECTING"

text \<open>No reply is complete: the callback of the loop is queued again, whatever it is.\<close>

lemma watching_none:
  assumes g: "\<forall>n. grant (mem env) n" and w: "watching ac h t vs xs" and n: "t \<noteq> [] \<and> (\<exists>v. vs = [v]) \<or> vs = []"
  shows "\<exists>ac'. process_replies env ac cb = Some ac' \<and> watching ac' h t vs (xs @ [cb]) \<and> calls ac' = calls ac"
proof -
  from w have s: "streaming (ac_c ac) h t vs" "\<not> has (cflags (ac_c ac)) REDIS_BLOCK"
    by (simp_all add: watching_def aflags_def)
  from streaming_get [OF s, of "mem env"] obtain d a where d: "redisGetReply (mem env) (ac_c ac) = Some (d, a, REDIS_OK)"
    "d = (ac_c ac)\<lparr>reader := reader d\<rparr>"
    "a = 0 \<and> streaming d h t vs \<and> (t = [] \<longrightarrow> vs = []) \<or> a = nxt h \<and> a \<noteq> 0 \<and> (\<exists>v ws. vs = v # ws \<and> completed d h t v ws)"
    by (elim exE conjE) (rule that)
  have "\<not> completed d h t v []" if "t \<noteq> []" for v using that by (auto simp: completed_def)
  with d(3) n have a: "a = 0" "streaming d h t vs" by auto
  have fl: "cflags d = cflags (ac_c ac)" by (subst d(2), simp)
  let ?b = "ac\<lparr>ac_c := d\<rparr>"
  have "grant (mem env) 24" "holds_queue (replies ?b) xs" using g w by (simp_all add: watching_def)
  from push_queue [OF this] obtain l where l: "redisPushCallback (mem env) (replies ?b) cb = Some (l, REDIS_OK)"
    "holds_queue l (xs @ [cb])" by blast
  have "no_reply env ?b cb = Some (?b\<lparr>replies := l\<rparr>)"
    using w fl l(1) by (simp add: no_reply_def watching_def aflags_def)
  then have "process_replies env ac cb = Some (?b\<lparr>replies := l\<rparr>)"
    using d(1) a(1) by (subst process_replies.simps) simp
  moreover have "watching (?b\<lparr>replies := l\<rparr>) h t vs (xs @ [cb])"
    using w a(2) l(2) fl by (simp add: watching_def aflags_def)
  ultimately show ?thesis by auto
qed

text \<open>A reply is complete and a NULL callback is next: the reply is freed, nothing is called.\<close>

lemma watching_dropped:
  assumes g: "\<forall>n. grant (mem env) n" and w: "watching ac h [] [v] (null_callback # xs)"
  shows "\<exists>ac'. process_replies env ac cb = Some ac' \<and> watching ac' (spent h v) [] [] (xs @ [null_callback]) \<and> calls ac' = calls ac"
proof -
  from w have s: "streaming (ac_c ac) h [] [v]" "\<not> has (cflags (ac_c ac)) REDIS_BLOCK"
    by (simp_all add: watching_def aflags_def)
  from streaming_get [OF s, of "mem env"] obtain d a where d: "redisGetReply (mem env) (ac_c ac) = Some (d, a, REDIS_OK)"
    "d = (ac_c ac)\<lparr>reader := reader d\<rparr>" "a = nxt h" "a \<noteq> 0" "completed d h [] v []" by auto
  have fl: "cflags d = cflags (ac_c ac)" by (subst d(2), simp)
  from shift_queue_Cons [of "replies ac" null_callback xs] w obtain l where
    l: "redisShiftCallback (replies ac) = Some (l, Some null_callback, REDIS_OK)" "holds_queue l xs" by (auto simp: watching_def)
  let ?b = "ac\<lparr>ac_c := d, replies := l\<rparr>"
  from completed_freed [of ?b h "[]" v "[]"] d(5) obtain e where e: "free_object ?b (nxt h) = Some (?b\<lparr>ac_c := e\<rparr>)"
    "streaming e (spent h v) [] []" "e = d\<lparr>reader := reader e\<rparr>" by auto
  have fe: "cflags e = cflags d" by (subst e(3), simp)
  have w': "watching (?b\<lparr>ac_c := e\<rparr>) (spent h v) [] [] xs"
    using w e(2) l(2) fl fe by (simp add: watching_def aflags_def)
  from watching_none [OF g this, of null_callback] obtain f where f: "process_replies env (?b\<lparr>ac_c := e\<rparr>) null_callback = Some f"
    "watching f (spent h v) [] [] (xs @ [null_callback])" "calls f = calls (?b\<lparr>ac_c := e\<rparr>)" by blast
  have "process_replies env ac cb = process_replies env (?b\<lparr>ac_c := e\<rparr>) null_callback"
    using d(1,3,4) l(1) e(1) by (subst process_replies.simps) (simp add: find_callback_def deliver_def null_callback_def)
  with f show ?thesis by auto
qed

lemma watching_read:
  assumes g: "\<forall>n. grant (mem env) n" and w: "watching ac h (p @ u) vs xs" and p: "p \<noteq> []"
    and x: "rdata (next_read (ac_c ac)) = p" "ret (next_read (ac_c ac)) = int (length p)" "length p \<le> 16384"
  shows "\<exists>b. redisAsyncHandleRead env ac = process_replies env b null_callback \<and> watching b h u vs xs \<and> calls b = calls ac"
proof -
  have s: "streaming (ac_c ac) h (p @ u) vs" using w by (simp add: watching_def)
  from streaming_piece [OF s g p x] obtain d where d: "redisBufferRead (mem env) (ac_c ac) = Some (d, REDIS_OK)"
    "read_only (ac_c ac) d" "streaming d h u vs" by blast
  let ?b = "el AddRead (ac\<lparr>ac_c := d\<rparr>)"
  have b: "ac_c ?b = d" "replies ?b = replies ac" by (simp_all add: el_def)
  have "watching ?b h u vs xs"
    using w d(3) b read_onlyD(2) [OF d(2)] by (simp add: watching_def aflags_def)
  moreover have "redisAsyncHandleRead env ac = process_replies env ?b null_callback"
    using w d(1) by (simp add: redisAsyncHandleRead_def ensure_connected_def alive_def redisProcessCallbacks_def watching_def)
  ultimately show ?thesis by auto
qed

text \<open>
  C28. Monitor mode loses lines. A read event that brings only a part of a line puts a NULL callback
  behind the callbacks in the queue, because the loop queues its local callback, which was never
  set. A line that becomes complete when such a NULL callback is next is freed without a call,
  and the NULL callback is queued again behind the others.
\<close>

theorem monitor_loses_lines:
  assumes "\<forall>n. grant (mem env) n" and "watching ac h (p @ u) [v] xs" and "p \<noteq> []"
    and "rdata (next_read (ac_c ac)) = p" and "ret (next_read (ac_c ac)) = int (length p)" and "length p \<le> 16384"
  shows "(u \<noteq> [] \<longrightarrow> (\<exists>ac'. redisAsyncHandleRead env ac = Some ac' \<and> watching ac' h u [v] (xs @ [null_callback]) \<and> calls ac' = calls ac)) \<and>
    (\<forall>ys. u = [] \<longrightarrow> xs = null_callback # ys \<longrightarrow>
      (\<exists>ac'. redisAsyncHandleRead env ac = Some ac' \<and> watching ac' (spent h v) [] [] (ys @ [null_callback]) \<and> calls ac' = calls ac))"
proof -
  from watching_read [OF assms] obtain b where b: "redisAsyncHandleRead env ac = process_replies env b null_callback"
    "watching b h u [v] xs" "calls b = calls ac" by blast
  show ?thesis
  proof (intro conjI impI allI)
    assume "u \<noteq> []"
    then show "\<exists>ac'. redisAsyncHandleRead env ac = Some ac' \<and> watching ac' h u [v] (xs @ [null_callback]) \<and> calls ac' = calls ac"
      using watching_none [OF assms(1) b(2), of null_callback] b(1,3) by auto
  next
    fix ys
    assume "u = []" "xs = null_callback # ys"
    then show "\<exists>ac'. redisAsyncHandleRead env ac = Some ac' \<and> watching ac' (spent h v) [] [] (ys @ [null_callback]) \<and> calls ac' = calls ac"
      using watching_dropped [OF assms(1), of b h v ys null_callback] b by auto
  qed
qed

theorem monitor_loses_lines_witness:
  "\<exists>ac ac' h. watching ac h (encode (VStatus ''OK'')) [VStatus ''OK''] [] \<and>
    redisAsyncHandleRead passive_env ac = Some ac' \<and> watching ac' h (tl (encode (VStatus ''OK''))) [VStatus ''OK''] [null_callback]"
proof -
  let ?v = "VStatus ''OK''" and ?S = "encode (VStatus ''OK'')"
  obtain b r where c: "async_rest (async_context ?S b r) r" "rlen r = 0" using async_context_rest by blast
  let ?ac = "(async_context ?S b r)\<lparr>ac_c := (ac_c (async_context ?S b r))\<lparr>cflags := REDIS_CONNECTED OR REDIS_MONITORING\<rparr>\<rparr>"
  have "streaming (ac_c ?ac) (world r) ?S [?v]"
    using c by (intro streamingI) (simp_all add: async_rest_def async_context_def CRLF_def)
  moreover have "aflags ?ac = REDIS_CONNECTED OR REDIS_MONITORING" by (simp add: aflags_def)
  ultimately have w: "watching ?ac (world r) (''+'' @ tl ?S) [?v] []"
    using c(1) empty_queue by (simp add: watching_def has_def redis_flags async_rest_def async_context_def)
  have x: "rdata (next_read (ac_c ?ac)) = ''+''" "ret (next_read (ac_c ?ac)) = int (length ''+'')" "length ''+'' \<le> 16384"
    by (simp_all add: next_read_def async_context_def trickle_def scripted_def)
  have "\<forall>n. grant (mem passive_env) n" "''+'' \<noteq> []" "tl ?S \<noteq> []" by (simp_all add: CRLF_def)
  with monitor_loses_lines [OF this(1) w this(2) x] obtain ac' where "redisAsyncHandleRead passive_env ?ac = Some ac'"
    "watching ac' (world r) (tl ?S) [?v] ([] @ [null_callback])" by blast
  moreover have "''+'' @ tl ?S = ?S" by simp
  ultimately show ?thesis using w by (intro exI [of _ ?ac] exI [of _ ac'] exI [of _ "world r"]) simp
qed

end
