(* ===== verification/Containers.thy ===== *)
theory Containers
  imports Prelude "HOL-Library.Char_ord" "HOL-Library.List_Lexorder" "HOL-Library.Product_Lexorder"
begin

text \<open>
  The containers of the C++ library that the client code of DBwrapper keeps its state in. A
  \<open>std::map\<close> or \<open>std::set\<close> is the list of its entries in the order in which it is iterated, that
  is sorted by its keys; the order of strings is that of their bytes. An unordered container is the
  list of its entries in some order.
\<close>

section \<open>Ordered maps\<close>

text \<open>\<open>m[k] = v\<close>\<close>

fun map_put :: "'k::linorder \<Rightarrow> 'v \<Rightarrow> ('k \<times> 'v) list \<Rightarrow> ('k \<times> 'v) list" where
  "map_put k v [] = [(k, v)]"
| "map_put k v (x # m) =
     (if k < fst x then (k, v) # x # m else if k = fst x then (k, v) # m else x # map_put k v m)"

text \<open>\<open>m.insert({k, v})\<close> leaves an entry that is there alone.\<close>

definition map_insert :: "'k::linorder \<Rightarrow> 'v \<Rightarrow> ('k \<times> 'v) list \<Rightarrow> ('k \<times> 'v) list" where
  "map_insert k v m = (if map_of m k = None then map_put k v m else m)"

definition map_erase :: "'k \<Rightarrow> ('k \<times> 'v) list \<Rightarrow> ('k \<times> 'v) list" where
  "map_erase k m = filter (\<lambda>x. fst x \<noteq> k) m"

definition map_ok :: "('k::linorder \<times> 'v) list \<Rightarrow> bool" where
  "map_ok m \<longleftrightarrow> sorted_wrt (<) (map fst m)"

lemma lookup_put: "map_ok m \<Longrightarrow> map_of (map_put k v m) j = (if j = k then Some v else map_of m j)"
proof (induction m)
  case (Cons x m)
  have "k < fst x \<Longrightarrow> map_of m k = None"
    using Cons.prems by (fastforce simp: map_ok_def map_of_eq_None_iff)
  with Cons show ?case by (cases x) (auto simp: map_ok_def)
qed simp

lemma map_of_put [simp]: "map_ok m \<Longrightarrow> map_of (map_put k v m) = (map_of m)(k \<mapsto> v)"
  by (rule ext) (simp add: lookup_put)

lemma keys_put: "fst ` set (map_put k v m) = insert k (fst ` set m)"
  by (induction m) auto

lemma map_ok_put [simp]: "map_ok m \<Longrightarrow> map_ok (map_put k v m)"
proof (induction m)
  case (Cons x m)
  have "y \<in> fst ` set (map_put k v m) \<Longrightarrow> y = k \<or> fst x < y" for y
    using Cons.prems unfolding keys_put by (auto simp: map_ok_def)
  then have "k > fst x \<Longrightarrow> \<forall>y \<in> set (map fst (map_put k v m)). fst x < y" by auto
  with Cons show ?case by (auto simp: map_ok_def)
qed (simp add: map_ok_def)

lemma map_ok_insert [simp]: "map_ok m \<Longrightarrow> map_ok (map_insert k v m)"
  by (simp add: map_insert_def)

lemma map_of_insert [simp]: "map_ok m \<Longrightarrow> map_of (map_insert k v m) = (\<lambda>j. if j = k \<and> map_of m k = None then Some v else map_of m j)"
  by (auto simp: map_insert_def)

lemma map_ok_erase [simp]: "map_ok m \<Longrightarrow> map_ok (map_erase k m)"
  by (auto simp: map_ok_def map_erase_def sorted_wrt_map intro: sorted_wrt_filter)

lemma map_of_erase [simp]: "map_of (map_erase k m) = (map_of m)(k := None)"
  by (induction m) (auto simp: map_erase_def)

lemma map_ok_distinct: "map_ok m \<Longrightarrow> distinct (map fst m)"
  unfolding map_ok_def by (simp add: strict_sorted_iff)

lemma map_ok_Nil [simp]: "map_ok []"
  by (simp add: map_ok_def)

lemma map_of_entry: "map_ok m \<Longrightarrow> map_of m k = Some v \<longleftrightarrow> (k, v) \<in> set m"
  by (simp add: map_of_eq_Some_iff map_ok_distinct)

text \<open>Changing a value where it stands.\<close>

lemma map_put_present:
  "map_ok m \<Longrightarrow> map_of m k \<noteq> None \<Longrightarrow> map_put k v m = map (\<lambda>x. if fst x = k then (k, v) else x) m"
proof (induction m)
  case (Cons x m)
  have "k < fst x \<Longrightarrow> map_of m k = None"
    using Cons.prems by (fastforce simp: map_ok_def map_of_eq_None_iff)
  moreover have "k = fst x \<Longrightarrow> map (\<lambda>x. if fst x = k then (k, v) else x) m = m"
    using Cons.prems by (intro map_idI) (auto simp: map_ok_def)
  ultimately show ?case using Cons by (cases x) (auto simp: map_ok_def)
qed simp

lemma map_put_keys: "map_ok m \<Longrightarrow> map_of m k \<noteq> None \<Longrightarrow> map fst (map_put k v m) = map fst m"
  by (auto simp: map_put_present)

text \<open>Two ordered maps with the same entries are the same list.\<close>

lemma map_ok_unique: "map_ok m \<Longrightarrow> map_ok n \<Longrightarrow> map_of m = map_of n \<Longrightarrow> m = n"
proof -
  assume m: "map_ok m" and n: "map_ok n" and e: "map_of m = map_of n"
  have "set m = set n" using map_of_entry [OF m] map_of_entry [OF n] e by auto
  then show "m = n"
    using m n by (intro map_sorted_distinct_set_unique [of fst]) (auto simp: map_ok_def strict_sorted_iff distinct_map)
qed

end
