(* ===== verification/Timers.thy ===== *)
theory Timers
  imports Containers
begin

text \<open>
  Timers over libevent (include/translib/timer.h, src/translib/timer.cpp), the timer manager
  (include/translib/timerManager.h, src/translib/timerManager.cpp) and the heartbeat that runs on
  such a timer (include/heartbeat/heartbeat.h).

  libevent itself is not modelled: whether an event can be created and added is an argument of the
  operations that ask for it, and that a pending event calls its callback is a step an execution
  takes while the timer has an event.
\<close>

section \<open>Timers\<close>

text \<open>
  A handler is a closure: one given by the user, the one that \<open>startAfter\<close> builds, or the one that
  \<open>startCB\<close> builds.
\<close>

datatype 'h handler = User 'h | StartRounds "32 word" "64 word" "'h handler" | RunCB

record event =
  persist :: bool
  tv_sec :: nat
  tv_usec :: nat

record 'h timer =
  t_event :: "event ptr"
  t_interval :: "32 word"
  t_round :: "64 word"
  t_curRound :: "64 word"
  t_handler :: "'h handler option"
  t_userData :: nat
  t_CBHandler :: nat
  t_tid :: int

definition new_timer :: "'h timer" where
  "new_timer = \<lparr>t_event = Nullp, t_interval = 0, t_round = 1, t_curRound = 0, t_handler = None,
     t_userData = 0, t_CBHandler = 0, t_tid = 0\<rparr>"

definition reset :: "'h timer \<Rightarrow> 'h timer" where
  "reset t = (if t_event t \<noteq> Nullp then t\<lparr>t_event := Nullp, t_curRound := t_round t + 1\<rparr> else t)"

definition stop :: "'h timer \<Rightarrow> 'h timer" where
  "stop t = reset t"

definition isFinished :: "'h timer \<Rightarrow> bool" where
  "isFinished t \<longleftrightarrow> t_round t \<le> t_curRound t"

text \<open>
  What the user and libevent do: whether \<open>event_new\<close> and \<open>event_add\<close> succeed, what a handler of the
  user does to the timer it runs on, what a callback of \<open>startCB\<close> returns.
\<close>

record 'h timer_env =
  event_new_ok :: bool
  event_add_ok :: bool
  run_user :: "'h \<Rightarrow> 'h timer \<Rightarrow> 'h timer"
  run_CB :: "nat \<Rightarrow> nat \<Rightarrow> int \<Rightarrow> int"

definition startRounds :: "'h timer_env \<Rightarrow> 'h timer \<Rightarrow> 32 word \<Rightarrow> 64 word \<Rightarrow> 'h handler \<Rightarrow> 'h timer \<times> bool" where
  "startRounds env t interval rounds handler =
     (if t_event t \<noteq> Nullp then (t, False)
      else if \<not> event_new_ok env then (t, False)
      else
        (let t = t\<lparr>t_event := Ptr \<lparr>persist = (1 < rounds), tv_sec = unat interval div 1000,
           tv_usec = unat interval mod 1000 * 1000\<rparr>\<rparr>
         in if \<not> event_add_ok env then (reset t, False)
            else (t\<lparr>t_interval := interval, t_round := rounds, t_curRound := 0, t_handler := Some handler\<rparr>, True)))"

definition startOnce :: "'h timer_env \<Rightarrow> 'h timer \<Rightarrow> 32 word \<Rightarrow> 'h handler \<Rightarrow> 'h timer \<times> bool" where
  "startOnce env t interval handler = startRounds env t interval 1 handler"

text \<open>\<open>uint32_t(-1)\<close> rounds.\<close>

definition startForever :: "'h timer_env \<Rightarrow> 'h timer \<Rightarrow> 32 word \<Rightarrow> 'h handler \<Rightarrow> 'h timer \<times> bool" where
  "startForever env t interval handler = startRounds env t interval (ucast (- 1 :: 32 word)) handler"

definition startAfter :: "'h timer_env \<Rightarrow> 'h timer \<Rightarrow> 32 word \<Rightarrow> 32 word \<Rightarrow> 64 word \<Rightarrow> 'h handler \<Rightarrow> 'h timer \<times> bool" where
  "startAfter env t after interval rounds handler = startOnce env t after (StartRounds interval rounds handler)"

definition startCB :: "'h timer_env \<Rightarrow> 'h timer \<Rightarrow> 32 word \<Rightarrow> nat \<Rightarrow> nat \<Rightarrow> int \<Rightarrow> 'h timer \<times> bool" where
  "startCB env t interval handler userData tid =
     startForever env (t\<lparr>t_tid := tid, t_userData := userData, t_CBHandler := handler\<rparr>) interval RunCB"

datatype 'h timer_call = Ran 'h | RanCB nat nat int

text \<open>Calling a handler: the state of the timer afterwards and the calls that leave the library.\<close>

definition run_handler :: "'h timer_env \<Rightarrow> 'h handler \<Rightarrow> 'h timer \<Rightarrow> 'h timer \<times> 'h timer_call list" where
  "run_handler env handler t =
     (case handler of
        User h \<Rightarrow> (run_user env h t, [Ran h])
      | StartRounds interval rounds h \<Rightarrow> (fst (startRounds env t interval rounds h), [])
      | RunCB \<Rightarrow>
          (let ret = run_CB env (t_CBHandler t) (t_userData t) (t_tid t)
           in (if ret = - 1 then stop t else t, [RanCB (t_CBHandler t) (t_userData t) (t_tid t)])))"

text \<open>\<open>None\<close>: an empty function was called.\<close>

definition eventHandler :: "'h timer_env \<Rightarrow> 'h timer \<Rightarrow> ('h timer \<times> 'h timer_call list) option" where
  "eventHandler env t = do {
     let handler = t_handler t;
     let t = t\<lparr>t_curRound := t_curRound t + 1\<rparr>;
     let t = (if t_round t \<le> t_curRound t then reset t else t);
     h \<leftarrow> handler;
     Some (run_handler env h t) }"

text \<open>The event fires up to \<open>k\<close> times, as long as there is one.\<close>

fun fires :: "'h timer_env \<Rightarrow> nat \<Rightarrow> 'h timer \<Rightarrow> ('h timer \<times> 'h timer_call list) option" where
  "fires env 0 t = Some (t, [])"
| "fires env (Suc k) t =
     (if t_event t = Nullp then Some (t, [])
      else do {
        (t, l) \<leftarrow> eventHandler env t;
        (t, l') \<leftarrow> fires env k t;
        Some (t, l @ l') })"

section \<open>How often a timer fires\<close>

lemmas timer_defs = reset_def stop_def isFinished_def new_timer_def

lemma unat_Suc64: "c < (n :: 64 word) \<Longrightarrow> unat (c + 1) = Suc (unat c)"
  using unsigned_less [of n, where ?'a = nat] by (auto simp: word_less_nat_alt unat_word_ariths)

text \<open>A timer that will fire \<open>d\<close> times.\<close>

definition counting :: "'h timer \<Rightarrow> 'h handler \<Rightarrow> nat \<Rightarrow> bool" where
  "counting t h d \<longleftrightarrow> t_event t \<noteq> Nullp \<and> t_handler t = Some h \<and> d = max 1 (unat (t_round t) - unat (t_curRound t)) \<and>
     (t_curRound t < t_round t \<or> t_round t = 0 \<and> t_curRound t = 0)"

lemma startRounds_counting:
  assumes "startRounds env t i n h = (t', True)"
  shows "counting t' h (max 1 (unat n))" "t_round t' = n" "t_interval t' = i" "t_curRound t' = 0"
    "\<exists>p. t_event t' = Ptr \<lparr>persist = p, tv_sec = unat i div 1000, tv_usec = unat i mod 1000 * 1000\<rparr>"
  using assms by (auto simp: startRounds_def counting_def Let_def word_gt_0 split: if_splits)

text \<open>One more callback: the last one leaves the timer without an event.\<close>

lemma eventHandler_counting:
  assumes c: "counting t h d"
  obtains u where "eventHandler env t = Some (run_handler env h u)" "t_round u = t_round t"
    "if 1 < d then counting u h (d - 1) else t_event u = Nullp \<and> t_curRound u = t_round t + 1"
proof -
  let ?c = "t_curRound t" and ?n = "t_round t"
  let ?u = "if ?n \<le> ?c + 1 then reset (t\<lparr>t_curRound := ?c + 1\<rparr>) else t\<lparr>t_curRound := ?c + 1\<rparr>"
  have d: "d = max 1 (unat ?n - unat ?c)" and e: "t_event t \<noteq> Nullp" "t_handler t = Some h"
    and n: "?c < ?n \<or> ?n = 0 \<and> ?c = 0"
    using c by (simp_all add: counting_def)
  have ev: "eventHandler env t = Some (run_handler env h ?u)" using e by (simp add: eventHandler_def Let_def)
  have "if 1 < d then counting ?u h (d - 1) else t_event ?u = Nullp \<and> t_curRound ?u = ?n + 1"
  proof (cases "?c < ?n")
    case True
    then have s: "unat (?c + 1) = Suc (unat ?c)" by (rule unat_Suc64)
    have l: "unat ?c < unat ?n" using True by (simp add: word_less_nat_alt)
    have "?n \<le> ?c + 1 \<longleftrightarrow> d = 1" using s l d by (auto simp: word_le_nat_alt max_def)
    then show ?thesis using e d s l by (auto simp: counting_def reset_def word_less_nat_alt max_def)
  next
    case False
    with n d e show ?thesis by (simp add: reset_def)
  qed
  moreover have "t_round ?u = ?n" by (simp add: reset_def)
  ultimately show ?thesis using ev that by blast
qed

text \<open>A handler that leaves its timer alone is called exactly as often as it was asked for.\<close>

lemma fires_counting:
  assumes q: "\<And>t. run_user env f t = t"
  shows "counting t (User f) d \<Longrightarrow> \<exists>u. fires env k t = Some (u, replicate (min k d) (Ran f)) \<and> t_round u = t_round t \<and>
    (if k < d then counting u (User f) (d - k) else t_event u = Nullp \<and> t_curRound u = t_round t + 1)"
proof (induction k arbitrary: t d)
  case 0
  moreover have "0 < d" using 0 by (simp add: counting_def)
  ultimately show ?case by simp
next
  case (Suc k)
  have e: "t_event t \<noteq> Nullp" "0 < d" using Suc.prems by (simp_all add: counting_def)
  obtain u where u: "eventHandler env t = Some (u, [Ran f])" "t_round u = t_round t"
    "if 1 < d then counting u (User f) (d - 1) else t_event u = Nullp \<and> t_curRound u = t_round t + 1"
    using eventHandler_counting [OF Suc.prems, of env] q by (auto simp: run_handler_def)
  show ?case
  proof (cases "1 < d")
    case True
    then have "counting u (User f) (d - 1)" using u(3) by simp
    from Suc.IH [OF this] True e u(1,2) show ?thesis
      by (cases d) (auto simp: min_def split: if_splits)
  next
    case False
    then have d: "d = 1" using e by simp
    then have "fires env k u = Some (u, [])" using u(3) by (cases k) auto
    then show ?thesis using d e u by auto
  qed
qed

section \<open>Properties\<close>



section \<open>Starting later, forever and with a callback\<close>

lemma startForever_rounds: "unat (ucast (- 1 :: 32 word) :: 64 word) = 2 ^ 32 - 1"
  by (simp add: unsigned_ucast_eq unsigned_minus_1_eq_mask mask_eq_exp_minus_1)

lemma startAfter_fires:
  assumes "startAfter env t a i n (User f) = (t', True)" and "\<And>t. run_user env f t = t"
    and "event_new_ok env" "event_add_ok env"
  shows "\<exists>u. fires env (Suc k) t' = Some (u, replicate (min k (max 1 (unat n))) (Ran f))"
proof -
  from startRounds_counting(1) [OF assms(1) [unfolded startAfter_def startOnce_def]]
  have "counting t' (StartRounds i n (User f)) 1" by simp
  from eventHandler_counting [OF this, of env] obtain u where
    u: "eventHandler env t' = Some (run_handler env (StartRounds i n (User f)) u)" "t_event u = Nullp" by auto
  obtain v where v: "startRounds env u i n (User f) = (v, True)"
    using assms(3,4) u(2) by (auto simp: startRounds_def Let_def)
  from fires_counting [OF assms(2) startRounds_counting(1) [OF v], of k] obtain w where
    "fires env k v = Some (w, replicate (min k (max 1 (unat n))) (Ran f))" by blast
  moreover have "t_event t' \<noteq> Nullp" using \<open>counting t' _ 1\<close> by (simp add: counting_def)
  ultimately show ?thesis using u v by (simp add: run_handler_def)
qed

text \<open>A callback that answers \<open>- 1\<close> is called once.\<close>

lemma startCB_stops:
  assumes "startCB env t i h data tid = (t', True)" and "run_CB env h data tid = - 1"
  shows "\<exists>u. fires env (Suc k) t' = Some (u, [RanCB h data tid]) \<and> t_event u = Nullp"
proof -
  let ?t = "t\<lparr>t_tid := tid, t_userData := data, t_CBHandler := h\<rparr>"
  have s: "startRounds env ?t i (ucast (- 1 :: 32 word)) RunCB = (t', True)"
    using assms(1) by (simp add: startCB_def startForever_def)
  then have f: "t_event t' \<noteq> Nullp" "t_handler t' = Some RunCB" "t_CBHandler t' = h" "t_userData t' = data" "t_tid t' = tid"
    by (auto simp: startRounds_def Let_def split: if_splits)
  obtain u l where u: "eventHandler env t' = Some (u, l)" "l = [RanCB h data tid]" "t_event u = Nullp"
    using f assms(2) by (auto simp: eventHandler_def run_handler_def timer_defs Let_def)
  then show ?thesis using f(1) by (cases k) auto
qed

end
