(* ===== verification/Timer_Manager.thy ===== *)
theory Timer_Manager
  imports Timers
begin

text \<open>
  The timer manager (include/translib/timerManager.h, src/translib/timerManager.cpp): timers under
  numbers, and an audit that forgets the finished ones. A timer is shared between the manager's map
  and whoever asked for it; it is destroyed with its last reference.
\<close>

section \<open>Definitions\<close>

text \<open>
  Timers live at addresses; \<open>held\<close> counts the references outside the map. The map is unordered: its
  list is one of the orders in which it may be iterated.
\<close>

record 'h timer_manager =
  uniqueID :: int
  t_map :: "(int \<times> nat) list"
  timers :: "nat \<Rightarrow> 'h timer option"
  held :: "nat \<Rightarrow> nat"
  next_addr :: nat
  audit_timer :: "'h timer"

definition AUDIT_TIMER :: "32 word" where "AUDIT_TIMER = 5000"

text \<open>The two constructors: with a loop of its own (numbers from 1) and on a given loop (from 0).\<close>

definition manager_from :: "'h timer_env \<Rightarrow> 'h \<Rightarrow> int \<Rightarrow> 'h timer_manager" where
  "manager_from env audit n = \<lparr>uniqueID = n, t_map = [], timers = (\<lambda>_. None), held = (\<lambda>_. 0), next_addr = 0,
     audit_timer = fst (startForever env new_timer AUDIT_TIMER (User audit))\<rparr>"

definition own_loop_manager :: "'h timer_env \<Rightarrow> 'h \<Rightarrow> 'h timer_manager" where
  "own_loop_manager env audit = manager_from env audit 1"

definition given_loop_manager :: "'h timer_env \<Rightarrow> 'h \<Rightarrow> 'h timer_manager" where
  "given_loop_manager env audit = manager_from env audit 0"

definition getUniqueID :: "'h timer_manager \<Rightarrow> int \<times> 'h timer_manager" where
  "getUniqueID m = (uniqueID m, m\<lparr>uniqueID := int32 (uniqueID m + 1)\<rparr>)"

text \<open>A reference went away: without another one the timer is destroyed, and its event with it.\<close>

definition unref :: "nat \<Rightarrow> 'h timer_manager \<Rightarrow> 'h timer_manager" where
  "unref p m = (if held m p = 0 \<and> p \<notin> snd ` set (t_map m) then m\<lparr>timers := (timers m)(p := None)\<rparr> else m)"

text \<open>\<open>emplace\<close> does nothing when the number is taken. The address and the number are returned.\<close>

definition getTimer :: "'h timer_manager \<Rightarrow> 'h timer_manager \<times> nat \<times> int" where
  "getTimer m =
     (let (tid, m) = getUniqueID m; p = next_addr m;
          m = m\<lparr>timers := (timers m)(p \<mapsto> new_timer), held := (held m)(p := 1), next_addr := Suc p\<rparr>
      in (m\<lparr>t_map := (if map_of (t_map m) tid = None then t_map m @ [(tid, p)] else t_map m)\<rparr>, p, tid))"

text \<open>The caller drops the pointer that \<open>getTimer\<close> gave.\<close>

definition release :: "nat \<Rightarrow> 'h timer_manager \<Rightarrow> 'h timer_manager" where
  "release p m = unref p (m\<lparr>held := (held m)(p := held m p - 1)\<rparr>)"

definition erase_entry :: "int \<times> nat \<Rightarrow> 'h timer_manager \<Rightarrow> 'h timer_manager" where
  "erase_entry x m = unref (snd x) (m\<lparr>t_map := map_erase (fst x) (t_map m)\<rparr>)"

definition killTimer :: "int \<Rightarrow> 'h timer_manager \<Rightarrow> 'h timer_manager \<times> bool" where
  "killTimer tid m = (case map_of (t_map m) tid of None \<Rightarrow> m | Some p \<Rightarrow> erase_entry (tid, p) m, True)"

text \<open>The iteration goes on behind an entry before the entry is erased.\<close>

fun audit_loop :: "(int \<times> nat) list \<Rightarrow> 'h timer_manager \<Rightarrow> 'h timer_manager option" where
  "audit_loop [] m = Some m"
| "audit_loop (x # xs) m = do {
     t \<leftarrow> timers m (snd x);
     audit_loop xs (if isFinished t then erase_entry x m else m) }"

definition auditTimer :: "'h timer_manager \<Rightarrow> 'h timer_manager option" where
  "auditTimer m = audit_loop (t_map m) m"

text \<open>What a holder of a timer does with it: start it, stop it, let it fire.\<close>

definition with_timer :: "nat \<Rightarrow> ('h timer \<Rightarrow> 'h timer) \<Rightarrow> 'h timer_manager \<Rightarrow> 'h timer_manager" where
  "with_timer p f m = m\<lparr>timers := (timers m)(p := map_option f (timers m p))\<rparr>"

text \<open>The destructor: the map goes, and every timer in it that nobody holds.\<close>

definition end_manager :: "'h timer_manager \<Rightarrow> 'h timer_manager" where
  "end_manager m = m\<lparr>audit_timer := reset (audit_timer m), t_map := [],
     timers := (\<lambda>p. if held m p = 0 then None else timers m p)\<rparr>"

section \<open>Well-formed managers\<close>

text \<open>
  Every entry of the map and every pointer outside refers to a timer, and a timer that nobody refers
  to is gone; numbers and addresses are given out once.
\<close>

definition manager_wf :: "'h timer_manager \<Rightarrow> bool" where
  "manager_wf m \<longleftrightarrow> distinct (map fst (t_map m)) \<and> distinct (map snd (t_map m)) \<and>
     (\<forall>p. (timers m p \<noteq> None) = (p \<in> snd ` set (t_map m) \<or> 0 < held m p)) \<and>
     (\<forall>p. timers m p \<noteq> None \<longrightarrow> p < next_addr m)"

lemma manager_wf_new: "manager_wf (manager_from env audit n)"
  by (simp add: manager_wf_def manager_from_def)

lemma manager_wf_end: "manager_wf m \<Longrightarrow> manager_wf (end_manager m)"
  by (auto simp: manager_wf_def end_manager_def split: if_splits)

lemma distinct_entries:
  assumes "distinct (map fst xs)" "distinct (map snd xs)" "(a, p) \<in> set xs" "(b, q) \<in> set xs"
  shows "a = b \<longleftrightarrow> p = q"
  using assms by (metis eq_key_imp_eq_value inj_onD distinct_map fst_conv snd_conv prod.inject)

lemma entries_erased:
  assumes "distinct (map fst xs)" "distinct (map snd xs)" "(a, p) \<in> set xs"
  shows "snd ` set (map_erase a xs) = snd ` set xs - {p}"
  using distinct_entries [OF assms(1,2)] assms(3) by (force simp: map_erase_def image_iff)

lemma map_erase_map_distinct: "distinct (map f xs) \<Longrightarrow> distinct (map f (map_erase a xs))"
  by (simp add: map_erase_def distinct_map_filter)

lemma manager_wf_getTimer: "manager_wf m \<Longrightarrow> manager_wf (fst (getTimer m))"
  unfolding manager_wf_def getTimer_def getUniqueID_def Let_def
  by (auto simp: map_of_eq_None_iff less_Suc_eq image_iff split: if_splits)

lemma manager_wf_release: "manager_wf m \<Longrightarrow> manager_wf (release p m)"
  unfolding manager_wf_def release_def unref_def by auto

lemma manager_wf_erase: "manager_wf m \<Longrightarrow> x \<in> set (t_map m) \<Longrightarrow> manager_wf (erase_entry x m)"
  unfolding erase_entry_def unref_def manager_wf_def
  using entries_erased [of "t_map m" "fst x" "snd x"]
  by (auto simp: map_erase_map_distinct)

lemma manager_wf_killTimer: "manager_wf m \<Longrightarrow> manager_wf (fst (killTimer tid m))"
  by (auto simp: killTimer_def split: option.split intro: manager_wf_erase dest: map_of_SomeD)

lemma manager_wf_with_timer: "manager_wf m \<Longrightarrow> manager_wf (with_timer p f m)"
  by (auto simp: manager_wf_def with_timer_def)

section \<open>The audit\<close>

definition over :: "'h timer_manager \<Rightarrow> nat \<Rightarrow> bool" where
  "over m p \<longleftrightarrow> (case timers m p of None \<Rightarrow> False | Some t \<Rightarrow> isFinished t)"

lemma erase_entry_fields:
  assumes "manager_wf m" "x \<in> set (t_map m)"
  shows "held (erase_entry x m) = held m" "t_map (erase_entry x m) = filter (\<lambda>y. y \<noteq> x) (t_map m)"
    "timers (erase_entry x m) = (if held m (snd x) = 0 then (timers m)(snd x := None) else timers m)"
proof -
  have d: "distinct (map fst (t_map m))" "distinct (map snd (t_map m))" using assms(1) by (simp_all add: manager_wf_def)
  have "snd x \<notin> snd ` set (map_erase (fst x) (t_map m))"
    using entries_erased [OF d, of "fst x" "snd x"] assms(2) by simp
  then show "timers (erase_entry x m) = (if held m (snd x) = 0 then (timers m)(snd x := None) else timers m)"
    by (simp add: erase_entry_def unref_def)
  show "held (erase_entry x m) = held m" by (simp add: erase_entry_def unref_def)
  have "y \<in> set (t_map m) \<Longrightarrow> (fst y \<noteq> fst x) = (y \<noteq> x)" for y
    using d(1) assms(2) by (metis distinct_map inj_onD)
  then show "t_map (erase_entry x m) = filter (\<lambda>y. y \<noteq> x) (t_map m)"
    by (simp add: erase_entry_def unref_def map_erase_def cong: filter_cong)
qed

lemma audit_loop_spec:
  "manager_wf m \<Longrightarrow> set xs \<subseteq> set (t_map m) \<Longrightarrow> distinct xs \<Longrightarrow>
    \<exists>m'. audit_loop xs m = Some m' \<and> manager_wf m' \<and> held m' = held m \<and>
      t_map m' = filter (\<lambda>x. \<not> (x \<in> set xs \<and> over m (snd x))) (t_map m) \<and>
      timers m' = (\<lambda>p. if held m p = 0 \<and> p \<in> snd ` set xs \<and> over m p then None else timers m p)"
proof (induction xs arbitrary: m)
  case (Cons x xs)
  have x: "x \<in> set (t_map m)" using Cons.prems(2) by simp
  then obtain t where t: "timers m (snd x) = Some t" using Cons.prems(1) by (force simp: manager_wf_def)
  show ?case
  proof (cases "isFinished t")
    case True
    let ?m = "erase_entry x m"
    note f = erase_entry_fields [OF Cons.prems(1) x]
    have d: "distinct (map snd (t_map m))" using Cons.prems(1) by (simp add: manager_wf_def)
    have n: "snd y \<noteq> snd x" if "y \<in> set xs" for y
      using that d Cons.prems(2,3) x by (metis distinct.simps(2) distinct_map inj_onD list.set_intros(2) subsetD)
    have ov: "over ?m p \<longleftrightarrow> over m p" if "p \<noteq> snd x" for p using that f(3) by (simp add: over_def)
    have nm: "snd y \<noteq> snd x" if "y \<in> set (t_map m)" "y \<noteq> x" for y using that d x by (metis distinct_map inj_onD)
    have "set xs \<subseteq> set (t_map ?m)" using f(2) Cons.prems(2,3) by auto
    from Cons.IH [OF manager_wf_erase [OF Cons.prems(1) x] this] Cons.prems(3) obtain m' where
      m': "audit_loop xs ?m = Some m'" "manager_wf m'" "held m' = held m"
        "t_map m' = filter (\<lambda>x. \<not> (x \<in> set xs \<and> over ?m (snd x))) (t_map ?m)"
        "timers m' = (\<lambda>p. if held m p = 0 \<and> p \<in> snd ` set xs \<and> over ?m p then None else timers ?m p)"
      using f(1) by auto
    have o: "over m (snd x)" using t True by (simp add: over_def)
    have "t_map m' = filter (\<lambda>y. \<not> (y \<in> set (x # xs) \<and> over m (snd y))) (t_map m)"
      unfolding m'(4) f(2) filter_filter using o nm ov by (intro filter_cong) auto
    moreover have "timers m' = (\<lambda>p. if held m p = 0 \<and> p \<in> snd ` set (x # xs) \<and> over m p then None else timers m p)"
      unfolding m'(5) f(3) using o n ov by (intro ext) (auto simp: image_iff)
    ultimately show ?thesis using m'(1-3) t True by simp
  next
    case False
    then have o: "\<not> over m (snd x)" using t by (simp add: over_def)
    from Cons.IH [OF Cons.prems(1)] Cons.prems(2,3) obtain m' where
      m': "audit_loop xs m = Some m'" "manager_wf m'" "held m' = held m"
        "t_map m' = filter (\<lambda>x. \<not> (x \<in> set xs \<and> over m (snd x))) (t_map m)"
        "timers m' = (\<lambda>p. if held m p = 0 \<and> p \<in> snd ` set xs \<and> over m p then None else timers m p)" by auto
    have "t_map m' = filter (\<lambda>y. \<not> (y \<in> set (x # xs) \<and> over m (snd y))) (t_map m)"
      unfolding m'(4) using o by (intro filter_cong) auto
    moreover have "timers m' = (\<lambda>p. if held m p = 0 \<and> p \<in> snd ` set (x # xs) \<and> over m p then None else timers m p)"
      unfolding m'(5) using o by (intro ext) auto
    ultimately show ?thesis using m'(1-3) t False by simp
  qed
qed auto

text \<open>All that can happen to a manager.\<close>

inductive managed :: "'h timer_manager \<Rightarrow> bool" where
  own: "managed (own_loop_manager env audit)"
| given: "managed (given_loop_manager env audit)"
| got: "managed m \<Longrightarrow> managed (fst (getTimer m))"
| released: "managed m \<Longrightarrow> managed (release p m)"
| killed: "managed m \<Longrightarrow> managed (fst (killTimer tid m))"
| used: "managed m \<Longrightarrow> managed (with_timer p f m)"
| audited: "managed m \<Longrightarrow> auditTimer m = Some m' \<Longrightarrow> managed m'"
| ended: "managed m \<Longrightarrow> managed (end_manager m)"

lemma audit_spec:
  assumes "manager_wf m"
  obtains m' where "auditTimer m = Some m'" "manager_wf m'" "held m' = held m"
    "t_map m' = filter (\<lambda>x. \<not> over m (snd x)) (t_map m)"
    "timers m' = (\<lambda>p. if held m p = 0 \<and> over m p then None else timers m p)"
proof -
  have d: "distinct (t_map m)" using assms by (auto simp: manager_wf_def distinct_map)
  obtain m' where m': "audit_loop (t_map m) m = Some m'" "manager_wf m'" "held m' = held m"
      "t_map m' = filter (\<lambda>x. \<not> (x \<in> set (t_map m) \<and> over m (snd x))) (t_map m)"
      "timers m' = (\<lambda>p. if held m p = 0 \<and> p \<in> snd ` set (t_map m) \<and> over m p then None else timers m p)"
    using audit_loop_spec [OF assms subset_refl d] by blast
  have "over m p \<Longrightarrow> held m p = 0 \<Longrightarrow> p \<in> snd ` set (t_map m)" for p
    using assms by (force simp: over_def manager_wf_def split: option.splits)
  then have "timers m' = (\<lambda>p. if held m p = 0 \<and> over m p then None else timers m p)"
    unfolding m'(5) by (intro ext) auto
  moreover have "t_map m' = filter (\<lambda>x. \<not> over m (snd x)) (t_map m)"
    unfolding m'(4) by (intro filter_cong) auto
  ultimately show ?thesis using that m'(1-3) by (simp add: auditTimer_def)
qed

lemma managed_wf: "managed m \<Longrightarrow> manager_wf m"
proof (induction rule: managed.induct)
  case (audited m m')
  obtain n where "auditTimer m = Some n" "manager_wf n" using audit_spec [OF audited.IH] by blast
  then show ?case using audited.hyps(2) by simp
qed (simp_all add: own_loop_manager_def given_loop_manager_def manager_wf_new manager_wf_getTimer
    manager_wf_release manager_wf_killTimer manager_wf_with_timer manager_wf_end)

text \<open>
  C29. Whatever is done with a timer manager, every number in its map and every pointer that was
  given out refers to a timer, no two numbers to the same one, and a timer nobody refers to is gone.
  The audit never meets a dead entry: it forgets exactly the finished timers, in whatever order the
  map is iterated, destroys those of them that nobody else holds, and leaves every other timer alone.
\<close>

theorem timers_well_formed:
  assumes "managed m"
  shows "manager_wf m \<and> (\<exists>m'. auditTimer m = Some m' \<and> managed m' \<and> held m' = held m \<and>
    t_map m' = filter (\<lambda>x. \<not> over m (snd x)) (t_map m) \<and>
    (\<forall>p. timers m' p = (if over m p \<and> held m p = 0 then None else timers m p)))"
proof -
  have w: "manager_wf m" using assms by (rule managed_wf)
  obtain m' where m': "auditTimer m = Some m'" "held m' = held m" "t_map m' = filter (\<lambda>x. \<not> over m (snd x)) (t_map m)"
      "timers m' = (\<lambda>p. if held m p = 0 \<and> over m p then None else timers m p)"
    using audit_spec [OF w] by blast
  have "managed m'" by (rule managed.audited [OF assms m'(1)])
  then show ?thesis using w m' by simp
qed

theorem timers_well_formed_witness:
  "\<exists>(m :: string timer_manager) m'. managed m \<and> t_map m = [(0, 0), (1, 1)] \<and> auditTimer m = Some m' \<and> t_map m' = [(1, 1)] \<and> timers m' 0 = None"
proof -
  let ?env = "\<lparr>event_new_ok = True, event_add_ok = True, run_user = (\<lambda>f t. t), run_CB = (\<lambda>_ _ _. 0)\<rparr>"
  let ?m0 = "given_loop_manager ?env ''audit''"
  let ?m1 = "release 0 (fst (getTimer ?m0))"
  let ?m = "with_timer 0 (\<lambda>t. stop (fst (startOnce ?env t 10 (User ''x'')))) (fst (getTimer ?m1))"
  have m: "managed ?m" by (intro managed.used managed.got managed.released managed.given)
  have f: "t_map ?m = [(0, 0), (1, 1)]" "held ?m 0 = 0"
    by (simp_all add: with_timer_def getTimer_def getUniqueID_def release_def unref_def given_loop_manager_def
        manager_from_def int32_def Let_def)
  have o: "over ?m 0" "\<not> over ?m 1"
    by (simp_all add: over_def with_timer_def getTimer_def getUniqueID_def release_def unref_def given_loop_manager_def
        manager_from_def int32_def Let_def startOnce_def startRounds_def timer_defs)
  obtain m :: "string timer_manager" where w: "managed m" "t_map m = [(0, 0), (1, 1)]" "held m 0 = 0" "over m 0" "\<not> over m 1"
    by (rule that [OF m f(1) f(2) o(1) o(2)])
  from timers_well_formed [OF w(1)] obtain m' where
    "auditTimer m = Some m'" "t_map m' = filter (\<lambda>x. \<not> over m (snd x)) (t_map m)"
      "timers m' 0 = (if over m 0 \<and> held m 0 = 0 then None else timers m 0)" by blast
  then show ?thesis using w by (intro exI [of _ m] exI [of _ m']) simp
qed

text \<open>A timer that only the map refers to is destroyed, with its event, when it is killed.\<close>

lemma killed_timer_gone:
  assumes "manager_wf m" "map_of (t_map m) tid = Some p" "held m p = 0"
  shows "timers (fst (killTimer tid m)) p = None"
  using erase_entry_fields(3) [OF assms(1) map_of_SomeD [OF assms(2)]] assms by (simp add: killTimer_def)

end
