(* ===== verification/Heartbeat.thy ===== *)
theory Heartbeat
  imports Timer_Manager
begin

text \<open>
  The heartbeat on a timer (include/heartbeat/heartbeat.h): at every tick it reports whether the peer
  has answered since the last one, and pings it again.
\<close>

section \<open>Definitions\<close>

text \<open>The callbacks may be empty functions; the timer is one of the process-wide manager.\<close>

record heartbeat =
  hb_interval :: "32 word"
  hb_timer :: nat
  s_cb :: bool
  l_cb :: bool

datatype hb_call = Success | Lost int | Ping

definition new_heartbeat :: "'h timer_manager \<Rightarrow> 'h timer_manager \<times> heartbeat" where
  "new_heartbeat m =
     (let (m, p, _) = getTimer m in (m, \<lparr>hb_interval = 5000, hb_timer = p, s_cb = False, l_cb = False\<rparr>))"

definition end_heartbeat :: "heartbeat \<Rightarrow> 'h timer_manager \<Rightarrow> 'h timer_manager" where
  "end_heartbeat hb m = release (hb_timer hb) (with_timer (hb_timer hb) stop m)"

definition set_interval :: "32 word \<Rightarrow> heartbeat \<Rightarrow> heartbeat" where
  "set_interval iv hb = hb\<lparr>hb_interval := iv\<rparr>"

definition set_hb_success_cb :: "bool \<Rightarrow> heartbeat \<Rightarrow> heartbeat" where
  "set_hb_success_cb f hb = hb\<lparr>s_cb := f\<rparr>"

definition set_hb_lost_cb :: "bool \<Rightarrow> heartbeat \<Rightarrow> heartbeat" where
  "set_hb_lost_cb f hb = hb\<lparr>l_cb := f\<rparr>"

definition onHeartbeatLost :: "heartbeat \<Rightarrow> hb_call list" where
  "onHeartbeatLost hb = (if l_cb hb then [Lost 400] else [])"

definition onHeartbeatSuccess :: "heartbeat \<Rightarrow> hb_call list" where
  "onHeartbeatSuccess hb = (if s_cb hb then [Success] else [])"

text \<open>\<open>start\<close>: the handler \<open>h\<close> stands for the closure whose body is \<open>hb_tick\<close>.\<close>

definition hb_start :: "'h timer_env \<Rightarrow> 'h \<Rightarrow> heartbeat \<Rightarrow> 'h timer_manager \<Rightarrow> 'h timer_manager" where
  "hb_start env h hb m = with_timer (hb_timer hb) (\<lambda>t. fst (startForever env t (hb_interval hb) (User h))) m"

text \<open>The ping function gets the flag and may set it at once.\<close>

definition hb_tick :: "(bool \<Rightarrow> bool) \<Rightarrow> heartbeat \<Rightarrow> bool \<Rightarrow> hb_call list \<times> bool" where
  "hb_tick ping hb success =
     ((if success then onHeartbeatSuccess hb else onHeartbeatLost hb) @ [Ping], ping False)"

text \<open>Between the ticks the owner of the flag sets it when an answer arrives.\<close>

datatype hb_event = Tick | Answer

fun hb_run :: "(bool \<Rightarrow> bool) \<Rightarrow> heartbeat \<Rightarrow> bool \<Rightarrow> hb_event list \<Rightarrow> hb_call list" where
  "hb_run ping hb success [] = []"
| "hb_run ping hb success (Answer # es) = hb_run ping hb True es"
| "hb_run ping hb success (Tick # es) =
     (let (calls, success) = hb_tick ping hb success in calls @ hb_run ping hb success es)"

section \<open>Reports\<close>

lemma hb_run_answers: "hb_run ping hb s (replicate k Answer @ es) = hb_run ping hb (s \<or> 0 < k) es"
  by (induction k arbitrary: s) auto

definition report :: "bool \<Rightarrow> hb_call list" where
  "report answered = [if answered then Success else Lost 400, Ping]"

text \<open>
  With both callbacks set and an asynchronous ping, the heartbeat reports at every tick a loss
  when no answer has arrived since the tick before, and a success when at least one has, and pings
  again after each report. The flag it was started with counts for the first tick only.
\<close>

theorem heartbeat_reports:
  assumes "s_cb hb" "l_cb hb" "\<And>s. ping s = s"
  shows "hb_run ping hb s (concat (map (\<lambda>k. replicate k Answer @ [Tick]) (first # ks))) =
    report (s \<or> 0 < first) @ concat (map (\<lambda>k. report (0 < k)) ks)"
proof -
  have "hb_run ping hb False (concat (map (\<lambda>k. replicate k Answer @ [Tick]) ks)) = concat (map (\<lambda>k. report (0 < k)) ks)"
    using assms
    by (induction ks) (simp_all add: hb_run_answers hb_tick_def report_def onHeartbeatSuccess_def onHeartbeatLost_def)
  then show ?thesis
    using assms by (simp add: hb_run_answers hb_tick_def report_def onHeartbeatSuccess_def onHeartbeatLost_def)
qed

theorem heartbeat_reports_witness:
  "hb_run (\<lambda>s. s) \<lparr>hb_interval = 5000, hb_timer = 0, s_cb = True, l_cb = True\<rparr> True
     [Tick, Answer, Answer, Tick, Tick] = [Success, Ping, Success, Ping, Lost 400, Ping]"
  using heartbeat_reports [of "\<lparr>hb_interval = 5000, hb_timer = 0, s_cb = True, l_cb = True\<rparr>" "\<lambda>s. s" True 0 "[2, 0]"]
  by (simp add: numeral_2_eq_2 report_def)

text \<open>The timer of a heartbeat that has ended is gone unless the manager still lists it.\<close>

lemma ended_heartbeat_silent:
  assumes "timers m (hb_timer hb) = Some t"
  shows "case timers (end_heartbeat hb m) (hb_timer hb) of None \<Rightarrow> True | Some u \<Rightarrow> fires env k u = Some (u, [])"
  using assms by (cases k) (auto simp: end_heartbeat_def release_def unref_def with_timer_def timer_defs split: option.split)

end
