(* ===== verification/Messages.thy ===== *)
theory Messages
  imports Prelude
begin

text \<open>
  The messages that the tasks of DBwrapper exchange (include/task_base/util.hpp) and the payloads of
  the redis worker (include/adapter/redis/util.hpp).
\<close>

datatype MSG_TYPE =
    TASK_HB | TASK_RESTART | TASK_PUT | TASK_GET | TASK_DEL | TASK_PING
  | TASK_REDIS_ADD_CONN | TASK_REDIS_DEL_CONN | TASK_REDIS_RAW | TASK_REDIS_FORMAT_RAW
  | TASK_REDIS_PUT | TASK_REDIS_GET | TASK_REDIS_DEL | TASK_REDIS_PING
  | TASK_HB_RSP | TASK_REDIS_RESTART
  | TASK_HB_REQ
  | TASK_MAX

record add_conn_payload =
  ip :: bytes
  port :: int

text \<open>
  A callback is a number, 0 for NULL, and so is its user data. The messages for a formatted and for a
  raw command have the same fields.
\<close>

record raw_msg =
  usr_data :: nat
  cb :: nat
  command_text :: bytes

text \<open>
  A body is of any type, and is read back with the type that the reader expects; with another type
  the cast throws.
\<close>

datatype task_any = Empty | Name bytes | FormatRaw raw_msg | Raw raw_msg | AddConn add_conn_payload

definition any_name :: "task_any \<Rightarrow> bytes option" where
  "any_name b = (case b of Name n \<Rightarrow> Some n | _ \<Rightarrow> None)"

definition any_format_raw :: "task_any \<Rightarrow> raw_msg option" where
  "any_format_raw b = (case b of FormatRaw m \<Rightarrow> Some m | _ \<Rightarrow> None)"

definition any_raw :: "task_any \<Rightarrow> raw_msg option" where
  "any_raw b = (case b of Raw m \<Rightarrow> Some m | _ \<Rightarrow> None)"

definition any_add_conn :: "task_any \<Rightarrow> add_conn_payload option" where
  "any_add_conn b = (case b of AddConn p \<Rightarrow> Some p | _ \<Rightarrow> None)"

record TASK_MSG =
  msg_type :: MSG_TYPE
  seq_id :: "32 word"
  msg_from :: bytes
  msg_to :: bytes
  body :: task_any

definition TASK0 :: bytes where "TASK0 = ''task0''"
definition WORKER001 :: bytes where "WORKER001 = ''WORKER001''"
definition TASK_HB_INTERVAL :: "32 word" where "TASK_HB_INTERVAL = 5000"

end
