(* ===== verification/Task_Base.thy ===== *)
theory Task_Base
  imports Messages Timer_Manager
begin

text \<open>
  A task (include/task_base/task_base.hpp, src/task_base/task_base.cpp): a queue of messages that any
  thread may append to under a lock, an eventfd that wakes the task's own loop, and the loop's handler,
  which takes the whole queue at once and works it off.

  The eventfd is a service of the system: its operations on a kernel state are arguments, and what
  the code relies on is stated as \<open>eventfd_ok\<close>.
\<close>

section \<open>Tasks\<close>

datatype task_timer = Task_audit | Task_heartbeat | Task_reconnect nat

text \<open>
  \<open>part\<close> holds the members of the derived class. A new task has no event descriptor, and its
  pointer \<open>_detail_info\<close> is not initialised (\<open>None\<close>).
\<close>

record 'w task =
  hb_itval :: "32 word"
  task_queue :: "TASK_MSG list"
  tmp_task_queue :: "TASK_MSG list"
  task_name :: bytes
  evfd :: int
  detail_info :: "nat option"
  timer_mgr :: "task_timer timer_manager"
  part :: 'w

definition new_task :: "task_timer timer_env \<Rightarrow> bytes \<Rightarrow> 'w \<Rightarrow> 'w task" where
  "new_task env n w = \<lparr>hb_itval = TASK_HB_INTERVAL, task_queue = [], tmp_task_queue = [], task_name = n, evfd = - 1,
     detail_info = None, timer_mgr = given_loop_manager env Task_audit, part = w\<rparr>"

text \<open>The descriptor that \<open>eventfd\<close> returned, and whether the event server could be created.\<close>

definition task_init :: "int \<Rightarrow> bool \<Rightarrow> ('w task \<Rightarrow> 'w task) \<Rightarrow> 'w task \<Rightarrow> 'w task \<times> bool" where
  "task_init fd server_ok on_before_loop t =
     (let t = t\<lparr>evfd := fd\<rparr> in
      if evfd t < 0 then (t, False)
      else if \<not> server_ok then (t, False)
      else (on_before_loop t, True))"

definition in_queue :: "TASK_MSG \<Rightarrow> 'w task \<Rightarrow> 'w task" where
  "in_queue msg t = t\<lparr>task_queue := task_queue t @ [msg]\<rparr>"

text \<open>The locked part of \<open>process_msg\<close>.\<close>

definition swap_queues :: "'w task \<Rightarrow> 'w task" where
  "swap_queues t = t\<lparr>task_queue := tmp_task_queue t, tmp_task_queue := task_queue t\<rparr>"

definition pop_message :: "'w task \<Rightarrow> 'w task" where
  "pop_message t = t\<lparr>tmp_task_queue := tl (tmp_task_queue t)\<rparr>"

section \<open>The eventfd\<close>

record 'e eventfd_ops =
  efd_write :: "'e \<Rightarrow> 'e \<times> bool"
  efd_read :: "'e \<Rightarrow> 'e \<times> bool"
  efd_ready :: "'e \<Rightarrow> bool"

text \<open>
  A write leaves the descriptor readable, also when it is refused because the counter is at its
  limit; a readable descriptor can be read, and reading clears it.
\<close>

definition eventfd_ok :: "'e eventfd_ops \<Rightarrow> bool" where
  "eventfd_ok E \<longleftrightarrow> (\<forall>e. efd_ready E (fst (efd_write E e))) \<and>
     (\<forall>e. efd_ready E e \<longrightarrow> snd (efd_read E e) \<and> \<not> efd_ready E (fst (efd_read E e)))"

section \<open>A task and the threads that send to it\<close>

text \<open>
  \<open>evfdCallback\<close> waits for the descriptor, has read it, or is in the loop of \<open>process_msg\<close>. A sender
  first queues its message and then writes to the descriptor: \<open>owed\<close> counts the senders between the
  two. \<open>posted\<close> and \<open>handled\<close> record the messages in the order in which they were queued and given to
  \<open>on_message\<close>.
\<close>

datatype phase = Waiting | Woken | Handling

record ('w, 'e) mailbox =
  box_task :: "'w task"
  box_phase :: phase
  owed :: nat
  kernel :: 'e
  posted :: "TASK_MSG list"
  handled :: "TASK_MSG list"

text \<open>What the task does, and the second half of sending. A handler may change the derived part.\<close>

inductive mwork :: "'e eventfd_ops \<Rightarrow> ('w, 'e) mailbox \<Rightarrow> ('w, 'e) mailbox \<Rightarrow> bool" for E where
  signal: "0 < owed s \<Longrightarrow> mwork E s (s\<lparr>owed := owed s - 1, kernel := fst (efd_write E (kernel s))\<rparr>)"
| wake: "box_phase s = Waiting \<Longrightarrow> efd_ready E (kernel s) \<Longrightarrow>
     mwork E s (s\<lparr>kernel := fst (efd_read E (kernel s)), box_phase := (if snd (efd_read E (kernel s)) then Woken else Waiting)\<rparr>)"
| take: "box_phase s = Woken \<Longrightarrow> mwork E s (s\<lparr>box_task := swap_queues (box_task s), box_phase := Handling\<rparr>)"
| handle: "box_phase s = Handling \<Longrightarrow> tmp_task_queue (box_task s) = m # ms \<Longrightarrow>
     mwork E s (s\<lparr>box_task := (pop_message (box_task s))\<lparr>part := w\<rparr>, handled := handled s @ [m]\<rparr>)"
| rest: "box_phase s = Handling \<Longrightarrow> tmp_task_queue (box_task s) = [] \<Longrightarrow> mwork E s (s\<lparr>box_phase := Waiting\<rparr>)"

inductive mstep :: "'e eventfd_ops \<Rightarrow> ('w, 'e) mailbox \<Rightarrow> ('w, 'e) mailbox \<Rightarrow> bool" for E where
  work: "mwork E s s' \<Longrightarrow> mstep E s s'"
| post: "mstep E s (s\<lparr>box_task := in_queue m (box_task s), owed := owed s + 1, posted := posted s @ [m]\<rparr>)"

inductive_cases mworkE: "mwork E s s'"
inductive_cases mstepE: "mstep E s s'"

definition start_box :: "'w task \<Rightarrow> 'e \<Rightarrow> ('w, 'e) mailbox" where
  "start_box t e = \<lparr>box_task = t, box_phase = Waiting, owed = 0, kernel = e, posted = [], handled = []\<rparr>"

inductive mreach :: "'e eventfd_ops \<Rightarrow> ('w, 'e) mailbox \<Rightarrow> bool" for E where
  start: "task_queue t = [] \<Longrightarrow> tmp_task_queue t = [] \<Longrightarrow> mreach E (start_box t e)"
| step: "mreach E s \<Longrightarrow> mstep E s s' \<Longrightarrow> mreach E s'"

section \<open>The invariant\<close>

text \<open>
  Nothing is lost or reordered, and a queue that is not empty has a wake-up on its way: a sender that
  has yet to write, a readable descriptor, or a task that is about to take the queue.
\<close>

definition in_order :: "('w, 'e) mailbox \<Rightarrow> bool" where
  "in_order s \<longleftrightarrow> posted s = handled s @ tmp_task_queue (box_task s) @ task_queue (box_task s) \<and>
     (box_phase s \<noteq> Handling \<longrightarrow> tmp_task_queue (box_task s) = [])"

definition awaited :: "'e eventfd_ops \<Rightarrow> ('w, 'e) mailbox \<Rightarrow> bool" where
  "awaited E s \<longleftrightarrow> (task_queue (box_task s) \<noteq> [] \<longrightarrow> box_phase s = Woken \<or> 0 < owed s \<or> efd_ready E (kernel s))"

lemmas task_ops = in_queue_def swap_queues_def pop_message_def

lemma mstep_in_order: "mstep E s s' \<Longrightarrow> in_order s \<Longrightarrow> in_order s'"
  by (auto elim!: mstepE mworkE simp: in_order_def task_ops)

lemma mstep_awaited: "eventfd_ok E \<Longrightarrow> mstep E s s' \<Longrightarrow> in_order s \<Longrightarrow> awaited E s \<Longrightarrow> awaited E s'"
  by (auto elim!: mstepE mworkE simp: awaited_def in_order_def task_ops eventfd_ok_def)

lemma reach_invariant: "eventfd_ok E \<Longrightarrow> mreach E s \<Longrightarrow> in_order s \<and> awaited E s"
proof (rotate_tac, induction rule: mreach.induct)
  case (start t e)
  then show ?case by (simp add: in_order_def awaited_def start_box_def)
next
  case (step s s')
  then show ?case using mstep_in_order mstep_awaited by blast
qed

section \<open>The abstract queue\<close>

text \<open>The specification: messages wait in a list and are delivered from its head.\<close>

inductive fifo_step :: "TASK_MSG list \<times> TASK_MSG list \<Rightarrow> TASK_MSG list \<times> TASK_MSG list \<Rightarrow> bool" where
  enter: "fifo_step (waiting, delivered) (waiting @ [m], delivered)"
| leave: "fifo_step (m # waiting, delivered) (waiting, delivered @ [m])"

definition abs_box :: "('w, 'e) mailbox \<Rightarrow> TASK_MSG list \<times> TASK_MSG list" where
  "abs_box s = (tmp_task_queue (box_task s) @ task_queue (box_task s), handled s)"

lemma mstep_refines:
  assumes "mstep E s s'" "in_order s"
  shows "abs_box s = abs_box s' \<or> fifo_step (abs_box s) (abs_box s')"
  using assms
proof (cases rule: mstep.cases)
  case (post m)
  then show ?thesis
    using fifo_step.enter [of "tmp_task_queue (box_task s) @ task_queue (box_task s)" "handled s" m]
    by (simp add: abs_box_def task_ops)
next
  case work
  then show ?thesis
  proof (cases rule: mwork.cases)
    case (handle m ms w)
    then show ?thesis
      using fifo_step.leave [of m "ms @ task_queue (box_task s)" "handled s"] by (simp add: abs_box_def task_ops)
  qed (use assms(2) in \<open>auto simp: abs_box_def task_ops in_order_def\<close>)
qed

section \<open>Work left\<close>

definition work_left :: "'e eventfd_ops \<Rightarrow> ('w, 'e) mailbox \<Rightarrow> nat" where
  "work_left E s = 4 * owed s + (if efd_ready E (kernel s) then 3 else 0) +
     (case box_phase s of Waiting \<Rightarrow> 0 | Handling \<Rightarrow> 1 | Woken \<Rightarrow> 2) +
     length (tmp_task_queue (box_task s)) + length (task_queue (box_task s))"

lemma mwork_decreases: "eventfd_ok E \<Longrightarrow> mwork E s s' \<Longrightarrow> work_left E s' < work_left E s"
  by (auto elim!: mworkE simp: work_left_def task_ops eventfd_ok_def)

lemma mwork_enabled:
  assumes "in_order s" "awaited E s" "posted s \<noteq> handled s"
  shows "\<exists>s'. mwork E s s'"
proof (cases "box_phase s")
  case Waiting
  then have "0 < owed s \<or> efd_ready E (kernel s)" using assms by (auto simp: in_order_def awaited_def)
  then show ?thesis using Waiting mwork.signal mwork.wake by metis
next
  case Woken
  then show ?thesis using mwork.take by metis
next
  case Handling
  show ?thesis
  proof (cases "tmp_task_queue (box_task s)")
    case Nil
    with mwork.rest [OF Handling] show ?thesis by blast
  next
    case (Cons m ms)
    with mwork.handle [OF Handling] show ?thesis by blast
  qed
qed

section \<open>Properties\<close>

text \<open>For the witnesses: a counter as eventfd, and a task that was sent two messages and has taken them.\<close>

definition counter_fd :: "nat eventfd_ops" where
  "counter_fd = \<lparr>efd_write = (\<lambda>n. (Suc n, True)), efd_read = (\<lambda>n. (0, True)), efd_ready = (\<lambda>n. 0 < n)\<rparr>"

lemma counter_fd_ok: "eventfd_ok counter_fd"
  by (simp add: eventfd_ok_def counter_fd_def)

definition hello :: "bytes \<Rightarrow> TASK_MSG" where
  "hello n = \<lparr>msg_type = TASK_HB_REQ, seq_id = 0, msg_from = [], msg_to = [], body = Name n\<rparr>"

lemma two_sent:
  "\<exists>s :: (unit, nat) mailbox. mreach counter_fd s \<and> box_phase s = Waiting \<and> owed s = 1 \<and>
     posted s = [hello ''a'', hello ''b''] \<and> handled s = [] \<and> efd_ready counter_fd (kernel s) \<and>
     task_queue (box_task s) = [hello ''a'', hello ''b''] \<and> tmp_task_queue (box_task s) = []"
proof -
  let ?env = "\<lparr>event_new_ok = True, event_add_ok = True, run_user = (\<lambda>f t. t), run_CB = (\<lambda>_ _ _. 0)\<rparr>"
  let ?s0 = "start_box (new_task ?env ''w'' ()) (0 :: nat)"
  let ?post = "\<lambda>m s. s\<lparr>box_task := in_queue m (box_task s), owed := owed s + 1, posted := posted s @ [m]\<rparr>"
  let ?s2 = "?post (hello ''b'') (?post (hello ''a'') ?s0)"
  have "mreach counter_fd ?s0" by (rule mreach.start) (simp_all add: new_task_def)
  then have "mreach counter_fd ?s2" by (blast intro: mreach.step mstep.post)
  moreover have "mwork counter_fd ?s2 (?s2\<lparr>owed := owed ?s2 - 1, kernel := fst (efd_write counter_fd (kernel ?s2))\<rparr>)"
    by (rule mwork.signal) simp
  ultimately have "mreach counter_fd (?s2\<lparr>owed := owed ?s2 - 1, kernel := fst (efd_write counter_fd (kernel ?s2))\<rparr>)"
    by (blast intro: mreach.step mstep.work)
  then show ?thesis
    by (intro exI conjI, assumption) (simp_all add: start_box_def new_task_def in_queue_def counter_fd_def)
qed

text \<open>
  C7. A task is a queue: however the sends of any number of threads interleave with its own loop,
  every step is one of the abstract first-in first-out queue or invisible, so that the messages
  handled are, in order and each once, the first of those sent; a message sent while the loop is
  working is never overtaken.
\<close>

theorem task_is_fifo:
  assumes "eventfd_ok E" and "mreach E s" and "mstep E s s'"
  shows "(abs_box s = abs_box s' \<or> fifo_step (abs_box s) (abs_box s')) \<and>
    posted s = handled s @ fst (abs_box s) \<and> handled s = take (length (handled s)) (posted s)"
proof -
  have "in_order s" using reach_invariant [OF assms(1,2)] by blast
  then show ?thesis using mstep_refines [OF assms(3)] by (simp add: in_order_def abs_box_def)
qed

theorem task_is_fifo_witness:
  "\<exists>s s' :: (unit, nat) mailbox. mreach counter_fd s \<and> mstep counter_fd s s' \<and> box_phase s' = Woken \<and>
     posted s = [hello ''a'', hello ''b''] \<and> fst (abs_box s) = posted s"
proof -
  from two_sent obtain s :: "(unit, nat) mailbox" where
    s: "mreach counter_fd s" "box_phase s = Waiting" "posted s = [hello ''a'', hello ''b'']" "handled s = []"
      "efd_ready counter_fd (kernel s)" by blast
  have w: "mstep counter_fd s (s\<lparr>kernel := fst (efd_read counter_fd (kernel s)), box_phase := Woken\<rparr>)" (is "mstep _ _ ?s'")
    using mstep.work [OF mwork.wake [OF s(2,5)]] by (simp add: counter_fd_def)
  from task_is_fifo [OF counter_fd_ok s(1) w] s w show ?thesis
    by (intro exI [of _ s] exI [of _ ?s']) simp
qed

text \<open>
  C8. No wake-up is lost: in every reachable state a task that waits with messages in its queue has
  a readable descriptor or a sender about to write to it. So when no more messages are sent, the loop
  comes to rest after a number of steps bounded by the work left, and only with every message
  handled.
\<close>

theorem no_lost_wakeup:
  assumes "eventfd_ok E" and "mreach E s"
  shows "(task_queue (box_task s) \<noteq> [] \<and> box_phase s = Waiting \<longrightarrow> 0 < owed s \<or> efd_ready E (kernel s)) \<and>
    (\<forall>n s'. (mwork E ^^ n) s s' \<longrightarrow> n \<le> work_left E s \<and> ((\<nexists>s''. mwork E s' s'') \<longrightarrow> handled s' = posted s))"
proof (intro conjI allI impI)
  note inv = reach_invariant [OF assms]
  assume "task_queue (box_task s) \<noteq> [] \<and> box_phase s = Waiting"
  then show "0 < owed s \<or> efd_ready E (kernel s)" using inv by (auto simp: awaited_def)
next
  fix n s' assume run: "(mwork E ^^ n) s s'"
  have l: "mreach E s' \<and> n + work_left E s' \<le> work_left E s \<and> posted s' = posted s"
    using run
  proof (induction n arbitrary: s')
    case (Suc n)
    then obtain u where u: "(mwork E ^^ n) s u" "mwork E u s'" by auto
    have "posted s' = posted u" using u(2) by (auto elim: mworkE)
    then show ?case using Suc.IH [OF u(1)] mwork_decreases [OF assms(1) u(2)] mreach.step [OF _ mstep.work [OF u(2)]] by auto
  qed (use assms(2) in auto)
  then show "n \<le> work_left E s" by simp
  assume "\<nexists>s''. mwork E s' s''"
  then show "handled s' = posted s" using mwork_enabled reach_invariant [OF assms(1)] l by metis
qed

theorem no_lost_wakeup_witness:
  "\<exists>s :: (unit, nat) mailbox. mreach counter_fd s \<and> task_queue (box_task s) = [hello ''a'', hello ''b''] \<and>
     (\<forall>n s'. (mwork counter_fd ^^ n) s s' \<longrightarrow> n \<le> 9 \<and> ((\<nexists>s''. mwork counter_fd s' s'') \<longrightarrow> handled s' = [hello ''a'', hello ''b'']))"
proof -
  from two_sent obtain s :: "(unit, nat) mailbox" where
    s: "mreach counter_fd s" "box_phase s = Waiting" "owed s = 1" "posted s = [hello ''a'', hello ''b'']"
      "efd_ready counter_fd (kernel s)" "task_queue (box_task s) = [hello ''a'', hello ''b'']" "tmp_task_queue (box_task s) = []"
    by blast
  have "work_left counter_fd s = 9" using s by (simp add: work_left_def)
  with no_lost_wakeup [OF counter_fd_ok s(1)] s show ?thesis by (intro exI [of _ s]) simp
qed

end
