(* ===== verification/Task_Manager.thy ===== *)
theory Task_Manager
  imports Task_Base
begin

text \<open>
  The task manager and its own task, \<open>task0\<close> (include/task_base/task_manager.hpp,
  src/task_base/task_manager.cpp, and the loop of \<open>process_msg\<close> in src/task_base/task_base.cpp):
  messages by name, and the heartbeat that restarts the tasks that do not answer.
\<close>

section \<open>State\<close>

text \<open>
  The members of the derived classes: those of \<open>manager_task\<close>, and those of a worker, which are a
  parameter here. \<open>restarted\<close> records the calls of \<open>restart\<close>, whose bodies are empty; \<open>fds\<close> is the
  state of the event descriptors; \<open>first_loop\<close> is the variable of the thread that runs \<open>task0\<close>.
\<close>

record manager_part =
  hb_map :: "(bytes \<times> bool) list"
  hb_tid :: int

datatype 'w task_part = Manager manager_part | Worker 'w

type_synonym 'w a_task = "'w task_part task"

record ('w, 'e) task_manager =
  task_map :: "(bytes \<times> 'w a_task) list"
  tm_hb_itval :: "32 word"
  tm_seq_id :: "32 word"
  fds :: 'e
  first_loop :: bool
  restarted :: "bytes list"

definition new_task_manager :: "'e \<Rightarrow> ('w, 'e) task_manager" where
  "new_task_manager e = \<lparr>task_map = [], tm_hb_itval = 5000, tm_seq_id = 0, fds = e, first_loop = True, restarted = []\<rparr>"

section \<open>Sending\<close>

text \<open>
  Writing to an event descriptor is an argument. A message for a task whose descriptor refuses the
  write stays in its queue.
\<close>

type_synonym 'e fd_write = "int \<Rightarrow> 'e \<Rightarrow> 'e \<times> bool"

definition send2task :: "'e fd_write \<Rightarrow> bytes \<Rightarrow> TASK_MSG \<Rightarrow> ('w, 'e) task_manager \<Rightarrow> ('w, 'e) task_manager \<times> bool" where
  "send2task W n msg w =
     (case map_of (task_map w) n of
        None \<Rightarrow> (w, False)
      | Some t \<Rightarrow>
          (let (e, ok) = W (evfd t) (fds w)
           in (w\<lparr>task_map := map_put n (in_queue msg t) (task_map w), fds := e\<rparr>, ok)))"

definition send2task_body :: "'e fd_write \<Rightarrow> bytes \<Rightarrow> MSG_TYPE \<Rightarrow> task_any \<Rightarrow> 32 word
    \<Rightarrow> ('w, 'e) task_manager \<Rightarrow> ('w, 'e) task_manager \<times> bool" where
  "send2task_body W n ty b seq w =
     send2task W n \<lparr>msg_type = ty, seq_id = seq, msg_from = [], msg_to = [], body = b\<rparr> w"

fun hb_all_loop :: "'e fd_write \<Rightarrow> bytes list \<Rightarrow> ('w, 'e) task_manager \<Rightarrow> ('w, 'e) task_manager" where
  "hb_all_loop W [] w = w"
| "hb_all_loop W (n # ns) w =
     hb_all_loop W ns
       (if n \<noteq> TASK0
        then (let (w, _) = send2task_body W n TASK_HB_REQ (Name n) (tm_seq_id w) w in w\<lparr>tm_seq_id := tm_seq_id w + 1\<rparr>)
        else w)"

definition send_hb_all :: "'e fd_write \<Rightarrow> ('w, 'e) task_manager \<Rightarrow> ('w, 'e) task_manager" where
  "send_hb_all W w = hb_all_loop W (map fst (task_map w)) w"

definition add_tasks :: "'w a_task \<Rightarrow> ('w, 'e) task_manager \<Rightarrow> ('w, 'e) task_manager" where
  "add_tasks t w = w\<lparr>task_map := map_put (task_name t) t (task_map w)\<rparr>"

definition del_tasks :: "bytes \<Rightarrow> ('w, 'e) task_manager \<Rightarrow> ('w, 'e) task_manager" where
  "del_tasks n w = w\<lparr>task_map := map_erase n (task_map w)\<rparr>"

definition get_task_id :: "bytes \<Rightarrow> ('w, 'e) task_manager \<Rightarrow> int" where
  "get_task_id n w = (case map_of (task_map w) n of None \<Rightarrow> - 1 | Some t \<Rightarrow> evfd t)"

text \<open>Both branches of the loop body return, so only the first task is looked at.\<close>

definition get_task_ptr_p_with_detail_info :: "nat \<Rightarrow> ('w, 'e) task_manager \<Rightarrow> bytes ptr option" where
  "get_task_ptr_p_with_detail_info info w =
     (case task_map w of
        [] \<Rightarrow> Some Nullp
      | (n, t) # _ \<Rightarrow> do { d \<leftarrow> detail_info t; Some (if d = info then Ptr n else Nullp) })"

section \<open>The manager's task\<close>

definition manager_task :: "task_timer timer_env \<Rightarrow> 'w a_task" where
  "manager_task env = new_task env TASK0 (Manager \<lparr>hb_map = [], hb_tid = 0\<rparr>)"

text \<open>The pointer that \<open>getTimer\<close> gives is a temporary.\<close>

definition start_hb :: "task_timer timer_env \<Rightarrow> manager_part \<Rightarrow> 'w a_task \<Rightarrow> 'w a_task" where
  "start_hb env mp t =
     (let (m, p, tid) = getTimer (timer_mgr t);
          m = with_timer p (\<lambda>x. fst (startForever env x (hb_itval t) (User Task_heartbeat))) m
      in t\<lparr>timer_mgr := release p m, part := Manager (mp\<lparr>hb_tid := tid\<rparr>)\<rparr>)"

definition on_before_loop :: "task_timer timer_env \<Rightarrow> 'w a_task \<Rightarrow> 'w a_task" where
  "on_before_loop env t = (case part t of Manager mp \<Rightarrow> start_hb env mp t | Worker _ \<Rightarrow> t)"

text \<open>The virtual \<open>set_hb_interval\<close>; the manager's restarts its timer, if there is one.\<close>

definition task_set_hb_interval :: "task_timer timer_env \<Rightarrow> 32 word \<Rightarrow> 'w a_task \<Rightarrow> 'w a_task" where
  "task_set_hb_interval env i t =
     (let t = t\<lparr>hb_itval := i\<rparr> in
      case part t of
        Worker _ \<Rightarrow> t
      | Manager mp \<Rightarrow>
          (if hb_tid mp \<noteq> 0 then start_hb env mp (t\<lparr>timer_mgr := fst (killTimer (hb_tid mp) (timer_mgr t))\<rparr>) else t))"

text \<open>Creating the descriptor and the event server of a task is an argument, by name.\<close>

definition init_task :: "task_timer timer_env \<Rightarrow> (bytes \<Rightarrow> int \<times> bool) \<Rightarrow> bytes \<Rightarrow> 'w a_task \<Rightarrow> 'w a_task" where
  "init_task env mk n t = fst (task_init (fst (mk n)) (snd (mk n)) (on_before_loop env) t)"

definition tm_init :: "task_timer timer_env \<Rightarrow> (bytes \<Rightarrow> int \<times> bool) \<Rightarrow> ('w, 'e) task_manager \<Rightarrow> ('w, 'e) task_manager" where
  "tm_init env mk w =
     (let w = add_tasks (manager_task env) w;
          m = map (\<lambda>(n, t). (n, if n = TASK0 then t else init_task env mk n t)) (task_map w);
          m = map (\<lambda>(n, t). (n, if n = TASK0 then init_task env mk n (task_set_hb_interval env (tm_hb_itval w) t) else t)) m
      in w\<lparr>task_map := m\<rparr>)"

text \<open>
  The parameter has the name of the member, which is therefore not assigned. A missing \<open>task0\<close> is
  inserted as a null pointer, and then used.
\<close>

definition tm_set_hb_interval :: "task_timer timer_env \<Rightarrow> 32 word \<Rightarrow> ('w, 'e) task_manager \<Rightarrow> ('w, 'e) task_manager option" where
  "tm_set_hb_interval env i w = do {
     t \<leftarrow> map_of (task_map w) TASK0;
     Some (w\<lparr>task_map := map_put TASK0 (task_set_hb_interval env i t) (task_map w)\<rparr>) }"

text \<open>
  The body of the heartbeat's timer. The first loop asks for the restart of every task with no answer;
  a task that is not in the map any more ends the callback at once (\<open>False\<close>).
\<close>

fun check_hb :: "(bytes \<times> 'w a_task) list \<Rightarrow> (bytes \<times> bool) list \<Rightarrow> bytes list \<Rightarrow> bytes list \<times> bool" where
  "check_hb tasks [] r = (r, True)"
| "check_hb tasks ((n, answered) # hs) r =
     (if n = TASK0 then check_hb tasks hs r
      else if answered then check_hb tasks hs r
      else (case map_of tasks n of None \<Rightarrow> (r, False) | Some t \<Rightarrow> check_hb tasks hs (r @ [n])))"

definition cleared_hb_map :: "(bytes \<times> 'w a_task) list \<Rightarrow> (bytes \<times> bool) list" where
  "cleared_hb_map tasks = fold (\<lambda>x m. map_insert (fst x) False m) tasks []"

definition put_manager :: "manager_part \<Rightarrow> 'w a_task \<Rightarrow> ('w, 'e) task_manager \<Rightarrow> ('w, 'e) task_manager" where
  "put_manager mp t w = w\<lparr>task_map := map_put TASK0 (t\<lparr>part := Manager mp\<rparr>) (task_map w)\<rparr>"

definition hb_callback :: "'e fd_write \<Rightarrow> ('w, 'e) task_manager \<Rightarrow> ('w, 'e) task_manager option" where
  "hb_callback W w = do {
     t \<leftarrow> map_of (task_map w) TASK0;
     (case part t of
        Worker _ \<Rightarrow> None
      | Manager mp \<Rightarrow>
          if first_loop w then Some (w\<lparr>first_loop := False\<rparr>)
          else
            (let (r, cont) = check_hb (task_map w) (hb_map mp) (restarted w);
                 w = w\<lparr>restarted := r\<rparr>
             in if \<not> cont then Some w
                else Some (send_hb_all W (put_manager (mp\<lparr>hb_map := cleared_hb_map (task_map w)\<rparr>) t w)))) }"

definition manager_on_message :: "TASK_MSG \<Rightarrow> manager_part \<Rightarrow> manager_part option" where
  "manager_on_message msg mp =
     (if msg_type msg = TASK_HB_RSP
      then do { n \<leftarrow> any_name (body msg); Some (mp\<lparr>hb_map := map_put n True (hb_map mp)\<rparr>) }
      else Some mp)"

section \<open>Working off the queue\<close>

text \<open>\<open>on_message\<close> of a worker is an argument.\<close>

type_synonym 'w handler_fn = "TASK_MSG \<Rightarrow> 'w a_task \<Rightarrow> 'w a_task option"

definition on_message :: "'w handler_fn \<Rightarrow> TASK_MSG \<Rightarrow> 'w a_task \<Rightarrow> 'w a_task option" where
  "on_message H msg t =
     (case part t of
        Worker _ \<Rightarrow> H msg t
      | Manager mp \<Rightarrow> do { mp \<leftarrow> manager_on_message msg mp; Some (t\<lparr>part := Manager mp\<rparr>) })"

definition put_task :: "bytes \<Rightarrow> 'w a_task \<Rightarrow> ('w, 'e) task_manager \<Rightarrow> ('w, 'e) task_manager" where
  "put_task n t w = w\<lparr>task_map := map_put n t (task_map w)\<rparr>"

definition process_front :: "'w handler_fn \<Rightarrow> 'e fd_write \<Rightarrow> bytes \<Rightarrow> 'w a_task \<Rightarrow> TASK_MSG
    \<Rightarrow> ('w, 'e) task_manager \<Rightarrow> ('w, 'e) task_manager option" where
  "process_front H W n t msg w =
     (if msg_type msg = TASK_HB_REQ then
        (if task_name t = TASK0 then do { t \<leftarrow> on_message H msg (pop_message t); Some (put_task n t w) }
         else
           Some (fst (send2task W TASK0 (msg\<lparr>body := Name (task_name t), msg_type := TASK_HB_RSP\<rparr>)
             (put_task n (pop_message t) w))))
      else do { t \<leftarrow> on_message H msg t; Some (put_task n (pop_message t) w) })"

partial_function (option) process_loop :: "'w handler_fn \<Rightarrow> 'e fd_write \<Rightarrow> bytes
    \<Rightarrow> ('w, 'e) task_manager \<Rightarrow> ('w, 'e) task_manager option" where
  "process_loop H W n w = do {
     t \<leftarrow> map_of (task_map w) n;
     (case tmp_task_queue t of
        [] \<Rightarrow> Some w
      | msg # _ \<Rightarrow> do { w \<leftarrow> process_front H W n t msg w; process_loop H W n w }) }"

definition process_msg :: "'w handler_fn \<Rightarrow> 'e fd_write \<Rightarrow> bytes \<Rightarrow> ('w, 'e) task_manager \<Rightarrow> ('w, 'e) task_manager option" where
  "process_msg H W n w = do {
     t \<leftarrow> map_of (task_map w) n;
     process_loop H W n (put_task n (swap_queues t) w) }"

definition evfdCallback :: "'w handler_fn \<Rightarrow> 'e fd_write \<Rightarrow> (int \<Rightarrow> 'e \<Rightarrow> 'e \<times> bool) \<Rightarrow> bytes
    \<Rightarrow> ('w, 'e) task_manager \<Rightarrow> ('w, 'e) task_manager option" where
  "evfdCallback H W R n w = do {
     t \<leftarrow> map_of (task_map w) n;
     (let (e, ok) = R (evfd t) (fds w); w = w\<lparr>fds := e\<rparr> in if \<not> ok then Some w else process_msg H W n w) }"

end
