(* ===== verification/Task_Heartbeat.thy ===== *)
theory Task_Heartbeat
  imports Task_Manager
begin

text \<open>
  The heartbeat of the task manager: what one beat does, that a task is restarted exactly when it let
  a beat pass, and the ways in which the heartbeat fails.
\<close>

section \<open>Task maps\<close>

definition heart_ok :: "('w, 'e) task_manager \<Rightarrow> bool" where
  "heart_ok w \<longleftrightarrow> map_ok (task_map w) \<and> (\<forall>n t. map_of (task_map w) n = Some t \<longrightarrow> task_name t = n) \<and>
     (\<exists>t mp. map_of (task_map w) TASK0 = Some t \<and> part t = Manager mp \<and> map_ok (hb_map mp))"

lemma heart_okE:
  assumes "heart_ok w"
  obtains t mp where "map_of (task_map w) TASK0 = Some t" "part t = Manager mp" "map_ok (hb_map mp)" "map_ok (task_map w)"
  using assms by (auto simp: heart_ok_def)

lemma task_name_ops [simp]:
  "task_name (in_queue m t) = task_name t" "task_name (swap_queues t) = task_name t" "task_name (pop_message t) = task_name t"
  "part (in_queue m t) = part t" "part (swap_queues t) = part t" "part (pop_message t) = part t"
  by (simp_all add: task_ops)

text \<open>Replacing a task by one of its name, and \<open>task0\<close> by a manager.\<close>

definition fits :: "bytes \<Rightarrow> 'w a_task \<Rightarrow> bool" where
  "fits n t \<longleftrightarrow> task_name t = n \<and> (n = TASK0 \<longrightarrow> (\<exists>mp. part t = Manager mp \<and> map_ok (hb_map mp)))"

lemma heart_ok_fits: "heart_ok w \<Longrightarrow> map_of (task_map w) n = Some t \<Longrightarrow> fits n t"
  by (auto simp: heart_ok_def fits_def)

lemma put_task_ok:
  assumes "heart_ok w" "fits n t"
  shows "heart_ok (put_task n t w)" "map_of (task_map (put_task n t w)) = (map_of (task_map w))(n \<mapsto> t)"
    "restarted (put_task n t w) = restarted w" "first_loop (put_task n t w) = first_loop w"
  using assms by (auto simp: heart_ok_def put_task_def fits_def)

lemma send2task_put: "send2task W n m w =
    (case map_of (task_map w) n of None \<Rightarrow> (w, False)
     | Some t \<Rightarrow> ((put_task n (in_queue m t) w)\<lparr>fds := fst (W (evfd t) (fds w))\<rparr>, snd (W (evfd t) (fds w))))"
  by (simp add: send2task_def put_task_def case_prod_unfold Let_def split: option.split)

lemma send2task_spec:
  assumes "heart_ok w"
  shows "heart_ok (fst (send2task W n m w))"
    "map_of (task_map (fst (send2task W n m w))) = (map_of (task_map w))(n := map_option (in_queue m) (map_of (task_map w) n))"
    "restarted (fst (send2task W n m w)) = restarted w" "first_loop (fst (send2task W n m w)) = first_loop w"
proof -
  have f: "fits n (in_queue m t)" if "map_of (task_map w) n = Some t" for t
    using heart_ok_fits [OF assms that] by (simp add: fits_def)
  show "heart_ok (fst (send2task W n m w))"
    using assms put_task_ok(1) [OF assms f] by (auto simp: send2task_put heart_ok_def split: option.split)
  show "map_of (task_map (fst (send2task W n m w))) = (map_of (task_map w))(n := map_option (in_queue m) (map_of (task_map w) n))"
    using put_task_ok(2) [OF assms f] by (auto simp: send2task_put split: option.split)
  show "restarted (fst (send2task W n m w)) = restarted w" "first_loop (fst (send2task W n m w)) = first_loop w"
    by (auto simp: send2task_put put_task_def split: option.split)
qed

section \<open>One beat\<close>

definition hb_req :: "bytes \<Rightarrow> 32 word \<Rightarrow> TASK_MSG" where
  "hb_req n seq = \<lparr>msg_type = TASK_HB_REQ, seq_id = seq, msg_from = [], msg_to = [], body = Name n\<rparr>"

lemma heart_ok_seq [simp]: "heart_ok (w\<lparr>tm_seq_id := s\<rparr>) = heart_ok w" "heart_ok (w\<lparr>restarted := r\<rparr>) = heart_ok w"
  "heart_ok (w\<lparr>first_loop := b\<rparr>) = heart_ok w"
  by (simp_all add: heart_ok_def)

lemma hb_all_loop_spec:
  "heart_ok w \<Longrightarrow> distinct ns \<Longrightarrow> \<exists>seq. heart_ok (hb_all_loop W ns w) \<and>
    map_of (task_map (hb_all_loop W ns w)) =
      (\<lambda>n. if n \<in> set ns \<and> n \<noteq> TASK0 then map_option (in_queue (hb_req n (seq n))) (map_of (task_map w) n) else map_of (task_map w) n) \<and>
    restarted (hb_all_loop W ns w) = restarted w \<and> first_loop (hb_all_loop W ns w) = first_loop w \<and>
    tm_seq_id (hb_all_loop W ns w) = tm_seq_id w + of_nat (length (filter (\<lambda>n. n \<noteq> TASK0) ns))"
proof (induction ns arbitrary: w)
  case (Cons n ns)
  show ?case
  proof (cases "n = TASK0")
    case True
    from Cons.IH [OF Cons.prems(1)] Cons.prems(2) obtain seq where
      "heart_ok (hb_all_loop W ns w)" "map_of (task_map (hb_all_loop W ns w)) =
        (\<lambda>n. if n \<in> set ns \<and> n \<noteq> TASK0 then map_option (in_queue (hb_req n (seq n))) (map_of (task_map w) n) else map_of (task_map w) n)"
      "restarted (hb_all_loop W ns w) = restarted w" "first_loop (hb_all_loop W ns w) = first_loop w"
      "tm_seq_id (hb_all_loop W ns w) = tm_seq_id w + of_nat (length (filter (\<lambda>n. n \<noteq> TASK0) ns))" by auto
    then show ?thesis using True by (intro exI [of _ seq]) auto
  next
    case False
    let ?x = "fst (send2task W n (hb_req n (tm_seq_id w)) w)"
    let ?w = "?x\<lparr>tm_seq_id := tm_seq_id ?x + 1\<rparr>"
    note s = send2task_spec [OF Cons.prems(1), of W n "hb_req n (tm_seq_id w)"]
    have q: "tm_seq_id ?x = tm_seq_id w" by (simp add: send2task_put put_task_def split: option.split)
    have st: "hb_all_loop W (n # ns) w = hb_all_loop W ns ?w"
      using False by (simp add: send2task_body_def hb_req_def case_prod_unfold Let_def)
    have "heart_ok ?w" using s(1) by simp
    from Cons.IH [OF this] Cons.prems(2) obtain seq where
      h: "heart_ok (hb_all_loop W ns ?w)" "map_of (task_map (hb_all_loop W ns ?w)) =
        (\<lambda>n. if n \<in> set ns \<and> n \<noteq> TASK0 then map_option (in_queue (hb_req n (seq n))) (map_of (task_map ?w) n) else map_of (task_map ?w) n)"
      "restarted (hb_all_loop W ns ?w) = restarted ?w" "first_loop (hb_all_loop W ns ?w) = first_loop ?w"
      "tm_seq_id (hb_all_loop W ns ?w) = tm_seq_id ?w + of_nat (length (filter (\<lambda>n. n \<noteq> TASK0) ns))" by auto
    have "n \<notin> set ns" using Cons.prems(2) by simp
    then have "map_of (task_map (hb_all_loop W ns ?w)) = (\<lambda>j. if j \<in> set (n # ns) \<and> j \<noteq> TASK0
        then map_option (in_queue (hb_req j ((seq(n := tm_seq_id w)) j))) (map_of (task_map w) j) else map_of (task_map w) j)"
      unfolding h(2) using s(2) False by (intro ext) auto
    then show ?thesis unfolding st using h(1,3,4,5) s(3,4) q False
      by (intro exI [of _ "seq(n := tm_seq_id w)"]) (simp add: add.assoc)
  qed
qed simp

lemma cleared_hb_map: "map_ok tasks \<Longrightarrow> cleared_hb_map tasks = map (\<lambda>x. (fst x, False)) tasks"
proof -
  have f: "map_ok m \<Longrightarrow> map_ok (fold (\<lambda>x m. map_insert (fst x) False m) ts m) \<and>
      map_of (fold (\<lambda>x m. map_insert (fst x) False m) ts m) =
        (\<lambda>k. case map_of m k of Some b \<Rightarrow> Some b | None \<Rightarrow> if k \<in> fst ` set ts then Some False else None)" for ts :: "(bytes \<times> 'b) list" and m
    by (induction ts arbitrary: m) (auto split: option.splits intro!: ext)
  assume ok: "map_ok tasks"
  have ok': "map_ok (map (\<lambda>x. (fst x, False)) tasks)" using ok by (simp add: map_ok_def comp_def)
  have "map_of (map (\<lambda>x. (fst x, False)) tasks) = (\<lambda>k. if k \<in> fst ` set tasks then Some False else None)"
    by (induction tasks) auto
  then show ?thesis
    using map_ok_unique [OF _ ok'] f [of "[]" tasks] by (simp add: cleared_hb_map_def)
qed

definition silent :: "(bytes \<times> bool) list \<Rightarrow> bytes list" where
  "silent hbs = map fst (filter (\<lambda>x. fst x \<noteq> TASK0 \<and> \<not> snd x) hbs)"

lemma check_hb_known:
  "set (silent hbs) \<subseteq> dom (map_of tasks) \<Longrightarrow> check_hb tasks hbs r = (r @ silent hbs, True)"
  by (induction tasks hbs r rule: check_hb.induct) (auto simp: silent_def split: option.splits if_splits)

lemma check_hb_unknown:
  "set (silent hbs) - dom (map_of tasks) \<noteq> {} \<Longrightarrow> \<not> snd (check_hb tasks hbs r)"
  by (induction tasks hbs r rule: check_hb.induct) (auto simp: silent_def split: option.splits if_splits)

lemma put_manager_task: "put_manager mp t w = put_task TASK0 (t\<lparr>part := Manager mp\<rparr>) w"
  by (simp add: put_manager_def put_task_def)

text \<open>The whole beat.\<close>

lemma hb_callback_spec:
  assumes ok: "heart_ok w" and nf: "\<not> first_loop w"
    and m: "map_of (task_map w) TASK0 = Some t" "part t = Manager mp"
    and known: "set (silent (hb_map mp)) \<subseteq> dom (map_of (task_map w))"
  shows "\<exists>w' seq. hb_callback W w = Some w' \<and> heart_ok w' \<and> \<not> first_loop w' \<and> restarted w' = restarted w @ silent (hb_map mp) \<and>
    map_of (task_map w') = (\<lambda>n. if n = TASK0 then Some (t\<lparr>part := Manager (mp\<lparr>hb_map := map (\<lambda>x. (fst x, False)) (task_map w)\<rparr>)\<rparr>)
      else map_option (in_queue (hb_req n (seq n))) (map_of (task_map w) n))"
proof -
  have mok: "map_ok (task_map w)" using ok by (auto simp: heart_ok_def)
  let ?t = "t\<lparr>part := Manager (mp\<lparr>hb_map := map (\<lambda>x. (fst x, False)) (task_map w)\<rparr>)\<rparr>"
  let ?w = "put_task TASK0 ?t (w\<lparr>restarted := restarted w @ silent (hb_map mp)\<rparr>)"
  have cb: "hb_callback W w = Some (send_hb_all W ?w)"
    using nf m check_hb_known [OF known, of "restarted w"] by (simp add: hb_callback_def cleared_hb_map [OF mok] put_manager_task)
  have f: "fits TASK0 ?t" using heart_ok_fits [OF ok m(1)] mok by (simp add: fits_def map_ok_def comp_def)
  note p = put_task_ok [OF _ f, of "w\<lparr>restarted := restarted w @ silent (hb_map mp)\<rparr>"]
  have ok': "heart_ok ?w" using p(1) ok by simp
  have ks: "map fst (task_map ?w) = map fst (task_map w)"
    using map_put_keys [OF mok, of TASK0] m(1) by (simp add: put_task_def)
  have d: "distinct (map fst (task_map ?w))" unfolding ks using mok by (rule map_ok_distinct)
  from hb_all_loop_spec [OF ok' this, of W] obtain seq where
    h: "heart_ok (send_hb_all W ?w)" "map_of (task_map (send_hb_all W ?w)) =
      (\<lambda>n. if n \<in> set (map fst (task_map w)) \<and> n \<noteq> TASK0 then map_option (in_queue (hb_req n (seq n))) (map_of (task_map ?w) n) else map_of (task_map ?w) n)"
    "restarted (send_hb_all W ?w) = restarted ?w" "first_loop (send_hb_all W ?w) = first_loop ?w"
    unfolding send_hb_all_def ks by blast
  have "map_of (task_map w) n = None" if "n \<notin> fst ` set (task_map w)" for n
    using that by (simp add: map_of_eq_None_iff)
  then have "map_of (task_map (send_hb_all W ?w)) = (\<lambda>n. if n = TASK0 then Some ?t
      else map_option (in_queue (hb_req n (seq n))) (map_of (task_map w) n))"
    unfolding h(2) using p(2) ok by (intro ext) auto
  then show ?thesis using cb h(1,3,4) p(3,4) ok nf by auto
qed

section \<open>Answers\<close>

definition hb_rsp :: "bytes \<Rightarrow> TASK_MSG \<Rightarrow> TASK_MSG" where
  "hb_rsp n m = m\<lparr>body := Name n, msg_type := TASK_HB_RSP\<rparr>"

definition requests_only :: "TASK_MSG list \<Rightarrow> bool" where
  "requests_only ms \<longleftrightarrow> (\<forall>m \<in> set ms. msg_type m = TASK_HB_REQ)"

declare process_loop.simps [code]

text \<open>A worker whose queue holds heartbeat requests sends an answer for each to \<open>task0\<close>.\<close>

lemma answer_loop:
  assumes "n \<noteq> TASK0"
  shows "heart_ok w \<Longrightarrow> map_of (task_map w) n = Some t \<Longrightarrow> requests_only (tmp_task_queue t) \<Longrightarrow>
    map_of (task_map w) TASK0 = Some t0 \<Longrightarrow>
    \<exists>w'. process_loop H W n w = Some w' \<and> heart_ok w' \<and> restarted w' = restarted w \<and> first_loop w' = first_loop w \<and>
      map_of (task_map w') = (map_of (task_map w))(n \<mapsto> t\<lparr>tmp_task_queue := []\<rparr>,
        TASK0 \<mapsto> t0\<lparr>task_queue := task_queue t0 @ map (hb_rsp n) (tmp_task_queue t)\<rparr>)"
proof (induction "tmp_task_queue t" arbitrary: t t0 w)
  case Nil
  have "t\<lparr>tmp_task_queue := []\<rparr> = t" "t0\<lparr>task_queue := task_queue t0\<rparr> = t0" using Nil.hyps by simp_all
  then show ?case using Nil.prems Nil.hyps [symmetric]
    by (subst process_loop.simps) (simp add: fun_upd_idem)
next
  case (Cons m ms)
  have q: "tmp_task_queue t = m # ms" using Cons.hyps(2) by simp
  have ty: "msg_type m = TASK_HB_REQ" using Cons.prems(3) q by (simp add: requests_only_def)
  have nm: "task_name t = n" using heart_ok_fits [OF Cons.prems(1,2)] by (simp add: fits_def)
  let ?t = "pop_message t"
  have "fits n ?t" using heart_ok_fits [OF Cons.prems(1,2)] by (simp add: fits_def)
  note p = put_task_ok [OF Cons.prems(1) this]
  let ?w = "fst (send2task W TASK0 (hb_rsp n m) (put_task n ?t w))"
  note s = send2task_spec [OF p(1), of W TASK0 "hb_rsp n m"]
  have fr: "process_front H W n t m w = Some ?w"
    using ty nm assms by (simp add: process_front_def hb_rsp_def)
  have m1: "map_of (task_map ?w) n = Some ?t" using s(2) p(2) assms by simp
  have m2: "map_of (task_map ?w) TASK0 = Some (in_queue (hb_rsp n m) t0)" using s(2) p(2) assms Cons.prems(4) by simp
  have q': "tmp_task_queue ?t = ms" using q by (simp add: pop_message_def)
  have "requests_only (tmp_task_queue ?t)" using Cons.prems(3) q q' by (simp add: requests_only_def)
  from Cons.hyps(1) [OF q' [symmetric] s(1) m1 this m2] obtain w' where
    w': "process_loop H W n ?w = Some w'" "heart_ok w'" "restarted w' = restarted w" "first_loop w' = first_loop w"
      "map_of (task_map w') = (map_of (task_map ?w))(n \<mapsto> ?t\<lparr>tmp_task_queue := []\<rparr>,
        TASK0 \<mapsto> (in_queue (hb_rsp n m) t0)\<lparr>task_queue := task_queue (in_queue (hb_rsp n m) t0) @ map (hb_rsp n) (tmp_task_queue ?t)\<rparr>)"
    using s(3,4) p(3,4) by auto
  have "process_loop H W n w = Some w'" using Cons.prems(2) q fr w'(1) by (subst process_loop.simps) simp
  moreover have "map_of (task_map w') = (map_of (task_map w))(n \<mapsto> t\<lparr>tmp_task_queue := []\<rparr>,
        TASK0 \<mapsto> t0\<lparr>task_queue := task_queue t0 @ map (hb_rsp n) (tmp_task_queue t)\<rparr>)"
    unfolding w'(5) s(2) p(2) using q q' assms by (intro ext) (simp add: pop_message_def in_queue_def)
  ultimately show ?case using w'(2-4) by blast
qed

lemma worker_answers:
  assumes "n \<noteq> TASK0" "heart_ok w" "map_of (task_map w) n = Some t" "requests_only (task_queue t)" "tmp_task_queue t = []"
    "map_of (task_map w) TASK0 = Some t0"
  shows "\<exists>w'. process_msg H W n w = Some w' \<and> heart_ok w' \<and> restarted w' = restarted w \<and> first_loop w' = first_loop w \<and>
      map_of (task_map w') = (map_of (task_map w))(n \<mapsto> t\<lparr>task_queue := []\<rparr>,
        TASK0 \<mapsto> t0\<lparr>task_queue := task_queue t0 @ map (hb_rsp n) (task_queue t)\<rparr>)"
proof -
  let ?t = "swap_queues t"
  have "fits n ?t" using heart_ok_fits [OF assms(2,3)] by (simp add: fits_def)
  note p = put_task_ok [OF assms(2) this]
  have "map_of (task_map (put_task n ?t w)) n = Some ?t" "map_of (task_map (put_task n ?t w)) TASK0 = Some t0"
      "requests_only (tmp_task_queue ?t)"
    using p(2) assms by (simp_all add: swap_queues_def)
  from answer_loop [OF assms(1) p(1) this(1,3,2)] obtain w' where
    "process_loop H W n (put_task n ?t w) = Some w'" "heart_ok w'" "restarted w' = restarted w" "first_loop w' = first_loop w"
      "map_of (task_map w') = (map_of (task_map (put_task n ?t w)))(n \<mapsto> ?t\<lparr>tmp_task_queue := []\<rparr>,
        TASK0 \<mapsto> t0\<lparr>task_queue := task_queue t0 @ map (hb_rsp n) (tmp_task_queue ?t)\<rparr>)"
    using p(3,4) by auto
  moreover have "?t\<lparr>tmp_task_queue := []\<rparr> = t\<lparr>task_queue := []\<rparr>" "tmp_task_queue ?t = task_queue t"
    using assms(5) by (simp_all add: swap_queues_def)
  ultimately show ?thesis using p(2) assms(3) by (auto simp: process_msg_def)
qed

text \<open>\<open>task0\<close> notes the answers.\<close>

definition answers_only :: "TASK_MSG list \<Rightarrow> bool" where
  "answers_only ms \<longleftrightarrow> (\<forall>m \<in> set ms. msg_type m = TASK_HB_RSP \<and> (\<exists>n. body m = Name n))"

definition senders :: "TASK_MSG list \<Rightarrow> bytes list" where
  "senders ms = map (\<lambda>m. case body m of Name n \<Rightarrow> n | _ \<Rightarrow> []) ms"

lemma collect_loop:
  "heart_ok w \<Longrightarrow> map_of (task_map w) TASK0 = Some t \<Longrightarrow> part t = Manager mp \<Longrightarrow> answers_only (tmp_task_queue t) \<Longrightarrow>
    \<exists>w' h. process_loop H W TASK0 w = Some w' \<and> heart_ok w' \<and> restarted w' = restarted w \<and> first_loop w' = first_loop w \<and>
      map_of (task_map w') = (map_of (task_map w))(TASK0 \<mapsto> t\<lparr>tmp_task_queue := [], part := Manager (mp\<lparr>hb_map := h\<rparr>)\<rparr>) \<and>
      map_of h = (\<lambda>n. if n \<in> set (senders (tmp_task_queue t)) then Some True else map_of (hb_map mp) n)"
proof (induction "tmp_task_queue t" arbitrary: t mp w)
  case Nil
  have "t\<lparr>tmp_task_queue := [], part := Manager (mp\<lparr>hb_map := hb_map mp\<rparr>)\<rparr> = t" using Nil.hyps Nil.prems(3) by simp
  then have "(map_of (task_map w))(TASK0 \<mapsto> t\<lparr>tmp_task_queue := [], part := Manager (mp\<lparr>hb_map := hb_map mp\<rparr>)\<rparr>) = map_of (task_map w)"
    using Nil.prems(2) by (simp add: fun_upd_idem)
  then show ?case using Nil.prems Nil.hyps [symmetric]
    by (subst process_loop.simps) (auto simp: senders_def intro!: exI [of _ "hb_map mp"])
next
  case (Cons m ms)
  have q: "tmp_task_queue t = m # ms" using Cons.hyps(2) by simp
  obtain n where m: "msg_type m = TASK_HB_RSP" "body m = Name n" using Cons.prems(4) q by (auto simp: answers_only_def)
  have ok: "map_ok (hb_map mp)" using heart_ok_fits [OF Cons.prems(1,2)] Cons.prems(3) by (auto simp: fits_def)
  let ?mp = "mp\<lparr>hb_map := map_put n True (hb_map mp)\<rparr>"
  let ?t = "pop_message (t\<lparr>part := Manager ?mp\<rparr>)"
  have "fits TASK0 ?t" using heart_ok_fits [OF Cons.prems(1,2)] ok by (simp add: fits_def)
  note p = put_task_ok [OF Cons.prems(1) this]
  have fr: "process_front H W TASK0 t m w = Some (put_task TASK0 ?t w)"
    using m Cons.prems(3) by (simp add: process_front_def on_message_def manager_on_message_def any_name_def)
  have q': "tmp_task_queue ?t = ms" using q by (simp add: pop_message_def)
  have "answers_only (tmp_task_queue ?t)" using Cons.prems(4) q q' by (simp add: answers_only_def)
  moreover have "map_of (task_map (put_task TASK0 ?t w)) TASK0 = Some ?t" using p(2) by simp
  moreover have "part ?t = Manager ?mp" by simp
  note step = Cons.hyps(1) [OF q' [symmetric] p(1) calculation(2) this calculation(1)]
  from step obtain w' h where
    w': "process_loop H W TASK0 (put_task TASK0 ?t w) = Some w'" "heart_ok w'" "restarted w' = restarted w" "first_loop w' = first_loop w"
      "map_of (task_map w') = (map_of (task_map (put_task TASK0 ?t w)))(TASK0 \<mapsto> ?t\<lparr>tmp_task_queue := [], part := Manager (?mp\<lparr>hb_map := h\<rparr>)\<rparr>)"
      "map_of h = (\<lambda>j. if j \<in> set (senders (tmp_task_queue ?t)) then Some True else map_of (hb_map ?mp) j)"
    unfolding p(3,4) by blast
  have "process_loop H W TASK0 w = Some w'" using Cons.prems(2) q fr w'(1) by (subst process_loop.simps) simp
  moreover have "map_of h = (\<lambda>j. if j \<in> set (senders (tmp_task_queue t)) then Some True else map_of (hb_map mp) j)"
    unfolding w'(6) using q q' m ok by (intro ext) (simp add: senders_def)
  moreover have "map_of (task_map w') = (map_of (task_map w))(TASK0 \<mapsto> t\<lparr>tmp_task_queue := [], part := Manager (mp\<lparr>hb_map := h\<rparr>)\<rparr>)"
    unfolding w'(5) p(2) by (simp add: pop_message_def)
  ultimately show ?case using w'(2-4) by blast
qed

lemma manager_collects:
  assumes "heart_ok w" "map_of (task_map w) TASK0 = Some t" "part t = Manager mp" "answers_only (task_queue t)" "tmp_task_queue t = []"
  shows "\<exists>w' h. process_msg H W TASK0 w = Some w' \<and> heart_ok w' \<and> restarted w' = restarted w \<and> first_loop w' = first_loop w \<and>
      map_of (task_map w') = (map_of (task_map w))(TASK0 \<mapsto> t\<lparr>task_queue := [], part := Manager (mp\<lparr>hb_map := h\<rparr>)\<rparr>) \<and>
      map_of h = (\<lambda>n. if n \<in> set (senders (task_queue t)) then Some True else map_of (hb_map mp) n)"
proof -
  let ?t = "swap_queues t"
  have "fits TASK0 ?t" using heart_ok_fits [OF assms(1,2)] by (simp add: fits_def)
  note p = put_task_ok [OF assms(1) this]
  have "map_of (task_map (put_task TASK0 ?t w)) TASK0 = Some ?t" "part ?t = Manager mp" "answers_only (tmp_task_queue ?t)"
    using p(2) assms by (simp_all add: swap_queues_def)
  from collect_loop [OF p(1) this, of H W] obtain w' h where
    "process_loop H W TASK0 (put_task TASK0 ?t w) = Some w'" "heart_ok w'" "restarted w' = restarted w" "first_loop w' = first_loop w"
      "map_of (task_map w') = (map_of (task_map (put_task TASK0 ?t w)))(TASK0 \<mapsto> ?t\<lparr>tmp_task_queue := [], part := Manager (mp\<lparr>hb_map := h\<rparr>)\<rparr>)"
      "map_of h = (\<lambda>n. if n \<in> set (senders (tmp_task_queue ?t)) then Some True else map_of (hb_map mp) n)"
    using p(3,4) by auto
  moreover have "?t\<lparr>tmp_task_queue := []\<rparr> = t\<lparr>task_queue := []\<rparr>" "tmp_task_queue ?t = task_queue t"
    using assms(5) by (simp_all add: swap_queues_def)
  moreover from calculation(5) have "map_of (task_map w') =
      (map_of (task_map w))(TASK0 \<mapsto> t\<lparr>task_queue := [], part := Manager (mp\<lparr>hb_map := h\<rparr>)\<rparr>)"
    unfolding p(2) using assms(5) by (cases t) (simp add: swap_queues_def)
  moreover have "process_msg H W TASK0 w = process_loop H W TASK0 (put_task TASK0 ?t w)"
    using assms(2) by (simp add: process_msg_def)
  ultimately show ?thesis by (intro exI [of _ w'] exI [of _ h]) simp
qed

end
