(* ===== verification/Task_Theorems.thy ===== *)
theory Task_Theorems
  imports Task_Heartbeat
begin

text \<open>The properties of the task manager's heartbeat.\<close>

section \<open>A round of the tasks\<close>

fun run_tasks :: "'w handler_fn \<Rightarrow> 'e fd_write \<Rightarrow> bytes list \<Rightarrow> ('w, 'e) task_manager \<Rightarrow> ('w, 'e) task_manager option" where
  "run_tasks H W [] w = Some w"
| "run_tasks H W (n # ns) w = do { w \<leftarrow> process_msg H W n w; run_tasks H W ns w }"

definition names :: "('w, 'e) task_manager \<Rightarrow> bytes list" where
  "names w = map fst (task_map w)"

lemma set_names: "set (names w) = dom (map_of (task_map w))"
  by (simp add: names_def dom_map_of_conv_image_fst)

lemma names_unique:
  assumes "map_ok m" "map_ok (task_map w)" "dom (map_of m) = dom (map_of (task_map w))"
  shows "map fst m = names w"
  using assms unfolding names_def map_ok_def
  by (intro strict_sorted_equal) (auto simp: dom_map_of_conv_image_fst)

definition requested :: "('w, 'e) task_manager \<Rightarrow> bytes \<Rightarrow> bool" where
  "requested w n \<longleftrightarrow> (\<exists>t. map_of (task_map w) n = Some t \<and> requests_only (task_queue t) \<and> tmp_task_queue t = [])"

lemma senders_answers: "set (senders (map (hb_rsp n) ms)) = (if ms = [] then {} else {n})" "answers_only (map (hb_rsp n) ms)"
  by (cases ms) (auto simp: senders_def hb_rsp_def answers_only_def comp_def)

lemma run_tasks_spec:
  "heart_ok w \<Longrightarrow> \<forall>n \<in> set ns. n \<noteq> TASK0 \<and> requested w n \<Longrightarrow> map_of (task_map w) TASK0 = Some t0 \<Longrightarrow>
    \<exists>w' rs. run_tasks H W ns w = Some w' \<and> heart_ok w' \<and> restarted w' = restarted w \<and> first_loop w' = first_loop w \<and>
      dom (map_of (task_map w')) = dom (map_of (task_map w)) \<and>
      map_of (task_map w') TASK0 = Some (t0\<lparr>task_queue := task_queue t0 @ rs\<rparr>) \<and> answers_only rs \<and>
      set (senders rs) = {n \<in> set ns. \<exists>t. map_of (task_map w) n = Some t \<and> task_queue t \<noteq> []}"
proof (induction ns arbitrary: w t0)
  case Nil
  then show ?case by (auto simp: senders_def answers_only_def intro!: exI [of _ "[]"])
next
  case (Cons n ns)
  have n0: "n \<noteq> TASK0" using Cons.prems(2) by simp
  obtain t where t: "map_of (task_map w) n = Some t" "requests_only (task_queue t)" "tmp_task_queue t = []"
    using Cons.prems(2) by (auto simp: requested_def)
  let ?t0 = "t0\<lparr>task_queue := task_queue t0 @ map (hb_rsp n) (task_queue t)\<rparr>"
  from worker_answers [OF n0 Cons.prems(1) t Cons.prems(3), of H W] obtain u where
    u: "process_msg H W n w = Some u" "heart_ok u" "restarted u = restarted w" "first_loop u = first_loop w"
      "map_of (task_map u) = (map_of (task_map w))(n \<mapsto> t\<lparr>task_queue := []\<rparr>, TASK0 \<mapsto> ?t0)" by blast
  have "\<forall>k \<in> set ns. k \<noteq> TASK0 \<and> requested u k"
  proof
    fix k assume "k \<in> set ns"
    then have "k \<noteq> TASK0" "requested w k" using Cons.prems(2) by simp_all
    then show "k \<noteq> TASK0 \<and> requested u k" using u(5) t(3) by (auto simp: requested_def requests_only_def)
  qed
  moreover have "map_of (task_map u) TASK0 = Some ?t0" using u(5) by simp
  ultimately obtain w' rs where
    w': "run_tasks H W ns u = Some w'" "heart_ok w'" "restarted w' = restarted w" "first_loop w' = first_loop w"
      "dom (map_of (task_map w')) = dom (map_of (task_map u))"
      "map_of (task_map w') TASK0 = Some (?t0\<lparr>task_queue := task_queue ?t0 @ rs\<rparr>)" "answers_only rs"
      "set (senders rs) = {n \<in> set ns. \<exists>t. map_of (task_map u) n = Some t \<and> task_queue t \<noteq> []}"
    using Cons.IH [OF u(2), of ?t0] u(3,4) by auto
  let ?rs = "map (hb_rsp n) (task_queue t) @ rs"
  have "answers_only ?rs" using w'(7) senders_answers(2) by (auto simp: answers_only_def)
  moreover have "set (senders ?rs) = {k \<in> set (n # ns). \<exists>t. map_of (task_map w) k = Some t \<and> task_queue t \<noteq> []}"
  proof -
    have "set (senders ?rs) = (if task_queue t = [] then {} else {n}) \<union> set (senders rs)"
      using senders_answers(1) [of n "task_queue t"] by (simp add: senders_def)
    moreover have "set (senders rs) = {k \<in> set ns. k \<noteq> n \<and> (\<exists>t. map_of (task_map w) k = Some t \<and> task_queue t \<noteq> [])}"
    proof -
      have "(\<exists>t. map_of (task_map u) k = Some t \<and> task_queue t \<noteq> []) \<longleftrightarrow>
          k \<noteq> n \<and> (\<exists>t. map_of (task_map w) k = Some t \<and> task_queue t \<noteq> [])" if "k \<in> set ns" for k
        using that Cons.prems(2) u(5) n0 by (cases "k = n") auto
      then show ?thesis unfolding w'(8) by blast
    qed
    ultimately show ?thesis using t(1) by auto
  qed
  moreover have "dom (map_of (task_map w')) = dom (map_of (task_map w))" using w'(5) u(5) t(1) Cons.prems(3) by auto
  moreover have "map_of (task_map w') TASK0 = Some (t0\<lparr>task_queue := task_queue t0 @ ?rs\<rparr>)" using w'(6) by simp
  moreover have "run_tasks H W (n # ns) w = Some w'" using u(1) w'(1) by simp
  ultimately show ?case using w'(2-4) by blast
qed

lemma silent_filter: "map_ok h \<Longrightarrow> silent h = filter (\<lambda>n. n \<noteq> TASK0 \<and> map_of h n = Some False) (map fst h)"
proof -
  assume "map_ok h"
  then have d: "distinct (map fst h)" by (rule map_ok_distinct)
  have "x \<in> set h \<Longrightarrow> map_of h (fst x) = Some (snd x)" for x using d by (metis map_of_is_SomeI prod.collapse)
  then have "filter (\<lambda>x. fst x \<noteq> TASK0 \<and> \<not> snd x) h = filter (\<lambda>x. fst x \<noteq> TASK0 \<and> map_of h (fst x) = Some False) h"
    by (intro filter_cong) auto
  then show ?thesis by (simp add: silent_def filter_map comp_def)
qed

text \<open>All queues are empty.\<close>

definition at_rest :: "('w, 'e) task_manager \<Rightarrow> bool" where
  "at_rest w \<longleftrightarrow> (\<forall>n t. map_of (task_map w) n = Some t \<longrightarrow> task_queue t = [] \<and> tmp_task_queue t = [])"

text \<open>Every task that the manager waits for is still there.\<close>

definition all_known :: "('w, 'e) task_manager \<Rightarrow> bool" where
  "all_known w \<longleftrightarrow> (\<forall>t mp. map_of (task_map w) TASK0 = Some t \<longrightarrow> part t = Manager mp \<longrightarrow>
     set (silent (hb_map mp)) \<subseteq> dom (map_of (task_map w)))"

text \<open>A manager with two workers, for the witnesses.\<close>

definition demo_env :: "task_timer timer_env" where
  "demo_env = \<lparr>event_new_ok = True, event_add_ok = True, run_user = (\<lambda>f t. t), run_CB = (\<lambda>_ _ _. 0)\<rparr>"

definition demo :: "(bytes \<times> bool) list \<Rightarrow> (unit, unit) task_manager" where
  "demo h = \<lparr>task_map = [(WORKER001, new_task demo_env WORKER001 (Worker ())),
       (TASK0, (manager_task demo_env)\<lparr>part := Manager \<lparr>hb_map = h, hb_tid = 0\<rparr>\<rparr>),
       (''worker2'', new_task demo_env ''worker2'' (Worker ()))],
     tm_hb_itval = 5000, tm_seq_id = 0, fds = (), first_loop = False, restarted = []\<rparr>"

lemma demo_order: "WORKER001 < TASK0" "TASK0 < ''worker2''" "WORKER001 < ''worker2''"
  unfolding WORKER001_def TASK0_def by code_simp+

lemma demo_names: "WORKER001 \<noteq> TASK0" "TASK0 \<noteq> ''worker2''" "WORKER001 \<noteq> ''worker2''" "names (demo h) = [WORKER001, TASK0, ''worker2'']"
  by (simp_all add: WORKER001_def TASK0_def names_def demo_def)

lemma demo_ok: "map_ok h \<Longrightarrow> heart_ok (demo h)" "at_rest (demo h)" "\<not> first_loop (demo h)"
  using demo_order demo_names
  by (auto simp: heart_ok_def map_ok_def demo_def manager_task_def new_task_def at_rest_def split: if_splits)

lemma demo_manager: "map_of (task_map (demo h)) TASK0 = Some ((manager_task demo_env)\<lparr>part := Manager \<lparr>hb_map = h, hb_tid = 0\<rparr>\<rparr>)"
  using demo_names by (simp add: demo_def)

lemma demo_known: "set (map fst h) \<subseteq> {WORKER001, TASK0, ''worker2''} \<Longrightarrow> all_known (demo h)"
  using demo_names(4) [of h] unfolding all_known_def demo_manager
  by (auto simp: silent_def set_names [symmetric])

section \<open>Properties\<close>

text \<open>
  A beat of the heartbeat asks for the restart of exactly the tasks that have not answered since
  the beat before, in the order of their names and never of \<open>task0\<close> itself; it then expects an answer
  of every task, and queues one heartbeat request to each other task.
\<close>

theorem beat_restarts_silent:
  assumes "heart_ok w" and "\<not> first_loop w" and "all_known w"
    and "map_of (task_map w) TASK0 = Some t" and "part t = Manager mp"
  shows "\<exists>w' seq. hb_callback W w = Some w' \<and> heart_ok w' \<and>
    restarted w' = restarted w @ filter (\<lambda>n. n \<noteq> TASK0 \<and> map_of (hb_map mp) n = Some False) (map fst (hb_map mp)) \<and>
    map_of (task_map w') TASK0 = Some (t\<lparr>part := Manager (mp\<lparr>hb_map := map (\<lambda>n. (n, False)) (names w)\<rparr>)\<rparr>) \<and>
    (\<forall>n. n \<noteq> TASK0 \<longrightarrow> map_of (task_map w') n = map_option (in_queue (hb_req n (seq n))) (map_of (task_map w) n))"
proof -
  have k: "set (silent (hb_map mp)) \<subseteq> dom (map_of (task_map w))" using assms(3-5) by (simp add: all_known_def)
  have "map_ok (hb_map mp)" using assms(1,4,5) by (auto simp: heart_ok_def)
  then show ?thesis
    using hb_callback_spec [OF assms(1,2,4,5) k, of W] by (auto simp: silent_filter names_def comp_def)
qed

theorem beat_restarts_silent_witness:
  "\<exists>w'. hb_callback (\<lambda>_ e. (e, True)) (demo [(WORKER001, False), (TASK0, False), (''worker2'', True)]) = Some w' \<and>
     restarted w' = [WORKER001]"
proof -
  let ?h = "[(WORKER001, False), (TASK0, False), (''worker2'', True)]"
  have h: "map_ok ?h" using demo_order by (simp add: map_ok_def)
  have "all_known (demo ?h)" by (rule demo_known) simp
  moreover have "restarted (demo ?h) = []" by (simp add: demo_def)
  ultimately show ?thesis
    using beat_restarts_silent [OF demo_ok(1) [OF h] demo_ok(3) _ demo_manager, where W = "\<lambda>_ e. (e, True)"] demo_names by auto
qed

text \<open>A beat and the tasks' round after it: the answers of those that ran are in the manager's queue.\<close>

lemma beat_then_round:
  assumes "heart_ok w" and "\<not> first_loop w" and "all_known w" and "at_rest w" and "set ns \<subseteq> set (names w) - {TASK0}"
    and t: "map_of (task_map w) TASK0 = Some t" "part t = Manager mp"
  shows "\<exists>w1 w2 rs. hb_callback W w = Some w1 \<and> run_tasks H W ns w1 = Some w2 \<and> heart_ok w2 \<and> restarted w2 = restarted w1 \<and>
    \<not> first_loop w2 \<and> dom (map_of (task_map w2)) = dom (map_of (task_map w)) \<and> answers_only rs \<and> set (senders rs) = set ns \<and>
    map_of (task_map w2) TASK0 = Some (t\<lparr>part := Manager (mp\<lparr>hb_map := map (\<lambda>x. (fst x, False)) (task_map w)\<rparr>), task_queue := rs\<rparr>)"
proof -
  have k: "set (silent (hb_map mp)) \<subseteq> dom (map_of (task_map w))" using assms(3) t by (simp add: all_known_def)
  let ?h1 = "map (\<lambda>x. (fst x, False)) (task_map w)"
  from hb_callback_spec [OF assms(1,2) t k, of W] obtain w1 seq where
    w1: "hb_callback W w = Some w1" "heart_ok w1" "\<not> first_loop w1"
      "map_of (task_map w1) = (\<lambda>n. if n = TASK0 then Some (t\<lparr>part := Manager (mp\<lparr>hb_map := ?h1\<rparr>)\<rparr>)
        else map_option (in_queue (hb_req n (seq n))) (map_of (task_map w) n))" by blast
  have d1: "dom (map_of (task_map w1)) = dom (map_of (task_map w))" using w1(4) t(1) by (auto split: if_splits)
  have q: "requested w1 n \<and> (\<exists>u. map_of (task_map w1) n = Some u \<and> task_queue u \<noteq> [])" "n \<noteq> TASK0" if "n \<in> set ns" for n
  proof -
    from that assms(5) show "n \<noteq> TASK0" by auto
    from that assms(5) obtain u where "map_of (task_map w) n = Some u" by (auto simp: set_names)
    with assms(4) w1(4) \<open>n \<noteq> TASK0\<close>
    show "requested w1 n \<and> (\<exists>u. map_of (task_map w1) n = Some u \<and> task_queue u \<noteq> [])"
      by (auto simp: requested_def at_rest_def in_queue_def requests_only_def hb_req_def)
  qed
  let ?t0 = "t\<lparr>part := Manager (mp\<lparr>hb_map := ?h1\<rparr>)\<rparr>"
  have m0: "map_of (task_map w1) TASK0 = Some ?t0" using w1(4) by simp
  have "\<forall>n \<in> set ns. n \<noteq> TASK0 \<and> requested w1 n" using q by blast
  from run_tasks_spec [OF w1(2) this m0, of H W] obtain w2 rs where
    w2: "run_tasks H W ns w1 = Some w2" "heart_ok w2" "restarted w2 = restarted w1" "first_loop w2 = first_loop w1"
      "dom (map_of (task_map w2)) = dom (map_of (task_map w1))"
      "map_of (task_map w2) TASK0 = Some (?t0\<lparr>task_queue := task_queue ?t0 @ rs\<rparr>)" "answers_only rs"
      "set (senders rs) = {n \<in> set ns. \<exists>t. map_of (task_map w1) n = Some t \<and> task_queue t \<noteq> []}" by blast
  have "set (senders rs) = set ns" using w2(8) q by auto
  moreover have "?t0\<lparr>task_queue := task_queue ?t0 @ rs\<rparr> = ?t0\<lparr>task_queue := rs\<rparr>"
    using assms(4) t(1) by (simp add: at_rest_def)
  ultimately show ?thesis using w1(1,3) w2(1-7) d1 by (intro exI [of _ w1] exI [of _ w2] exI [of _ rs]) simp
qed

text \<open>
  C9. The heartbeat tells the tasks that answer from those that do not: starting with empty queues,
  after a beat, a round in which some of the workers work off their queues (in any order, as often as
  they like), and one of \<open>task0\<close>, the next beat asks for the restart of exactly the workers that did
  not take part in the round.
\<close>

theorem heartbeat_detects_silence:
  assumes "heart_ok w" and "\<not> first_loop w" and "all_known w" and "at_rest w"
    and "set ns \<subseteq> set (names w) - {TASK0}"
  shows "\<exists>w1 w2 w3 w4. hb_callback W w = Some w1 \<and> run_tasks H W ns w1 = Some w2 \<and> process_msg H W TASK0 w2 = Some w3 \<and>
    hb_callback W w3 = Some w4 \<and> restarted w4 = restarted w1 @ filter (\<lambda>n. n \<noteq> TASK0 \<and> n \<notin> set ns) (names w)"
proof -
  obtain t mp where t: "map_of (task_map w) TASK0 = Some t" "part t = Manager mp" "map_ok (task_map w)"
    using assms(1) by (rule heart_okE)
  let ?h1 = "map (\<lambda>x. (fst x, False)) (task_map w)"
  let ?t2 = "\<lambda>rs. t\<lparr>part := Manager (mp\<lparr>hb_map := ?h1\<rparr>), task_queue := rs\<rparr>"
  from beat_then_round [OF assms t(1,2), of W H] obtain w1 w2 rs where
    w1: "hb_callback W w = Some w1" and
    w2: "run_tasks H W ns w1 = Some w2" "heart_ok w2" "restarted w2 = restarted w1" "\<not> first_loop w2"
      "dom (map_of (task_map w2)) = dom (map_of (task_map w))" "answers_only rs" "set (senders rs) = set ns"
      "map_of (task_map w2) TASK0 = Some (?t2 rs)" by blast
  have e: "task_queue (?t2 rs) = rs" "tmp_task_queue (?t2 rs) = []" "part (?t2 rs) = Manager (mp\<lparr>hb_map := ?h1\<rparr>)"
    using assms(4) t(1) by (simp_all add: at_rest_def)
  have "answers_only (task_queue (?t2 rs))" unfolding e(1) by (rule w2(6))
  from manager_collects [OF w2(2,8) e(3) this e(2), of H W] obtain w3 h where
    w3: "process_msg H W TASK0 w2 = Some w3" "heart_ok w3" "restarted w3 = restarted w1" "\<not> first_loop w3"
      "map_of (task_map w3) = (map_of (task_map w2))(TASK0 \<mapsto> (?t2 rs)\<lparr>task_queue := [], part := Manager (mp\<lparr>hb_map := h\<rparr>)\<rparr>)" and
    h: "map_of h = (\<lambda>n. if n \<in> set ns then Some True else map_of ?h1 n)"
    unfolding e(1) w2(7,3) using w2(4) by (auto cong: if_cong)
  let ?t3 = "(?t2 rs)\<lparr>task_queue := [], part := Manager (mp\<lparr>hb_map := h\<rparr>)\<rparr>"
  have h1: "map_of (map (\<lambda>x. (fst x, False)) m) n = (if n \<in> fst ` set m then Some False else None)" for m :: "(bytes \<times> 'c) list" and n
    by (induction m) auto
  have t3: "map_of (task_map w3) TASK0 = Some ?t3" "part ?t3 = Manager (mp\<lparr>hb_map := h\<rparr>)" using w3(5) by simp_all
  then have hok: "map_ok h" using heart_ok_fits [OF w3(2) t3(1)] by (auto simp: fits_def)
  have d3: "dom (map_of (task_map w3)) = dom (map_of (task_map w))" using w3(5) w2(5,8) by auto
  have dh: "dom (map_of h) = dom (map_of (task_map w))"
  proof -
    have "n \<in> dom (map_of h) \<longleftrightarrow> n \<in> set ns \<or> n \<in> fst ` set (task_map w)" for n
      by (cases "n \<in> set ns") (simp_all add: h domIff h1 ex_bool_eq)
    then show ?thesis using assms(5) by (auto simp: names_def dom_map_of_conv_image_fst)
  qed
  have sil: "silent h = filter (\<lambda>n. n \<noteq> TASK0 \<and> n \<notin> set ns) (names w)"
    unfolding silent_filter [OF hok] names_unique [OF hok t(3) dh] h
    by (intro filter_cong) (auto simp: h1 names_def)
  have k3: "set (silent (hb_map (mp\<lparr>hb_map := h\<rparr>))) \<subseteq> dom (map_of (task_map w3))"
    unfolding d3 by (simp add: sil set_names [symmetric])
  from hb_callback_spec [OF w3(2,4) t3 k3, of W] obtain w4 where
    "hb_callback W w3 = Some w4" "restarted w4 = restarted w3 @ silent (hb_map (mp\<lparr>hb_map := h\<rparr>))" by blast
  then show ?thesis using w1 w2(1) w3(1,3) by (simp add: sil)
qed


theorem heartbeat_detects_silence_witness:
  "\<exists>w1 w2 w3 w4. hb_callback (\<lambda>_ e. (e, True)) (demo []) = Some w1 \<and>
     run_tasks (\<lambda>_ _. None) (\<lambda>_ e. (e, True)) [''worker2'', ''worker2''] w1 = Some w2 \<and>
     process_msg (\<lambda>_ _. None) (\<lambda>_ e. (e, True)) TASK0 w2 = Some w3 \<and>
     hb_callback (\<lambda>_ e. (e, True)) w3 = Some w4 \<and> restarted w4 = restarted w1 @ [WORKER001]"
proof -
  have "all_known (demo [])" by (rule demo_known) simp
  moreover have "set [''worker2'', ''worker2''] \<subseteq> set (names (demo [])) - {TASK0}" using demo_names by auto
  ultimately show ?thesis
    using heartbeat_detects_silence [OF demo_ok(1) [OF map_ok_Nil] demo_ok(3) _ demo_ok(2),
        of "[''worker2'', ''worker2'']" "\<lambda>_ e. (e, True)" "\<lambda>_ _. None"] demo_names by auto
qed

section \<open>Defects\<close>

fun beats :: "nat \<Rightarrow> 'e fd_write \<Rightarrow> ('w, 'e) task_manager \<Rightarrow> ('w, 'e) task_manager option" where
  "beats 0 W w = Some w"
| "beats (Suc k) W w = do { w \<leftarrow> hb_callback W w; beats k W w }"



text \<open>
  The heartbeat period cannot be changed: the first timer of a task has number 0, which the
  manager's task takes for "no timer yet", so that after the initialisation setting another interval
  leaves the running timer, with the interval of the initialisation, as it is. The member of the task
  manager is not set either.
\<close>

theorem heartbeat_interval_fixed:
  assumes "event_new_ok env" and "event_add_ok env" and "map_ok (task_map w)" and "0 \<le> fst (mk TASK0)" and "snd (mk TASK0)"
    and "w' = tm_init env mk w"
  shows "\<exists>t tm w'' t''. map_of (task_map w') TASK0 = Some t \<and>
    timers (timer_mgr t) 0 = Some tm \<and> t_event tm \<noteq> Nullp \<and> t_handler tm = Some (User Task_heartbeat) \<and>
    t_interval tm = tm_hb_itval w \<and>
    tm_set_hb_interval env i w' = Some w'' \<and> map_of (task_map w'') TASK0 = Some t'' \<and>
    hb_itval t'' = i \<and> timer_mgr t'' = timer_mgr t \<and> tm_hb_itval w'' = tm_hb_itval w"
proof -
  let ?man = "manager_task env :: 'a a_task"
  let ?m = "map_put TASK0 ?man (task_map w)"
  let ?f = "\<lambda>(n, t). (n, if n = TASK0 then t else init_task env mk n t)"
  let ?g = "\<lambda>(n, t). (n, if n = TASK0 then init_task env mk n (task_set_hb_interval env (tm_hb_itval w) t) else t)"
  have keys: "map fst (map ?g (map ?f ?m)) = map fst ?m" by (simp add: comp_def case_prod_unfold)
  have ok: "map_ok ?m" using assms(3) by simp
  have nm: "task_name ?man = TASK0" by (simp add: manager_task_def new_task_def)
  have w': "task_map w' = map ?g (map ?f ?m)" "tm_hb_itval w' = tm_hb_itval w"
    unfolding assms(6) tm_init_def Let_def add_tasks_def nm by (simp_all cong: if_cong)
  have ok': "map_ok (task_map w')" using ok unfolding w' map_ok_def keys .
  have look: "map_of (map (\<lambda>(n, t). (n, h n t)) m) k = map_option (h k) (map_of m k)" for h :: "bytes \<Rightarrow> 'c \<Rightarrow> 'd" and m k
    by (induction m) auto
  let ?t = "init_task env mk TASK0 (task_set_hb_interval env (tm_hb_itval w) ?man)"
  have t: "map_of (task_map w') TASK0 = Some ?t"
  proof -
    have "map_of ?m TASK0 = Some ?man" using assms(3) by simp
    then show ?thesis unfolding w' look by simp
  qed
  have "part ?man = Manager \<lparr>hb_map = [], hb_tid = 0\<rparr>" by (simp add: manager_task_def new_task_def)
  then have s: "task_set_hb_interval env j ?man = ?man\<lparr>hb_itval := j\<rparr>" for j
    by (simp add: task_set_hb_interval_def)
  obtain tm where tm: "timers (timer_mgr ?t) 0 = Some tm" "t_event tm \<noteq> Nullp" "t_handler tm = Some (User Task_heartbeat)"
      "t_interval tm = tm_hb_itval w" "part ?t = Manager \<lparr>hb_map = [], hb_tid = 0\<rparr>"
    using assms(1,2,4,5) unfolding s
    by (simp add: init_task_def task_init_def on_before_loop_def start_hb_def manager_task_def new_task_def given_loop_manager_def
        manager_from_def getTimer_def getUniqueID_def with_timer_def release_def unref_def startForever_def startRounds_def new_timer_def Let_def)
  have s2: "task_set_hb_interval env i ?t = ?t\<lparr>hb_itval := i\<rparr>" using tm(5) by (simp add: task_set_hb_interval_def)
  have set: "tm_set_hb_interval env i w' = Some (w'\<lparr>task_map := map_put TASK0 (?t\<lparr>hb_itval := i\<rparr>) (task_map w')\<rparr>)"
    using t s2 by (simp add: tm_set_hb_interval_def)
  show ?thesis using t tm(1-4) set w'(2) map_of_put [OF ok', of TASK0 "?t\<lparr>hb_itval := i\<rparr>"]
    by (intro exI [of _ ?t] exI [of _ tm] exI [of _ "w'\<lparr>task_map := map_put TASK0 (?t\<lparr>hb_itval := i\<rparr>) (task_map w')\<rparr>"]
        exI [of _ "?t\<lparr>hb_itval := i\<rparr>"]) simp
qed

theorem heartbeat_interval_fixed_witness:
  "\<exists>t tm w'' t''. map_of (task_map (tm_init demo_env (\<lambda>_. (7, True)) (demo []))) TASK0 = Some t \<and>
    timers (timer_mgr t) 0 = Some tm \<and> t_interval tm = 5000 \<and>
    tm_set_hb_interval demo_env 100 (tm_init demo_env (\<lambda>_. (7, True)) (demo [])) = Some w'' \<and>
    map_of (task_map w'') TASK0 = Some t'' \<and> timer_mgr t'' = timer_mgr t"
proof -
  have "map_ok (task_map (demo []))" using demo_ok(1) [OF map_ok_Nil] by (auto simp: heart_ok_def)
  moreover have "tm_hb_itval (demo []) = 5000" by (simp add: demo_def)
  ultimately show ?thesis
    using heartbeat_interval_fixed [of demo_env "demo []" "\<lambda>_. (7, True)" "tm_init demo_env (\<lambda>_. (7, True)) (demo [])" 100]
    by (auto simp: demo_env_def)
qed

text \<open>Only the first task of the map is found by its connection.\<close>

lemma second_task_not_found:
  assumes "task_map w = (n, t) # (m, u) # ts" "detail_info t = Some d" "detail_info u = Some c" "c \<noteq> d"
  shows "get_task_ptr_p_with_detail_info c w = Some Nullp"
  using assms by (simp add: get_task_ptr_p_with_detail_info_def)

end
