(* ===== verification/Redis_Command.thy ===== *)
theory Redis_Command
  imports Messages Format_Theorems
begin

text \<open>
  The command builder of the redis adapter (include/adapter/redis/command.hpp), and its agreement
  with the formatter of the hiredis client.
\<close>

section \<open>Definitions\<close>

text \<open>The stream is the text written so far; \<open>dec_nat\<close> is how a stream writes a size.\<close>

fun format_loop :: "bytes \<Rightarrow> bytes list \<Rightarrow> bytes" where
  "format_loop buffer [] = buffer"
| "format_loop buffer (a # argv) =
     format_loop (buffer @ ''$'' @ dec_nat (length a) @ CRLF @ a @ CRLF) argv"

definition redis_formatCommand :: "bytes list \<Rightarrow> bytes" where
  "redis_formatCommand argv = format_loop (''*'' @ dec_nat (length argv) @ CRLF) argv"

text \<open>For keys and values that are strings, the only types the function is compiled for.\<close>

definition get_format_command :: "MSG_TYPE \<Rightarrow> bytes \<Rightarrow> bytes \<Rightarrow> bytes" where
  "get_format_command t key v =
     (case t of TASK_REDIS_PUT \<Rightarrow> redis_formatCommand [''SET'', key, v] | _ \<Rightarrow> [])"

section \<open>Agreement with the client\<close>

lemma format_loop_bulks: "format_loop buffer argv = buffer @ concat (map bulk argv)"
  by (induction argv arbitrary: buffer) (simp_all add: bulk_def)

lemma redis_formatCommand_command: "redis_formatCommand argv = command argv"
  by (simp add: redis_formatCommand_def format_loop_bulks command_def)

lemma put_command: "get_format_command TASK_REDIS_PUT key v = command [''SET'', key, v]"
  by (simp add: get_format_command_def redis_formatCommand_command)

text \<open>
  C31. The command built by the adapter is, byte for byte and with its length, the one that hiredis
  formats for the same arguments, and a reader that is fed with it gives back the array of these
  arguments. So whatever bytes a key or a value holds, \<open>put\<close> sends the command \<open>SET\<close> for them.
\<close>

theorem adapter_command_read_back:
  assumes "\<forall>n. grant A n" and "argv_denotes argv argvlen ts" and "length (redis_formatCommand ts) < 2 ^ 31 - 1"
    and "heap_ready h" and "\<forall>b \<ge> nxt h. objs h b = None"
  shows "\<exists>r r1 r2. redisFormatCommandArgv A True (int (length argv)) argv argvlen =
      Some (Ptr (redis_formatCommand ts @ [NUL]), int (length (redis_formatCommand ts))) \<and>
    redisReaderCreate A h = Some (Ptr r) \<and>
    redisReaderFeed A r (Ptr (redis_formatCommand ts)) (length (redis_formatCommand ts)) = Some (r1, REDIS_OK) \<and>
    get_replies 1 r1 = Some (r2, [nxt h]) \<and>
    live (objs (world r2)) (nxt h) (VArr (map VStr ts)) \<and> unread r2 = []"
proof -
  have l: "length (command ts) < 2 ^ 31 - 1" using assms(3) by (simp add: redis_formatCommand_command)
  show ?thesis
    using formats_granted [OF FormatCommandArgv_formats [OF assms(2) l] assms(1)]
      command_read_back [OF assms(1,4,5) l] unfolding redis_formatCommand_command by blast
qed

theorem adapter_command_read_back_witness:
  "\<exists>r r1 r2. redisReaderCreate generous \<lparr>objs = Map.empty, nxt = 1, granting = (\<lambda>_ _. True)\<rparr> = Some (Ptr r) \<and>
     redisReaderFeed generous r (Ptr (get_format_command TASK_REDIS_PUT ''k'' [CR, LF])) 28 = Some (r1, REDIS_OK) \<and>
     get_replies 1 r1 = Some (r2, [1]) \<and>
     live (objs (world r2)) 1 (VArr [VStr ''SET'', VStr ''k'', VStr [CR, LF]])"
proof -
  let ?ts = "[''SET'', ''k'', [CR, LF]]" and ?h = "\<lparr>objs = Map.empty, nxt = 1, granting = (\<lambda>_ _. True)\<rparr> :: rheap"
  have l: "length (redis_formatCommand ?ts) = 28" by code_simp
  have a: "argv_denotes ?ts (Ptr [3, 1, 2]) ?ts"
    by (simp add: argv_denotes_def denotes_def)
  have h: "heap_ready ?h" "\<forall>b \<ge> nxt ?h. objs ?h b = None" by (simp_all add: heap_ready_def)
  have "length (redis_formatCommand ?ts) < 2 ^ 31 - 1" "\<forall>n. grant generous n" unfolding l by simp_all
  from adapter_command_read_back [OF this(2) a this(1) h] show ?thesis
    unfolding get_format_command_def MSG_TYPE.case l by auto
qed

end
