(* ===== verification/Worker.thy ===== *)
theory Worker
  imports Redis_Command Task_Manager Subscriptions
begin

text \<open>
  The redis worker (include/adapter/redis/worker_task.hpp, src/adapter/redis/worker_task.cpp), the
  libevent hooks it installs (include/adapter/redis/hiredis/adapters/libevent.h) and the client that
  the application uses (include/adapter/redis/interface.hpp).
\<close>

section \<open>State\<close>

datatype conn_status = CONNECTED | CONNECTING | DISCONNECTED

text \<open>
  A callback for connect or disconnect events is a number; those of the worker are \<open>connectCallback\<close>
  and \<open>disconnectCallback\<close>. The contexts the worker has created are a store; \<open>next_ctx\<close> is the address
  of the next one. The pointer \<open>_context\<close> is not initialised (\<open>None\<close>). \<open>w_os\<close> and \<open>w_heap\<close> are the
  system and the heap that the next connection starts with.
\<close>

record worker_part =
  worker_stat :: conn_status
  worker_context :: "nat option"
  connect_cb :: nat
  disconnect_cb :: nat
  ctx_store :: "nat \<Rightarrow> redisAsyncContext option"
  next_ctx :: nat
  w_os :: sys
  w_heap :: rheap

definition CONNECT_CB :: nat where "CONNECT_CB = 1"
definition DISCONNECT_CB :: nat where "DISCONNECT_CB = 2"

type_synonym worker = "worker_part a_task"

definition new_worker :: "task_timer timer_env \<Rightarrow> sys \<Rightarrow> rheap \<Rightarrow> nat \<Rightarrow> bytes \<Rightarrow> worker" where
  "new_worker env s h a n = new_task env n (Worker \<lparr>worker_stat = DISCONNECTED, worker_context = None,
     connect_cb = CONNECT_CB, disconnect_cb = DISCONNECT_CB, ctx_store = (\<lambda>_. None), next_ctx = a, w_os = s, w_heap = h\<rparr>)"

definition set_connect_cb :: "nat \<Rightarrow> worker_part \<Rightarrow> worker_part" where
  "set_connect_cb f w = w\<lparr>connect_cb := f\<rparr>"

definition set_disconnect_cb :: "nat \<Rightarrow> worker_part \<Rightarrow> worker_part" where
  "set_disconnect_cb f w = w\<lparr>disconnect_cb := f\<rparr>"

definition set_conn_stat :: "conn_status \<Rightarrow> worker_part \<Rightarrow> worker_part" where
  "set_conn_stat s w = w\<lparr>worker_stat := s\<rparr>"

definition get_conn_stat :: "worker_part \<Rightarrow> conn_status" where
  "get_conn_stat w = worker_stat w"

text \<open>The context that \<open>_context\<close> points to; \<open>None\<close> when the pointer has no value.\<close>

definition the_context :: "worker_part \<Rightarrow> redisAsyncContext option" where
  "the_context w = do { a \<leftarrow> worker_context w; ctx_store w a }"

definition put_context :: "redisAsyncContext \<Rightarrow> worker_part \<Rightarrow> worker_part option" where
  "put_context ac w = do { a \<leftarrow> worker_context w; Some (w\<lparr>ctx_store := (ctx_store w)(a \<mapsto> ac)\<rparr>) }"

section \<open>The libevent adapter\<close>

text \<open>
  Nothing is attached twice. The container for the two events is allocated without a check. The hooks
  add and remove the events, and the last one frees them.
\<close>

definition redisLibeventAttach :: "allocator \<Rightarrow> redisAsyncContext \<Rightarrow> (redisAsyncContext \<times> int) option" where
  "redisLibeventAttach A ac =
     (if ev_hooks ac \<noteq> [] then Some (ac, REDIS_ERR)
      else if \<not> grant A 24 then None
      else Some (ac\<lparr>ev_hooks := [AddRead, DelRead, AddWrite, DelWrite, Cleanup]\<rparr>, REDIS_OK))"

section \<open>Messages\<close>

text \<open>
  A NULL context is dereferenced. A context with an error is kept, and \<open>_context\<close> points to it, but
  nothing is attached to it. The result is ignored by the caller.
\<close>

definition process_add_conn :: "allocator \<Rightarrow> TASK_MSG \<Rightarrow> worker_part \<Rightarrow> worker \<Rightarrow> worker option" where
  "process_add_conn A msg w t = do {
     payload \<leftarrow> any_add_conn (body msg);
     let w = w\<lparr>worker_stat := CONNECTING\<rparr>;
     r \<leftarrow> redisAsyncConnect A (w_os w) (w_heap w) (cstr (ip payload)) (port payload);
     (case r of
        Inl _ \<Rightarrow> None
      | Inr ac \<Rightarrow>
          (let a = next_ctx w; w = w\<lparr>worker_context := Some a, next_ctx := Suc a\<rparr> in
           if ac_err ac \<noteq> 0 then do { w \<leftarrow> put_context ac w; Some (t\<lparr>part := Worker w\<rparr>) }
           else do {
             (ac, _) \<leftarrow> redisLibeventAttach A ac;
             let t = t\<lparr>detail_info := Some a\<rparr>;
             let (ac, _) = redisAsyncSetConnectCallback ac (connect_cb w);
             let (ac, _) = redisAsyncSetDisconnectCallback ac (disconnect_cb w);
             w \<leftarrow> put_context ac w;
             Some (t\<lparr>part := Worker w\<rparr>) })) }"

text \<open>
  \<open>fp\<close> is the text of floating point conversions. The text of a raw command is passed as the format,
  with no further arguments.
\<close>

definition worker_on_message :: "(bytes \<Rightarrow> nat \<Rightarrow> bytes) \<Rightarrow> allocator \<Rightarrow> TASK_MSG \<Rightarrow> worker \<Rightarrow> worker option" where
  "worker_on_message fp A msg t =
     (case part t of
        Manager _ \<Rightarrow> None
      | Worker w \<Rightarrow>
          (case msg_type msg of
             TASK_REDIS_FORMAT_RAW \<Rightarrow> do {
               m \<leftarrow> any_format_raw (body msg);
               ac \<leftarrow> the_context w;
               (ac, _) \<leftarrow> redisAsyncFormattedCommand A ac (cb m) (usr_data m) (command_text m @ [NUL]) (length (command_text m));
               w \<leftarrow> put_context ac w;
               Some (t\<lparr>part := Worker w\<rparr>) }
           | TASK_REDIS_RAW \<Rightarrow> do {
               m \<leftarrow> any_raw (body msg);
               ac \<leftarrow> the_context w;
               (ac, _) \<leftarrow> redisAsyncCommand fp A ac (cb m) (usr_data m) (cstr (command_text m)) [];
               w \<leftarrow> put_context ac w;
               Some (t\<lparr>part := Worker w\<rparr>) }
           | TASK_REDIS_ADD_CONN \<Rightarrow> process_add_conn A msg w t
           | _ \<Rightarrow> Some t))"

section \<open>Connection events\<close>

text \<open>What a callback does to the worker it has found by name.\<close>

definition update_worker :: "bytes \<Rightarrow> (worker_part \<Rightarrow> worker_part) \<Rightarrow> (worker_part, 'e) task_manager \<Rightarrow> (worker_part, 'e) task_manager option" where
  "update_worker n f tm = do {
     t \<leftarrow> map_of (task_map tm) n;
     (case part t of
        Manager _ \<Rightarrow> None
      | Worker w \<Rightarrow> Some (put_task n (t\<lparr>part := Worker (f w)\<rparr>) tm)) }"

text \<open>\<open>c\<close> is the address of the context.\<close>

definition connectCallback :: "nat \<Rightarrow> int \<Rightarrow> (worker_part, 'e) task_manager \<Rightarrow> (worker_part, 'e) task_manager option" where
  "connectCallback c status tm =
     (if status \<noteq> REDIS_OK then Some tm
      else do {
        p \<leftarrow> get_task_ptr_p_with_detail_info c tm;
        (case p of Nullp \<Rightarrow> Some tm | Ptr n \<Rightarrow> update_worker n (set_conn_stat CONNECTED) tm) })"

text \<open>
  The old context is not freed: the line that should do so declares a function. The member
  \<open>_context\<close> of the worker keeps pointing to the old context. \<open>old\<close> is the block at \<open>c\<close>.
\<close>

definition redisAsyncReconnect :: "allocator \<Rightarrow> nat \<Rightarrow> redisAsyncContext option \<Rightarrow> (worker_part, 'e) task_manager
    \<Rightarrow> (worker_part, 'e) task_manager option" where
  "redisAsyncReconnect A c old tm = do {
     p \<leftarrow> get_task_ptr_p_with_detail_info c tm;
     ac \<leftarrow> old;
     ac \<leftarrow> alive ac;
     host \<leftarrow> deref (tcp_host (ac_c ac));
     n \<leftarrow> deref p;
     t \<leftarrow> map_of (task_map tm) n;
     w \<leftarrow> (case part t of Worker w \<Rightarrow> Some w | Manager _ \<Rightarrow> None);
     r \<leftarrow> redisAsyncConnect A (w_os w) (w_heap w) host (tcp_port (ac_c ac));
     (case r of
        Inl _ \<Rightarrow> None
      | Inr ac \<Rightarrow> do {
          let a = next_ctx w;
          (ac, _) \<leftarrow> redisLibeventAttach A ac;
          let (ac, _) = redisAsyncSetConnectCallback ac CONNECT_CB;
          let (ac, _) = redisAsyncSetDisconnectCallback ac DISCONNECT_CB;
          Some (put_task n (t\<lparr>detail_info := Some a,
            part := Worker (w\<lparr>next_ctx := Suc a, ctx_store := (ctx_store w)(a \<mapsto> ac)\<rparr>)\<rparr>) tm) }) }"

text \<open>A disconnection with an error is only logged; after a clean one the worker reconnects in five seconds.\<close>

definition start_reconnect :: "task_timer timer_env \<Rightarrow> nat \<Rightarrow> worker \<Rightarrow> worker" where
  "start_reconnect env c t =
     (let (m, p, _) = getTimer (timer_mgr t);
          m = with_timer p (\<lambda>x. fst (startOnce env x 5000 (User (Task_reconnect c)))) m
      in t\<lparr>timer_mgr := release p m\<rparr>)"

definition disconnectCallback :: "task_timer timer_env \<Rightarrow> allocator \<Rightarrow> nat \<Rightarrow> redisAsyncContext option \<Rightarrow> int
    \<Rightarrow> (worker_part, 'e) task_manager \<Rightarrow> (worker_part, 'e) task_manager option" where
  "disconnectCallback env A c ctx status tm =
     (if status \<noteq> REDIS_OK then Some tm
      else do {
        p \<leftarrow> get_task_ptr_p_with_detail_info c tm;
        (case p of
           Ptr n \<Rightarrow> do {
             tm \<leftarrow> update_worker n (set_conn_stat DISCONNECTED) tm;
             t \<leftarrow> map_of (task_map tm) n;
             Some (put_task n (start_reconnect env c t) tm) }
         | Nullp \<Rightarrow> redisAsyncReconnect A c ctx tm) })"

section \<open>The client\<close>

text \<open>Adding a worker and starting the tasks without blocking.\<close>

definition client_init :: "task_timer timer_env \<Rightarrow> (bytes \<Rightarrow> int \<times> bool) \<Rightarrow> worker \<Rightarrow> (worker_part, 'e) task_manager \<Rightarrow> (worker_part, 'e) task_manager" where
  "client_init env mk t tm = tm_init env mk (add_tasks t tm)"

text \<open>The result of sending is ignored, and \<open>true\<close> returned.\<close>

definition client_add_conn :: "'e fd_write \<Rightarrow> bytes \<Rightarrow> int \<Rightarrow> (worker_part, 'e) task_manager \<Rightarrow> (worker_part, 'e) task_manager \<times> bool" where
  "client_add_conn W addr p tm =
     (fst (send2task_body W WORKER001 TASK_REDIS_ADD_CONN (AddConn \<lparr>ip = addr, port = p\<rparr>) 0 tm), True)"

definition send_format_raw_command :: "'e fd_write \<Rightarrow> bytes \<Rightarrow> nat \<Rightarrow> nat \<Rightarrow> (worker_part, 'e) task_manager \<Rightarrow> (worker_part, 'e) task_manager \<times> bool" where
  "send_format_raw_command W text priv f tm =
     (fst (send2task_body W WORKER001 TASK_REDIS_FORMAT_RAW
        (FormatRaw \<lparr>usr_data = priv, cb = f, command_text = text\<rparr>) 0 tm), True)"

definition send_raw_command :: "'e fd_write \<Rightarrow> bytes \<Rightarrow> nat \<Rightarrow> nat \<Rightarrow> (worker_part, 'e) task_manager \<Rightarrow> (worker_part, 'e) task_manager \<times> bool" where
  "send_raw_command W text priv f tm =
     (fst (send2task_body W WORKER001 TASK_REDIS_RAW (Raw \<lparr>usr_data = priv, cb = f, command_text = text\<rparr>) 0 tm), True)"

definition client_put :: "'e fd_write \<Rightarrow> bytes \<Rightarrow> bytes \<Rightarrow> nat \<Rightarrow> nat \<Rightarrow> (worker_part, 'e) task_manager \<Rightarrow> (worker_part, 'e) task_manager \<times> bool" where
  "client_put W key v priv f tm =
     (let command2send = get_format_command TASK_REDIS_PUT key v
      in send_format_raw_command W command2send priv f tm)"

end
