(* ===== verification/Worker_Theorems.thy ===== *)
theory Worker_Theorems
  imports Worker Async_Theorems Task_Theorems
begin

text \<open>
  The properties of the redis worker: what \<open>put\<close> sends, and the defects of raw commands, of the
  messages that come before a connection, and of the reconnection.
\<close>

section \<open>A formatted command\<close>

lemma append_block:
  assumes g: "\<forall>n. grant A n" and o: "out_text c q" and lim: "length q + length t < 2 ^ 31"
  shows "\<exists>x. append_command A c (t @ z) (length t) = Some (c\<lparr>obuf := Ptr x\<rparr>, REDIS_OK) \<and> out_text (c\<lparr>obuf := Ptr x\<rparr>) (q @ t)"
proof -
  from o obtain b where b: "obuf c = Ptr b" "sds_ok b" "sds_content b = q" by (auto simp: out_text_def)
  have "sdslen b + length t < size_limit" "length t \<le> length (t @ z)"
    using lim sds_ok_len [OF b(2)] b(3) by (simp_all add: size_limit_def)
  from yields_granted [OF sdscatlen_spec [OF b(2) this] g] obtain x where
    "sdscatlen A b (t @ z) (length t) = Some (Ptr x)" "sds_ok x" "sds_content x = q @ t"
    using b(3) by auto
  then show ?thesis using b(1) by (auto simp: append_command_def out_text_def)
qed

lemma formatted_plain:
  assumes g: "\<forall>n. grant A n" and o: "open_for_commands ac"
    and lim: "length q + length (command (name # args)) + 3 < 2 ^ 31" and p: "plain name"
    and ns: "\<not> has (aflags ac) REDIS_SUBSCRIBED" and q: "holds_queue (replies ac) xs" and ot: "out_text (ac_c ac) q"
  shows "\<exists>ac'. redisAsyncFormattedCommand A ac f priv (command (name # args) @ [NUL]) (length (command (name # args))) = Some (ac', REDIS_OK) \<and>
    issued ac ac' \<and> holds_queue (replies ac') (xs @ [\<lparr>cb_fn = f, cb_privdata = priv\<rparr>]) \<and>
    out_text (ac_c ac') (q @ command (name # args))"
proof -
  let ?cb = "\<lparr>cb_fn = f, cb_privdata = priv\<rparr>" and ?t = "command (name # args)"
  have l: "length ?t < 2 ^ 32" "length name < 2 ^ 31" using lim by (simp_all add: command_def bulk_def)
  have cr: "CR \<notin> set name" using p by (simp add: plain_def)
  have "grant A 24" using g by simp
  from push_queue [OF this q] obtain l where l': "redisPushCallback A (replies ac) ?cb = Some (l, REDIS_OK)"
    "holds_queue l (xs @ [?cb])" by blast
  have r: "register_callback A ac ?cb (?t @ [NUL]) = Some (Inr (ac\<lparr>replies := l\<rparr>))"
    using register_command(2) [OF refl l cr, where post = "[]" and A = A and ac = ac and cb = ?cb] l'(1) p ns
    by (simp add: registered_def queued_def plain_def)
  have "out_text (ac_c (ac\<lparr>replies := l\<rparr>)) q" "length q + length ?t < 2 ^ 31" using ot lim by simp_all
  from append_block [OF g this, of "[NUL]"] obtain x where
    x: "append_command A (ac_c ac) (?t @ [NUL]) (length ?t) = Some ((ac_c ac)\<lparr>obuf := Ptr x\<rparr>, REDIS_OK)"
      "out_text ((ac_c ac)\<lparr>obuf := Ptr x\<rparr>) (q @ ?t)" by auto
  obtain e where e: "el AddWrite (ac\<lparr>replies := l, ac_c := (ac_c ac)\<lparr>obuf := Ptr x\<rparr>\<rparr>) =
      ac\<lparr>replies := l, ac_c := (ac_c ac)\<lparr>obuf := Ptr x\<rparr>, ev_log := e\<rparr>"
    using el_log [of AddWrite "ac\<lparr>replies := l, ac_c := (ac_c ac)\<lparr>obuf := Ptr x\<rparr>\<rparr>"] by auto
  have a: "alive ac = Some ac" "\<not> has (aflags ac) (REDIS_DISCONNECTING OR REDIS_FREEING)"
    using o by (simp_all add: open_for_commands_def)
  have "redisAsyncFormattedCommand A ac f priv (?t @ [NUL]) (length ?t) =
      Some (ac\<lparr>replies := l, ac_c := (ac_c ac)\<lparr>obuf := Ptr x\<rparr>, ev_log := e\<rparr>, REDIS_OK)"
    using a r x(1) e by (simp add: redisAsyncFormattedCommand_def async_command_def alive_def)
  moreover have "issued ac (ac\<lparr>replies := l, ac_c := (ac_c ac)\<lparr>obuf := Ptr x\<rparr>, ev_log := e\<rparr>)"
    unfolding issued_def by (intro exI [of _ "Ptr x"] exI [of _ l] exI [of _ e]) (cases ac, simp)
  ultimately show ?thesis using l'(2) x(2) by auto
qed

section \<open>Putting values\<close>

text \<open>A request of the application: key, value, user data and callback.\<close>

type_synonym put_request = "bytes \<times> bytes \<times> nat \<times> nat"

fun put_all :: "'e fd_write \<Rightarrow> put_request list \<Rightarrow> (worker_part, 'e) task_manager \<Rightarrow> (worker_part, 'e) task_manager" where
  "put_all W [] tm = tm"
| "put_all W ((k, v, priv, f) # ps) tm = put_all W ps (fst (client_put W k v priv f tm))"

definition put_text :: "put_request \<Rightarrow> bytes" where
  "put_text p = (case p of (k, v, _) \<Rightarrow> command [''SET'', k, v])"

definition put_callback :: "put_request \<Rightarrow> redisCallback" where
  "put_callback p = (case p of (_, _, priv, f) \<Rightarrow> \<lparr>cb_fn = f, cb_privdata = priv\<rparr>)"

definition put_msg :: "put_request \<Rightarrow> TASK_MSG" where
  "put_msg p = \<lparr>msg_type = TASK_REDIS_FORMAT_RAW, seq_id = 0, msg_from = [], msg_to = [],
     body = (case p of (_, _, priv, f) \<Rightarrow> FormatRaw \<lparr>usr_data = priv, cb = f, command_text = put_text p\<rparr>)\<rparr>"

lemma put_all_spec:
  "map_ok (task_map tm) \<Longrightarrow> map_of (task_map tm) WORKER001 = Some t \<Longrightarrow>
    map_ok (task_map (put_all W ps tm)) \<and>
    map_of (task_map (put_all W ps tm)) WORKER001 = Some (t\<lparr>task_queue := task_queue t @ map put_msg ps\<rparr>)"
proof (induction ps arbitrary: tm t)
  case (Cons p ps)
  obtain k v priv f where p: "p = (k, v, priv, f)" by (cases p)
  have "fst (client_put W k v priv f tm) = tm\<lparr>task_map := map_put WORKER001 (in_queue (put_msg p) t) (task_map tm),
      fds := fst (W (evfd t) (fds tm))\<rparr>"
    using Cons.prems(2)
    by (simp add: client_put_def put_command send_format_raw_command_def send2task_body_def send2task_def put_msg_def put_text_def
        p Let_def case_prod_unfold)
  then show ?case using Cons.IH [of "fst (client_put W k v priv f tm)" "in_queue (put_msg p) t"] Cons.prems p
    by (simp add: in_queue_def)
qed simp

lemma worker_put:
  assumes "part t = Worker w" "the_context w = Some ac"
    and "redisAsyncFormattedCommand A ac f priv (put_text (k, v, priv, f) @ [NUL]) (length (put_text (k, v, priv, f))) = Some (b, rv)"
  shows "\<exists>w'. worker_on_message fp A (put_msg (k, v, priv, f)) t = Some (t\<lparr>part := Worker w'\<rparr>) \<and> the_context w' = Some b"
  using assms
  by (auto simp: worker_on_message_def put_msg_def any_format_raw_def the_context_def put_context_def bind_eq_Some_conv)

lemma worker_puts:
  assumes g: "\<forall>n. grant A n" and n: "WORKER001 \<noteq> TASK0"
  shows "map_ok (task_map tm) \<Longrightarrow> map_of (task_map tm) WORKER001 = Some t \<Longrightarrow> tmp_task_queue t = map put_msg ps \<Longrightarrow>
    part t = Worker w \<Longrightarrow> the_context w = Some ac \<Longrightarrow> open_for_commands ac \<Longrightarrow> \<not> has (aflags ac) REDIS_SUBSCRIBED \<Longrightarrow>
    holds_queue (replies ac) xs \<Longrightarrow> out_text (ac_c ac) q \<Longrightarrow> length q + length (concat (map put_text ps)) + 3 < 2 ^ 31 \<Longrightarrow>
    \<exists>tm' t' w' b. process_loop (worker_on_message fp A) W WORKER001 tm = Some tm' \<and>
      map_of (task_map tm') WORKER001 = Some t' \<and> part t' = Worker w' \<and> the_context w' = Some b \<and> issued ac b \<and>
      holds_queue (replies b) (xs @ map put_callback ps) \<and> out_text (ac_c b) (q @ concat (map put_text ps))"
proof (induction ps arbitrary: tm t w ac xs q)
  case Nil
  then show ?case using issued_refl [of ac] by (simp add: process_loop.simps [of _ _ _ tm])
next
  case (Cons p ps)
  obtain k v priv f where p: "p = (k, v, priv, f)" by (cases p)
  have pt: "put_text p = command (''SET'' # [k, v])" "put_callback p = \<lparr>cb_fn = f, cb_privdata = priv\<rparr>"
    by (simp_all add: p put_text_def put_callback_def)
  have pl: "plain ''SET''" by code_simp
  have "length q + length (command (''SET'' # [k, v])) + 3 < 2 ^ 31" using Cons.prems(10) unfolding pt(1) [symmetric] by simp
  from formatted_plain [OF g Cons.prems(6) this pl Cons.prems(7,8,9), of f priv] obtain b where
    b: "redisAsyncFormattedCommand A ac f priv (put_text p @ [NUL]) (length (put_text p)) = Some (b, REDIS_OK)" "issued ac b"
      "holds_queue (replies b) (xs @ [put_callback p])" "out_text (ac_c b) (q @ put_text p)"
    unfolding pt by blast
  from worker_put [OF Cons.prems(4,5), of A f priv k v, folded p, OF b(1), of fp] obtain w' where
    w': "worker_on_message fp A (put_msg p) t = Some (t\<lparr>part := Worker w'\<rparr>)" "the_context w' = Some b" by blast
  let ?t = "pop_message (t\<lparr>part := Worker w'\<rparr>)" and ?H = "worker_on_message fp A"
  have ty: "msg_type (put_msg p) = TASK_REDIS_FORMAT_RAW" by (simp add: put_msg_def)
  have st: "process_loop ?H W WORKER001 tm = process_loop ?H W WORKER001 (put_task WORKER001 ?t tm)"
    using Cons.prems(2,3,4) w'(1) ty by (simp add: process_loop.simps [of _ _ _ tm] process_front_def on_message_def)
  note i = issued_fields [OF b(2)]
  have "open_for_commands b" using Cons.prems(6) i by (simp add: open_for_commands_def)
  moreover have "\<not> has (aflags b) REDIS_SUBSCRIBED" using Cons.prems(7) i by simp
  moreover have "length (q @ put_text p) + length (concat (map put_text ps)) + 3 < 2 ^ 31" using Cons.prems(10) by simp
  moreover have "map_of (task_map (put_task WORKER001 ?t tm)) WORKER001 = Some ?t" "map_ok (task_map (put_task WORKER001 ?t tm))"
    "tmp_task_queue ?t = map put_msg ps" "part ?t = Worker w'"
    using Cons.prems(1,3) by (simp_all add: put_task_def pop_message_def)
  ultimately obtain tm' t' w'' c where e: "process_loop ?H W WORKER001 (put_task WORKER001 ?t tm) = Some tm'"
      "map_of (task_map tm') WORKER001 = Some t'" "part t' = Worker w''" "the_context w'' = Some c" "issued b c"
      "holds_queue (replies c) ((xs @ [put_callback p]) @ map put_callback ps)"
      "out_text (ac_c c) ((q @ put_text p) @ concat (map put_text ps))"
    using Cons.IH [OF _ _ _ _ w'(2) _ _ b(3,4)] by blast
  have "issued ac c" using b(2) e(5) by (rule issued_trans)
  then show ?case unfolding st using e by simp
qed

section \<open>A worker for the witnesses\<close>

definition demo_worker :: "redisAsyncContext \<Rightarrow> worker_part" where
  "demo_worker ac = \<lparr>worker_stat = CONNECTED, worker_context = Some 0, connect_cb = CONNECT_CB, disconnect_cb = DISCONNECT_CB,
     ctx_store = [0 \<mapsto> ac], next_ctx = 1, w_os = trickle [], w_heap = fresh_heap0\<rparr>"

definition demo_task :: "redisAsyncContext \<Rightarrow> worker" where
  "demo_task ac = (new_task demo_env WORKER001 (Worker (demo_worker ac)))\<lparr>detail_info := Some 0\<rparr>"

definition demo_manager :: "redisAsyncContext \<Rightarrow> (worker_part, unit) task_manager" where
  "demo_manager ac = \<lparr>task_map = [(WORKER001, demo_task ac)], tm_hb_itval = 5000, tm_seq_id = 0, fds = (),
     first_loop = False, restarted = []\<rparr>"

lemma demo_task_fields [simp]:
  "map_ok (task_map (demo_manager ac))" "map_of (task_map (demo_manager ac)) WORKER001 = Some (demo_task ac)"
  "part (demo_task ac) = Worker (demo_worker ac)" "task_queue (demo_task ac) = []" "tmp_task_queue (demo_task ac) = []"
  "the_context (demo_worker ac) = Some ac" "detail_info (demo_task ac) = Some 0"
  by (simp_all add: demo_manager_def demo_task_def new_task_def map_ok_def the_context_def demo_worker_def)

section \<open>From the application to its callbacks\<close>

lemma WORKER001_TASK0: "WORKER001 \<noteq> TASK0"
  by (simp add: WORKER001_def TASK0_def)

text \<open>
  C3. Putting values, end to end: when the worker has worked off its queue, the commands \<open>SET\<close> for the
  values that were put are in the output buffer, in order; and after any number of read events, with
  the bytes of the replies cut anywhere, the first \<open>k\<close> replies have been given to the callbacks of the
  first \<open>k\<close> values with their user data, in order and each once, and all of them when all bytes have
  arrived.
\<close>

theorem puts_reach_callbacks:
  assumes "\<forall>n. grant (mem env) n" and "accepts env Q" and "map_ok (task_map tm)"
    and "map_of (task_map tm) WORKER001 = Some t" and "task_queue t = []" and "tmp_task_queue t = []"
    and "part t = Worker w" and "the_context w = Some ac" and "async_rest ac r" and "out_text (ac_c ac) q"
    and "length q + length (concat (map put_text ps)) + 3 < 2 ^ 31"
    and "list_all2 (takes Q) (map put_callback ps) vs" and "vs \<noteq> []" and "\<forall>v \<in> set vs. value_ok 0 v"
    and "rlen r + length (concat (map encode vs)) < 2 ^ 31 - 1"
    and "polls (io (ac_c ac)) (received (ac_c ac) @ concat (map encode vs))"
  shows "\<exists>tm' t' w' b ac' k. process_msg (worker_on_message fp (mem env)) W WORKER001 (put_all W ps tm) = Some tm' \<and>
    map_of (task_map tm') WORKER001 = Some t' \<and> part t' = Worker w' \<and> the_context w' = Some b \<and>
    out_text (ac_c b) (q @ concat (map put_text ps)) \<and> read_events env n b = Some ac' \<and> k \<le> length vs \<and>
    calls ac' = calls ac @ concat (map2 delivered (take k (map put_callback ps)) (addrs (nxt (world r)) vs)) \<and>
    (received (ac_c ac') = received (ac_c ac) @ concat (map encode vs) \<longrightarrow> k = length vs)"
proof -
  let ?t = "t\<lparr>task_queue := map put_msg ps\<rparr>" and ?tm = "put_all W ps tm"
  have tm: "map_ok (task_map ?tm)" "map_of (task_map ?tm) WORKER001 = Some ?t"
    using put_all_spec [OF assms(3,4), of W ps] assms(5) by simp_all
  let ?u = "put_task WORKER001 (swap_queues ?t) ?tm"
  have u: "map_ok (task_map ?u)" "map_of (task_map ?u) WORKER001 = Some (swap_queues ?t)"
    "tmp_task_queue (swap_queues ?t) = map put_msg ps" "part (swap_queues ?t) = Worker w"
    using tm assms(6,7) by (simp_all add: put_task_def swap_queues_def)
  have ac: "\<not> has (aflags ac) REDIS_SUBSCRIBED" "holds_queue (replies ac) []" using assms(9) by (simp_all add: async_rest_def)
  from worker_puts [OF assms(1) WORKER001_TASK0 u assms(8) rest_open [OF assms(9)] ac assms(10,11), of fp W]
  obtain tm' t' w' b where b: "process_loop (worker_on_message fp (mem env)) W WORKER001 ?u = Some tm'"
    "map_of (task_map tm') WORKER001 = Some t'" "part t' = Worker w'" "the_context w' = Some b" "issued ac b"
    "holds_queue (replies b) (map put_callback ps)" "out_text (ac_c b) (q @ concat (map put_text ps))" by auto
  have "process_msg (worker_on_message fp (mem env)) W WORKER001 ?tm = Some tm'"
    using tm(2) b(1) by (simp add: process_msg_def)
  then show ?thesis using replies_served [OF assms(1,2,9) b(5,6) assms(12-16), of n] b(2-4,7) by blast
qed

theorem puts_reach_callbacks_witness:
  "\<exists>ac tm' t' w' b. process_msg (worker_on_message (\<lambda>_ _. []) generous) (\<lambda>_ e. (e, True)) WORKER001
      (put_all (\<lambda>_ e. (e, True)) [(''k'', ''v'', 5, 8)] (demo_manager ac)) = Some tm' \<and>
    map_of (task_map tm') WORKER001 = Some t' \<and> part t' = Worker w' \<and> the_context w' = Some b \<and>
    out_text (ac_c b) (command [''SET'', ''k'', ''v'']) \<and>
    (\<exists>ac' k. read_events passive_env 20 b = Some ac' \<and> k \<le> 1 \<and> calls ac' = take k [ReplyCall 8 1 5])"
proof -
  let ?vs = "[VStatus ''OK'']" and ?ps = "[(''k'', ''v'', 5, 8)] :: put_request list"
  obtain b r where c: "async_rest (async_context (concat (map encode ?vs)) b r) r"
    "out_text (ac_c (async_context (concat (map encode ?vs)) b r)) []" "nxt (world r) = 1" "rlen r = 0"
    "polls (io (ac_c (async_context (concat (map encode ?vs)) b r)))
       (received (ac_c (async_context (concat (map encode ?vs)) b r)) @ concat (map encode ?vs))"
    using async_context_rest by blast
  let ?ac = "async_context (concat (map encode ?vs)) b r"
  have "length (concat (map put_text ?ps)) = 27" "length (concat (map encode ?vs)) = 5" by code_simp+
  then have n: "length ([] :: bytes) + length (concat (map put_text ?ps)) + 3 < 2 ^ 31"
    and m: "rlen r + length (concat (map encode ?vs)) < 2 ^ 31 - 1" unfolding c(4) by simp_all
  have tk: "list_all2 (takes (\<lambda>f p v. True)) (map put_callback ?ps) ?vs" by (simp add: takes_def)
  have g: "\<forall>n. grant (mem passive_env) n" and ok: "\<forall>v \<in> set ?vs. value_ok 0 v" and ne: "?vs \<noteq> []" by simp_all
  from puts_reach_callbacks [OF g passive_accepts demo_task_fields(1,2,4,5,3,6) c(1,2) n tk ne ok m c(5),
      where fp = "\<lambda>_ _. []" and W = "\<lambda>_ e. (e, True)" and n = 20]
  obtain tm' t' w' d e k where d: "process_msg (worker_on_message (\<lambda>_ _. []) (mem passive_env)) (\<lambda>_ e. (e, True)) WORKER001
      (put_all (\<lambda>_ e. (e, True)) ?ps (demo_manager ?ac)) = Some tm'" "map_of (task_map tm') WORKER001 = Some t'"
    "part t' = Worker w'" "the_context w' = Some d" "out_text (ac_c d) ([] @ concat (map put_text ?ps))"
    "read_events passive_env 20 d = Some e" "k \<le> length ?vs"
    "calls e = calls ?ac @ concat (map2 delivered (take k (map put_callback ?ps)) (addrs (nxt (world r)) ?vs))"
    by (elim exE conjE) (rule that)
  have a1: "addrs (nxt (world r)) ?vs = [1]" unfolding c(3) by simp
  have a2: "concat (map2 delivered (take k (map put_callback ?ps)) [1]) = take k [ReplyCall 8 1 5]"
    by (cases k) (simp_all add: delivered_def put_callback_def)
  have a3: "calls ?ac = []" by (simp add: async_context_def)
  have "calls e = take k [ReplyCall 8 1 5]" unfolding d(8) a1 a2 a3 append_Nil ..
  moreover have "out_text (ac_c d) (command [''SET'', ''k'', ''v''])" using d(5) by (simp add: put_text_def)
  moreover have "k \<le> 1" using d(7) by simp
  ultimately show ?thesis using d(1-4,6) unfolding passive_mem by blast
qed

section \<open>Raw commands\<close>

definition literal :: "bytes \<Rightarrow> piece option list" where
  "literal t = map (\<lambda>c. if c = CHR '' '' then None else Some (Lit c)) t"

definition raw_words :: "(bytes \<Rightarrow> nat \<Rightarrow> bytes) \<Rightarrow> bytes \<Rightarrow> bytes list" where
  "raw_words fp t = cmd_fields fp (literal t)"

definition raw :: "bytes \<Rightarrow> nat \<Rightarrow> nat \<Rightarrow> TASK_MSG" where
  "raw t priv f = \<lparr>msg_type = TASK_REDIS_RAW, seq_id = 0, msg_from = [], msg_to = [],
     body = Raw \<lparr>usr_data = priv, cb = f, command_text = t\<rparr>\<rparr>"

lemma literal_format: "format_text (literal t) = t" "format_args (literal t) = []"
  by (induction t) (simp_all add: literal_def, simp_all add: format_text_def format_args_def)

lemma literal_ok: "CHR ''%'' \<notin> set t \<Longrightarrow> NUL \<notin> set t \<Longrightarrow> format_ok fp (literal t)"
  by (auto simp: format_ok_def literal_def list_all_iff)

lemma loop_split:
  "CHR ''%'' \<notin> set pre \<Longrightarrow> fmt_cmd_loop fp A (pre @ g) ap st =
     (case fmt_cmd_loop fp A pre ap st of None \<Rightarrow> None | Some (Inl e) \<Rightarrow> Some (Inl e) | Some (Inr st) \<Rightarrow> fmt_cmd_loop fp A g ap st)"
proof (induction pre arbitrary: st)
  case (Cons c pre)
  have c: "c \<noteq> CHR ''%''" and p: "CHR ''%'' \<notin> set pre" using Cons.prems by auto
  show ?case unfolding append_Cons loop_lit [OF c] Cons.IH [OF p]
    by (auto split: option.split sum.split bind_split)
qed simp

lemma stuck_conversion: "fmt_cmd_loop fp A (''%s'' @ g) [] st = None"
  by (simp add: fmt_cmd_loop.simps(2) conversion_step_def)

lemma format_gets_stuck:
  assumes g: "\<forall>n. grant A n" and ok: "CHR ''%'' \<notin> set t" "NUL \<notin> set t"
    and lim: "length (command (raw_words fp t)) < 2 ^ 31 - 1"
  shows "redisvFormatCommand fp A True (t @ ''%s'' @ post) [] = None"
proof -
  from yields_granted [OF sdsempty_spec [of A] g] obtain s where s: "sdsempty A = Some (Ptr s)" "sds_ok s" "sds_content s = []" by auto
  let ?st = "\<lparr>curargv = [], totlen = 0, curarg = s, touched = False\<rparr>"
  have "holds [] False [] ?st" using s by (simp add: holds_def)
  moreover have "length (concat (map bulk ([] @ fields_from fp False [] (literal t)))) < 2 ^ 31"
    using lim by (simp add: raw_words_def cmd_fields_eq command_def)
  ultimately have "settles A (fmt_cmd_loop fp A t [] ?st) (\<lambda>st'. True)"
    using fmt_cmd_loop_spec [OF literal_ok [OF ok], where dn = "[]" and t = False and cur = "[]" and st = ?st and A = A and fp = fp] unfolding literal_format settles_def
    by (fastforce split: sum.splits)
  then obtain x where x: "fmt_cmd_loop fp A t [] ?st = Some x"
      "case x of Inl e \<Rightarrow> e = MEMORY_ERR \<and> \<not> (\<forall>n. grant A n) | Inr y \<Rightarrow> True"
    unfolding settles_def by (elim exE conjE) (rule that)
  then obtain st' where st': "fmt_cmd_loop fp A t [] ?st = Some (Inr st')" using g by (cases x) simp_all
  have "fmt_cmd_loop fp A (t @ ''%s'' @ u) [] ?st = None" for u
    using loop_split [OF ok(1), of fp A "''%s'' @ u" "[]" ?st] st' stuck_conversion [of fp A u st'] by simp
  moreover have "cstr (t @ ''%s'' @ post) = t @ ''%s'' @ cstr post"
    using ok(2) by (induction t) (auto simp: cstr_def)
  ultimately show ?thesis using s(1) by (simp add: redisvFormatCommand_def)
qed

text \<open>
  C34. A raw command is a format: a text without percent signs is sent as its words, but a text in which
  a percent sign is followed by s reads an argument that was never passed.
\<close>

theorem raw_command_is_a_format:
  assumes "\<forall>n. grant A n" and "part t = Worker w" and "the_context w = Some ac" and "open_for_commands ac"
    and "\<not> has (aflags ac) REDIS_SUBSCRIBED" and "holds_queue (replies ac) xs" and "out_text (ac_c ac) q"
    and "CHR ''%'' \<notin> set s" and "NUL \<notin> set s" and "raw_words fp s = name # args" and "plain name"
    and "length q + length (command (raw_words fp s)) + 3 < 2 ^ 31"
  shows "\<exists>w' b. worker_on_message fp A (raw s priv f) t = Some (t\<lparr>part := Worker w'\<rparr>) \<and> the_context w' = Some b \<and>
      holds_queue (replies b) (xs @ [\<lparr>cb_fn = f, cb_privdata = priv\<rparr>]) \<and> out_text (ac_c b) (q @ command (raw_words fp s)) \<and>
      worker_on_message fp A (raw (s @ ''%s'' @ post) priv f) t = None"
proof -
  have l: "length (command (raw_words fp s)) < 2 ^ 31 - 1" using assms(12) by simp
  have n: "NUL \<notin> set (format_text (literal s))" using assms(9) by (simp add: literal_format)
  let ?c = "command (name # args)"
  have "redisvFormatCommand fp A True s [] = Some (Ptr (?c @ [NUL]), int (length ?c))"
    using formats_granted [OF redisvFormatCommand_spec [OF literal_ok [OF assms(8,9)] n] assms(1)] l assms(10)
    unfolding literal_format raw_words_def by simp
  moreover have "usz_of_int (int (length ?c)) = length ?c" using l assms(10) by (simp add: usz_of_int_def)
  ultimately have f: "redisAsyncCommand fp A ac f priv s [] = redisAsyncFormattedCommand A ac f priv (?c @ [NUL]) (length ?c)"
    by (simp add: redisAsyncCommand_def redisvAsyncCommand_def redisAsyncFormattedCommand_def)
  have "length q + length ?c + 3 < 2 ^ 31" using assms(12) unfolding assms(10) .
  from formatted_plain [OF assms(1,4) this assms(11,5,6,7), of f priv] obtain b where
    b: "redisAsyncFormattedCommand A ac f priv (?c @ [NUL]) (length ?c) = Some (b, REDIS_OK)"
      "holds_queue (replies b) (xs @ [\<lparr>cb_fn = f, cb_privdata = priv\<rparr>])" "out_text (ac_c b) (q @ ?c)" by blast
  have "cstr s = s" using assms(9) by (simp)
  then have "\<exists>w' b. worker_on_message fp A (raw s priv f) t = Some (t\<lparr>part := Worker w'\<rparr>) \<and> the_context w' = Some b \<and>
      holds_queue (replies b) (xs @ [\<lparr>cb_fn = f, cb_privdata = priv\<rparr>]) \<and> out_text (ac_c b) (q @ command (raw_words fp s))"
    using b f assms(2,3,10)
    by (auto simp: worker_on_message_def raw_def any_raw_def the_context_def put_context_def bind_eq_Some_conv)
  moreover have "cstr (cstr (s @ ''%s'' @ post)) = cstr (s @ ''%s'' @ post)" by (simp add: cstr_def)
  then have "redisvFormatCommand fp A True (cstr (s @ ''%s'' @ post)) [] = redisvFormatCommand fp A True (s @ ''%s'' @ post) []"
    by (simp only: redisvFormatCommand_def)
  then have "worker_on_message fp A (raw (s @ ''%s'' @ post) priv f) t = None"
    using format_gets_stuck [OF assms(1,8,9) l, of post] assms(2,3)
    by (simp add: worker_on_message_def raw_def any_raw_def redisAsyncCommand_def redisvAsyncCommand_def)
  ultimately show ?thesis by blast
qed

theorem raw_command_is_a_format_witness:
  "\<exists>ac w' b. worker_on_message (\<lambda>_ _. []) generous (raw ''GET k'' 5 8) (demo_task ac) = Some ((demo_task ac)\<lparr>part := Worker w'\<rparr>) \<and>
     the_context w' = Some b \<and> out_text (ac_c b) (command [''GET'', ''k'']) \<and>
     worker_on_message (\<lambda>_ _. []) generous (raw ''GET k%s'' 5 8) (demo_task ac) = None"
proof -
  obtain b r where c: "async_rest (async_context [] b r) r" "out_text (ac_c (async_context [] b r)) []"
    using async_context_rest by blast
  let ?ac = "async_context [] b r"
  have w: "raw_words (\<lambda>_ _. []) ''GET k'' = [''GET'', ''k'']" by code_simp
  have "length (command [''GET'', ''k'']) = 20" by code_simp
  then have l: "length ([] :: bytes) + length (command (raw_words (\<lambda>_ _. []) ''GET k'')) + 3 < 2 ^ 31" unfolding w by simp
  have p: "plain ''GET''" "CHR ''%'' \<notin> set ''GET k''" "NUL \<notin> set ''GET k''" by code_simp+
  have ac: "\<not> has (aflags ?ac) REDIS_SUBSCRIBED" "holds_queue (replies ?ac) []" using c(1) by (simp_all add: async_rest_def)
  have g: "\<forall>n. grant generous n" by simp
  note th = raw_command_is_a_format [OF g demo_task_fields(3,6) rest_open [OF c(1)] ac c(2) p(2,3) w p(1) l, where priv = 5 and f = 8]
  show ?thesis using th [of "[]"] unfolding w append_Nil by auto
qed

section \<open>Reconnecting\<close>

text \<open>A timer of the task has been started, for one call.\<close>

definition armed :: "worker \<Rightarrow> task_timer \<Rightarrow> 32 word \<Rightarrow> bool" where
  "armed t f i \<longleftrightarrow> (\<exists>p x. timers (timer_mgr t) p = Some x \<and> t_event x \<noteq> Nullp \<and> t_handler x = Some (User f) \<and>
     t_interval x = i \<and> t_round x = 1)"

lemma start_reconnect_armed:
  assumes "event_new_ok env" "event_add_ok env" "map_of (t_map (timer_mgr t)) (uniqueID (timer_mgr t)) = None"
  shows "armed (start_reconnect env c t) (Task_reconnect c) 5000" "part (start_reconnect env c t) = part t"
  unfolding armed_def
   by (intro exI [of _ "next_addr (timer_mgr t)"])
    (use assms in \<open>simp_all add: start_reconnect_def getTimer_def getUniqueID_def with_timer_def release_def unref_def
      startOnce_def startRounds_def new_timer_def Let_def image_iff\<close>)



text \<open>A command that comes before the first connection uses a pointer that was never set.\<close>

lemma command_before_connection:
  assumes "part (t :: worker) = Worker w" "worker_context w = None" "msg_type msg \<in> {TASK_REDIS_RAW, TASK_REDIS_FORMAT_RAW}"
  shows "worker_on_message fp A msg t = None"
  using assms by (auto simp: worker_on_message_def the_context_def)

end
