(* ===== verification/Message_Bus.thy ===== *)
theory Message_Bus
  imports Timer_Manager
begin

text \<open>
  The parts that connections, pools and the connection manager share: connection infos
  (include/connManager/util.h), unique numbers and the message bus (include/connManager/messagebus.h),
  and the service discovery (include/connManager/serviceDiscovery.h).
\<close>

section \<open>Connection infos\<close>

text \<open>The kind is 0 for a local connection, anything else is remote.\<close>

datatype ConnInfo = ConnInfo (sourceIP: bytes) (sourcePort: bytes) (destIP: bytes) (destPort: bytes) (conn_kind: int)

text \<open>\<open>operator<\<close> compares the members in this order, with the two sides exchanged.\<close>

definition tie :: "ConnInfo \<Rightarrow> bytes \<times> bytes \<times> bytes \<times> bytes \<times> int" where
  "tie c = (sourceIP c, sourcePort c, destIP c, destPort c, conn_kind c)"

lemma tie_eq [simp]: "tie a = tie b \<longleftrightarrow> a = b"
  by (cases a; cases b) (simp add: tie_def)

instantiation ConnInfo :: linorder
begin

definition less_ConnInfo :: "ConnInfo \<Rightarrow> ConnInfo \<Rightarrow> bool" where
  "less_ConnInfo a b \<longleftrightarrow> tie b < tie a"

definition less_eq_ConnInfo :: "ConnInfo \<Rightarrow> ConnInfo \<Rightarrow> bool" where
  "less_eq_ConnInfo a b \<longleftrightarrow> tie b \<le> tie a"

instance
  by standard (auto simp: less_ConnInfo_def less_eq_ConnInfo_def order.strict_iff_order)

end

definition toString :: "ConnInfo \<Rightarrow> bytes" where
  "toString c = sourceIP c @ sourcePort c @ destIP c @ destPort c @ dec_int (conn_kind c)"

section \<open>The message bus\<close>

definition next_unique_id :: "int \<Rightarrow> int \<times> int" where
  "next_unique_id n = (n, int32 (n + 1))"

text \<open>
  A handler \<open>'h\<close> is under a name, with the object that registered it and a number. Entries of one name
  are in some order. The lock that other threads than the creator's take is released at once.
\<close>

type_synonym 'h message_bus = "(bytes \<times> 'h \<times> nat \<times> int) list"

definition register_handler_id :: "bytes \<Rightarrow> nat \<Rightarrow> 'h \<Rightarrow> int \<Rightarrow> 'h message_bus \<Rightarrow> 'h message_bus" where
  "register_handler_id name t f i b = b @ [(name, f, t, i)]"

definition register_handler :: "bytes \<Rightarrow> nat \<Rightarrow> 'h \<Rightarrow> int \<Rightarrow> 'h message_bus \<Rightarrow> int \<times> int \<times> 'h message_bus" where
  "register_handler name t f n b = (let (i, n) = next_unique_id n in (i, n, b @ [(name, f, t, i)]))"

text \<open>
  \<open>call\<close> runs one handler, of the first entry with the name and the number, on a copy; nothing of the
  bus is used after that, so the handler may register and remove others, itself included.
\<close>

fun call_target :: "bytes \<Rightarrow> int \<Rightarrow> 'h message_bus \<Rightarrow> 'h option" where
  "call_target name i [] = None"
| "call_target name i ((n, f, t, j) # b) = (if n = name \<and> i = j then Some f else call_target name i b)"

fun remove_handler :: "bytes \<Rightarrow> nat \<Rightarrow> int \<Rightarrow> 'h message_bus \<Rightarrow> 'h message_bus" where
  "remove_handler name t i [] = []"
| "remove_handler name t i ((n, f, s, j) # b) =
     (if n = name \<and> s = t \<and> j = i then remove_handler name t i b else (n, f, s, j) # remove_handler name t i b)"

lemma remove_handler_filter:
  "remove_handler name t i b = filter (\<lambda>(n, f, s, j). \<not> (n = name \<and> s = t \<and> j = i)) b"
  by (induction b) auto

lemma call_target_found: "call_target name i b = Some f \<Longrightarrow> \<exists>t. (name, f, t, i) \<in> set b"
  by (induction b) (auto split: if_splits)

lemma call_target_append: "call_target name i (b @ c) = (case call_target name i b of None \<Rightarrow> call_target name i c | Some f \<Rightarrow> Some f)"
  by (induction b) auto

text \<open>With distinct numbers, the entry with a number is the one that is called, in whatever order the entries are.\<close>

definition numbers :: "'h message_bus \<Rightarrow> int list" where
  "numbers b = map (\<lambda>x. snd (snd (snd x))) b"

lemma call_target_member: "distinct (numbers b) \<Longrightarrow> (name, f, t, i) \<in> set b \<Longrightarrow> call_target name i b = Some f"
  by (induction b) (force simp: numbers_def)+

lemma numbers_ops [simp]:
  "numbers (b @ c) = numbers b @ numbers c" "numbers ((n, f, t, i) # b) = i # numbers b" "numbers [] = []"
  by (simp_all add: numbers_def)

lemma distinct_numbers_remove: "distinct (numbers b) \<Longrightarrow> distinct (numbers (remove_handler name t i b))"
  unfolding remove_handler_filter numbers_def by (rule distinct_map_filter)

section \<open>Service discovery\<close>

text \<open>
  The functions it is given, on a state \<open>'w\<close>: one that gives the connections wanted (an ordered set),
  and two for connections that appear and vanish. \<open>None\<close> for a function means it is not set.
\<close>

record 'w discovery =
  conn_list :: "ConnInfo list"
  get_conn_f :: "('w \<Rightarrow> ConnInfo list \<times> 'w) option"
  cfgInc :: "(ConnInfo \<Rightarrow> 'w \<Rightarrow> ('w \<times> bool) option) option"
  cfgDec :: "(ConnInfo \<Rightarrow> 'w \<Rightarrow> ('w \<times> bool) option) option"
  sd_interval :: "32 word"
  sd_timer :: nat

text \<open>The timer comes from the timer manager of the process; nothing stops it.\<close>

definition new_discovery :: "'h timer_env \<Rightarrow> 'h \<Rightarrow> 'h timer_manager \<Rightarrow> 'w discovery \<times> 'h timer_manager" where
  "new_discovery env tick m =
     (let (m, p, _) = getTimer m;
          m = with_timer p (\<lambda>x. fst (startForever env x 5000 (User tick))) m
      in (\<lparr>conn_list = [], get_conn_f = None, cfgInc = None, cfgDec = None, sd_interval = 5000, sd_timer = p\<rparr>, m))"

definition setGetConnInfoCb :: "('w \<Rightarrow> ConnInfo list \<times> 'w) \<Rightarrow> 'w discovery \<Rightarrow> 'w discovery" where
  "setGetConnInfoCb f d = d\<lparr>get_conn_f := Some f\<rparr>"

definition setOnConnInc :: "(ConnInfo \<Rightarrow> 'w \<Rightarrow> ('w \<times> bool) option) \<Rightarrow> 'w discovery \<Rightarrow> 'w discovery" where
  "setOnConnInc f d = d\<lparr>cfgInc := Some f\<rparr>"

definition setOnConnDec :: "(ConnInfo \<Rightarrow> 'w \<Rightarrow> ('w \<times> bool) option) \<Rightarrow> 'w discovery \<Rightarrow> 'w discovery" where
  "setOnConnDec f d = d\<lparr>cfgDec := Some f\<rparr>"

text \<open>Calling a function that is not set throws.\<close>

definition onConnInfoInc :: "ConnInfo \<Rightarrow> 'w discovery \<Rightarrow> 'w \<Rightarrow> 'w option" where
  "onConnInfoInc i d w = do { f \<leftarrow> cfgInc d; map_option fst (f i w) }"

definition onConnInfoDec :: "ConnInfo \<Rightarrow> 'w discovery \<Rightarrow> 'w \<Rightarrow> 'w option" where
  "onConnInfoDec i d w = do { f \<leftarrow> cfgDec d; map_option fst (f i w) }"

fun inc_loop :: "ConnInfo list \<Rightarrow> 'w discovery \<Rightarrow> 'w \<Rightarrow> ('w discovery \<times> 'w) option" where
  "inc_loop [] d w = Some (d, w)"
| "inc_loop (i # is) d w =
     (if i \<notin> set (conn_list d) then do {
        w \<leftarrow> onConnInfoInc i d w;
        inc_loop is (d\<lparr>conn_list := insort_insert i (conn_list d)\<rparr>) w }
      else inc_loop is d w)"

text \<open>
  The loop runs over the set that it erases from: after an entry was erased, the loop's iterator points
  to no entry any more and is then moved on.
\<close>

fun dec_loop :: "ConnInfo list \<Rightarrow> ConnInfo list \<Rightarrow> 'w discovery \<Rightarrow> 'w \<Rightarrow> ('w discovery \<times> 'w) option" where
  "dec_loop wanted [] d w = Some (d, w)"
| "dec_loop wanted (i # is) d w =
     (if i \<notin> set wanted then do { w \<leftarrow> onConnInfoDec i d w; None } else dec_loop wanted is d w)"

definition getConnInfo :: "'w discovery \<Rightarrow> 'w \<Rightarrow> (('w discovery \<times> 'w) \<times> bool) option" where
  "getConnInfo d w =
     (case get_conn_f d of
        None \<Rightarrow> Some ((d, w), False)
      | Some f \<Rightarrow>
          (let (wanted, w) = f w in do {
             (d, w) \<leftarrow> inc_loop wanted d w;
             (d, w) \<leftarrow> dec_loop wanted (conn_list d) d w;
             Some ((d, w), True) }))"

end
