(* ===== verification/Conn_Pool.thy ===== *)
theory Conn_Pool
  imports Message_Bus
begin

text \<open>
  Connection pools and the connection manager (include/connManager/connManager.h). The class of the
  connections is a parameter of the code; its interface is the one documented in
  include/connManager/connInterface.h.
\<close>

section \<open>State\<close>

text \<open>
  Connections and pools are shared objects: they live at addresses. A connection knows the number of
  its pool (\<open>c_pool\<close>) and the numbers of the handlers it reports to. It is destroyed by code outside
  this model, and its address is not used again.
\<close>

record db_conn =
  c_info :: ConnInfo
  c_pool :: int
  c_state :: "bool option"
  c_inc_id :: int
  c_dec_id :: int

text \<open>The constructor of a pool leaves three of its members without a value.\<close>

record conn_pool =
  p_id :: "int option"
  p_conn_inc :: int
  p_conn_dec :: int
  p_pool_inc :: "int option"
  p_pool_dec :: "int option"
  p_local :: "nat list"
  p_remote :: "nat list"

text \<open>The handlers of a pool, which hold its address, and those of the connection manager.\<close>

datatype pool_handler = On_conn_dec nat | On_conn_inc nat
datatype mgr_handler = On_pool_inc | On_pool_dec

text \<open>
  \<open>unique\<close> is the source of numbers, \<open>pool_bus\<close> and \<open>mgr_bus\<close> the two buses. \<open>pl_held\<close> counts the
  pointers to a pool outside \<open>poolList\<close>. There is one connection manager, at address 0. \<open>unavailable\<close>
  counts the calls of \<open>on_unavaliable\<close>, which only writes to the log.
\<close>

record conn_world =
  unique :: int
  pool_bus :: "pool_handler message_bus"
  mgr_bus :: "mgr_handler message_bus"
  cn :: "nat \<Rightarrow> db_conn option"
  next_cn :: nat
  pl :: "nat \<Rightarrow> conn_pool option"
  next_pl :: nat
  pl_held :: "nat \<Rightarrow> nat"
  infoList :: "ConnInfo list"
  poolList :: "nat list"
  m_pool_inc :: int
  m_pool_dec :: int
  unavailable :: nat

definition CONN_INC :: bytes where "CONN_INC = ''conn_inc''"
definition CONN_DEC :: bytes where "CONN_DEC = ''conn_dec''"
definition POOL_INC :: bytes where "POOL_INC = ''pool_inc''"
definition POOL_DEC :: bytes where "POOL_DEC = ''pool_dec''"

definition put_pool :: "nat \<Rightarrow> conn_pool \<Rightarrow> conn_world \<Rightarrow> conn_world" where
  "put_pool p P w = w\<lparr>pl := (pl w)(p \<mapsto> P)\<rparr>"

text \<open>\<open>connect\<close> of a connection, which may report before it returns, is an argument.\<close>

type_synonym connect_fn = "nat \<Rightarrow> conn_world \<Rightarrow> (conn_world \<times> bool) option"

section \<open>Pools\<close>

definition pool_add_conn :: "nat \<Rightarrow> nat \<Rightarrow> conn_world \<Rightarrow> conn_world option" where
  "pool_add_conn p c w = do {
     P \<leftarrow> pl w p;
     x \<leftarrow> cn w c;
     Some (put_pool p (if conn_kind (c_info x) = 0 then P\<lparr>p_local := p_local P @ [c]\<rparr> else P\<lparr>p_remote := p_remote P @ [c]\<rparr>) w) }"

definition pool_del_conn :: "nat \<Rightarrow> nat \<Rightarrow> conn_world \<Rightarrow> conn_world option" where
  "pool_del_conn p c w = do {
     P \<leftarrow> pl w p;
     x \<leftarrow> cn w c;
     Some (put_pool p (if conn_kind (c_info x) = 0 then P\<lparr>p_local := filter (\<lambda>d. d \<noteq> c) (p_local P)\<rparr>
       else P\<lparr>p_remote := filter (\<lambda>d. d \<noteq> c) (p_remote P)\<rparr>) w) }"

definition has_info :: "conn_world \<Rightarrow> ConnInfo \<Rightarrow> nat \<Rightarrow> bool" where
  "has_info w info c \<longleftrightarrow> map_option c_info (cn w c) = Some info"

definition pool_del_info :: "nat \<Rightarrow> ConnInfo \<Rightarrow> conn_world \<Rightarrow> conn_world option" where
  "pool_del_info p info w = do {
     P \<leftarrow> pl w p;
     Some (put_pool p (if conn_kind info = 0 then P\<lparr>p_local := filter (\<lambda>d. \<not> has_info w info d) (p_local P)\<rparr>
       else P\<lparr>p_remote := filter (\<lambda>d. \<not> has_info w info d) (p_remote P)\<rparr>) w) }"

text \<open>\<open>connPool::add_conn(info)\<close> up to the call of \<open>connect\<close>: it reads the number of the pool.\<close>

definition make_conn :: "nat \<Rightarrow> ConnInfo \<Rightarrow> conn_world \<Rightarrow> (conn_world \<times> nat) option" where
  "make_conn p info w = do {
     P \<leftarrow> pl w p;
     i \<leftarrow> p_id P;
     let c = next_cn w;
     Some (w\<lparr>cn := (cn w)(c \<mapsto> \<lparr>c_info = info, c_pool = i, c_state = None, c_inc_id = p_conn_inc P, c_dec_id = p_conn_dec P\<rparr>),
             next_cn := Suc c\<rparr>, c) }"

definition pool_add_info :: "connect_fn \<Rightarrow> nat \<Rightarrow> ConnInfo \<Rightarrow> conn_world \<Rightarrow> (conn_world \<times> bool) option" where
  "pool_add_info C p info w = do { (w, c) \<leftarrow> make_conn p info w; C c w }"

definition pool_get_conn :: "conn_pool \<Rightarrow> conn_pool \<times> nat ptr" where
  "pool_get_conn P =
     (case p_local P of
        c # cs \<Rightarrow> (P\<lparr>p_local := cs @ [c]\<rparr>, Ptr c)
      | [] \<Rightarrow> (case p_remote P of c # cs \<Rightarrow> (P\<lparr>p_remote := cs @ [c]\<rparr>, Ptr c) | [] \<Rightarrow> (P, Nullp)))"

definition new_pool :: "conn_world \<Rightarrow> nat \<times> conn_world" where
  "new_pool w =
     (let p = next_pl w;
          (dec, n, b) = register_handler CONN_DEC p (On_conn_dec p) (unique w) (pool_bus w);
          (inc, n, b) = register_handler CONN_INC p (On_conn_inc p) n b
      in (p, w\<lparr>unique := n, pool_bus := b, next_pl := Suc p,
            pl := (pl w)(p \<mapsto> \<lparr>p_id = None, p_conn_inc = inc, p_conn_dec = dec, p_pool_inc = None, p_pool_dec = None,
              p_local = [], p_remote = []\<rparr>)\<rparr>))"

definition end_pool :: "nat \<Rightarrow> conn_world \<Rightarrow> conn_world" where
  "end_pool p w =
     (case pl w p of
        None \<Rightarrow> w
      | Some P \<Rightarrow> w\<lparr>pool_bus := remove_handler CONN_DEC p (p_conn_dec P) (remove_handler CONN_INC p (p_conn_inc P) (pool_bus w)),
          pl := (pl w)(p := None)\<rparr>)"

text \<open>A pointer to the pool went away; the last one takes the pool with it.\<close>

definition unref_pool :: "nat \<Rightarrow> conn_world \<Rightarrow> conn_world" where
  "unref_pool p w = (if pl_held w p = 0 \<and> p \<notin> set (poolList w) then end_pool p w else w)"

definition release_pool :: "nat \<Rightarrow> conn_world \<Rightarrow> conn_world" where
  "release_pool p w = unref_pool p (w\<lparr>pl_held := (pl_held w)(p := pl_held w p - 1)\<rparr>)"

section \<open>The manager\<close>

definition pool_id :: "conn_world \<Rightarrow> nat \<Rightarrow> int option" where
  "pool_id w p = do { P \<leftarrow> pl w p; p_id P }"

fun add_infos :: "connect_fn \<Rightarrow> nat \<Rightarrow> ConnInfo list \<Rightarrow> conn_world \<Rightarrow> conn_world option" where
  "add_infos C p [] w = Some w"
| "add_infos C p (i # is) w = do { (w, _) \<leftarrow> pool_add_info C p i w; add_infos C p is w }"

text \<open>The pool is given its number only after the connections were added.\<close>

definition add_pool :: "connect_fn \<Rightarrow> conn_world \<Rightarrow> (conn_world \<times> int) option" where
  "add_pool C w = do {
     let (p, w) = new_pool w;
     w \<leftarrow> add_infos C p (infoList w) w;
     P \<leftarrow> pl w p;
     let (i, n) = next_unique_id (unique w);
     let w = w\<lparr>unique := n\<rparr>;
     let w = put_pool p (P\<lparr>p_id := Some i, p_pool_dec := Some (m_pool_dec w), p_pool_inc := Some (m_pool_inc w)\<rparr>) w;
     Some (w\<lparr>poolList := poolList w @ [p]\<rparr>, i) }"

definition del_pool :: "int \<Rightarrow> conn_world \<Rightarrow> conn_world \<times> bool" where
  "del_pool i w =
     (let gone = filter (\<lambda>p. pool_id w p = Some i) (poolList w)
      in (fold unref_pool gone (w\<lparr>poolList := filter (\<lambda>p. pool_id w p \<noteq> Some i) (poolList w)\<rparr>), True))"

definition get_pool :: "conn_world \<Rightarrow> conn_world \<times> nat ptr" where
  "get_pool w =
     (case poolList w of
        [] \<Rightarrow> (w, Nullp)
      | p # ps \<Rightarrow> (w\<lparr>poolList := ps @ [p], pl_held := (pl_held w)(p := Suc (pl_held w p))\<rparr>, Ptr p))"

definition get_conn :: "conn_world \<Rightarrow> (conn_world \<times> nat ptr) option" where
  "get_conn w =
     (case get_pool w of
        (w, Nullp) \<Rightarrow> Some (w, Nullp)
      | (w, Ptr p) \<Rightarrow> do {
          P \<leftarrow> pl w p;
          let (P, c) = pool_get_conn P;
          Some (release_pool p (put_pool p P w), c) })"

section \<open>Handlers and reports\<close>

text \<open>\<open>msg\<close> is the address of the pool that called.\<close>

definition on_pool_inc :: "connect_fn \<Rightarrow> nat \<Rightarrow> conn_world \<Rightarrow> conn_world option" where
  "on_pool_inc C msg w =
     (if \<exists>p \<in> set (poolList w). pool_id w p = pool_id w msg then Some w else do { (w, _) \<leftarrow> add_pool C w; Some w })"

definition on_unavaliable :: "conn_world \<Rightarrow> conn_world" where
  "on_unavaliable w = w\<lparr>unavailable := Suc (unavailable w)\<rparr>"

definition on_pool_dec :: "nat \<Rightarrow> conn_world \<Rightarrow> conn_world option" where
  "on_pool_dec msg w = do {
     i \<leftarrow> pool_id w msg;
     let (w, _) = del_pool i w;
     Some (if poolList w = [] then on_unavaliable w else w) }"

definition mgr_call :: "connect_fn \<Rightarrow> bytes \<Rightarrow> nat \<Rightarrow> int \<Rightarrow> conn_world \<Rightarrow> conn_world option" where
  "mgr_call C name msg i w =
     (case call_target name i (mgr_bus w) of
        None \<Rightarrow> Some w
      | Some On_pool_inc \<Rightarrow> on_pool_inc C msg w
      | Some On_pool_dec \<Rightarrow> on_pool_dec msg w)"

definition on_conn_dec :: "connect_fn \<Rightarrow> nat \<Rightarrow> nat \<Rightarrow> conn_world \<Rightarrow> conn_world option" where
  "on_conn_dec C p c w = do {
     x \<leftarrow> cn w c;
     i \<leftarrow> pool_id w p;
     (if c_pool x = i then do {
        w \<leftarrow> pool_del_conn p c w;
        P \<leftarrow> pl w p;
        (if p_local P = [] \<and> p_remote P = [] then do { d \<leftarrow> p_pool_dec P; mgr_call C POOL_DEC p d w } else Some w) }
      else Some w) }"

definition on_conn_inc :: "connect_fn \<Rightarrow> nat \<Rightarrow> nat \<Rightarrow> conn_world \<Rightarrow> conn_world option" where
  "on_conn_inc C p c w = do {
     x \<leftarrow> cn w c;
     i \<leftarrow> pool_id w p;
     (if c_pool x = i then do {
        P \<leftarrow> pl w p;
        w \<leftarrow> (if p_local P = [] \<and> p_remote P = [] then do { d \<leftarrow> p_pool_inc P; mgr_call C POOL_INC p d w } else Some w);
        pool_add_conn p c w }
      else Some w) }"

definition pool_call :: "connect_fn \<Rightarrow> bytes \<Rightarrow> nat \<Rightarrow> int \<Rightarrow> conn_world \<Rightarrow> conn_world option" where
  "pool_call C name msg i w =
     (case call_target name i (pool_bus w) of
        None \<Rightarrow> Some w
      | Some (On_conn_inc p) \<Rightarrow> on_conn_inc C p msg w
      | Some (On_conn_dec p) \<Rightarrow> on_conn_dec C p msg w)"

definition set_conn_state :: "nat \<Rightarrow> bool \<Rightarrow> conn_world \<Rightarrow> conn_world" where
  "set_conn_state c s w = w\<lparr>cn := (cn w)(c := map_option (\<lambda>x. x\<lparr>c_state := Some s\<rparr>) (cn w c))\<rparr>"

definition onConnected :: "connect_fn \<Rightarrow> nat \<Rightarrow> conn_world \<Rightarrow> conn_world option" where
  "onConnected C c w = do { x \<leftarrow> cn w c; pool_call C CONN_INC c (c_inc_id x) (set_conn_state c True w) }"

definition onDisconnected :: "connect_fn \<Rightarrow> nat \<Rightarrow> conn_world \<Rightarrow> conn_world option" where
  "onDisconnected C c w = do { x \<leftarrow> cn w c; pool_call C CONN_DEC c (c_dec_id x) (set_conn_state c False w) }"

section \<open>Changing the connections of all pools\<close>

text \<open>
  The loops over \<open>poolList\<close>: they move on from the entry of the pool they are at. When that entry was
  removed meanwhile, moving on is undefined.
\<close>

fun next_pool :: "nat \<Rightarrow> nat list \<Rightarrow> nat ptr option" where
  "next_pool p [] = None"
| "next_pool p (q # qs) = (if p = q then Some (case qs of [] \<Rightarrow> Nullp | r # _ \<Rightarrow> Ptr r) else next_pool p qs)"

partial_function (option) pool_loop :: "(nat \<Rightarrow> conn_world \<Rightarrow> conn_world option) \<Rightarrow> nat ptr \<Rightarrow> conn_world \<Rightarrow> conn_world option" where
  "pool_loop f it w =
     (case it of
        Nullp \<Rightarrow> Some w
      | Ptr p \<Rightarrow> do { w \<leftarrow> f p w; it \<leftarrow> next_pool p (poolList w); pool_loop f it w })"

definition first_pool :: "conn_world \<Rightarrow> nat ptr" where
  "first_pool w = (case poolList w of [] \<Rightarrow> Nullp | p # _ \<Rightarrow> Ptr p)"

definition mgr_add_conn :: "connect_fn \<Rightarrow> ConnInfo \<Rightarrow> conn_world \<Rightarrow> (conn_world \<times> bool) option" where
  "mgr_add_conn C info w = do {
     let w = w\<lparr>infoList := infoList w @ [info]\<rparr>;
     w \<leftarrow> pool_loop (\<lambda>p w. map_option fst (pool_add_info C p info w)) (first_pool w) w;
     Some (w, True) }"

definition mgr_del_conn :: "ConnInfo \<Rightarrow> conn_world \<Rightarrow> (conn_world \<times> bool) option" where
  "mgr_del_conn info w = do {
     let w = w\<lparr>infoList := removeAll info (infoList w)\<rparr>;
     w \<leftarrow> pool_loop (\<lambda>p. pool_del_info p info) (first_pool w) w;
     Some (w, True) }"

text \<open>
  The constructor registers the two handlers and gives the service discovery its functions; the one
  connection that is wanted is fixed.
\<close>

definition new_conn_manager :: "connect_fn \<Rightarrow> conn_world discovery \<Rightarrow> int \<Rightarrow> conn_world discovery \<times> conn_world" where
  "new_conn_manager C d n =
     (let (inc, n, b) = register_handler POOL_INC 0 On_pool_inc n [];
          (dec, n, b) = register_handler POOL_DEC 0 On_pool_dec n b;
          w = \<lparr>unique = n, pool_bus = [], mgr_bus = b, cn = (\<lambda>_. None), next_cn = 1, pl = (\<lambda>_. None), next_pl = 1,
            pl_held = (\<lambda>_. 0), infoList = [], poolList = [], m_pool_inc = inc, m_pool_dec = dec, unavailable = 0\<rparr>;
          d = setOnConnInc (mgr_add_conn C) d;
          d = setOnConnDec mgr_del_conn d;
          d = setGetConnInfoCb (\<lambda>w. ([ConnInfo [] [] ''127.0.0.1'' ''6379'' 0], w)) d
      in (d, w))"

end
