(* ===== verification/Conn_Balance.thy ===== *)
theory Conn_Balance
  imports Conn_Pool
begin

text \<open>
  Who is next: pools and the connections within a pool take turns. The contract of a list that is
  worked through in turns is a locale, with the pools of the manager and the connections of a pool as
  its two instances.
\<close>

section \<open>Taking turns\<close>

fun draws :: "('s \<Rightarrow> 's \<times> 'a ptr) \<Rightarrow> nat \<Rightarrow> 's \<Rightarrow> 's \<times> 'a ptr list" where
  "draws g 0 s = (s, [])"
| "draws g (Suc n) s = (let (s, x) = g s; (s, xs) = draws g n s in (s, x # xs))"

locale rotation =
  fixes items :: "'s \<Rightarrow> 'a list" and give :: "'s \<Rightarrow> 's \<times> 'a ptr"
  assumes give_none: "items s = [] \<Longrightarrow> give s = (s, Nullp)"
    and give_some: "items s = x # xs \<Longrightarrow> snd (give s) = Ptr x \<and> items (fst (give s)) = xs @ [x]"
begin

lemma next_up:
  assumes "items s = rotate k xs" "xs \<noteq> []"
  shows "snd (give s) = Ptr (xs ! (k mod length xs))" "items (fst (give s)) = rotate (Suc k) xs"
proof -
  have "items s \<noteq> []" using assms by simp
  then obtain y ys where y: "items s = y # ys" by (auto simp: neq_Nil_conv)
  have "y = xs ! (k mod length xs)" using hd_rotate_conv_nth [OF assms(2), of k] assms(1) y by (metis list.sel(1))
  then show "snd (give s) = Ptr (xs ! (k mod length xs))" using give_some [OF y] by simp
  show "items (fst (give s)) = rotate (Suc k) xs" using give_some [OF y] assms(1) y by (metis rotate1.simps(2) rotate_Suc)
qed

lemma turns:
  "items s = rotate k xs \<Longrightarrow> xs \<noteq> [] \<Longrightarrow>
    items (fst (draws give n s)) = rotate (k + n) xs \<and>
    snd (draws give n s) = map (\<lambda>i. Ptr (xs ! (i mod length xs))) [k..<k + n]"
proof (induction n arbitrary: s k)
  case (Suc n)
  note u = next_up [OF Suc.prems]
  have "[k..<k + Suc n] = k # [Suc k..<Suc k + n]" by (simp add: upt_conv_Cons)
  with Suc.IH [OF u(2) Suc.prems(2)] u(1) show ?case by (simp add: case_prod_unfold Let_def)
qed simp

text \<open>In every round of as many draws as there are items, everybody has one turn.\<close>

lemma fair_round:
  assumes "items s = xs" "xs \<noteq> []"
  shows "snd (draws give (length xs) s) = map Ptr xs" "items (fst (draws give (length xs) s)) = xs"
  using turns [of s 0 xs "length xs"] assms by (auto intro!: nth_equalityI)

end

definition pool_items :: "conn_pool \<Rightarrow> nat list" where
  "pool_items P = (if p_local P \<noteq> [] then p_local P else p_remote P)"

interpretation conns: rotation pool_items pool_get_conn
  by unfold_locales (auto simp: pool_items_def pool_get_conn_def split: list.splits if_splits)

interpretation pools: rotation poolList get_pool
  by unfold_locales (simp_all add: get_pool_def)

section \<open>Connections of the manager\<close>

fun get_conns :: "nat \<Rightarrow> conn_world \<Rightarrow> (conn_world \<times> nat ptr list) option" where
  "get_conns 0 w = Some (w, [])"
| "get_conns (Suc n) w = do { (w, c) \<leftarrow> get_conn w; (w, cs) \<leftarrow> get_conns n w; Some (w, c # cs) }"

lemma get_conn_step:
  assumes "poolList w = p # ps" "pl w p = Some P"
  shows "get_conn w = Some (w\<lparr>poolList := ps @ [p], pl := (pl w)(p \<mapsto> fst (pool_get_conn P))\<rparr>, snd (pool_get_conn P))"
  using assms
  by (simp add: get_conn_def get_pool_def release_pool_def unref_pool_def put_pool_def case_prod_unfold Let_def fun_upd_idem)

text \<open>After \<open>k\<close> draws: the pools are rotated by \<open>k\<close>, and each pool by the number of its own turns.\<close>

definition turn :: "nat list \<Rightarrow> (nat \<Rightarrow> nat list) \<Rightarrow> nat \<Rightarrow> conn_world \<Rightarrow> bool" where
  "turn ps cs k w \<longleftrightarrow> poolList w = rotate k ps \<and>
     (\<forall>j < length ps. \<exists>P. pl w (ps ! j) = Some P \<and> pool_items P = rotate ((k + length ps - Suc j) div length ps) (cs (ps ! j)))"

lemma own_turns:
  fixes k m j :: nat
  assumes "j < m"
  shows "(Suc k + m - Suc j) div m = (if k mod m = j then Suc ((k + m - Suc j) div m) else (k + m - Suc j) div m)"
proof -
  have "Suc (k + m - Suc j) mod m = 0 \<longleftrightarrow> k mod m = j"
  proof -
    have "Suc (k + m - Suc j) = k + m - j" using assms by simp
    moreover have "(k + m) mod m = j mod m \<longleftrightarrow> m dvd (k + m - j)"
      using assms by (intro mod_eq_dvd_iff_nat) simp
    ultimately show ?thesis using assms by (simp add: mod_eq_0_iff_dvd)
  qed
  moreover have "Suc k + m - Suc j = Suc (k + m - Suc j)" using assms by simp
  ultimately show ?thesis by (simp add: div_Suc)
qed

lemma own_turn:
  fixes k m :: nat
  assumes "0 < m"
  shows "(k + m - Suc (k mod m)) div m = k div m"
proof -
  have "k mod m < m" using assms by simp
  have "k + m - Suc (k mod m) = (k div m) * m + (m - 1)"
    using \<open>k mod m < m\<close> div_mult_mod_eq [of k m] by linarith
  moreover have "((k div m) * m + (m - 1)) div m = k div m" by (subst div_mult_self3) (use assms in simp_all)
  ultimately show ?thesis by simp
qed

definition scheduled :: "nat list \<Rightarrow> (nat \<Rightarrow> nat list) \<Rightarrow> nat \<Rightarrow> nat" where
  "scheduled ps cs i = (let p = ps ! (i mod length ps) in cs p ! ((i div length ps) mod length (cs p)))"

lemma turn_step:
  assumes t: "turn ps cs k w" and d: "distinct ps" "ps \<noteq> []" and ne: "\<forall>p \<in> set ps. cs p \<noteq> []"
  shows "\<exists>w'. get_conn w = Some (w', Ptr (scheduled ps cs k)) \<and> turn ps cs (Suc k) w'"
proof -
  let ?m = "length ps" let ?j = "k mod ?m" let ?p = "ps ! ?j"
  have j: "?j < ?m" "0 < ?m" using d(2) by simp_all
  obtain qs where q: "poolList w = ?p # qs" "rotate (Suc k) ps = qs @ [?p]"
  proof -
    have "hd (rotate k ps) = ?p" using hd_rotate_conv_nth [OF d(2)] .
    then have "rotate k ps = ?p # tl (rotate k ps)" using d(2) by (metis list.collapse rotate_is_Nil_conv)
    then show ?thesis using that [of "tl (rotate k ps)"] t by (simp add: turn_def) (metis rotate1.simps(2))
  qed
  obtain P where P: "pl w ?p = Some P" "pool_items P = rotate (k div ?m) (cs ?p)"
    using t j own_turn [OF j(2), of k] unfolding turn_def by metis
  have "cs ?p \<noteq> []" using ne j by simp
  note u = conns.next_up [OF P(2) this]
  let ?w = "w\<lparr>poolList := qs @ [?p], pl := (pl w)(?p \<mapsto> fst (pool_get_conn P))\<rparr>"
  have "get_conn w = Some (?w, Ptr (scheduled ps cs k))"
    using get_conn_step [OF q(1) P(1)] u(1) by (simp add: scheduled_def Let_def)
  moreover have "turn ps cs (Suc k) ?w"
    unfolding turn_def
  proof (intro conjI allI impI)
    show "poolList ?w = rotate (Suc k) ps" using q(2) by simp
  next
    fix i assume i: "i < ?m"
    show "\<exists>Q. pl ?w (ps ! i) = Some Q \<and> pool_items Q = rotate ((Suc k + ?m - Suc i) div ?m) (cs (ps ! i))"
    proof (cases "i = ?j")
      case True
      then show ?thesis using u(2) own_turns [OF j(1), of k] own_turn [OF j(2), of k] by simp
    next
      case False
      then have "ps ! i \<noteq> ?p" using d(1) i j(1) by (simp add: nth_eq_iff_index_eq)
      then show ?thesis using t i False own_turns [OF i, of k] by (simp add: turn_def)
    qed
  qed
  ultimately show ?thesis by blast
qed

lemma get_conns_turns:
  assumes "distinct ps" "ps \<noteq> []" "\<forall>p \<in> set ps. cs p \<noteq> []"
  shows "turn ps cs k w \<Longrightarrow> \<exists>w'. get_conns n w = Some (w', map (\<lambda>i. Ptr (scheduled ps cs i)) [k..<k + n]) \<and> turn ps cs (k + n) w'"
proof (induction n arbitrary: k w)
  case (Suc n)
  from turn_step [OF Suc.prems assms] obtain u where u: "get_conn w = Some (u, Ptr (scheduled ps cs k))" "turn ps cs (Suc k) u"
    by blast
  have "[k..<k + Suc n] = k # [Suc k..<Suc k + n]" by (simp add: upt_conv_Cons)
  with Suc.IH [OF u(2)] u(1) show ?case by auto
qed simp

text \<open>
  C11. Connections are handed out evenly: the pools take turns, and within each pool the local
  connections take turns, or the remote ones when there is no local one. Of \<open>m\<close> pools, draw \<open>i\<close> is
  answered by the pool that stands at position \<open>i\<close> modulo \<open>m\<close>, with the connection whose turn it is
  there after \<open>i div m\<close> earlier draws. No draw fails while every pool has a connection.
\<close>

theorem connections_take_turns:
  assumes "poolList w = ps" and "distinct ps" and "ps \<noteq> []"
    and "\<forall>p \<in> set ps. \<exists>P. pl w p = Some P \<and> pool_items P = cs p \<and> cs p \<noteq> []"
  shows "\<exists>w'. get_conns n w =
    Some (w', map (\<lambda>i. Ptr (cs (ps ! (i mod length ps)) ! ((i div length ps) mod length (cs (ps ! (i mod length ps)))))) [0..<n])"
proof -
  have "turn ps cs 0 w"
    using assms(1,4) by (auto simp: turn_def)
  moreover have "\<forall>p \<in> set ps. cs p \<noteq> []" using assms(4) by blast
  ultimately show ?thesis using get_conns_turns [OF assms(2,3), of cs 0 w n] by (auto simp: scheduled_def Let_def)
qed

definition demo_pool :: "nat list \<Rightarrow> nat list \<Rightarrow> int \<Rightarrow> conn_pool" where
  "demo_pool ls rs i = \<lparr>p_id = Some i, p_conn_inc = 10 * i + 1, p_conn_dec = 10 * i, p_pool_inc = Some 0, p_pool_dec = Some 1,
     p_local = ls, p_remote = rs\<rparr>"

definition demo_conns :: conn_world where
  "demo_conns = \<lparr>unique = 50, pool_bus = [], mgr_bus = [], cn = (\<lambda>_. None), next_cn = 20,
     pl = [1 \<mapsto> demo_pool [11, 12] [13] 2, 2 \<mapsto> demo_pool [] [14] 3], next_pl = 3,
     pl_held = (\<lambda>_. 0), infoList = [], poolList = [1, 2], m_pool_inc = 0, m_pool_dec = 1, unavailable = 0\<rparr>"

theorem connections_take_turns_witness:
  "\<exists>w'. get_conns 5 demo_conns = Some (w', [Ptr 11, Ptr 14, Ptr 12, Ptr 14, Ptr 11])"
proof -
  have "\<forall>p \<in> set [1, 2]. \<exists>P. pl demo_conns p = Some P \<and> pool_items P = (if p = 1 then [11, 12] else [14]) \<and>
      (if p = 1 then [11, 12] else [14 :: nat]) \<noteq> []"
    by (simp add: demo_conns_def demo_pool_def pool_items_def)
  moreover have "poolList demo_conns = [1, 2]" "distinct [1, 2 :: nat]" by (simp_all add: demo_conns_def)
  moreover have "map (\<lambda>i. Ptr ((if [1, 2] ! (i mod length [1, 2 :: nat]) = (1 :: nat) then [11, 12] else [14 :: nat]) !
      ((i div length [1, 2 :: nat]) mod length (if [1, 2] ! (i mod length [1, 2 :: nat]) = (1 :: nat) then [11, 12] else [14 :: nat])))) [0..<5] =
      [Ptr 11, Ptr 14, Ptr 12, Ptr 14, Ptr 11]" by code_simp
  ultimately show ?thesis using connections_take_turns [of demo_conns "[1, 2]" "\<lambda>p. if p = 1 then [11, 12] else [14]" 5] by simp
qed

end
