(* ===== verification/Conn_Theorems.thy ===== *)
theory Conn_Theorems
  imports Conn_Balance
begin

text \<open>
  The properties of the pools and the connection manager: the invariant of pools, buses and
  connections, what happens when a pool loses its last connection, and the ways in which adding and
  removing connections fails.
\<close>

section \<open>Well-formed worlds\<close>

definition entries :: "(nat \<Rightarrow> conn_pool option) \<Rightarrow> (bytes \<times> pool_handler \<times> nat \<times> int) set" where
  "entries ps = (\<Union>p \<in> dom ps. {(CONN_DEC, On_conn_dec p, p, p_conn_dec (the (ps p))), (CONN_INC, On_conn_inc p, p, p_conn_inc (the (ps p)))})"

lemma mem_entries: "x \<in> entries ps \<longleftrightarrow> (\<exists>p P. ps p = Some P \<and>
    (x = (CONN_DEC, On_conn_dec p, p, p_conn_dec P) \<or> x = (CONN_INC, On_conn_inc p, p, p_conn_inc P)))"
  unfolding entries_def by force

text \<open>The bus holds the two handlers of every pool, and nothing else.\<close>

definition bus_ok :: "conn_world \<Rightarrow> bool" where
  "bus_ok w \<longleftrightarrow> distinct (numbers (pool_bus w)) \<and> (\<forall>i \<in> set (numbers (pool_bus w)). i < unique w) \<and> set (pool_bus w) = entries (pl w)"

text \<open>A pool lives as long as it is in the list or held from outside.\<close>

definition list_ok :: "conn_world \<Rightarrow> bool" where
  "list_ok w \<longleftrightarrow> distinct (poolList w) \<and> (\<forall>p. (p \<in> dom (pl w)) = (p \<in> set (poolList w) \<or> 0 < pl_held w p)) \<and> (\<forall>p \<in> dom (pl w). p < next_pl w)"

definition ids_ok :: "conn_world \<Rightarrow> bool" where
  "ids_ok w \<longleftrightarrow> 0 \<le> unique w \<and>
     (\<forall>p P. pl w p = Some P \<longrightarrow> p_pool_dec P = Some (m_pool_dec w) \<and> p_pool_inc P = Some (m_pool_inc w) \<and> (\<exists>i < unique w. p_id P = Some i)) \<and>
     (\<forall>p q P Q. pl w p = Some P \<longrightarrow> pl w q = Some Q \<longrightarrow> p_id P = p_id Q \<longrightarrow> p = q)"

definition in_pool :: "(nat \<Rightarrow> db_conn option) \<Rightarrow> int option \<Rightarrow> bool \<Rightarrow> nat \<Rightarrow> bool" where
  "in_pool cs i here c \<longleftrightarrow> (\<exists>x. cs c = Some x \<and> i = Some (c_pool x) \<and> (conn_kind (c_info x) = 0) = here)"

text \<open>The lists of a pool hold connections of the pool, the local and the remote ones.\<close>

definition holds_members :: "(nat \<Rightarrow> db_conn option) \<Rightarrow> conn_pool \<Rightarrow> bool" where
  "holds_members cs P \<longleftrightarrow> (\<forall>c \<in> set (p_local P). in_pool cs (p_id P) True c) \<and> (\<forall>c \<in> set (p_remote P). in_pool cs (p_id P) False c)"

definition members_ok :: "conn_world \<Rightarrow> bool" where
  "members_ok w \<longleftrightarrow> (\<forall>p P. pl w p = Some P \<longrightarrow> holds_members (cn w) P) \<and> (\<forall>c \<in> dom (cn w). c < next_cn w)"

definition mgr_ok :: "conn_world \<Rightarrow> bool" where
  "mgr_ok w \<longleftrightarrow> mgr_bus w = [(POOL_INC, On_pool_inc, 0, m_pool_inc w), (POOL_DEC, On_pool_dec, 0, m_pool_dec w)]"

definition conn_ok :: "conn_world \<Rightarrow> bool" where
  "conn_ok w \<longleftrightarrow> bus_ok w \<and> list_ok w \<and> ids_ok w \<and> members_ok w \<and> mgr_ok w"

lemmas conn_ok_defs = conn_ok_def bus_ok_def list_ok_def ids_ok_def members_ok_def mgr_ok_def

section \<open>Every operation keeps worlds well-formed\<close>

text \<open>The members of a pool change, its numbers do not.\<close>

definition same_numbers :: "conn_pool \<Rightarrow> conn_pool \<Rightarrow> bool" where
  "same_numbers P Q \<longleftrightarrow> p_id Q = p_id P \<and> p_conn_inc Q = p_conn_inc P \<and> p_conn_dec Q = p_conn_dec P \<and>
     p_pool_inc Q = p_pool_inc P \<and> p_pool_dec Q = p_pool_dec P"

lemma entries_upd: "ps p = Some P \<Longrightarrow> same_numbers P Q \<Longrightarrow> entries (ps(p \<mapsto> Q)) = entries ps"
  unfolding entries_def by (rule SUP_cong) (auto simp: same_numbers_def)

lemma conn_ok_put:
  assumes "conn_ok w" "pl w p = Some P" "same_numbers P Q" "holds_members (cn w) Q"
  shows "conn_ok (put_pool p Q w)"
proof -
  have d: "dom ((pl w)(p \<mapsto> Q)) = dom (pl w)" using assms(2) by auto
  have "bus_ok (put_pool p Q w)" "list_ok (put_pool p Q w)" "members_ok (put_pool p Q w)" "mgr_ok (put_pool p Q w)"
    using assms d by (auto simp: conn_ok_defs put_pool_def entries_upd)
  moreover have "ids_ok (put_pool p Q w)"
    using assms unfolding conn_ok_def ids_ok_def put_pool_def same_numbers_def
    by (auto split: if_splits)
  ultimately show ?thesis by (simp add: conn_ok_def)
qed

lemma pool_add_conn_ok:
  assumes "conn_ok w" "pool_add_conn p c w = Some w'" "cn w c = Some x" "pool_id w p = Some (c_pool x)"
  shows "conn_ok w'"
proof -
  from assms(2,3) obtain P where P: "pl w p = Some P"
    "w' = put_pool p (if conn_kind (c_info x) = 0 then P\<lparr>p_local := p_local P @ [c]\<rparr> else P\<lparr>p_remote := p_remote P @ [c]\<rparr>) w"
    by (auto simp: pool_add_conn_def bind_eq_Some_conv)
  moreover have "holds_members (cn w) P" using assms(1) P(1) by (simp add: conn_ok_def members_ok_def)
  moreover have "p_id P = Some (c_pool x)" using assms(4) P(1) by (simp add: pool_id_def)
  ultimately show ?thesis
    by (simp only:) (rule conn_ok_put [OF assms(1)], assumption,
      use assms(3) in \<open>auto simp: same_numbers_def holds_members_def in_pool_def\<close>)
qed

lemma pool_filter_ok:
  assumes "conn_ok w" "pl w p = Some P" "same_numbers P Q" "set (p_local Q) \<subseteq> set (p_local P)" "set (p_remote Q) \<subseteq> set (p_remote P)"
  shows "conn_ok (put_pool p Q w)"
proof -
  have "holds_members (cn w) P" using assms(1,2) by (simp add: conn_ok_def members_ok_def)
  then have "holds_members (cn w) Q" using assms(3-5) by (auto simp: holds_members_def same_numbers_def)
  with assms(1-3) show ?thesis by (rule conn_ok_put)
qed

lemma pool_del_conn_ok: "conn_ok w \<Longrightarrow> pool_del_conn p c w = Some w' \<Longrightarrow> conn_ok w'"
  by (auto simp: pool_del_conn_def bind_eq_Some_conv same_numbers_def split: if_splits intro!: pool_filter_ok)

lemma pool_del_info_ok: "conn_ok w \<Longrightarrow> pool_del_info p info w = Some w' \<Longrightarrow> conn_ok w'"
  by (auto simp: pool_del_info_def bind_eq_Some_conv same_numbers_def split: if_splits intro!: pool_filter_ok)

lemma pool_get_conn_ok:
  assumes "conn_ok w" "pl w p = Some P"
  shows "conn_ok (put_pool p (fst (pool_get_conn P)) w)"
  by (rule pool_filter_ok [OF assms]) (auto simp: pool_get_conn_def same_numbers_def split: list.splits)

text \<open>A connection is created, or changes its state.\<close>

lemma members_mono:
  assumes "holds_members cs P" "\<And>c x. cs c = Some x \<Longrightarrow> \<exists>y. ds c = Some y \<and> c_pool y = c_pool x \<and> c_info y = c_info x"
  shows "holds_members ds P"
  using assms unfolding holds_members_def in_pool_def by metis

lemma conn_ok_conns:
  assumes "conn_ok w" "\<And>c x. cn w c = Some x \<Longrightarrow> \<exists>y. cs c = Some y \<and> c_pool y = c_pool x \<and> c_info y = c_info x" "\<forall>c \<in> dom cs. c < n"
  shows "conn_ok (w\<lparr>cn := cs, next_cn := n\<rparr>)"
proof -
  have "holds_members (cn w) P \<Longrightarrow> holds_members cs P" for P by (rule members_mono) (use assms(2) in blast)+
  then show ?thesis using assms(1,3) by (simp add: conn_ok_defs)
qed

lemma make_conn_ok: "conn_ok w \<Longrightarrow> make_conn p info w = Some (w', c) \<Longrightarrow> conn_ok w'"
  by (auto simp: make_conn_def bind_eq_Some_conv Let_def intro!: conn_ok_conns)
     (auto simp: conn_ok_defs less_Suc_eq)

lemma set_conn_state_ok: "conn_ok w \<Longrightarrow> conn_ok (set_conn_state c s w)"
proof -
  assume w: "conn_ok w"
  then have "\<forall>d \<in> dom (cn w). d < next_cn w" by (simp add: conn_ok_def members_ok_def)
  then have "conn_ok (w\<lparr>cn := (cn w)(c := map_option (\<lambda>x. x\<lparr>c_state := Some s\<rparr>) (cn w c)), next_cn := next_cn w\<rparr>)"
    by (intro conn_ok_conns [OF w]) (auto split: if_splits)
  then show ?thesis by (simp add: set_conn_state_def)
qed

text \<open>A pool leaves the list, or a pointer to it goes away.\<close>

definition loose :: "nat \<Rightarrow> conn_world \<Rightarrow> bool" where
  "loose p w \<longleftrightarrow> pl w p \<noteq> None \<and> p \<notin> set (poolList w) \<and> pl_held w p = 0"

text \<open>The invariant up to the pools in \<open>L\<close>, that nobody refers to any more.\<close>

definition almost_ok :: "nat set \<Rightarrow> conn_world \<Rightarrow> bool" where
  "almost_ok L w \<longleftrightarrow> bus_ok w \<and> ids_ok w \<and> members_ok w \<and> mgr_ok w \<and> distinct (poolList w) \<and>
     (\<forall>p. (p \<in> dom (pl w)) = (p \<in> set (poolList w) \<or> 0 < pl_held w p \<or> p \<in> L)) \<and> (\<forall>p \<in> dom (pl w). p < next_pl w)"

lemma almost_ok_empty: "almost_ok {} w \<longleftrightarrow> conn_ok w"
  by (auto simp: almost_ok_def conn_ok_def list_ok_def)

lemma entries_removed:
  assumes "bus_ok w" "pl w p = Some P"
  shows "set (remove_handler CONN_DEC p (p_conn_dec P) (remove_handler CONN_INC p (p_conn_inc P) (pool_bus w))) = entries ((pl w)(p := None))"
  using assms by (auto simp: bus_ok_def remove_handler_filter entries_def CONN_DEC_def CONN_INC_def split: if_splits)

lemma numbers_removed: "set (numbers (remove_handler n p i b)) \<subseteq> set (numbers b)"
  by (auto simp: remove_handler_filter numbers_def)

lemma end_pool_ok:
  assumes "almost_ok (insert p L) w" "p \<notin> L" "loose p w"
  shows "almost_ok L (end_pool p w)"
proof -
  from assms(3) obtain P where P: "pl w p = Some P" by (auto simp: loose_def)
  let ?b = "remove_handler CONN_DEC p (p_conn_dec P) (remove_handler CONN_INC p (p_conn_inc P) (pool_bus w))"
  have b: "bus_ok w" using assms(1) by (simp add: almost_ok_def)
  have "set (numbers ?b) \<subseteq> set (numbers (pool_bus w))" by (rule order_trans [OF numbers_removed numbers_removed])
  then have "\<forall>i \<in> set (numbers ?b). i < unique w" using b by (auto simp: bus_ok_def)
  moreover have "distinct (numbers ?b)" using b by (simp add: bus_ok_def distinct_numbers_remove)
  ultimately have "bus_ok (end_pool p w)"
    using entries_removed [OF b P] P by (simp add: bus_ok_def end_pool_def)
  moreover have "ids_ok (end_pool p w)"
    using assms(1) P unfolding almost_ok_def ids_ok_def by (simp add: end_pool_def)
  moreover have "members_ok (end_pool p w)" "mgr_ok (end_pool p w)" "poolList (end_pool p w) = poolList w"
      "\<forall>q \<in> dom (pl w). q < next_pl w" "next_pl (end_pool p w) = next_pl w" "pl_held (end_pool p w) = pl_held w"
    using assms(1) P by (simp_all add: almost_ok_def end_pool_def members_ok_def mgr_ok_def)
  moreover have "\<forall>q. (q \<in> dom (pl (end_pool p w))) = (q \<in> set (poolList w) \<or> 0 < pl_held w q \<or> q \<in> L)"
    using assms P by (auto simp: almost_ok_def end_pool_def loose_def)
  ultimately have f: "bus_ok (end_pool p w) \<and> ids_ok (end_pool p w) \<and> members_ok (end_pool p w) \<and> mgr_ok (end_pool p w) \<and>
      poolList (end_pool p w) = poolList w \<and> next_pl (end_pool p w) = next_pl w \<and> pl_held (end_pool p w) = pl_held w \<and>
      (\<forall>q. (q \<in> dom (pl (end_pool p w))) = (q \<in> set (poolList w) \<or> 0 < pl_held w q \<or> q \<in> L))" by blast
  have "\<forall>q \<in> dom (pl w). q < next_pl w" using assms(1) by (simp add: almost_ok_def)
  moreover have "dom (pl (end_pool p w)) \<subseteq> dom (pl w)" using P by (auto simp: end_pool_def)
  ultimately have "\<forall>q \<in> dom (pl (end_pool p w)). q < next_pl w" by blast
  then show ?thesis using f assms(1) unfolding almost_ok_def by simp
qed

lemma unref_pool_ok:
  assumes "almost_ok (insert p L) w" "p \<notin> L"
  shows "almost_ok L (unref_pool p w)"
proof (cases "loose p w")
  case True
  with end_pool_ok [OF assms] show ?thesis by (simp add: unref_pool_def loose_def)
next
  case False
  have "p \<in> dom (pl w)" using assms(1) by (auto simp: almost_ok_def)
  with False have "p \<in> set (poolList w) \<or> 0 < pl_held w p" by (auto simp: loose_def)
  then have "almost_ok L w" "unref_pool p w = w"
    using assms by (auto simp: almost_ok_def unref_pool_def)
  then show ?thesis by simp
qed

lemma unref_pools_ok: "almost_ok (set ps \<union> L) w \<Longrightarrow> distinct ps \<Longrightarrow> set ps \<inter> L = {} \<Longrightarrow> almost_ok L (fold unref_pool ps w)"
proof (induction ps arbitrary: w)
  case (Cons p ps)
  then have "almost_ok (set ps \<union> L) (unref_pool p w)" by (intro unref_pool_ok) auto
  with Cons show ?case by auto
qed simp

lemma del_pool_ok:
  assumes "conn_ok w"
  shows "conn_ok (fst (del_pool i w))"
proof -
  let ?gone = "filter (\<lambda>p. pool_id w p = Some i) (poolList w)"
  let ?w = "w\<lparr>poolList := filter (\<lambda>p. pool_id w p \<noteq> Some i) (poolList w)\<rparr>"
  have "almost_ok (set ?gone \<union> {}) ?w"
    using assms by (auto simp: almost_ok_def conn_ok_defs)
  from unref_pools_ok [OF this] show ?thesis
    using assms by (simp add: del_pool_def almost_ok_empty conn_ok_def list_ok_def Let_def)
qed

lemma release_pool_ok:
  assumes "conn_ok w" "0 < pl_held w p"
  shows "conn_ok (release_pool p w)"
proof -
  have "almost_ok (insert p {}) (w\<lparr>pl_held := (pl_held w)(p := pl_held w p - 1)\<rparr>)"
    using assms by (auto simp: almost_ok_def conn_ok_defs)
  from unref_pool_ok [OF this] show ?thesis by (simp add: release_pool_def almost_ok_empty)
qed

lemma conn_ok_rotated: "conn_ok w \<Longrightarrow> poolList w = p # ps \<Longrightarrow> conn_ok (w\<lparr>poolList := ps @ [p]\<rparr>)"
  unfolding conn_ok_def bus_ok_def list_ok_def ids_ok_def members_ok_def mgr_ok_def by simp

lemma conn_ok_held: "conn_ok w \<Longrightarrow> p \<in> set (poolList w) \<Longrightarrow> conn_ok (w\<lparr>pl_held := (pl_held w)(p := n)\<rparr>)"
  unfolding conn_ok_def bus_ok_def list_ok_def ids_ok_def members_ok_def mgr_ok_def by simp

lemma get_pool_ok: "conn_ok w \<Longrightarrow> conn_ok (fst (get_pool w))"
  using conn_ok_held [OF conn_ok_rotated] by (simp add: get_pool_def split: list.split)

lemma get_conn_ok:
  assumes "conn_ok w" "get_conn w = Some (w', c)"
  shows "conn_ok w'"
proof (cases "poolList w")
  case Nil
  then show ?thesis using assms by (simp add: get_conn_def get_pool_def)
next
  case (Cons p ps)
  have "p \<in> dom (pl w)" using assms(1) Cons by (simp add: conn_ok_def list_ok_def)
  then obtain P where P: "pl w p = Some P" by blast
  have w': "w' = (put_pool p (fst (pool_get_conn P)) w)\<lparr>poolList := ps @ [p]\<rparr>"
    using get_conn_step [OF Cons P] assms(2) by (simp add: put_pool_def)
  have "conn_ok (put_pool p (fst (pool_get_conn P)) w)" by (rule pool_get_conn_ok [OF assms(1) P])
  moreover have "poolList (put_pool p (fst (pool_get_conn P)) w) = p # ps" using Cons by (simp add: put_pool_def)
  ultimately show ?thesis unfolding w' by (rule conn_ok_rotated)
qed

text \<open>A new pool; with connections already known, it is never finished.\<close>

lemma add_pool_stuck:
  assumes "infoList w \<noteq> []"
  shows "add_pool C w = None"
proof -
  obtain i "is" where "infoList w = i # is" using assms by (cases "infoList w") auto
  then show ?thesis
    by (simp add: add_pool_def new_pool_def register_handler_def next_unique_id_def pool_add_info_def make_conn_def Let_def)
qed

definition numbers_left :: "conn_world \<Rightarrow> bool" where
  "numbers_left w \<longleftrightarrow> unique w + 3 < 2 ^ 31"

definition added_pool :: "conn_world \<Rightarrow> conn_pool" where
  "added_pool w = \<lparr>p_id = Some (unique w + 2), p_conn_inc = unique w + 1, p_conn_dec = unique w,
     p_pool_inc = Some (m_pool_inc w), p_pool_dec = Some (m_pool_dec w), p_local = [], p_remote = []\<rparr>"

definition with_pool :: "conn_world \<Rightarrow> conn_world" where
  "with_pool w = w\<lparr>unique := unique w + 3,
     pool_bus := pool_bus w @ [(CONN_DEC, On_conn_dec (next_pl w), next_pl w, unique w), (CONN_INC, On_conn_inc (next_pl w), next_pl w, unique w + 1)],
     pl := (pl w)(next_pl w \<mapsto> added_pool w), next_pl := Suc (next_pl w), poolList := poolList w @ [next_pl w]\<rparr>"

lemma add_pool_spec:
  assumes "infoList w = []" "numbers_left w" "0 \<le> unique w"
  shows "add_pool C w = Some (with_pool w, unique w + 2)"
proof -
  have i: "int32 (unique w + 1) = unique w + 1" "int32 (unique w + 1 + 1) = unique w + 2" "int32 (unique w + 2 + 1) = unique w + 3"
    "int32 (2 + unique w) = unique w + 2" "int32 (3 + unique w) = unique w + 3"
    using assms(2,3) by (simp_all add: numbers_left_def int32_id)
  show ?thesis using assms(1)
    by (simp add: add_pool_def new_pool_def register_handler_def next_unique_id_def put_pool_def Let_def i with_pool_def added_pool_def)
qed

lemma entries_added:
  assumes "ps p = None"
  shows "entries (ps(p \<mapsto> P)) = insert (CONN_DEC, On_conn_dec p, p, p_conn_dec P) (insert (CONN_INC, On_conn_inc p, p, p_conn_inc P) (entries ps))"
proof -
  have e: "(ps(p \<mapsto> P)) q = Some Q \<longleftrightarrow> (q = p \<and> Q = P) \<or> ps q = Some Q" for q Q using assms by auto
  show ?thesis unfolding set_eq_iff insert_iff mem_entries e by blast
qed

lemma with_pool_ok:
  assumes "conn_ok w"
  shows "conn_ok (with_pool w)"
proof -
  have n: "pl w (next_pl w) = None" "pl_held w (next_pl w) = 0" "next_pl w \<notin> set (poolList w)"
    using assms by (auto simp: conn_ok_def list_ok_def)
  have l: "\<forall>i \<in> set (numbers (pool_bus w)). i < unique w" using assms by (simp add: conn_ok_def bus_ok_def)
  have "bus_ok (with_pool w)"
    using assms l entries_added [where ps = "pl w" and p = "next_pl w" and P = "added_pool w", OF n(1)]
    by (auto simp: conn_ok_def bus_ok_def with_pool_def added_pool_def)
  moreover have "list_ok (with_pool w)"
    using assms n by (auto simp: conn_ok_def list_ok_def with_pool_def less_Suc_eq)
  moreover have "ids_ok (with_pool w)"
  proof -
    have old: "\<exists>i < unique w. p_id P = Some i" if "pl w p = Some P" for p P
      using assms that by (simp add: conn_ok_def ids_ok_def)
    have "p_id P \<noteq> Some (unique w + 2)" "\<exists>i < unique w + 3. p_id P = Some i" if "pl w p = Some P" for p P
      using old [OF that] by auto
    moreover have "ids_ok w" using assms by (simp add: conn_ok_def)
    ultimately show ?thesis unfolding ids_ok_def with_pool_def by (simp add: added_pool_def) metis
  qed
  moreover have "members_ok (with_pool w)" "mgr_ok (with_pool w)"
    using assms by (auto simp: conn_ok_def members_ok_def mgr_ok_def with_pool_def added_pool_def holds_members_def)
  ultimately show ?thesis by (simp add: conn_ok_def)
qed

lemma add_pool_ok: "conn_ok w \<Longrightarrow> numbers_left w \<Longrightarrow> add_pool C w = Some (w', i) \<Longrightarrow> conn_ok w'"
  using add_pool_spec [of w C] add_pool_stuck [of w C] with_pool_ok [of w]
  by (cases "infoList w = []") (auto simp: conn_ok_def ids_ok_def)

text \<open>Reports of connections.\<close>

lemma on_pool_inc_ok: "conn_ok w \<Longrightarrow> numbers_left w \<Longrightarrow> on_pool_inc C msg w = Some w' \<Longrightarrow> conn_ok w'"
  by (auto simp: on_pool_inc_def bind_eq_Some_conv split: if_splits dest: add_pool_ok)

lemma on_unavaliable_ok: "conn_ok (on_unavaliable w) \<longleftrightarrow> conn_ok w"
  by (simp add: on_unavaliable_def conn_ok_defs)

lemma on_pool_dec_ok: "conn_ok w \<Longrightarrow> on_pool_dec msg w = Some w' \<Longrightarrow> conn_ok w'"
  using del_pool_ok [of w]
  by (auto simp: on_pool_dec_def bind_eq_Some_conv case_prod_unfold Let_def on_unavaliable_ok split: if_splits)

lemma mgr_call_ok: "conn_ok w \<Longrightarrow> numbers_left w \<Longrightarrow> mgr_call C name msg i w = Some w' \<Longrightarrow> conn_ok w'"
  by (auto simp: mgr_call_def split: option.splits mgr_handler.splits dest: on_pool_inc_ok on_pool_dec_ok)

text \<open>The connections of the manager do not change while it adds or removes pools.\<close>

lemma unref_pools_cn: "cn (fold unref_pool ps w) = cn w"
  by (induction ps arbitrary: w) (simp_all add: unref_pool_def end_pool_def split: option.split)

lemma del_pool_cn: "cn (fst (del_pool i w)) = cn w"
  by (simp add: del_pool_def unref_pools_cn Let_def)

lemma on_conn_dec_ok:
  assumes "conn_ok w" "numbers_left w" "on_conn_dec C p c w = Some w'"
  shows "conn_ok w'"
proof -
  have u: "conn_ok u \<and> numbers_left u" if "pool_del_conn p c w = Some u" for u
    using that assms(2) pool_del_conn_ok [OF assms(1) that] by (auto simp: numbers_left_def pool_del_conn_def put_pool_def bind_eq_Some_conv)
  from assms(3) consider "w' = w" | u where "pool_del_conn p c w = Some u" "w' = u \<or> (\<exists>d. mgr_call C POOL_DEC p d u = Some w')"
    by (auto simp: on_conn_dec_def bind_eq_Some_conv split: if_splits)
  then show ?thesis
  proof cases
    case 2
    then show ?thesis using u [OF 2(1)] mgr_call_ok by blast
  qed (use assms(1) in simp)
qed

text \<open>\<open>on_pool_inc\<close> never changes a pool that exists, nor a connection.\<close>

lemma on_pool_inc_keeps:
  assumes "conn_ok w" "numbers_left w" "on_pool_inc C msg w = Some u" "pl w p = Some P"
  shows "cn u = cn w" "pl u p = Some P"
proof -
  have "u = w \<or> u = with_pool w"
    using assms(1-3) add_pool_stuck [of w C] add_pool_spec [of w C]
    by (cases "infoList w = []") (auto simp: on_pool_inc_def bind_eq_Some_conv conn_ok_def ids_ok_def split: if_splits)
  moreover have "p < next_pl w" using assms(1,4) by (auto simp: conn_ok_def list_ok_def)
  ultimately show "cn u = cn w" "pl u p = Some P" using assms(4) by (auto simp: with_pool_def)
qed

lemma mgr_call_inc:
  assumes "conn_ok w" "mgr_call C POOL_INC msg i w = Some u"
  shows "u = w \<or> on_pool_inc C msg w = Some u"
  using assms by (auto simp: conn_ok_def mgr_ok_def mgr_call_def POOL_INC_def POOL_DEC_def split: if_splits)

lemma on_conn_inc_ok:
  assumes "conn_ok w" "numbers_left w" "on_conn_inc C p c w = Some w'"
  shows "conn_ok w'"
proof -
  from assms(3) obtain x i P where x: "cn w c = Some x" "pool_id w p = Some i" "pl w p = Some P"
    by (auto simp: on_conn_inc_def bind_eq_Some_conv pool_id_def split: if_splits)
  show ?thesis
  proof (cases "c_pool x = i")
    case False
    with assms x show ?thesis by (simp add: on_conn_inc_def)
  next
    case True
    then obtain u where u: "pool_add_conn p c u = Some w'" "u = w \<or> (\<exists>d. mgr_call C POOL_INC p d w = Some u)"
      using assms(3) x by (auto simp: on_conn_inc_def bind_eq_Some_conv split: if_splits)
    then have "u = w \<or> on_pool_inc C p w = Some u" using mgr_call_inc [OF assms(1)] by blast
    then have "conn_ok u" "cn u c = Some x" "pl u p = Some P"
      using on_pool_inc_ok [OF assms(1,2)] on_pool_inc_keeps [OF assms(1,2) _ x(3)] assms(1) x by auto
    with u(1) x(2,3) True show ?thesis by (intro pool_add_conn_ok [of u p c w' x]) (simp_all add: pool_id_def)
  qed
qed

lemma pool_call_ok: "conn_ok w \<Longrightarrow> numbers_left w \<Longrightarrow> pool_call C name c i w = Some w' \<Longrightarrow> conn_ok w'"
  by (auto simp: pool_call_def split: option.splits pool_handler.splits dest: on_conn_inc_ok on_conn_dec_ok)

lemma report_ok:
  assumes "conn_ok w" "numbers_left w" "onConnected C c w = Some w' \<or> onDisconnected C c w = Some w'"
  shows "conn_ok w'"
proof -
  have "conn_ok (set_conn_state c s w)" "numbers_left (set_conn_state c s w)" for s
    using assms(1,2) by (simp_all add: set_conn_state_ok) (simp add: numbers_left_def set_conn_state_def)
  note pool_call_ok [OF this]
  then show ?thesis using assms(3) by (auto simp: onConnected_def onDisconnected_def bind_eq_Some_conv)
qed

text \<open>The loops over the pools.\<close>

lemma pool_loop_keeps:
  assumes "\<And>p u v. I u \<Longrightarrow> f p u = Some v \<Longrightarrow> I v"
  shows "pool_loop f it w = Some w' \<Longrightarrow> I w \<Longrightarrow> I w'"
proof -
  assume a: "pool_loop f it w = Some w'" and w: "I w"
  let ?P = "\<lambda>f it w w'. (\<forall>p u v. I u \<longrightarrow> f p u = Some v \<longrightarrow> I v) \<longrightarrow> I w \<longrightarrow> I w'"
  have "?P f it w w'"
  proof (rule pool_loop.raw_induct [where P = ?P, OF _ a])
    fix loop f it w and y :: conn_world
    assume IH: "\<And>f it w y. loop f it w = Some y \<Longrightarrow> ?P f it w y"
      and st: "(case it of Nullp \<Rightarrow> Some w | Ptr p \<Rightarrow> do { w \<leftarrow> f p w; it \<leftarrow> next_pool p (poolList w); loop f it w }) = Some y"
    show "?P f it w y"
    proof (cases it)
      case (Ptr p)
      with st obtain u i where "f p w = Some u" "loop f i u = Some y" by (auto simp: bind_eq_Some_conv)
      then show ?thesis using IH by blast
    qed (use st in simp)
  qed
  then show "I w'" using assms w by blast
qed

section \<open>Reachable worlds\<close>

text \<open>Connecting takes time: nothing is reported before \<open>connect\<close> returns.\<close>

definition connects_later :: "connect_fn \<Rightarrow> bool" where
  "connects_later C \<longleftrightarrow> (\<forall>c w. \<exists>b. C c w = Some (w, b))"

inductive conn_step :: "connect_fn \<Rightarrow> conn_world \<Rightarrow> conn_world \<Rightarrow> bool" for C where
  new: "add_pool C w = Some (w', i) \<Longrightarrow> numbers_left w \<Longrightarrow> conn_step C w w'"
| del: "conn_step C w (fst (del_pool i w))"
| wanted: "mgr_add_conn C info w = Some (w', b) \<Longrightarrow> conn_step C w w'"
| unwanted: "mgr_del_conn info w = Some (w', b) \<Longrightarrow> conn_step C w w'"
| pool: "conn_step C w (fst (get_pool w))"
| release: "0 < pl_held w p \<Longrightarrow> conn_step C w (release_pool p w)"
| conn: "get_conn w = Some (w', c) \<Longrightarrow> conn_step C w w'"
| report: "onConnected C c w = Some w' \<or> onDisconnected C c w = Some w' \<Longrightarrow> numbers_left w \<Longrightarrow> conn_step C w w'"

inductive conn_reachable :: "connect_fn \<Rightarrow> conn_world \<Rightarrow> bool" for C where
  start: "0 \<le> n \<Longrightarrow> n + 2 < 2 ^ 31 \<Longrightarrow> conn_reachable C (snd (new_conn_manager C d n))"
| step: "conn_reachable C w \<Longrightarrow> conn_step C w w' \<Longrightarrow> conn_reachable C w'"

lemma mgr_add_conn_ok:
  assumes "connects_later C" "conn_ok w" "mgr_add_conn C info w = Some (w', b)"
  shows "conn_ok w'"
proof -
  let ?w = "w\<lparr>infoList := infoList w @ [info]\<rparr>"
  from assms(3) have l: "pool_loop (\<lambda>p w. map_option fst (pool_add_info C p info w)) (first_pool ?w) ?w = Some w'"
    by (simp add: mgr_add_conn_def Let_def bind_eq_Some_conv)
  have "conn_ok v" if "conn_ok u" "map_option fst (pool_add_info C p info u) = Some v" for p u v
  proof -
    from that(2) obtain u' c where "make_conn p info u = Some (u', c)" "map_option fst (C c u') = Some v"
      by (auto simp: pool_add_info_def bind_eq_Some_conv)
    moreover from this assms(1) have "v = u'" unfolding connects_later_def by (metis fst_conv option.inject option.simps(9))
    ultimately show ?thesis using make_conn_ok [OF that(1)] by simp
  qed
  moreover have "conn_ok ?w" using assms(2) by (simp add: conn_ok_defs)
  ultimately show ?thesis using pool_loop_keeps [OF _ l, of conn_ok] by blast
qed

lemma mgr_del_conn_ok:
  assumes "conn_ok w" "mgr_del_conn info w = Some (w', b)"
  shows "conn_ok w'"
proof -
  let ?w = "w\<lparr>infoList := removeAll info (infoList w)\<rparr>"
  from assms(2) have l: "pool_loop (\<lambda>p. pool_del_info p info) (first_pool ?w) ?w = Some w'"
    by (simp add: mgr_del_conn_def Let_def bind_eq_Some_conv)
  have "conn_ok ?w" using assms(1) by (simp add: conn_ok_defs)
  then show ?thesis using pool_loop_keeps [OF _ l, of conn_ok] pool_del_info_ok by blast
qed

lemma conn_step_ok:
  assumes "connects_later C" "conn_step C w w'" "conn_ok w"
  shows "conn_ok w'"
  using assms(2)
proof cases
  case (new i)
  then show ?thesis using add_pool_ok [OF assms(3)] by simp
next
  case (del i)
  then show ?thesis using del_pool_ok [OF assms(3)] by simp
next
  case (wanted info b)
  then show ?thesis using mgr_add_conn_ok [OF assms(1,3)] by simp
next
  case (unwanted info b)
  then show ?thesis using mgr_del_conn_ok [OF assms(3)] by simp
next
  case pool
  then show ?thesis using get_pool_ok [OF assms(3)] by simp
next
  case (release p)
  then show ?thesis using release_pool_ok [OF assms(3)] by simp
next
  case (conn c)
  then show ?thesis using get_conn_ok [OF assms(3)] by simp
next
  case (report c)
  then show ?thesis using report_ok [OF assms(3)] by blast
qed

lemma new_conn_manager_ok: "0 \<le> n \<Longrightarrow> n + 2 < 2 ^ 31 \<Longrightarrow> conn_ok (snd (new_conn_manager C d n))"
  by (simp add: new_conn_manager_def register_handler_def next_unique_id_def Let_def conn_ok_defs entries_def int32_id)

lemma reachable_conn_ok:
  assumes "connects_later C"
  shows "conn_reachable C w \<Longrightarrow> conn_ok w"
  by (induction rule: conn_reachable.induct) (auto intro: new_conn_manager_ok conn_step_ok [OF assms])

section \<open>Properties\<close>

lemma handlers_found:
  assumes "conn_ok w" "pl w p = Some P"
  shows "call_target CONN_DEC (p_conn_dec P) (pool_bus w) = Some (On_conn_dec p)"
    "call_target CONN_INC (p_conn_inc P) (pool_bus w) = Some (On_conn_inc p)"
proof -
  have "set (pool_bus w) = entries (pl w)" and d: "distinct (numbers (pool_bus w))" using assms(1) by (simp_all add: conn_ok_def bus_ok_def)
  then have "(CONN_DEC, On_conn_dec p, p, p_conn_dec P) \<in> set (pool_bus w)" "(CONN_INC, On_conn_inc p, p, p_conn_inc P) \<in> set (pool_bus w)"
    using assms(2) by (auto simp: mem_entries)
  then show "call_target CONN_DEC (p_conn_dec P) (pool_bus w) = Some (On_conn_dec p)"
    "call_target CONN_INC (p_conn_inc P) (pool_bus w) = Some (On_conn_inc p)" using call_target_member [OF d] by blast+
qed

text \<open>
  C10. However the pools are used, every handler on the bus belongs to a pool that exists, and the two
  handlers of a pool are found under its numbers: no report reaches a destroyed pool, and none is
  lost. The pools of the manager are distinct and exist, no two pools have the same number, and the
  connections in a pool exist and bear its number.
\<close>

theorem handlers_and_pools_agree:
  assumes "connects_later C" and "conn_reachable C w"
  shows "(\<forall>name f t i. (name, f, t, i) \<in> set (pool_bus w) \<longrightarrow> pl w t \<noteq> None) \<and>
    (\<forall>p P. pl w p = Some P \<longrightarrow> call_target CONN_DEC (p_conn_dec P) (pool_bus w) = Some (On_conn_dec p) \<and>
       call_target CONN_INC (p_conn_inc P) (pool_bus w) = Some (On_conn_inc p) \<and>
       (\<forall>c \<in> set (p_local P @ p_remote P). \<exists>x. cn w c = Some x \<and> p_id P = Some (c_pool x))) \<and>
    distinct (poolList w) \<and> (\<forall>p \<in> set (poolList w). pl w p \<noteq> None) \<and>
    (\<forall>p q P Q. pl w p = Some P \<longrightarrow> pl w q = Some Q \<longrightarrow> p_id P = p_id Q \<longrightarrow> p = q)"
proof -
  have ok: "conn_ok w" using assms by (rule reachable_conn_ok)
  then have b: "set (pool_bus w) = entries (pl w)" by (simp add: conn_ok_def bus_ok_def)
  have m: "holds_members (cn w) P" if "pl w p = Some P" for p P using ok that by (simp add: conn_ok_def members_ok_def)
  have "\<forall>c \<in> set (p_local P @ p_remote P). \<exists>x. cn w c = Some x \<and> p_id P = Some (c_pool x)" if "pl w p = Some P" for p P
    using m [OF that] unfolding holds_members_def in_pool_def set_append by blast
  moreover have "\<forall>name f t i. (name, f, t, i) \<in> set (pool_bus w) \<longrightarrow> pl w t \<noteq> None" by (auto simp: b(1) mem_entries)
  moreover have "distinct (poolList w)" "\<forall>p \<in> set (poolList w). pl w p \<noteq> None"
    using ok unfolding conn_ok_def list_ok_def domIff by simp_all
  moreover have "\<forall>p q P Q. pl w p = Some P \<longrightarrow> pl w q = Some Q \<longrightarrow> p_id P = p_id Q \<longrightarrow> p = q"
    using ok by (simp add: conn_ok_def ids_ok_def)
  ultimately show ?thesis using handlers_found [OF ok] by blast
qed

definition at_once :: connect_fn where
  "at_once c w = Some (w, True)"

definition blank_discovery :: "conn_world discovery" where
  "blank_discovery = \<lparr>conn_list = [], get_conn_f = None, cfgInc = None, cfgDec = None, sd_interval = 5000, sd_timer = 0\<rparr>"

definition demo_world :: conn_world where
  "demo_world = with_pool (snd (new_conn_manager at_once blank_discovery 0))"

lemma at_once_later: "connects_later at_once"
  by (auto simp: connects_later_def at_once_def)

lemma demo_world_reachable: "conn_reachable at_once demo_world"
proof -
  let ?w = "snd (new_conn_manager at_once blank_discovery 0)"
  have r: "conn_reachable at_once ?w" by (rule conn_reachable.start) simp_all
  have w: "infoList ?w = []" "numbers_left ?w" "0 \<le> unique ?w"
    by (simp_all add: new_conn_manager_def register_handler_def next_unique_id_def numbers_left_def int32_id Let_def)
  have "add_pool at_once ?w = Some (demo_world, unique ?w + 2)" using add_pool_spec [OF w] by (simp add: demo_world_def)
  then show ?thesis using conn_step.new [of at_once ?w] w(2) conn_reachable.step [OF r] by blast
qed

lemma demo_world_pool: "poolList demo_world = [1]" "pl demo_world 1 = Some (demo_pool [] [] 4 \<lparr>p_conn_dec := 2, p_conn_inc := 3\<rparr>)"
  by (simp_all add: demo_world_def with_pool_def new_conn_manager_def register_handler_def next_unique_id_def added_pool_def
      demo_pool_def int32_id Let_def)

theorem handlers_and_pools_agree_witness:
  "\<exists>w P. conn_reachable at_once w \<and> poolList w = [1] \<and> pl w 1 = Some P \<and>
     call_target CONN_INC (p_conn_inc P) (pool_bus w) = Some (On_conn_inc 1)"
  using handlers_and_pools_agree [OF at_once_later demo_world_reachable] demo_world_pool demo_world_reachable by blast

lemma has_number: "conn_ok w \<Longrightarrow> pl w p = Some P \<Longrightarrow> \<exists>j. p_id P = Some j"
  unfolding conn_ok_def ids_ok_def by blast

lemma only_once: "p \<in> set xs \<Longrightarrow> distinct xs \<Longrightarrow> filter (\<lambda>q. q = p) xs = [p] \<and> filter (\<lambda>q. q \<noteq> p) xs = remove1 p xs"
  by (induction xs) (auto simp: filter_empty_conv intro: filter_True)

text \<open>A pool that nobody holds is destroyed when the manager is told to remove it.\<close>

definition pool_gone :: "nat \<Rightarrow> conn_world \<Rightarrow> conn_world" where
  "pool_gone p w = end_pool p (w\<lparr>poolList := remove1 p (poolList w)\<rparr>)"

lemma pool_gone_fields:
  assumes "conn_ok w" "pl w p = Some P"
  shows "poolList (pool_gone p w) = remove1 p (poolList w)" "pl (pool_gone p w) = (pl w)(p := None)"
    "unavailable (pool_gone p w) = unavailable w" "(name, f, p, i) \<notin> set (pool_bus (pool_gone p w))"
  using assms entries_removed [of w p P]
  by (auto simp: pool_gone_def end_pool_def conn_ok_def mem_entries)

lemma on_pool_dec_spec:
  assumes "conn_ok w" "pl w p = Some P" "pl_held w p = 0"
  shows "on_pool_dec p w = Some (if poolList w = [p] then on_unavaliable (pool_gone p w) else pool_gone p w)"
proof -
  have inl: "p \<in> set (poolList w)" "distinct (poolList w)" using assms by (auto simp: conn_ok_def list_ok_def)
  obtain j where "p_id P = Some j" using has_number [OF assms(1,2)] by blast
  then have j: "pool_id w p = Some j" using assms(2) by (simp add: pool_id_def)
  have same: "pool_id w q = Some j \<longleftrightarrow> q = p" for q
  proof -
    have "\<And>Q. pl w q = Some Q \<Longrightarrow> p_id Q = Some j \<Longrightarrow> q = p"
      using assms(1,2) j unfolding conn_ok_def ids_ok_def pool_id_def by auto
    then show ?thesis using j by (auto simp: pool_id_def bind_eq_Some_conv)
  qed
  have "del_pool j w = (pool_gone p w, True)"
    using only_once [OF inl] inl(2) assms(3) by (simp add: del_pool_def same unref_pool_def pool_gone_def)
  moreover have "remove1 p (poolList w) = [] \<longleftrightarrow> poolList w = [p]" using inl by (cases "poolList w") auto
  ultimately show ?thesis using pool_gone_fields(1) [OF assms(1,2)] by (simp add: on_pool_dec_def j)
qed

lemma pool_emptied:
  fixes P x
  defines "Q \<equiv> P\<lparr>p_local := [], p_remote := []\<rparr>"
  assumes ok: "conn_ok w" and p: "pl w p = Some P" "pl_held w p = 0" and c: "cn w c = Some x" "c_dec_id x = p_conn_dec P"
    and m: "p_id P = Some (c_pool x)" "set (p_local P @ p_remote P) \<subseteq> {c}"
    and k: "p_local P \<noteq> [] \<longrightarrow> conn_kind (c_info x) = 0" "p_remote P \<noteq> [] \<longrightarrow> conn_kind (c_info x) \<noteq> 0"
  shows "\<exists>v. onDisconnected C c w = Some (if poolList w = [p] then on_unavaliable (pool_gone p v) else pool_gone p v) \<and>
    conn_ok v \<and> poolList v = poolList w \<and> pl v = (pl w)(p \<mapsto> Q) \<and> unavailable v = unavailable w"
proof -
  let ?u = "set_conn_state c False w"
  let ?v = "put_pool p Q ?u"
  have x: "cn ?u c = Some (x\<lparr>c_state := Some False\<rparr>)" and pu: "pl ?u p = Some P" using p(1) c(1) by (simp_all add: set_conn_state_def)
  have f: "filter (\<lambda>d. d \<noteq> c) (p_local P) = []" "filter (\<lambda>d. d \<noteq> c) (p_remote P) = []" using m(2) by (auto simp: filter_empty_conv)
  have del: "pool_del_conn p c ?u = Some ?v"
    using x pu k f by (cases P) (auto simp: pool_del_conn_def Q_def)
  have okv: "conn_ok ?v"
    by (rule pool_filter_ok [OF set_conn_state_ok [OF ok] pu]) (simp_all add: same_numbers_def Q_def)
  have lv: "poolList ?v = poolList w" "pl ?v = (pl w)(p \<mapsto> Q)" "pl_held ?v = pl_held w" "unavailable ?v = unavailable w"
    "mgr_bus ?v = mgr_bus w" by (simp_all add: put_pool_def set_conn_state_def)
  have "on_pool_dec p ?v = Some (if poolList w = [p] then on_unavaliable (pool_gone p ?v) else pool_gone p ?v)"
    using on_pool_dec_spec [OF okv, of p Q] p(2) by (simp add: lv)
  moreover have "mgr_call C POOL_DEC p (m_pool_dec w) ?v = on_pool_dec p ?v"
    using ok lv(5) by (simp add: mgr_call_def conn_ok_def mgr_ok_def POOL_INC_def POOL_DEC_def)
  moreover have "p_pool_dec P = Some (m_pool_dec w)" using ok p(1) by (simp add: conn_ok_def ids_ok_def)
  moreover have "call_target CONN_DEC (c_dec_id x) (pool_bus ?u) = Some (On_conn_dec p)"
    using handlers_found(1) [OF ok p(1)] c(2) by (simp add: set_conn_state_def)
  ultimately have "onDisconnected C c w = Some (if poolList w = [p] then on_unavaliable (pool_gone p ?v) else pool_gone p ?v)"
    using c(1) x pu m(1) del lv(2) by (simp add: onDisconnected_def pool_call_def on_conn_dec_def pool_id_def Q_def)
  then show ?thesis using okv lv by blast
qed

text \<open>
  C33. When the last connection of a pool is lost the pool goes: it leaves the manager's list and is
  destroyed, with its handlers; the other pools stay as they are, and the manager reports that nothing
  is available exactly when it was the last pool.
\<close>

theorem last_connection_lost:
  assumes "connects_later C" and "conn_reachable C w" and "pl w p = Some P" and "p_local P @ p_remote P = [c]"
    and "pl_held w p = 0" and "cn w c = Some x" and "c_dec_id x = p_conn_dec P"
  shows "\<exists>w'. onDisconnected C c w = Some w' \<and> poolList w' = remove1 p (poolList w) \<and> pl w' = (pl w)(p := None) \<and>
    (\<forall>name f t i. (name, f, t, i) \<in> set (pool_bus w') \<longrightarrow> t \<noteq> p) \<and>
    unavailable w' = unavailable w + (if poolList w = [p] then 1 else 0)"
proof -
  let ?Q = "P\<lparr>p_local := [], p_remote := []\<rparr>"
  have ok: "conn_ok w" using assms(1,2) by (rule reachable_conn_ok)
  then have mem: "holds_members (cn w) P" using assms(3) by (simp add: conn_ok_def members_ok_def)
  have "p_id P = Some (c_pool x)" "set (p_local P @ p_remote P) \<subseteq> {c}" "p_local P \<noteq> [] \<longrightarrow> conn_kind (c_info x) = 0"
      "p_remote P \<noteq> [] \<longrightarrow> conn_kind (c_info x) \<noteq> 0"
    using mem assms(4,6) by (auto simp: holds_members_def in_pool_def append_eq_Cons_conv)
  from pool_emptied [OF ok assms(3,5,6,7) this, of C] obtain v where
    v: "onDisconnected C c w = Some (if poolList w = [p] then on_unavaliable (pool_gone p v) else pool_gone p v)"
      "conn_ok v" "poolList v = poolList w" "pl v = (pl w)(p \<mapsto> ?Q)" "unavailable v = unavailable w" by blast
  have "pl v p = Some ?Q" using v(4) by simp
  then show ?thesis using v pool_gone_fields [OF v(2), of p ?Q]
    by (intro exI [of _ "if poolList w = [p] then on_unavaliable (pool_gone p v) else pool_gone p v"])
       (auto simp: on_unavaliable_def)
qed

definition redis_info :: ConnInfo where
  "redis_info = ConnInfo [] [] ''127.0.0.1'' ''6379'' 0"

lemma demo_connected:
  "\<exists>w P x. conn_reachable at_once w \<and> pl w 1 = Some P \<and> p_local P @ p_remote P = [1] \<and> pl_held w 1 = 0 \<and>
     cn w 1 = Some x \<and> c_dec_id x = p_conn_dec P \<and> poolList w = [1] \<and> unavailable w = 0"
proof -
  note demo = demo_world_def with_pool_def new_conn_manager_def register_handler_def next_unique_id_def added_pool_def int32_id Let_def
  let ?c = "\<lparr>c_info = redis_info, c_pool = 4, c_state = None, c_inc_id = 3, c_dec_id = 2\<rparr>"
  let ?w = "demo_world\<lparr>infoList := [redis_info], cn := [1 \<mapsto> ?c], next_cn := 2\<rparr>"
  have "mgr_add_conn at_once redis_info demo_world = Some (?w, True)"
    by (simp add: mgr_add_conn_def first_pool_def pool_loop.simps pool_add_info_def make_conn_def at_once_def demo)
  then have r: "conn_reachable at_once ?w"
    using conn_step.wanted conn_reachable.step [OF demo_world_reachable] by blast
  let ?u = "set_conn_state 1 True ?w"
  let ?P = "(demo_pool [1] [] 4)\<lparr>p_conn_dec := 2, p_conn_inc := 3\<rparr>"
  have "call_target CONN_INC 3 (pool_bus ?u) = Some (On_conn_inc 1)"
    by (simp add: set_conn_state_def CONN_DEC_def CONN_INC_def demo)
  moreover have "on_conn_inc at_once 1 1 ?u = Some (put_pool 1 ?P ?u)"
    by (simp add: on_conn_inc_def pool_id_def set_conn_state_def mgr_call_def on_pool_inc_def pool_add_conn_def put_pool_def
        redis_info_def demo_pool_def POOL_INC_def POOL_DEC_def demo)
  ultimately have "onConnected at_once 1 ?w = Some (put_pool 1 ?P ?u)"
    by (simp add: onConnected_def pool_call_def)
  moreover have "numbers_left ?w" by (simp add: numbers_left_def demo)
  ultimately have "conn_reachable at_once (put_pool 1 ?P ?u)"
    using conn_step.report conn_reachable.step [OF r] by blast
  then show ?thesis
    by (intro exI [of _ "put_pool 1 ?P ?u"] exI [of _ ?P] exI [of _ "?c\<lparr>c_state := Some True\<rparr>"])
       (simp add: put_pool_def set_conn_state_def demo_pool_def demo)
qed

theorem last_connection_lost_witness:
  "\<exists>w w'. poolList w = [1] \<and> onDisconnected at_once 1 w = Some w' \<and> poolList w' = [] \<and> pl w' 1 = None \<and> unavailable w' = 1"
proof -
  obtain w P x where w: "conn_reachable at_once w" "pl w 1 = Some P" "p_local P @ p_remote P = [1]" "pl_held w 1 = 0"
    "cn w 1 = Some x" "c_dec_id x = p_conn_dec P" "poolList w = [1]" "unavailable w = 0"
    using demo_connected by blast
  from last_connection_lost [OF at_once_later w(1-6)] obtain w' where "onDisconnected at_once 1 w = Some w'"
    "poolList w' = remove1 1 (poolList w)" "pl w' = (pl w)(1 := None)" "unavailable w' = unavailable w + (if poolList w = [1] then 1 else 0)"
    by blast
  then show ?thesis using w(7,8) by (intro exI [of _ w] exI [of _ w']) simp
qed

text \<open>
  Adding a pool after connections were made known goes wrong: their numbers are taken from the new
  pool before it has one. Without known connections the new pool is registered, numbered and listed.
\<close>

theorem pool_numbered_too_late:
  assumes "numbers_left w" and "0 \<le> unique w"
  shows "add_pool C w = (if infoList w = [] then Some (with_pool w, unique w + 2) else None)"
  using add_pool_spec [of w C] add_pool_stuck [of w C] assms by auto

theorem pool_numbered_too_late_witness:
  "add_pool at_once (demo_conns\<lparr>infoList := [redis_info]\<rparr>) = None \<and>
   add_pool at_once demo_conns = Some (with_pool demo_conns, 52)"
  using pool_numbered_too_late [of demo_conns at_once] pool_numbered_too_late [of "demo_conns\<lparr>infoList := [redis_info]\<rparr>" at_once]
  by (simp add: demo_conns_def numbers_left_def)

section \<open>Discovery\<close>

lemma inc_loop_spec:
  assumes "\<And>i w. f i w \<noteq> None"
  shows "cfgInc d = Some f \<Longrightarrow> distinct is \<Longrightarrow> inc_loop is d w =
    Some (d\<lparr>conn_list := fold insort_insert is (conn_list d)\<rparr>, fold (\<lambda>i w. fst (the (f i w))) (filter (\<lambda>i. i \<notin> set (conn_list d)) is) w)"
proof (induction "is" arbitrary: d w)
  case (Cons i "is")
  show ?case
  proof (cases "i \<in> set (conn_list d)")
    case True
    then show ?thesis using Cons by (simp add: insort_insert_triv)
  next
    case False
    obtain u b where u: "f i w = Some (u, b)" using assms [of i w] by auto
    let ?d = "d\<lparr>conn_list := insort_insert i (conn_list d)\<rparr>"
    have "filter (\<lambda>j. j \<notin> set (conn_list ?d)) is = filter (\<lambda>j. j \<notin> set (conn_list d)) is"
      using Cons.prems(2) by (intro filter_cong) (auto simp: set_insort_insert)
    then show ?thesis using Cons.IH [of ?d u] Cons.prems u False by (simp add: onConnInfoInc_def)
  qed
qed simp

lemma dec_loop_spec: "dec_loop wanted is d w = (if set is \<subseteq> set wanted then Some (d, w) else None)"
  by (induction "is") (auto split: bind_split)

lemma fold_insort: "set (fold insort_insert is l) = set is \<union> set l" "sorted l \<Longrightarrow> sorted (fold insort_insert is l)"
  "distinct l \<Longrightarrow> distinct (fold insort_insert is l)"
  by (induction "is" arbitrary: l) (auto simp: set_insort_insert sorted_insort_insert distinct_insort_insert)

text \<open>
  C36. Asking the service discovery: as long as every known connection is still wanted, the new ones are
  announced, each once and in their order, and the known connections are then the wanted ones, ordered;
  but as soon as a known connection is not wanted any more, the loop over the known connections goes
  on from an entry that it has erased.
\<close>

theorem discovery_only_grows:
  assumes "get_conn_f d = Some g" and "g w = (wanted, u)" and "distinct wanted" and "cfgInc d = Some f"
    and "\<And>i w. f i w \<noteq> None" and "sorted (conn_list d)" and "distinct (conn_list d)"
  shows "if set (conn_list d) \<subseteq> set wanted then
      \<exists>l. getConnInfo d w = Some ((d\<lparr>conn_list := l\<rparr>, fold (\<lambda>i w. fst (the (f i w))) (filter (\<lambda>i. i \<notin> set (conn_list d)) wanted) u), True) \<and>
        set l = set wanted \<and> sorted l \<and> distinct l
    else getConnInfo d w = None"
proof -
  let ?l = "fold insort_insert wanted (conn_list d)"
  let ?u = "fold (\<lambda>i w. fst (the (f i w))) (filter (\<lambda>i. i \<notin> set (conn_list d)) wanted) u"
  have "inc_loop wanted d u = Some (d\<lparr>conn_list := ?l\<rparr>, ?u)" by (rule inc_loop_spec [OF assms(5,4,3)])
  then have "getConnInfo d w = (if set (conn_list d) \<subseteq> set wanted then Some ((d\<lparr>conn_list := ?l\<rparr>, ?u), True) else None)"
    using assms(1,2) by (simp add: getConnInfo_def dec_loop_spec fold_insort(1))
  moreover have "sorted ?l" "distinct ?l" "set (conn_list d) \<subseteq> set wanted \<longrightarrow> set ?l = set wanted"
    using fold_insort(2,3) assms(6,7) by (auto simp: fold_insort(1))
  ultimately show ?thesis by (auto intro!: exI [of _ ?l])
qed

definition announcing :: "ConnInfo list \<Rightarrow> ConnInfo list \<Rightarrow> ConnInfo list discovery" where
  "announcing known wanted = \<lparr>conn_list = known, get_conn_f = Some (\<lambda>w. (wanted, w)),
     cfgInc = Some (\<lambda>i w. Some (w @ [i], True)), cfgDec = Some (\<lambda>i w. Some (w, True)), sd_interval = 5000, sd_timer = 0\<rparr>"

theorem discovery_only_grows_witness:
  "(\<exists>l. getConnInfo (announcing [] [redis_info]) [] = Some (((announcing [] [redis_info])\<lparr>conn_list := l\<rparr>, [redis_info]), True)) \<and>
   getConnInfo (announcing [redis_info] []) [] = None"
proof -
  note th = discovery_only_grows [where f = "\<lambda>i w. Some (w @ [i], True)"]
  show ?thesis
    using th [of "announcing [] [redis_info]" "\<lambda>w. ([redis_info], w)" "[]" "[redis_info]" "[]"]
      th [of "announcing [redis_info] []" "\<lambda>w. ([], w)" "[]" "[]" "[]"]
    by (auto simp: announcing_def)
qed

section \<open>Connections that fail at once\<close>

lemma next_pool_gone: "p \<notin> set ps \<Longrightarrow> next_pool p ps = None"
  by (induction ps) auto

text \<open>
  C37. When a connection to be added fails before \<open>connect\<close> returns, and its pool has no other
  connection, the pool is removed from the list that the manager is iterating over, and the iteration
  goes on from an entry that is gone.
\<close>

theorem failing_connection_breaks_iteration:
  assumes "connects_later D" and "conn_reachable D w" and "poolList w = p # ps" and "pl w p = Some P"
    and "p_local P = []" and "p_remote P = []" and "pl_held w p = 0"
    and "\<And>c u. C c u = map_option (\<lambda>v. (v, False)) (onDisconnected D c u)"
  shows "mgr_add_conn C info w = None"
proof -
  let ?w = "w\<lparr>infoList := infoList w @ [info]\<rparr>"
  have ok: "conn_ok ?w" "distinct (poolList w)"
    using reachable_conn_ok [OF assms(1,2)] by (simp_all add: conn_ok_defs)
  have "pl ?w p = Some P" using assms(4) by simp
  then obtain j where j: "p_id P = Some j" using has_number [OF ok(1)] by blast
  let ?x = "\<lparr>c_info = info, c_pool = j, c_state = None, c_inc_id = p_conn_inc P, c_dec_id = p_conn_dec P\<rparr>"
  let ?u = "?w\<lparr>cn := (cn w)(next_cn w \<mapsto> ?x), next_cn := Suc (next_cn w)\<rparr>"
  have mk: "make_conn p info ?w = Some (?u, next_cn w)" using assms(4) j by (simp add: make_conn_def Let_def)
  have "conn_ok ?u" by (rule make_conn_ok [OF ok(1) mk])
  from pool_emptied [OF this, of p P "next_cn w" ?x D] assms(4-7) j obtain v where
    v: "onDisconnected D (next_cn w) ?u = Some (if poolList w = [p] then on_unavaliable (pool_gone p v) else pool_gone p v)"
      "conn_ok v" "poolList v = poolList w" "pl v p = Some (P\<lparr>p_local := [], p_remote := []\<rparr>)" by auto
  let ?v = "if poolList w = [p] then on_unavaliable (pool_gone p v) else pool_gone p v"
  have "poolList ?v = remove1 p (poolList w)"
    using pool_gone_fields(1) [OF v(2,4)] v(3) by (simp add: on_unavaliable_def)
  then have "p \<notin> set (poolList ?v)" using ok(2) by (simp add: set_remove1_eq)
  then have "next_pool p (poolList ?v) = None" by (rule next_pool_gone)
  then show ?thesis
    using mk v(1) assms(3,8)
    by (simp add: mgr_add_conn_def first_pool_def pool_loop.simps [of _ "Ptr p"] pool_add_info_def Let_def)
qed

theorem failing_connection_breaks_iteration_witness:
  "mgr_add_conn (\<lambda>c u. map_option (\<lambda>v. (v, False)) (onDisconnected at_once c u)) redis_info demo_world = None"
  by (rule failing_connection_breaks_iteration [OF at_once_later demo_world_reachable demo_world_pool])
     (simp_all add: demo_pool_def demo_world_def with_pool_def new_conn_manager_def Let_def case_prod_unfold)

end
