(* ===== verification/Loops.thy ===== *)
theory Loops
  imports Timers "HOL-Library.Word"
begin

text \<open>
  Event loops as objects (include/translib/loop.h, src/translib/loop.cpp) and loops with a frame timer
  (include/translib/frameLoop.h, src/translib/frameLoop.cpp). What an event loop does while it runs is
  libevent's; this is its life: created, registered, started in a thread or not, stopped, destroyed.
\<close>

section \<open>Loops\<close>

datatype loop_status = StatusInit | StatusRunning | StatusFinished

text \<open>
  A thread object is joinable until it was joined; \<open>lp_lost\<close> counts those whose pointer was overwritten.
  \<open>lp_exit\<close> says that the loop was asked to end.
\<close>

record event_loop =
  lp_id :: "32 word"
  lp_base :: bool
  lp_thread :: "bool ptr"
  lp_status :: loop_status
  lp_exit :: bool
  lp_lost :: nat

text \<open>The registry of all loops: their addresses by number.\<close>

record loop_registry =
  sLoops :: "(32 word \<times> nat) list"
  sIdGenerater :: "32 word"

text \<open>The constructor throws when there is no event base; the loop is registered by then.\<close>

definition new_loop :: "bool \<Rightarrow> nat \<Rightarrow> loop_registry \<Rightarrow> loop_registry \<times> event_loop ptr" where
  "new_loop base_ok a R =
     (let i = sIdGenerater R + 1; R = R\<lparr>sIdGenerater := i, sLoops := map_put i a (sLoops R)\<rparr> in
      (R, if base_ok then Ptr \<lparr>lp_id = i, lp_base = True, lp_thread = Nullp, lp_status = StatusInit, lp_exit = False, lp_lost = 0\<rparr> else Nullp))"

definition loop_get :: "32 word \<Rightarrow> loop_registry \<Rightarrow> nat ptr" where
  "loop_get i R = (case map_of (sLoops R) i of None \<Rightarrow> Nullp | Some a \<Rightarrow> Ptr a)"

definition isThread :: "event_loop \<Rightarrow> bool" where
  "isThread l \<longleftrightarrow> lp_thread l \<noteq> Nullp"

text \<open>The two ends of \<open>_run\<close>; what the event loop does lies between them.\<close>

definition run_begins :: "event_loop \<Rightarrow> event_loop" where
  "run_begins l = l\<lparr>lp_status := StatusRunning\<rparr>"

definition run_ends :: "event_loop \<Rightarrow> event_loop" where
  "run_ends l = l\<lparr>lp_status := StatusFinished\<rparr>"

definition loop_start :: "bool \<Rightarrow> bool \<Rightarrow> event_loop \<Rightarrow> event_loop \<times> bool" where
  "loop_start before_ok newThread l =
     (if lp_status l \<noteq> StatusInit then (l, False)
      else if \<not> before_ok then (l, False)
      else if newThread then
        (l\<lparr>lp_thread := Ptr True, lp_lost := (if lp_thread l = Nullp then lp_lost l else Suc (lp_lost l))\<rparr>, True)
      else (run_ends (run_begins l), True))"

definition loop_stop :: "event_loop \<Rightarrow> event_loop" where
  "loop_stop l = (if lp_status l = StatusFinished then l else l\<lparr>lp_exit := True\<rparr>)"

text \<open>Joining returns when the thread has ended; joining twice throws.\<close>

definition loop_wait :: "event_loop \<Rightarrow> event_loop option" where
  "loop_wait l =
     (case lp_thread l of
        Nullp \<Rightarrow> Some l
      | Ptr joinable \<Rightarrow>
          (if lp_status l = StatusFinished then Some l
           else if \<not> joinable then None
           else Some (run_ends (l\<lparr>lp_thread := Ptr False\<rparr>))))"

text \<open>
  The destructor. The thread may or may not come to its end between the request to stop and the
  check in \<open>wait\<close> (\<open>ends\<close>). Destroying a thread object that is still joinable terminates the program.
\<close>

definition end_loop :: "bool \<Rightarrow> event_loop \<Rightarrow> loop_registry \<Rightarrow> loop_registry option" where
  "end_loop ends l R = do {
     l \<leftarrow> (case lp_thread l of
            Nullp \<Rightarrow> Some l
          | Ptr _ \<Rightarrow> do {
              let l = loop_stop l;
              l \<leftarrow> loop_wait (if ends then run_ends l else l);
              (if lp_thread l = Ptr True then None else Some (l\<lparr>lp_thread := Nullp\<rparr>)) });
     Some (R\<lparr>sLoops := map_erase (lp_id l) (sLoops R)\<rparr>) }"

section \<open>Loops with frames\<close>

record 'h frame_loop =
  fl_timer :: "'h timer"
  fl_interval :: "32 word"

definition new_frame_loop :: "'h frame_loop" where
  "new_frame_loop = \<lparr>fl_timer = new_timer, fl_interval = 10\<rparr>"

definition setFrameInterval :: "32 word \<Rightarrow> 'h frame_loop \<Rightarrow> 'h frame_loop" where
  "setFrameInterval i f = (if 0 < i then f\<lparr>fl_interval := i\<rparr> else f)"

definition curFrameRound :: "'h frame_loop \<Rightarrow> 64 word" where
  "curFrameRound f = t_curRound (fl_timer f)"

definition frame_before_loop :: "'h timer_env \<Rightarrow> 'h \<Rightarrow> 'h frame_loop \<Rightarrow> 'h frame_loop" where
  "frame_before_loop env frame f = f\<lparr>fl_timer := fst (startForever env (fl_timer f) (fl_interval f) (User frame))\<rparr>"

section \<open>Properties\<close>

text \<open>A loop that was created is found under its number, and no longer when it was destroyed.\<close>

lemma new_loop_found:
  assumes "map_ok (sLoops R)"
  shows "map_ok (sLoops (fst (new_loop ok a R)))" "loop_get (sIdGenerater R + 1) (fst (new_loop ok a R)) = Ptr a"
    "j \<noteq> sIdGenerater R + 1 \<Longrightarrow> loop_get j (fst (new_loop ok a R)) = loop_get j R"
  using assms by (simp_all add: new_loop_def loop_get_def Let_def)

lemma end_loop_gone: "end_loop ends l R = Some R' \<Longrightarrow> loop_get i R' = (if i = lp_id l then Nullp else loop_get i R)"
  by (auto simp: end_loop_def loop_wait_def loop_stop_def run_ends_def loop_get_def bind_eq_Some_conv Let_def split: ptr.splits if_splits)


text \<open>
  A loop whose constructor threw stays in the registry, and a second start before the thread has set
  the status runs the loop in two threads, one of which is never joined.
\<close>

lemma failed_loop_registered:
  assumes "map_ok (sLoops R)"
  shows "snd (new_loop False a R) = Nullp \<and> loop_get (sIdGenerater R + 1) (fst (new_loop False a R)) = Ptr a"
  using new_loop_found(2) [OF assms] by (simp add: new_loop_def Let_def)

lemma started_twice:
  assumes "lp_status l = StatusInit" "lp_thread l = Nullp"
  shows "snd (loop_start True True (fst (loop_start True True l))) \<and> lp_lost (fst (loop_start True True (fst (loop_start True True l)))) = Suc (lp_lost l)"
  using assms by (simp add: loop_start_def)

end
