(* ===== verification/Tcp_Socket.thy ===== *)
theory Tcp_Socket
  imports Prelude "HOL-Library.Sublist"
begin

text \<open>
  Sockets over the buffers of libevent (include/translib/tcpSocket.h, src/translib/tcpSocket.cpp) and the
  framing of messages by a header with their length (include/translib/tcpServerTPKT.h,
  include/translib/tcpClientTPKT.h).
\<close>

section \<open>The buffers of libevent\<close>

text \<open>
  libevent is a parameter: a buffer is of any type \<open>'b\<close>, with the operations that the code uses. What
  the code relies on is \<open>evbuffer_ok\<close>: a buffer holds a sequence of bytes (\<open>content\<close>); a view of \<open>n\<close>
  bytes is NULL when there are fewer; removing takes what is there, up to the number asked for.
\<close>

record 'b evbuffer =
  ev_length :: "'b \<Rightarrow> nat"
  ev_pullup :: "nat \<Rightarrow> 'b \<Rightarrow> 'b \<times> bytes ptr"
  ev_remove :: "nat \<Rightarrow> 'b \<Rightarrow> 'b \<times> bytes \<times> int"
  ev_drain :: "nat \<Rightarrow> 'b \<Rightarrow> 'b"
  ev_write :: "bytes \<Rightarrow> 'b \<Rightarrow> 'b \<times> int"

definition evbuffer_ok :: "'b evbuffer \<Rightarrow> ('b \<Rightarrow> bytes) \<Rightarrow> bool" where
  "evbuffer_ok E content \<longleftrightarrow>
     (\<forall>b. ev_length E b = length (content b)) \<and>
     (\<forall>n b. content (fst (ev_pullup E n b)) = content b \<and>
        snd (ev_pullup E n b) = (if n \<le> length (content b) then Ptr (take n (content b)) else Nullp)) \<and>
     (\<forall>n b. content (fst (ev_remove E n b)) = drop n (content b) \<and>
        snd (ev_remove E n b) = (take n (content b), int (min n (length (content b))))) \<and>
     (\<forall>n b. content (ev_drain E n b) = drop n (content b)) \<and>
     (\<forall>t b. snd (ev_write E t b) \<in> {0, - 1} \<and>
        content (fst (ev_write E t b)) = (if snd (ev_write E t b) = 0 then content b @ t else content b))"

text \<open>Buffers that are lists of bytes.\<close>

definition list_buffer :: "bytes evbuffer" where
  "list_buffer = \<lparr>ev_length = length, ev_pullup = (\<lambda>n b. (b, if n \<le> length b then Ptr (take n b) else Nullp)),
     ev_remove = (\<lambda>n b. (drop n b, take n b, int (min n (length b)))), ev_drain = drop, ev_write = (\<lambda>t b. (b @ t, 0))\<rparr>"

lemma list_buffer_ok: "evbuffer_ok list_buffer id"
  by (simp add: evbuffer_ok_def list_buffer_def)

section \<open>Sockets\<close>

record 'b bufferevent =
  bev_input :: 'b
  bev_output :: 'b
  read_enabled :: bool
  write_enabled :: bool
  shut_down :: bool

record 'b tcp_socket =
  sk_bev :: "'b bufferevent ptr"
  isClosing :: bool

definition new_socket :: "'b tcp_socket" where
  "new_socket = \<lparr>sk_bev = Nullp, isClosing = False\<rparr>"

definition tcp_send :: "'b evbuffer \<Rightarrow> bytes \<Rightarrow> nat \<Rightarrow> 'b tcp_socket \<Rightarrow> ('b tcp_socket \<times> bool) option" where
  "tcp_send E data n s =
     (case sk_bev s of
        Nullp \<Rightarrow> Some (s, False)
      | Ptr b \<Rightarrow>
          (if isClosing s then Some (s, False)
           else do {
             t \<leftarrow> get_bytes data 0 n;
             let (o', r) = ev_write E t (bev_output b);
             Some (s\<lparr>sk_bev := Ptr (b\<lparr>bev_output := o'\<rparr>)\<rparr>, - 1 \<noteq> r) }))"

definition getInputBufferLength :: "'b evbuffer \<Rightarrow> 'b tcp_socket \<Rightarrow> nat" where
  "getInputBufferLength E s = (case sk_bev s of Nullp \<Rightarrow> 0 | Ptr b \<Rightarrow> ev_length E (bev_input b) mod 2 ^ 32)"

definition viewInputBuffer :: "'b evbuffer \<Rightarrow> nat \<Rightarrow> 'b tcp_socket \<Rightarrow> 'b tcp_socket \<times> bytes ptr" where
  "viewInputBuffer E n s =
     (case sk_bev s of
        Nullp \<Rightarrow> (s, Nullp)
      | Ptr b \<Rightarrow> (let (i, p) = ev_pullup E n (bev_input b) in (s\<lparr>sk_bev := Ptr (b\<lparr>bev_input := i\<rparr>)\<rparr>, p)))"

text \<open>The bytes are written to the block \<open>dest\<close>.\<close>

definition readInputBuffer :: "'b evbuffer \<Rightarrow> bytes \<Rightarrow> nat \<Rightarrow> 'b tcp_socket \<Rightarrow> (('b tcp_socket \<times> bytes) \<times> bool) option" where
  "readInputBuffer E dest n s =
     (case sk_bev s of
        Nullp \<Rightarrow> Some ((s, dest), False)
      | Ptr b \<Rightarrow>
          (let (i, t, r) = ev_remove E n (bev_input b) in do {
             dest \<leftarrow> put dest 0 t;
             Some ((s\<lparr>sk_bev := Ptr (b\<lparr>bev_input := i\<rparr>)\<rparr>, dest), - 1 \<noteq> r) }))"

definition clearInputBuffer :: "'b evbuffer \<Rightarrow> 'b tcp_socket \<Rightarrow> 'b tcp_socket" where
  "clearInputBuffer E s =
     (case sk_bev s of
        Nullp \<Rightarrow> s
      | Ptr b \<Rightarrow> s\<lparr>sk_bev := Ptr (b\<lparr>bev_input := ev_drain E (2 ^ 32 - 1) (bev_input b)\<rparr>)\<rparr>)"

definition closeImpl :: "'b evbuffer \<Rightarrow> 'b tcp_socket \<Rightarrow> 'b tcp_socket option" where
  "closeImpl E s =
     (let s = clearInputBuffer E (s\<lparr>isClosing := False\<rparr>) in do {
        b \<leftarrow> deref (sk_bev s);
        Some (s\<lparr>sk_bev := Ptr (b\<lparr>write_enabled := False, shut_down := True\<rparr>)\<rparr>) })"

definition tcp_close :: "'b evbuffer \<Rightarrow> bool \<Rightarrow> 'b tcp_socket \<Rightarrow> 'b tcp_socket option" where
  "tcp_close E waiting s =
     (case sk_bev s of
        Nullp \<Rightarrow> Some s
      | Ptr b \<Rightarrow> if waiting \<and> 0 < ev_length E (bev_output b) then Some (s\<lparr>isClosing := True\<rparr>) else closeImpl E s)"

text \<open>\<open>bufferevent_disable\<close> of both directions.\<close>

definition disable_rw :: "'b tcp_socket \<Rightarrow> 'b tcp_socket option" where
  "disable_rw s = do {
     b \<leftarrow> deref (sk_bev s);
     Some (s\<lparr>sk_bev := Ptr (b\<lparr>read_enabled := False, write_enabled := False\<rparr>)\<rparr>) }"

text \<open>Called when the output buffer has been written.\<close>

definition checkClosing :: "'b evbuffer \<Rightarrow> 'b tcp_socket \<Rightarrow> 'b tcp_socket option" where
  "checkClosing E s =
     (if isClosing s then do {
        b \<leftarrow> deref (sk_bev s);
        (if ev_length E (bev_output b) = 0 then closeImpl E (s\<lparr>isClosing := False\<rparr>) else Some s) }
      else Some s)"

section \<open>Messages with a length in front\<close>

definition TPKT1_LENGTH :: nat where "TPKT1_LENGTH = 4"
definition TPKT_VERSION1_LOW_BYTE :: nat where "TPKT_VERSION1_LOW_BYTE = 1"

definition tpkt_header :: "nat \<Rightarrow> bytes" where
  "tpkt_header len =
     (let t = (len + TPKT1_LENGTH) mod 2 ^ 32 in
      [byte_of TPKT_VERSION1_LOW_BYTE, byte_of (t mod 2 ^ 24 div 2 ^ 16), byte_of (t mod 2 ^ 16 div 2 ^ 8), byte_of (t mod 2 ^ 8)])"

text \<open>The function is the same in the server, for a session, and in the client.\<close>

definition sendWithTPKT :: "'b evbuffer \<Rightarrow> bytes \<Rightarrow> nat \<Rightarrow> 'b tcp_socket \<Rightarrow> ('b tcp_socket \<times> bool) option" where
  "sendWithTPKT E data len s = do {
     (s, ret) \<leftarrow> tcp_send E (tpkt_header len) 4 s;
     (if \<not> ret then Some (s, False) else tcp_send E data len s) }"

definition packet_length :: "bytes \<Rightarrow> nat" where
  "packet_length h = uch (h ! 1) * 2 ^ 16 + uch (h ! 2) * 2 ^ 8 + uch (h ! 3)"

text \<open>
  The server's loop; the messages handed to \<open>onRead\<close> are collected. Without the magic number one byte
  is dropped, but the loop does not start again: it goes on with the length it has seen, behind a
  pointer into the buffer (the bytes stay in place). A packet shorter than its header makes the
  pointer to the message leave the block.
\<close>

partial_function (option) onSessionRead :: "'b evbuffer \<Rightarrow> allocator \<Rightarrow> 'b tcp_socket \<Rightarrow> bytes list \<Rightarrow> ('b tcp_socket \<times> bytes list) option" where
  "onSessionRead E A s got =
     (let len = getInputBufferLength E s in
      if len < 1 then Some (s, got)
      else
        (case viewInputBuffer E TPKT1_LENGTH s of
           (s, Nullp) \<Rightarrow> Some (s, got)
         | (s, Ptr h) \<Rightarrow> do {
             s \<leftarrow> (if h ! 0 \<noteq> byte_of TPKT_VERSION1_LOW_BYTE then map_option (\<lambda>r. fst (fst r)) (readInputBuffer E [NUL] 1 s) else Some s);
             let n = packet_length h;
             (if len < n then Some (s, got)
              else do {
                block \<leftarrow> malloc A n;
                ((s, block), ok) \<leftarrow> readInputBuffer E block n s;
                got \<leftarrow> (if ok then (if n < TPKT1_LENGTH then None
                                    else do { m \<leftarrow> get_bytes block TPKT1_LENGTH (n - TPKT1_LENGTH); Some (got @ [m]) })
                        else Some got);
                onSessionRead E A s got }) }))"

text \<open>
  The client's loop. It does not check the view for NULL, and the block it reads a packet into has the
  size of the variable that holds the length.
\<close>

partial_function (option) client_onRead :: "'b evbuffer \<Rightarrow> allocator \<Rightarrow> 'b tcp_socket \<Rightarrow> bytes list \<Rightarrow> ('b tcp_socket \<times> bytes list) option" where
  "client_onRead E A s got =
     (let len = getInputBufferLength E s in
      if len < 1 then Some (s, got)
      else
        (case viewInputBuffer E TPKT1_LENGTH s of
           (s, Nullp) \<Rightarrow> None
         | (s, Ptr h) \<Rightarrow> do {
             s \<leftarrow> (if h ! 0 \<noteq> byte_of TPKT_VERSION1_LOW_BYTE then map_option (\<lambda>r. fst (fst r)) (readInputBuffer E [NUL] 1 s) else Some s);
             let n = packet_length h;
             (if len < n then Some (s, got)
              else do {
                block \<leftarrow> malloc A 4;
                ((s, block), _) \<leftarrow> readInputBuffer E block n s;
                (if n < TPKT1_LENGTH then None
                 else do { m \<leftarrow> get_bytes block TPKT1_LENGTH (n - TPKT1_LENGTH); client_onRead E A s (got @ [m]) }) }) }))"

end
