(* ===== verification/Tcp_Theorems.thy ===== *)
theory Tcp_Theorems
  imports Tcp_Socket
begin

text \<open>
  The properties of the framing: messages cross a connection unchanged however it cuts the bytes; the
  client's receiver cannot receive any; and a closed socket.
\<close>

section \<open>Frames\<close>

definition frame :: "bytes \<Rightarrow> bytes" where
  "frame m = tpkt_header (length m) @ m"

definition fits_frame :: "bytes \<Rightarrow> bool" where
  "fits_frame m \<longleftrightarrow> length m + 4 < 2 ^ 24"

lemma length_header [simp]: "length (tpkt_header n) = 4"
  by (simp add: tpkt_header_def Let_def)

lemma length_frame [simp]: "length (frame m) = length m + 4"
  by (simp add: frame_def)

lemma header_fields:
  assumes "fits_frame m"
  shows "take 4 (frame m @ u) ! 0 = byte_of TPKT_VERSION1_LOW_BYTE" "packet_length (take 4 (frame m @ u)) = length m + 4"
proof -
  have t: "take 4 (frame m @ u) = tpkt_header (length m)" by (simp add: frame_def)
  let ?n = "length m + 4"
  have n: "?n < 2 ^ 24" using assms by (simp add: fits_frame_def)
  have "k mod 2 ^ 24 div 2 ^ 16 mod 256 * 2 ^ 16 + k mod 2 ^ 16 div 2 ^ 8 mod 256 * 2 ^ 8 + k mod 2 ^ 8 mod 256 = k" if "k < 2 ^ 24" for k :: nat
  proof -
    have "k mod 2 ^ 24 div 2 ^ 16 mod 256 = k div 65536" using that by simp
    moreover have "k mod 2 ^ 16 div 2 ^ 8 mod 256 = k mod 65536 div 256"
      using less_mult_imp_div_less [of "k mod 65536" 256 256] by simp
    moreover have "k mod 2 ^ 8 mod 256 = k mod 65536 mod 256" by (simp add: mod_mod_cancel)
    ultimately show ?thesis using div_mult_mod_eq [of k 65536] div_mult_mod_eq [of "k mod 65536" 256] by simp
  qed
  from this [OF n]
  show "packet_length (take 4 (frame m @ u)) = length m + 4"
    using n unfolding t by (simp add: packet_length_def tpkt_header_def TPKT1_LENGTH_def Let_def)
  show "take 4 (frame m @ u) ! 0 = byte_of TPKT_VERSION1_LOW_BYTE" unfolding t by (simp add: tpkt_header_def Let_def)
qed

section \<open>Receiving\<close>

text \<open>The bytes a socket has received and not read.\<close>

definition waiting :: "('b \<Rightarrow> bytes) \<Rightarrow> 'b tcp_socket \<Rightarrow> bytes \<Rightarrow> bool" where
  "waiting content s c \<longleftrightarrow> (\<exists>b. sk_bev s = Ptr b \<and> content (bev_input b) = c)"

lemma input_length: "evbuffer_ok E content \<Longrightarrow> waiting content s c \<Longrightarrow> length c < 2 ^ 32 \<Longrightarrow> getInputBufferLength E s = length c"
  by (auto simp: evbuffer_ok_def waiting_def getInputBufferLength_def)

lemma input_view:
  assumes "evbuffer_ok E content" "waiting content s c"
  shows "\<exists>s'. viewInputBuffer E n s = (s', if n \<le> length c then Ptr (take n c) else Nullp) \<and> waiting content s' c"
proof -
  obtain b where b: "sk_bev s = Ptr b" "content (bev_input b) = c" using assms(2) by (auto simp: waiting_def)
  have "snd (ev_pullup E n (bev_input b)) = (if n \<le> length c then Ptr (take n c) else Nullp)"
      "content (fst (ev_pullup E n (bev_input b))) = c" using assms(1) b(2) by (auto simp: evbuffer_ok_def)
  then show ?thesis using b(1) by (auto simp: viewInputBuffer_def waiting_def case_prod_unfold)
qed

lemma input_read:
  assumes "evbuffer_ok E content" "waiting content s c" "n \<le> length c" "length block = n"
  shows "\<exists>s'. readInputBuffer E block n s = Some ((s', take n c), True) \<and> waiting content s' (drop n c)"
proof -
  obtain b where b: "sk_bev s = Ptr b" "content (bev_input b) = c" using assms(2) by (auto simp: waiting_def)
  have "snd (ev_remove E n (bev_input b)) = (take n c, int (min n (length c)))"
      "content (fst (ev_remove E n (bev_input b))) = drop n c" using assms(1) b(2) by (auto simp: evbuffer_ok_def)
  then show ?thesis using b(1) assms(3,4) by (auto simp: readInputBuffer_def waiting_def case_prod_unfold put_def Let_def)
qed

lemma read_frame:
  assumes E: "evbuffer_ok E content" and g: "\<forall>n. grant A n" and w: "waiting content s (frame m @ u)"
    and f: "fits_frame m" and l: "length (frame m @ u) < 2 ^ 32"
  shows "\<exists>s'. onSessionRead E A s got = onSessionRead E A s' (got @ [m]) \<and> waiting content s' u"
proof -
  let ?c = "frame m @ u" and ?n = "length m + 4"
  note len = input_length [OF E w l]
  obtain s1 where s1: "viewInputBuffer E 4 s = (s1, Ptr (take 4 ?c))" "waiting content s1 ?c"
    using input_view [OF E w, of 4] by auto
  obtain block where bl: "malloc A ?n = Some block" "length block = ?n" using g by (auto simp: malloc_def)
  have "?n \<le> length ?c" by simp
  from input_read [OF E s1(2) this bl(2)] obtain s2 where
    s2: "readInputBuffer E block ?n s1 = Some ((s2, take ?n ?c), True)" "waiting content s2 (drop ?n ?c)" by blast
  have "take ?n ?c = frame m" "drop ?n ?c = u" by simp_all
  moreover have "get_bytes (frame m) 4 (?n - 4) = Some m" by (simp add: get_bytes_def frame_def)
  ultimately have "onSessionRead E A s got = onSessionRead E A s2 (got @ [m])"
    using s1(1) bl(1) s2(1) len header_fields [OF f, of u]
    by (subst onSessionRead.simps) (simp add: TPKT1_LENGTH_def Let_def)
  then show ?thesis using s2(2) \<open>drop ?n ?c = u\<close> by auto
qed

lemma wait_frame:
  assumes E: "evbuffer_ok E content" and w: "waiting content s c" and p: "prefix c (frame m)" "c \<noteq> frame m" and f: "fits_frame m"
  shows "\<exists>s'. onSessionRead E A s got = Some (s', got) \<and> waiting content s' c"
proof -
  obtain v where v: "frame m = c @ v" "v \<noteq> []" using p by (auto simp: prefix_def)
  then have lc: "length c < length m + 4" by (metis length_append length_frame less_add_same_cancel1 length_greater_0_conv)
  then have l: "length c < 2 ^ 32" using f by (simp add: fits_frame_def)
  note len = input_length [OF E w l]
  obtain s1 where s1: "viewInputBuffer E 4 s = (s1, if 4 \<le> length c then Ptr (take 4 c) else Nullp)" "waiting content s1 c"
    using input_view [OF E w] by blast
  show ?thesis
  proof (cases "4 \<le> length c")
    case False
    then show ?thesis using s1 len w by (subst onSessionRead.simps) (auto simp: TPKT1_LENGTH_def Let_def)
  next
    case True
    then have "take 4 c = take 4 (frame m @ [])" using v by simp
    then have "take 4 c ! 0 = byte_of TPKT_VERSION1_LOW_BYTE" "packet_length (take 4 c) = length m + 4"
      using header_fields [OF f, of "[]"] by simp_all
    then show ?thesis using s1 len True lc by (subst onSessionRead.simps) (auto simp: TPKT1_LENGTH_def Let_def)
  qed
qed

lemma read_frames:
  assumes E: "evbuffer_ok E content" and g: "\<forall>n. grant A n"
  shows "\<forall>m \<in> set ms. fits_frame m \<Longrightarrow> waiting content s c \<Longrightarrow> prefix c (concat (map frame ms)) \<Longrightarrow> length c < 2 ^ 32 \<Longrightarrow>
    \<exists>s' k c'. onSessionRead E A s got = Some (s', got @ take k ms) \<and> waiting content s' c' \<and>
      c = concat (map frame (take k ms)) @ c' \<and> (drop k ms = [] \<longrightarrow> c' = []) \<and> (\<forall>m ns. drop k ms = m # ns \<longrightarrow> length c' < length (frame m))"
proof (induction ms arbitrary: s c got)
  case Nil
  then have "getInputBufferLength E s = 0" using input_length [OF E, of s "[]"] by simp
  then show ?case using Nil by (subst onSessionRead.simps) (auto simp: Let_def)
next
  case (Cons m ms)
  have f: "fits_frame m" using Cons.prems(1) by simp
  show ?case
  proof (cases "length c < length (frame m)")
    case True
    then have "prefix c (frame m)" "c \<noteq> frame m" using Cons.prems(3) by (auto intro: prefix_length_prefix)
    from wait_frame [OF E Cons.prems(2) this f, of A got] obtain s' where
      "onSessionRead E A s got = Some (s', got)" "waiting content s' c" by blast
    with True show ?thesis by (intro exI [of _ s'] exI [of _ 0] exI [of _ c]) simp
  next
    case False
    then have "prefix (frame m) c"
      using Cons.prems(3) by (intro prefix_length_prefix [of "frame m" "frame m @ concat (map frame ms)" c]) simp_all
    then obtain u where u: "c = frame m @ u" by (auto simp: prefix_def)
    from read_frame [OF E g Cons.prems(2) [unfolded u] f Cons.prems(4) [unfolded u]] obtain s1 where
      s1: "onSessionRead E A s got = onSessionRead E A s1 (got @ [m])" "waiting content s1 u" by blast
    have "prefix u (concat (map frame ms))" "length u < 2 ^ 32" "\<forall>m \<in> set ms. fits_frame m" using Cons.prems u by simp_all
    from Cons.IH [OF this(3) s1(2) this(1,2), of "got @ [m]"] obtain s' k c' where
      "onSessionRead E A s1 (got @ [m]) = Some (s', (got @ [m]) @ take k ms)" "waiting content s' c'"
      "u = concat (map frame (take k ms)) @ c'" "drop k ms = [] \<longrightarrow> c' = []"
      "\<forall>m ns. drop k ms = m # ns \<longrightarrow> length c' < length (frame m)" by blast
    then show ?thesis using s1(1) u by (intro exI [of _ s'] exI [of _ "Suc k"] exI [of _ c']) simp
  qed
qed

section \<open>From one end to the other\<close>

text \<open>Sending messages one after the other; bytes that arrive, and the read event for each piece of them.\<close>

fun send_all :: "'b evbuffer \<Rightarrow> bytes list \<Rightarrow> 'b tcp_socket \<Rightarrow> ('b tcp_socket \<times> bool) option" where
  "send_all E [] s = Some (s, True)"
| "send_all E (m # ms) s = do {
     (s, ok) \<leftarrow> sendWithTPKT E m (length m) s;
     (if ok then send_all E ms s else Some (s, False)) }"

definition arrive :: "(bytes \<Rightarrow> 'b \<Rightarrow> 'b) \<Rightarrow> bytes \<Rightarrow> 'b tcp_socket \<Rightarrow> 'b tcp_socket" where
  "arrive recv t s = (case sk_bev s of Nullp \<Rightarrow> s | Ptr b \<Rightarrow> s\<lparr>sk_bev := Ptr (b\<lparr>bev_input := recv t (bev_input b)\<rparr>)\<rparr>)"

fun receive_all :: "'b evbuffer \<Rightarrow> allocator \<Rightarrow> (bytes \<Rightarrow> 'b \<Rightarrow> 'b) \<Rightarrow> bytes list \<Rightarrow> 'b tcp_socket \<Rightarrow> bytes list
    \<Rightarrow> ('b tcp_socket \<times> bytes list) option" where
  "receive_all E A recv [] s got = Some (s, got)"
| "receive_all E A recv (t # ts) s got = do {
     (s, got) \<leftarrow> onSessionRead E A (arrive recv t s) got;
     receive_all E A recv ts s got }"

text \<open>The bytes given to the socket that are not yet sent.\<close>

definition pending :: "('b \<Rightarrow> bytes) \<Rightarrow> 'b tcp_socket \<Rightarrow> bytes \<Rightarrow> bool" where
  "pending content s c \<longleftrightarrow> (\<exists>b. sk_bev s = Ptr b \<and> content (bev_output b) = c)"

lemma tcp_send_spec:
  assumes E: "evbuffer_ok E content" and p: "pending content s c" and r: "tcp_send E t (length t) s = Some (s', True)"
  shows "pending content s' (c @ t)"
proof -
  obtain b where b: "sk_bev s = Ptr b" "content (bev_output b) = c" using p by (auto simp: pending_def)
  have "snd (ev_write E t (bev_output b)) \<in> {0, - 1}" "content (fst (ev_write E t (bev_output b))) =
      (if snd (ev_write E t (bev_output b)) = 0 then c @ t else c)" using E b(2) by (auto simp: evbuffer_ok_def)
  then show ?thesis using r b(1) by (auto simp: tcp_send_def pending_def case_prod_unfold Let_def split: if_splits)
qed

lemma send_all_spec:
  assumes E: "evbuffer_ok E content"
  shows "pending content s c \<Longrightarrow> send_all E ms s = Some (s', True) \<Longrightarrow> pending content s' (c @ concat (map frame ms))"
proof (induction ms arbitrary: s c)
  case (Cons m ms)
  from Cons.prems(2) obtain u where u: "sendWithTPKT E m (length m) s = Some (u, True)" "send_all E ms u = Some (s', True)"
    by (auto simp: bind_eq_Some_conv split: if_splits)
  then obtain v where v: "tcp_send E (tpkt_header (length m)) (length (tpkt_header (length m))) s = Some (v, True)"
      "tcp_send E m (length m) v = Some (u, True)"
    by (auto simp: sendWithTPKT_def bind_eq_Some_conv split: if_splits)
  have "pending content u ((c @ tpkt_header (length m)) @ m)"
    by (rule tcp_send_spec [OF E tcp_send_spec [OF E Cons.prems(1) v(1)] v(2)])
  from Cons.IH [OF this u(2)] show ?case by (simp add: frame_def)
qed simp

lemma receive_all_spec:
  assumes E: "evbuffer_ok E content" and g: "\<forall>n. grant A n" and rc: "\<forall>t b. content (recv t b) = content b @ t"
  shows "\<forall>m \<in> set ms. fits_frame m \<Longrightarrow> waiting content s c \<Longrightarrow> c @ concat ts = concat (map frame ms) \<Longrightarrow>
    length (c @ concat ts) < 2 ^ 32 \<Longrightarrow> (\<forall>m ns. ms = m # ns \<longrightarrow> length c < length (frame m)) \<Longrightarrow>
    \<exists>s'. receive_all E A recv ts s got = Some (s', got @ ms) \<and> waiting content s' []"
proof (induction ts arbitrary: s c ms got)
  case Nil
  have "ms = []"
  proof (cases ms)
    case (Cons m ns)
    then show ?thesis using Nil.prems(3,5) by simp
  qed
  then show ?case using Nil.prems by simp
next
  case (Cons t ts)
  have w: "waiting content (arrive recv t s) (c @ t)" using Cons.prems(2) rc by (auto simp: waiting_def arrive_def)
  have "prefix (c @ t) (concat (map frame ms))" using Cons.prems(3) by (metis append.assoc concat.simps(2) prefixI)
  moreover have "length (c @ t) < 2 ^ 32" using Cons.prems(4) by simp
  ultimately obtain s1 k c' where
    s1: "onSessionRead E A (arrive recv t s) got = Some (s1, got @ take k ms)" "waiting content s1 c'"
      "c @ t = concat (map frame (take k ms)) @ c'" "\<forall>m ns. drop k ms = m # ns \<longrightarrow> length c' < length (frame m)"
    using read_frames [OF E g Cons.prems(1) w, of got] by blast
  have "concat (map frame ms) = concat (map frame (take k ms)) @ concat (map frame (drop k ms))"
    by (metis append_take_drop_id concat_append map_append)
  then have "c' @ concat ts = concat (map frame (drop k ms))" using Cons.prems(3) s1(3) by (metis append.assoc concat.simps(2) same_append_eq)
  moreover have "length (c' @ concat ts) < 2 ^ 32" using Cons.prems(4) s1(3) by (metis (no_types, lifting) append.assoc concat.simps(2) le_add2 le_less_trans length_append)
  moreover have "\<forall>m \<in> set (drop k ms). fits_frame m" using Cons.prems(1) by (meson in_set_dropD)
  ultimately obtain s' where "receive_all E A recv ts s1 (got @ take k ms) = Some (s', (got @ take k ms) @ drop k ms)" "waiting content s' []"
    using Cons.IH [OF _ s1(2) _ _ s1(4), of "got @ take k ms"] by blast
  then show ?case using s1(1) by simp
qed

text \<open>
  C13. Messages cross a connection: whatever messages a peer has sent with \<open>sendWithTPKT\<close>, all sends
  accepted, and however the connection cuts the bytes, the server hands out exactly these messages, in
  order, and nothing is left in its buffer.
\<close>

theorem messages_cross:
  assumes "evbuffer_ok E content" and "\<forall>n. grant A n" and "\<forall>t b. content (recv t b) = content b @ t"
    and "\<forall>m \<in> set ms. length m + 4 < 2 ^ 24" and "pending content peer []" and "send_all E ms peer = Some (peer', True)"
    and "pending content peer' (concat ts)" and "length (concat ts) < 2 ^ 32" and "waiting content s []"
  shows "\<exists>s'. receive_all E A recv ts s [] = Some (s', ms) \<and> waiting content s' []"
proof -
  have "pending content peer' (concat (map frame ms))" using send_all_spec [OF assms(1,5,6)] by simp
  then have "[] @ concat ts = concat (map frame ms)" using assms(7) by (auto simp: pending_def)
  moreover have "\<forall>m \<in> set ms. fits_frame m" using assms(4) by (simp add: fits_frame_def)
  ultimately show ?thesis
    using receive_all_spec [OF assms(1,2,3) _ assms(9), of ms ts "[]"] assms(8) by auto
qed

definition connected :: "bytes tcp_socket" where
  "connected = new_socket\<lparr>sk_bev := Ptr \<lparr>bev_input = [], bev_output = [], read_enabled = True, write_enabled = True, shut_down = False\<rparr>\<rparr>"

theorem messages_cross_witness:
  "\<exists>peer s. send_all list_buffer [''ab'', []] connected = Some (peer, True) \<and> pending id peer (frame ''ab'' @ frame []) \<and>
     receive_all list_buffer generous (\<lambda>t b. b @ t) [take 5 (frame ''ab''), drop 5 (frame ''ab''), frame []] connected [] =
       Some (s, [''ab'', []])"
proof -
  obtain peer where p: "send_all list_buffer [''ab'', []] connected = Some (peer, True)"
    by (simp add: sendWithTPKT_def tcp_send_def connected_def new_socket_def list_buffer_def get_bytes_def)
  let ?ts = "[take 5 (frame ''ab''), drop 5 (frame ''ab''), frame []]"
  have c: "pending id connected []" "waiting id connected []" by (simp_all add: connected_def new_socket_def pending_def waiting_def)
  have e: "concat ?ts = frame ''ab'' @ frame []" "concat (map frame [''ab'', []]) = frame ''ab'' @ frame []" by simp_all
  have q: "pending id peer (concat ?ts)" using send_all_spec [OF list_buffer_ok c(1) p] unfolding e by simp
  have l: "length (concat ?ts) < 2 ^ 32" unfolding e by simp
  have g: "\<forall>n. grant generous n" "\<forall>t b. id (b @ t) = id b @ t" "\<forall>m \<in> set [''ab'', []]. length m + 4 < 2 ^ 24" by simp_all
  from messages_cross [OF list_buffer_ok g c(1) p q l c(2)] show ?thesis using p q unfolding e by blast
qed

section \<open>The client\<close>

text \<open>
  C39. The client's receiver cannot receive a message: with a whole frame of a message that is not empty
  it writes beyond a block of four bytes, and with the first one to three bytes of any it reads
  through a null pointer.
\<close>

theorem client_cannot_receive:
  assumes "evbuffer_ok E content" and "fits_frame m" and "m \<noteq> []"
    and "waiting content s (frame m @ u) \<and> length (frame m @ u) < 2 ^ 32 \<or> waiting content s (take k (frame m)) \<and> 0 < k \<and> k < 4"
  shows "client_onRead E A s got = None"
  using assms(4)
proof
  assume w: "waiting content s (frame m @ u) \<and> length (frame m @ u) < 2 ^ 32"
  let ?c = "frame m @ u"
  have w': "waiting content s ?c" and l: "length ?c < 2 ^ 32" using w by simp_all
  obtain s1 where s1: "viewInputBuffer E 4 s = (s1, Ptr (take 4 ?c))" "waiting content s1 ?c"
    using input_view [OF assms(1) w', of 4] by auto
  obtain b where b: "sk_bev s1 = Ptr b" "content (bev_input b) = ?c" using s1(2) by (auto simp: waiting_def)
  have "fst (snd (ev_remove E (length m + 4) (bev_input b))) = frame m"
    using assms(1) b(2) by (simp add: evbuffer_ok_def)
  then have "readInputBuffer E block (length m + 4) s1 = None" if "length block = 4" for block
    using b(1) that assms(3) by (simp add: readInputBuffer_def case_prod_unfold put_def)
  then have "malloc A 4 \<bind> (\<lambda>block. readInputBuffer E block (length m + 4) s1 \<bind> f) = None" for f
    by (cases "malloc A 4") (auto dest: malloc_length)
  then show ?thesis
    using s1(1) input_length [OF assms(1) w' l] header_fields [OF assms(2), of u]
    by (subst client_onRead.simps) (simp add: TPKT1_LENGTH_def Let_def)
next
  assume w: "waiting content s (take k (frame m)) \<and> 0 < k \<and> k < 4"
  then have w': "waiting content s (take k (frame m))" and l: "length (take k (frame m)) = k" by auto
  then have "getInputBufferLength E s = k" using input_length [OF assms(1) w'] w by simp
  moreover obtain s1 where "viewInputBuffer E 4 s = (s1, Nullp)" using input_view [OF assms(1) w', of 4] l w by auto
  ultimately show ?thesis using w by (subst client_onRead.simps) (simp add: TPKT1_LENGTH_def Let_def)
qed

theorem client_cannot_receive_witness:
  "client_onRead list_buffer generous (arrive (\<lambda>t b. b @ t) (frame ''a'') connected) [] = None"
proof -
  have "waiting id (arrive (\<lambda>t b. b @ t) (frame ''a'') connected) (frame ''a'' @ [])"
    by (simp add: waiting_def arrive_def connected_def new_socket_def)
  moreover have "fits_frame ''a''" "length (frame ''a'' @ []) < 2 ^ 32" by (simp_all add: fits_frame_def)
  ultimately show ?thesis using client_cannot_receive [OF list_buffer_ok, of "''a''"] by blast
qed

end
