(* ===== verification/Tcp_Server.thy ===== *)
theory Tcp_Server
  imports Tcp_Socket Containers "HOL-Library.Word"
begin

text \<open>
  Sessions of a server and the dispatchers that run them, and the client (src/translib/tcpSession.cpp,
  src/translib/tcpServerDispatcher.cpp, src/translib/tcpServer.cpp, src/translib/tcpClient.cpp).
\<close>

section \<open>Sessions\<close>

text \<open>
  Whether libevent creates and enables a bufferevent for a descriptor, and connects it, is an argument,
  and so is the empty buffer.
\<close>

record 'b bev_env =
  new_ok :: "int \<Rightarrow> bool"
  enable_ok :: "int \<Rightarrow> bool"
  connect_ok :: bool
  empty_buf :: 'b

record 'b session =
  ss_socket :: "'b tcp_socket"
  ss_id :: "64 word"
  ss_fd :: int

definition SOCKET_FD_INVALID :: int where "SOCKET_FD_INVALID = - 1"

definition new_session :: "'b session" where
  "new_session = \<lparr>ss_socket = new_socket, ss_id = 0, ss_fd = SOCKET_FD_INVALID\<rparr>"

definition new_bev :: "'b bev_env \<Rightarrow> 'b bufferevent" where
  "new_bev env = \<lparr>bev_input = empty_buf env, bev_output = empty_buf env, read_enabled = True, write_enabled = True, shut_down = False\<rparr>"

text \<open>\<open>attach\<close> up to the call of \<open>onNewSession\<close>.\<close>

definition attach :: "'b bev_env \<Rightarrow> 64 word \<Rightarrow> int \<Rightarrow> 'b session \<Rightarrow> 'b session \<times> bool" where
  "attach env i sock s =
     (let s = s\<lparr>ss_id := i\<rparr> in
      if sock = SOCKET_FD_INVALID then (s, False)
      else if \<not> new_ok env sock then (s, False)
      else if \<not> enable_ok env sock then (s, False)
      else (s\<lparr>ss_fd := sock, ss_socket := (ss_socket s)\<lparr>sk_bev := Ptr (new_bev env)\<rparr>\<rparr>, True))"

section \<open>Dispatchers\<close>

record 'b dispatcher =
  d_sessions :: "(64 word \<times> 'b session) list"
  d_actions :: "(64 word \<times> int) list"

definition new_dispatcher :: "'b dispatcher" where
  "new_dispatcher = \<lparr>d_sessions = [], d_actions = []\<rparr>"

definition getSession :: "64 word \<Rightarrow> 'b dispatcher \<Rightarrow> 'b session ptr" where
  "getSession i d = (case map_of (d_sessions d) i of None \<Rightarrow> Nullp | Some s \<Rightarrow> Ptr s)"

definition addSession :: "64 word \<Rightarrow> int \<Rightarrow> 'b dispatcher \<Rightarrow> 'b dispatcher" where
  "addSession i sock d = d\<lparr>d_actions := d_actions d @ [(i, sock)]\<rparr>"

definition removeSession :: "64 word \<Rightarrow> 'b dispatcher \<Rightarrow> 'b dispatcher" where
  "removeSession i d = d\<lparr>d_actions := d_actions d @ [(i, SOCKET_FD_INVALID)]\<rparr>"

text \<open>
  \<open>N\<close> is \<open>onNewSession\<close> of the server, which is called with the dispatcher's lock held and may add and
  remove sessions; what it adds is worked off in the same frame. It may also use the session, which
  is entered when it returns.
\<close>

definition do_action :: "'b bev_env \<Rightarrow> ('b session \<Rightarrow> 'b dispatcher \<Rightarrow> 'b session \<times> 'b dispatcher) \<Rightarrow> 64 word \<times> int \<Rightarrow> 'b dispatcher \<Rightarrow> 'b dispatcher" where
  "do_action env N a d =
     (if snd a \<noteq> SOCKET_FD_INVALID then
        (let (s, ok) = attach env (fst a) (snd a) new_session in
         if ok then (let (s, d) = N s d in d\<lparr>d_sessions := map_put (ss_id s) s (d_sessions d)\<rparr>) else d)
      else d\<lparr>d_sessions := map_erase (fst a) (d_sessions d)\<rparr>)"

partial_function (option) onFrame :: "'b bev_env \<Rightarrow> ('b session \<Rightarrow> 'b dispatcher \<Rightarrow> 'b session \<times> 'b dispatcher) \<Rightarrow> 'b dispatcher \<Rightarrow> 'b dispatcher option" where
  "onFrame env N d =
     (case d_actions d of
        [] \<Rightarrow> Some d
      | a # _ \<Rightarrow> (let d = do_action env N a d in onFrame env N (d\<lparr>d_actions := tl (d_actions d)\<rparr>)))"

section \<open>The server\<close>

record 'b tcp_server =
  master :: "'b dispatcher"
  slavers :: "'b dispatcher list"
  sessionIdGenerator :: "64 word"

definition setThreads :: "nat \<Rightarrow> 'b tcp_server \<Rightarrow> 'b tcp_server" where
  "setThreads n v = (if slavers v \<noteq> [] then v else v\<lparr>slavers := replicate n new_dispatcher\<rparr>)"

definition new_server :: "nat \<Rightarrow> 64 word \<Rightarrow> 'b tcp_server" where
  "new_server n g = setThreads n \<lparr>master = new_dispatcher, slavers = [], sessionIdGenerator = g\<rparr>"

text \<open>NULL stands for the master.\<close>

definition getSessionDispatcher :: "64 word \<Rightarrow> 'b tcp_server \<Rightarrow> nat ptr" where
  "getSessionDispatcher i v = (if slavers v = [] then Nullp else Ptr (unat i mod length (slavers v)))"

definition on_dispatcher :: "nat ptr \<Rightarrow> ('b dispatcher \<Rightarrow> 'b dispatcher) \<Rightarrow> 'b tcp_server \<Rightarrow> 'b tcp_server" where
  "on_dispatcher p f v = (case p of Nullp \<Rightarrow> v\<lparr>master := f (master v)\<rparr> | Ptr k \<Rightarrow> v\<lparr>slavers := (slavers v)[k := f (slavers v ! k)]\<rparr>)"

definition listenEventCallback :: "int \<Rightarrow> 'b tcp_server \<Rightarrow> 'b tcp_server" where
  "listenEventCallback sock v =
     (let i = sessionIdGenerator v + 1; v = v\<lparr>sessionIdGenerator := i\<rparr>
      in on_dispatcher (getSessionDispatcher i v) (addSession i sock) v)"

text \<open>
  An event of the session \<open>i\<close>, which the dispatcher holds (an event of a destroyed one would use it after
  it was freed): the descriptor is closed (\<open>closed\<close> collects the descriptors), the server is told
  (\<open>D\<close>), and the session's dispatcher is to remove it.
\<close>

definition session_event :: "('b session \<Rightarrow> 'b dispatcher \<Rightarrow> 'b session \<times> 'b dispatcher) \<Rightarrow> 64 word \<Rightarrow> 'b dispatcher \<Rightarrow> int list
    \<Rightarrow> ('b dispatcher \<times> int list) option" where
  "session_event D i d closed = do {
     s \<leftarrow> map_of (d_sessions d) i;
     k \<leftarrow> disable_rw (ss_socket s);
     let closed = closed @ [ss_fd s];
     let (s, d) = D (s\<lparr>ss_socket := k\<rparr>) d;
     Some (removeSession (ss_id s) (d\<lparr>d_sessions := map_put i s (d_sessions d)\<rparr>), closed) }"

section \<open>The client\<close>

record 'b tcp_client =
  cl_socket :: "'b tcp_socket"
  cl_fd :: int
  isConnected :: bool

definition new_client :: "'b tcp_client" where
  "new_client = \<lparr>cl_socket = new_socket, cl_fd = SOCKET_FD_INVALID, isConnected = False\<rparr>"

text \<open>libevent creates the descriptor \<open>fd\<close> when it connects.\<close>

definition client_connect :: "'b bev_env \<Rightarrow> int \<Rightarrow> 'b tcp_client \<Rightarrow> 'b tcp_client \<times> bool" where
  "client_connect env fd c =
     (if sk_bev (cl_socket c) \<noteq> Nullp then (c, False)
      else if \<not> new_ok env SOCKET_FD_INVALID then (c, False)
      else if \<not> enable_ok env SOCKET_FD_INVALID then (c, False)
      else if \<not> connect_ok env then (c, False)
      else (c\<lparr>cl_socket := (cl_socket c)\<lparr>sk_bev := Ptr (new_bev env)\<rparr>, cl_fd := fd\<rparr>, True))"

text \<open>
  The events of libevent: the peer has closed, an error or a timeout, or the connection is made, with
  the last socket error. The bufferevent was created with the option to close its descriptor
  when it is freed. \<open>D\<close> is \<open>onDisconnected\<close> and \<open>N\<close> is \<open>onConnected\<close>.
\<close>

datatype bev_event = BEV_ENDED | BEV_CONNECTED int | BEV_OTHER

definition ECONNREFUSED :: int where "ECONNREFUSED = 111"
definition ETIMEDOUT :: int where "ETIMEDOUT = 110"

definition client_event :: "('b tcp_client \<Rightarrow> 'b tcp_client) \<Rightarrow> (int \<Rightarrow> 'b tcp_client \<Rightarrow> 'b tcp_client) \<Rightarrow> bev_event
    \<Rightarrow> 'b tcp_client \<Rightarrow> int list \<Rightarrow> ('b tcp_client \<times> int list) option" where
  "client_event D N e c closed =
     (case e of
        BEV_ENDED \<Rightarrow> do {
          k \<leftarrow> disable_rw (cl_socket c);
          let closed = closed @ [cl_fd c];
          let c = D (c\<lparr>cl_socket := k, isConnected := False\<rparr>);
          let closed = closed @ [cl_fd c];
          Some (c\<lparr>cl_socket := (cl_socket c)\<lparr>sk_bev := Nullp\<rparr>, cl_fd := SOCKET_FD_INVALID\<rparr>, closed) }
      | BEV_CONNECTED err \<Rightarrow>
          Some (if err \<noteq> ECONNREFUSED \<and> err \<noteq> ETIMEDOUT then (N 0 (c\<lparr>isConnected := True\<rparr>), closed) else (N err c, closed))
      | BEV_OTHER \<Rightarrow> Some (c, closed))"

section \<open>Properties\<close>

text \<open>Frames in which the server's functions leave the dispatcher alone work off the actions in their order.\<close>

definition quiet :: "'b session \<Rightarrow> 'b dispatcher \<Rightarrow> 'b session \<times> 'b dispatcher" where
  "quiet s d = (s, d)"

definition attached :: "'b bev_env \<Rightarrow> 64 word \<Rightarrow> int \<Rightarrow> 'b session" where
  "attached env i sock = fst (attach env i sock new_session)"

lemma do_action_actions: "d_actions (do_action env quiet a d) = d_actions d"
  by (simp add: do_action_def quiet_def case_prod_unfold Let_def)

lemma onFrame_fold:
  "d_actions d = as \<Longrightarrow> onFrame env quiet d = Some ((fold (do_action env quiet) as d)\<lparr>d_actions := []\<rparr>)"
proof (induction as arbitrary: d)
  case Nil
  then show ?case by (simp add: onFrame.simps [of _ _ d])
next
  case (Cons a as)
  let ?d = "do_action env quiet a d"
  have swap1: "do_action env quiet x (e\<lparr>d_actions := ys\<rparr>) = (do_action env quiet x e)\<lparr>d_actions := ys\<rparr>" for x ys e
    by (cases e) (simp add: do_action_def quiet_def case_prod_unfold Let_def)
  have swap: "fold (do_action env quiet) xs (e\<lparr>d_actions := ys\<rparr>) = (fold (do_action env quiet) xs e)\<lparr>d_actions := ys\<rparr>" for xs ys e
    by (induction xs arbitrary: e) (simp_all add: swap1)
  have "onFrame env quiet d = onFrame env quiet (?d\<lparr>d_actions := as\<rparr>)"
    using Cons.prems by (simp add: onFrame.simps [of _ _ d] do_action_actions Let_def)
  then show ?case using Cons.IH [of "?d\<lparr>d_actions := as\<rparr>"] by (simp add: swap)
qed

lemma do_action_sessions:
  assumes "map_ok (d_sessions d)"
  shows "map_ok (d_sessions (do_action env quiet a d))"
    "map_of (d_sessions (do_action env quiet a d)) i = (if i \<noteq> fst a then map_of (d_sessions d) i
      else if snd a = SOCKET_FD_INVALID then None
      else if new_ok env (snd a) \<and> enable_ok env (snd a) then Some (attached env (fst a) (snd a)) else map_of (d_sessions d) i)"
  using assms by (simp_all add: do_action_def attached_def attach_def quiet_def Let_def)

definition accepted :: "'b bev_env \<Rightarrow> 64 word \<times> int \<Rightarrow> bool" where
  "accepted env a \<longleftrightarrow> snd a \<noteq> SOCKET_FD_INVALID \<and> new_ok env (snd a) \<and> enable_ok env (snd a)"

lemma fold_actions:
  "\<forall>a \<in> set as. accepted env a \<Longrightarrow> distinct (map fst as) \<Longrightarrow> map_ok (d_sessions d) \<Longrightarrow>
    map_of (d_sessions (fold (do_action env quiet) as d)) i =
      (case map_of as i of None \<Rightarrow> map_of (d_sessions d) i | Some sock \<Rightarrow> Some (attached env i sock))"
proof (induction as arbitrary: d)
  case (Cons a as)
  have a: "accepted env a" using Cons.prems(1) by simp
  note s = do_action_sessions [OF Cons.prems(3), of env a]
  have ih: "map_of (d_sessions (fold (do_action env quiet) as (do_action env quiet a d))) i =
      (case map_of as i of None \<Rightarrow> map_of (d_sessions (do_action env quiet a d)) i | Some sock \<Rightarrow> Some (attached env i sock))"
    using Cons.IH [OF _ _ s(1)] Cons.prems by simp
  show ?case
  proof (cases "i = fst a")
    case True
    then have "map_of as i = None" using Cons.prems(2) by (simp add: map_of_eq_None_iff)
    then show ?thesis using ih s(2) [of i] a True by (cases a) (simp add: accepted_def)
  next
    case False
    then show ?thesis using ih s(2) [of i] by (cases a) (simp split: option.split)
  qed
qed simp

lemma unat_num: "n < 2 ^ 64 \<Longrightarrow> unat (of_nat n :: 64 word) = n"
  by (simp add: unsigned_of_nat take_bit_nat_eq_self)

text \<open>What a server with dispatchers has queued for dispatcher \<open>j\<close> after accepting the descriptors \<open>fs\<close>.\<close>

definition share :: "nat \<Rightarrow> nat \<Rightarrow> int list \<Rightarrow> (64 word \<times> int) list" where
  "share n j fs = map (\<lambda>k. (of_nat (Suc k), fs ! k)) (filter (\<lambda>k. Suc k mod n = j) [0..<length fs])"

lemma share_snoc: "share n j (fs @ [f]) = share n j fs @ (if Suc (length fs) mod n = j then [(of_nat (Suc (length fs)), f)] else [])"
  unfolding share_def by (auto simp: nth_append intro!: map_cong)

lemma listen_all:
  fixes v0 :: "'b tcp_server"
  assumes "0 < n" "v0 = new_server n 0"
  shows "length fs < 2 ^ 64 \<Longrightarrow>
    sessionIdGenerator (fold listenEventCallback fs v0) = of_nat (length fs) \<and>
    length (slavers (fold listenEventCallback fs v0)) = n \<and>
    (\<forall>j < n. slavers (fold listenEventCallback fs v0) ! j = new_dispatcher\<lparr>d_actions := share n j fs\<rparr>)"
proof (induction fs rule: rev_induct)
  case Nil
  then show ?case using assms by (simp add: new_server_def setThreads_def share_def new_dispatcher_def)
next
  case (snoc f fs)
  let ?v = "fold listenEventCallback fs v0" and ?j = "Suc (length fs) mod n"
  have l: "length fs < 2 ^ 64" "Suc (length fs) < 2 ^ 64" using snoc.prems by simp_all
  then have v: "sessionIdGenerator ?v = of_nat (length fs)" "length (slavers ?v) = n"
      "\<forall>j < n. slavers ?v ! j = new_dispatcher\<lparr>d_actions := share n j fs\<rparr>" using snoc.IH by simp_all
  have i: "sessionIdGenerator ?v + 1 = of_nat (Suc (length fs))" using v(1) by (simp add: add.commute)
  have u: "unat (of_nat (Suc (length fs)) :: 64 word) = Suc (length fs)" using l(2) by (rule unat_num)
  have j: "?j < n" using assms by simp
  have w: "fold listenEventCallback (fs @ [f]) v0 =
      ?v\<lparr>sessionIdGenerator := of_nat (Suc (length fs)), slavers := (slavers ?v)[?j := addSession (of_nat (Suc (length fs))) f (slavers ?v ! ?j)]\<rparr>"
    using v(2) assms u unfolding fold_append comp_def fold_simps listenEventCallback_def i
    by (auto simp: on_dispatcher_def getSessionDispatcher_def Let_def)
  show ?case unfolding w using v(2,3) j
    by (auto simp: share_snoc nth_list_update addSession_def)
qed

lemma share_ids: "length fs < 2 ^ 64 \<Longrightarrow> distinct (map fst (share n j fs))"
proof -
  assume l: "length fs < 2 ^ 64"
  have "inj_on (\<lambda>k. of_nat (Suc k) :: 64 word) {k. k < length fs}"
  proof (rule inj_onI)
    fix a b assume ab: "a \<in> {k. k < length fs}" "b \<in> {k. k < length fs}" "(of_nat (Suc a) :: 64 word) = of_nat (Suc b)"
    then have "unat (of_nat (Suc a) :: 64 word) = Suc a" "unat (of_nat (Suc b) :: 64 word) = Suc b"
      using ab(1,2) l by (intro unat_num; simp)+
    with ab(3) show "a = b" by simp
  qed
  then show ?thesis unfolding share_def by (auto simp: distinct_map comp_def intro: inj_on_subset)
qed

lemma share_of:
  assumes "length fs < 2 ^ 64" "k < length fs"
  shows "map_of (share n j fs) (of_nat (Suc k)) = (if Suc k mod n = j then Some (fs ! k) else None)"
proof (cases "Suc k mod n = j")
  case True
  then have "(of_nat (Suc k), fs ! k) \<in> set (share n j fs)" using assms(2) by (auto simp: share_def)
  then show ?thesis using share_ids [OF assms(1)] True by (simp add: map_of_eq_Some_iff)
next
  case False
  have "of_nat (Suc k) \<notin> fst ` set (share n j fs)"
  proof
    assume "of_nat (Suc k) \<in> fst ` set (share n j fs)"
    then obtain i where i: "i < length fs" "Suc i mod n = j" "(of_nat (Suc k) :: 64 word) = of_nat (Suc i)" by (auto simp: share_def)
    have "unat (of_nat (Suc k) :: 64 word) = Suc k" "unat (of_nat (Suc i) :: 64 word) = Suc i"
      using assms i(1) by (intro unat_num; simp)+
    with i(3) have "k = i" by simp
    with i(2) False show False by simp
  qed
  then show ?thesis using False by (simp add: map_of_eq_None_iff)
qed

text \<open>
  C14. Accepted connections are spread over the dispatchers: the \<open>k\<close>-th connection that a server with \<open>n\<close>
  dispatchers accepts gets the number \<open>k + 1\<close>, and when the frames have run it is found under this
  number, with its own descriptor, in the dispatcher \<open>(k + 1) mod n\<close> and in no other.
\<close>

theorem connections_spread:
  fixes env :: "'b bev_env"
  assumes "0 < n" and "length fs < 2 ^ 64" and "k < length fs"
    and "\<forall>f \<in> set fs. f \<noteq> SOCKET_FD_INVALID \<and> new_ok env f \<and> enable_ok env f" and "j < n"
  shows "\<exists>d. onFrame env quiet (slavers (fold listenEventCallback fs (new_server n 0)) ! j) = Some d \<and>
    (if Suc k mod n = j then \<exists>s. getSession (of_nat (Suc k)) d = Ptr s \<and> ss_fd s = fs ! k \<and> ss_id s = of_nat (Suc k)
     else getSession (of_nat (Suc k)) d = Nullp)"
proof -
  let ?d = "slavers (fold listenEventCallback fs (new_server n 0 :: 'b tcp_server)) ! j" and ?as = "share n j fs"
  let ?e = "fold (do_action env quiet) ?as ?d"
  have d: "?d = new_dispatcher\<lparr>d_actions := ?as\<rparr>" using listen_all [OF assms(1) refl [of "new_server n 0 :: 'b tcp_server"] assms(2)] assms(5) by simp
  have f: "onFrame env quiet ?d = Some (?e\<lparr>d_actions := []\<rparr>)" by (rule onFrame_fold) (simp add: d)
  have ok: "\<forall>a \<in> set ?as. accepted env a" using assms(4) by (auto simp: share_def accepted_def)
  have "map_ok (d_sessions ?d)" "d_sessions ?d = []" unfolding d by (simp_all add: new_dispatcher_def)
  then have "map_of (d_sessions ?e) (of_nat (Suc k)) = (if Suc k mod n = j then Some (attached env (of_nat (Suc k)) (fs ! k)) else None)"
    using fold_actions [OF ok share_ids [OF assms(2)], of ?d "of_nat (Suc k)"] share_of [OF assms(2,3), of n j] by (simp split: if_splits)
  moreover have "ss_fd (attached env i (fs ! k)) = fs ! k \<and> ss_id (attached env i (fs ! k)) = i" for i
    using assms(3,4) by (simp add: attached_def attach_def new_session_def Let_def)
  ultimately show ?thesis using f by (auto simp: getSession_def)
qed

text \<open>
  A session whose connection has ended closes its descriptor once, and the next frame removes it.
\<close>

lemma ended_session_removed:
  assumes "map_ok (d_sessions d)" and "map_of (d_sessions d) i = Some s" and "ss_id s = i" and "sk_bev (ss_socket s) = Ptr b"
  shows "\<exists>d1 d2. session_event quiet i d closed = Some (d1, closed @ [ss_fd s]) \<and> onFrame env quiet d1 = Some d2 \<and> getSession i d2 = Nullp"
proof -
  obtain d1 where d1: "session_event quiet i d closed = Some (d1, closed @ [ss_fd s])"
      "d_actions d1 = d_actions d @ [(i, SOCKET_FD_INVALID)]" "map_ok (d_sessions d1)"
    using assms by (simp add: session_event_def disable_rw_def quiet_def removeSession_def Let_def)
  have ok: "map_ok (d_sessions (fold (do_action env quiet) as e))" if "map_ok (d_sessions e)" for as e
    using that by (induction as arbitrary: e) (simp_all add: do_action_sessions(1))
  let ?e = "fold (do_action env quiet) (d_actions d) d1"
  have "onFrame env quiet d1 = Some ((do_action env quiet (i, SOCKET_FD_INVALID) ?e)\<lparr>d_actions := []\<rparr>)"
    using onFrame_fold [OF d1(2)] by simp
  then show ?thesis using d1(1) do_action_sessions(2) [OF ok [OF d1(3)], of env "(i, SOCKET_FD_INVALID)" "d_actions d" i]
    by (simp add: getSession_def)
qed

definition easy :: "bytes bev_env" where
  "easy = \<lparr>new_ok = (\<lambda>_. True), enable_ok = (\<lambda>_. True), connect_ok = True, empty_buf = []\<rparr>"

theorem connections_spread_witness:
  "\<exists>d s. onFrame easy quiet (slavers (fold listenEventCallback [7, 8, 9] (new_server 2 0)) ! 1) = Some d \<and>
     getSession 3 d = Ptr s \<and> ss_fd s = 9"
  using connections_spread [of 2 "[7, 8, 9]" 2 easy 1] by (auto simp: easy_def SOCKET_FD_INVALID_def)

text \<open>
  C40. When its connection ends the client closes its descriptor twice: once itself, and once more by
  freeing the bufferevent after \<open>onDisconnected\<close>, when the number may belong to someone else.
\<close>

theorem client_closes_twice:
  assumes "client_connect env fd new_client = (c, True)" and "\<And>x. cl_fd (D x) = cl_fd x"
  shows "map_option snd (client_event D N BEV_ENDED c closed) = Some (closed @ [fd, fd])"
proof -
  have "cl_fd c = fd" "sk_bev (cl_socket c) = Ptr (new_bev env)"
    using assms(1) by (auto simp: client_connect_def new_client_def new_socket_def split: if_splits)
  then show ?thesis using assms(2) by (simp add: client_event_def disable_rw_def Let_def)
qed

theorem client_closes_twice_witness:
  "map_option snd (client_event id (\<lambda>_. id) BEV_ENDED (fst (client_connect easy 5 new_client)) []) = Some [5, 5]"
  using client_closes_twice [of easy 5 "fst (client_connect easy 5 new_client)" id "\<lambda>_. id" "[]"]
  by (simp add: easy_def client_connect_def new_client_def new_socket_def)

end
