(* ===== verification/Http.thy ===== *)
theory Http
  imports Prelude Containers
begin

text \<open>
  The HTTP server over evhttp (include/translib/httpServer.h, src/translib/httpServer.cpp,
  include/translib/httpRequest.h, src/translib/httpRequest.cpp): handlers by path, and how a handler
  builds its answer.
\<close>

section \<open>Requests\<close>

text \<open>
  The headers of libevent are a parameter: values of any type \<open>'h\<close> with the operations the code uses. What
  is sent to the client is collected in order.
\<close>

record 'h headers =
  find_header :: "bytes \<Rightarrow> 'h \<Rightarrow> bytes ptr"
  remove_header :: "bytes \<Rightarrow> 'h \<Rightarrow> 'h"
  add_header :: "bytes \<Rightarrow> bytes \<Rightarrow> 'h \<Rightarrow> 'h"

datatype http_out = Reply_Start nat bytes | Reply_Chunk bytes | Reply_End

record 'h http_request =
  rq_input :: 'h
  rq_output :: 'h
  rq_buffer :: bytes
  rq_sent :: "http_out list"

definition findHeaders :: "'h headers \<Rightarrow> bytes \<Rightarrow> 'h http_request \<Rightarrow> bytes ptr" where
  "findHeaders H key r = find_header H key (rq_input r)"

definition setHeader :: "'h headers \<Rightarrow> bytes \<Rightarrow> bytes \<Rightarrow> 'h http_request \<Rightarrow> 'h http_request \<times> bool" where
  "setHeader H key v r = (r\<lparr>rq_output := add_header H key v (remove_header H key (rq_output r))\<rparr>, True)"

text \<open>
  The text printf makes of a format without arguments: two percent signs are one, and any other
  conversion reads an argument that was not passed.
\<close>

fun printf_bare :: "bytes \<Rightarrow> bytes option" where
  "printf_bare [] = Some []"
| "printf_bare (c # t) =
     (if c \<noteq> CHR ''%'' then map_option ((#) c) (printf_bare t)
      else (case t of [] \<Rightarrow> None | d # u \<Rightarrow> if d = CHR ''%'' then map_option ((#) c) (printf_bare u) else None))"

definition setBody :: "bytes \<Rightarrow> 'h http_request \<Rightarrow> ('h http_request \<times> bool) option" where
  "setBody content r = do {
     t \<leftarrow> printf_bare (cstr content);
     Some (r\<lparr>rq_buffer := rq_buffer r @ t\<rparr>, True) }"

text \<open>Sending a chunk empties the buffer it is taken from.\<close>

definition send_chunk :: "'h http_request \<Rightarrow> 'h http_request" where
  "send_chunk r = r\<lparr>rq_sent := rq_sent r @ [Reply_Chunk (rq_buffer r)], rq_buffer := []\<rparr>"

definition setChunk :: "bytes \<Rightarrow> 'h http_request \<Rightarrow> ('h http_request \<times> bool) option" where
  "setChunk content r = do {
     t \<leftarrow> printf_bare (cstr content);
     Some (send_chunk (r\<lparr>rq_buffer := rq_buffer r @ t\<rparr>), True) }"

section \<open>The server\<close>

text \<open>
  A handler works on the request. The server keeps the handlers by path; libevent keeps, for every path
  it was given, a pointer to the handler's place in this map.
\<close>

type_synonym 'h handler = "'h http_request \<Rightarrow> 'h http_request option"

record 'h http_server =
  hs_listening :: bool
  hs_ip :: bytes
  hs_port :: nat
  hs_handlers :: "(bytes \<times> 'h handler) list"
  hs_paths :: "bytes list"

definition new_http_server :: "'h http_server" where
  "new_http_server = \<lparr>hs_listening = False, hs_ip = [], hs_port = 0, hs_handlers = [], hs_paths = []\<rparr>"

definition http_listen :: "bool \<Rightarrow> bool \<Rightarrow> bytes \<Rightarrow> nat \<Rightarrow> 'h http_server \<Rightarrow> 'h http_server \<times> bool" where
  "http_listen new_ok bind_ok ip port v =
     (if hs_listening v then (v, False)
      else if \<not> new_ok then (v, False)
      else if \<not> bind_ok then (v, False)
      else (v\<lparr>hs_listening := True, hs_ip := ip, hs_port := port\<rparr>, True))"

definition regHandler :: "bytes \<Rightarrow> 'h handler \<Rightarrow> 'h http_server \<Rightarrow> 'h http_server" where
  "regHandler path f v =
     (if \<not> hs_listening v then v
      else v\<lparr>hs_handlers := map_put path f (hs_handlers v), hs_paths := List.insert path (hs_paths v)\<rparr>)"

definition genericCallback :: "'h http_request \<Rightarrow> 'h http_request" where
  "genericCallback r = r\<lparr>rq_sent := rq_sent r @ [Reply_Start 404 ''not found'', Reply_End]\<rparr>"

definition CONNECTION_KEY :: bytes where "CONNECTION_KEY = ''Connection''"
definition CONNECTION_VALUE :: bytes where "CONNECTION_VALUE = ''keep-alive''"

definition mainCallback :: "'h headers \<Rightarrow> 'h handler \<Rightarrow> 'h http_request \<Rightarrow> 'h http_request option" where
  "mainCallback H f r = do {
     r \<leftarrow> f (r\<lparr>rq_buffer := []\<rparr>);
     let r = (case findHeaders H CONNECTION_KEY r of
                Nullp \<Rightarrow> r
              | Ptr v \<Rightarrow> if take (length CONNECTION_VALUE) (cstr v) = CONNECTION_VALUE
                        then r\<lparr>rq_output := add_header H CONNECTION_KEY CONNECTION_VALUE (rq_output r)\<rparr> else r);
     let r = r\<lparr>rq_sent := rq_sent r @ [Reply_Start 200 ''OK'']\<rparr>;
     let r = send_chunk r;
     Some (r\<lparr>rq_sent := rq_sent r @ [Reply_End]\<rparr>) }"

text \<open>
  Where libevent takes a request: to the place of the handler for its path, when it was given the path.
\<close>

definition serve :: "'h headers \<Rightarrow> bytes \<Rightarrow> 'h http_server \<Rightarrow> 'h http_request \<Rightarrow> 'h http_request option" where
  "serve H path v r =
     (if path \<in> set (hs_paths v) then do { f \<leftarrow> map_of (hs_handlers v) path; mainCallback H f r }
      else Some (genericCallback r))"

section \<open>Properties\<close>

text \<open>
  Handlers are found by their paths, the last one given for a path counts, and there is nothing at other
  paths. Handlers given before the server listens are lost.
\<close>

lemma request_served:
  assumes "hs_listening v" "map_ok (hs_handlers v)" "set (hs_paths v) = dom (map_of (hs_handlers v))"
  shows "serve H path (fold (\<lambda>(p, f). regHandler p f) ps v) r =
    (case map_of (rev ps) path of Some f \<Rightarrow> mainCallback H f r | None \<Rightarrow> serve H path v r)"
  using assms
proof (induction ps arbitrary: v)
  case (Cons a ps)
  obtain p f where a: "a = (p, f)" by (cases a)
  let ?v = "regHandler p f v"
  have v: "hs_listening ?v" "map_ok (hs_handlers ?v)" "set (hs_paths ?v) = dom (map_of (hs_handlers ?v))"
    using Cons.prems by (auto simp: regHandler_def split: if_splits)
  have "serve H path ?v r = (if path = p then mainCallback H f r else serve H path v r)"
    using Cons.prems by (simp add: serve_def regHandler_def)
  then show ?case using Cons.IH [OF v] by (auto simp: a map_add_def split: option.split)
qed simp

lemma handler_before_listening_lost: "regHandler p f new_http_server = new_http_server"
  by (simp add: regHandler_def new_http_server_def)

text \<open>
  A text without percent signs becomes the body as it is; one with a conversion in it makes libevent
  read an argument that was not passed.
\<close>

lemma printf_bare_plain: "CHR ''%'' \<notin> set t \<Longrightarrow> printf_bare (t @ u) = map_option ((@) t) (printf_bare u)"
  by (induction t; cases "printf_bare u") auto

lemma body_as_given:
  assumes "CHR ''%'' \<notin> set t" "NUL \<notin> set t"
  shows "mainCallback H (\<lambda>r. map_option fst (setBody t r)) r \<noteq> None \<and>
    map_option rq_sent (mainCallback H (\<lambda>r. map_option fst (setBody t r)) r) =
      Some (rq_sent r @ [Reply_Start 200 ''OK'', Reply_Chunk t, Reply_End])"
  using assms printf_bare_plain [of t "[]"]
  by (auto simp: mainCallback_def setBody_def send_chunk_def Let_def findHeaders_def split: ptr.split)

lemma body_is_a_format:
  assumes "CHR ''%'' \<notin> set t" "NUL \<notin> set t" "c \<noteq> CHR ''%''" "c \<noteq> NUL"
  shows "mainCallback H (\<lambda>r. map_option fst (setBody (t @ CHR ''%'' # c # u) r)) r = None"
proof -
  have "cstr (t @ CHR ''%'' # c # u) = t @ CHR ''%'' # c # cstr u"
    using assms by (simp add: cstr_def takeWhile_append)
  then show ?thesis using assms printf_bare_plain [of t "CHR ''%'' # c # cstr u"]
    by (simp add: mainCallback_def setBody_def)
qed

text \<open>A handler that sends a chunk does so before the reply was started.\<close>

lemma chunk_before_start:
  assumes "CHR ''%'' \<notin> set t" "NUL \<notin> set t"
  shows "map_option rq_sent (mainCallback H (\<lambda>r. map_option fst (setChunk t r)) r) =
      Some (rq_sent r @ [Reply_Chunk t, Reply_Start 200 ''OK'', Reply_Chunk [], Reply_End])"
  using assms printf_bare_plain [of t "[]"]
  by (auto simp: mainCallback_def setChunk_def send_chunk_def Let_def findHeaders_def split: ptr.split)

end
