(* ===== verification/Logger.thy ===== *)
theory Logger
  imports Prelude
begin

text \<open>
  The logger (include/logger/logger.hpp, src/logger/logger.cpp): a message is written when its level is
  not above the logger's, errors to the error stream and everything else to standard output.
\<close>

datatype log_level = LOG_ERROR | LOG_WARN | LOG_INFO | LOG_DEBUG

fun level_number :: "log_level \<Rightarrow> nat" where
  "level_number LOG_ERROR = 0"
| "level_number LOG_WARN = 1"
| "level_number LOG_INFO = 2"
| "level_number LOG_DEBUG = 3"

lemma level_number_inject: "level_number a = level_number b \<longleftrightarrow> a = b"
  by (cases a; cases b) simp_all

instantiation log_level :: linorder
begin

definition less_log_level :: "log_level \<Rightarrow> log_level \<Rightarrow> bool" where
  "less_log_level a b \<longleftrightarrow> level_number a < level_number b"

definition less_eq_log_level :: "log_level \<Rightarrow> log_level \<Rightarrow> bool" where
  "less_eq_log_level a b \<longleftrightarrow> level_number a \<le> level_number b"

instance
  by standard (auto simp: less_log_level_def less_eq_log_level_def level_number_inject)

end

text \<open>
  The two streams are the texts written so far. \<open>active_logger\<close> is a smart pointer, empty
  or to the logger; the mutex only orders the writers and has no value of its own.
\<close>

record streams =
  std_out :: bytes
  std_err :: bytes

record logger =
  m_level :: log_level

record logging =
  active_logger :: "logger ptr"
  streams :: streams

definition ESC :: char where "ESC = byte_of 27"

definition black :: bytes where "black = ESC # ''[1;30m''"
definition red :: bytes where "red = ESC # ''[1;31m''"
definition yellow :: bytes where "yellow = ESC # ''[1;33m''"
definition blue :: bytes where "blue = ESC # ''[1;34m''"
definition normal :: bytes where "normal = ESC # ''[0;39m''"

definition new_logger :: "log_level \<Rightarrow> logger" where
  "new_logger level = \<lparr>m_level = level\<rparr>"

definition logger_set_log_level :: "log_level \<Rightarrow> logger \<Rightarrow> logger" where
  "logger_set_log_level level g = g\<lparr>m_level := level\<rparr>"

definition logger_debug :: "bytes \<Rightarrow> bytes \<Rightarrow> nat \<Rightarrow> logger \<Rightarrow> streams \<Rightarrow> streams" where
  "logger_debug msg file line g s = (if m_level g \<ge> LOG_DEBUG
     then s\<lparr>std_out := std_out s @ ''['' @ black @ ''DEBUG'' @ normal @ ''] ['' @ file @ '':'' @ dec_nat line @ ''] '' @ msg @ [LF]\<rparr>
     else s)"

definition logger_info :: "bytes \<Rightarrow> bytes \<Rightarrow> nat \<Rightarrow> logger \<Rightarrow> streams \<Rightarrow> streams" where
  "logger_info msg file line g s = (if m_level g \<ge> LOG_INFO
     then s\<lparr>std_out := std_out s @ ''['' @ blue @ ''INFO '' @ normal @ ''] ['' @ file @ '':'' @ dec_nat line @ ''] '' @ msg @ [LF]\<rparr>
     else s)"

definition logger_warn :: "bytes \<Rightarrow> bytes \<Rightarrow> nat \<Rightarrow> logger \<Rightarrow> streams \<Rightarrow> streams" where
  "logger_warn msg file line g s = (if m_level g \<ge> LOG_WARN
     then s\<lparr>std_out := std_out s @ ''['' @ yellow @ ''WARN '' @ normal @ ''] ['' @ file @ '':'' @ dec_nat line @ ''] '' @ msg @ [LF]\<rparr>
     else s)"

definition logger_error :: "bytes \<Rightarrow> bytes \<Rightarrow> nat \<Rightarrow> logger \<Rightarrow> streams \<Rightarrow> streams" where
  "logger_error msg file line g s = (if m_level g \<ge> LOG_ERROR
     then s\<lparr>std_err := std_err s @ ''['' @ red @ ''ERROR'' @ normal @ ''] ['' @ file @ '':'' @ dec_nat line @ ''] '' @ msg @ [LF]\<rparr>
     else s)"

text \<open>The functions of the program call the active logger, when there is one.\<close>

definition on_active :: "(logger \<Rightarrow> streams \<Rightarrow> streams) \<Rightarrow> logging \<Rightarrow> logging" where
  "on_active f w = (case active_logger w of
     Nullp \<Rightarrow> w
   | Ptr g \<Rightarrow> w\<lparr>streams := f g (streams w)\<rparr>)"

definition log_debug :: "bytes \<Rightarrow> bytes \<Rightarrow> nat \<Rightarrow> logging \<Rightarrow> logging" where
  "log_debug msg file line = on_active (logger_debug msg file line)"

definition log_info :: "bytes \<Rightarrow> bytes \<Rightarrow> nat \<Rightarrow> logging \<Rightarrow> logging" where
  "log_info msg file line = on_active (logger_info msg file line)"

definition log_warn :: "bytes \<Rightarrow> bytes \<Rightarrow> nat \<Rightarrow> logging \<Rightarrow> logging" where
  "log_warn msg file line = on_active (logger_warn msg file line)"

definition log_error :: "bytes \<Rightarrow> bytes \<Rightarrow> nat \<Rightarrow> logging \<Rightarrow> logging" where
  "log_error msg file line = on_active (logger_error msg file line)"

definition set_log_level :: "log_level \<Rightarrow> logging \<Rightarrow> logging" where
  "set_log_level level w = (case active_logger w of
     Nullp \<Rightarrow> w
   | Ptr g \<Rightarrow> w\<lparr>active_logger := Ptr (logger_set_log_level level g)\<rparr>)"

text \<open>The macro \<open>__LOG\<close>, with its spelling of the prefix.\<close>

fun LOG :: "log_level \<Rightarrow> bytes \<Rightarrow> bytes \<Rightarrow> bytes \<Rightarrow> nat \<Rightarrow> logging \<Rightarrow> logging" where
  "LOG LOG_DEBUG msg func file line w = log_debug (''[fuction:'' @ func @ ''] '' @ msg) file line w"
| "LOG LOG_INFO msg func file line w = log_info (''[fuction:'' @ func @ ''] '' @ msg) file line w"
| "LOG LOG_WARN msg func file line w = log_warn (''[fuction:'' @ func @ ''] '' @ msg) file line w"
| "LOG LOG_ERROR msg func file line w = log_error (''[fuction:'' @ func @ ''] '' @ msg) file line w"

text \<open>
  What a program that logs sees: the line of an event, written by a logger of any level that is not
  below the event's.
\<close>

fun label :: "log_level \<Rightarrow> bytes" where
  "label LOG_DEBUG = black @ ''DEBUG''"
| "label LOG_INFO = blue @ ''INFO ''"
| "label LOG_WARN = yellow @ ''WARN ''"
| "label LOG_ERROR = red @ ''ERROR''"

record event =
  ev_level :: log_level
  ev_msg :: bytes
  ev_func :: bytes
  ev_file :: bytes
  ev_line :: nat

definition event_line :: "event \<Rightarrow> bytes" where
  "event_line e = ''['' @ label (ev_level e) @ normal @ ''] ['' @ ev_file e @ '':'' @ dec_nat (ev_line e) @
     ''] [fuction:'' @ ev_func e @ ''] '' @ ev_msg e @ [LF]"

definition log_event :: "event \<Rightarrow> logging \<Rightarrow> logging" where
  "log_event e = LOG (ev_level e) (ev_msg e) (ev_func e) (ev_file e) (ev_line e)"

lemmas log_defs = log_debug_def log_info_def log_warn_def log_error_def on_active_def
  logger_debug_def logger_info_def logger_warn_def logger_error_def

lemma log_event_step:
  assumes "active_logger w = Ptr g"
  shows "log_event e w = (if ev_level e \<le> m_level g
    then if ev_level e = LOG_ERROR
      then w\<lparr>streams := (streams w)\<lparr>std_err := std_err (streams w) @ event_line e\<rparr>\<rparr>
      else w\<lparr>streams := (streams w)\<lparr>std_out := std_out (streams w) @ event_line e\<rparr>\<rparr>
    else w)"
  using assms by (cases "ev_level e") (simp_all add: log_event_def log_defs event_line_def)

lemma error_least [simp]: "LOG_ERROR \<le> l"
  by (cases l) (simp_all add: less_eq_log_level_def)

text \<open>
  A run of events writes the lines of the events whose level is not above the logger's, in their order:
  errors, which no level suppresses, on the error stream and the others on standard output.
\<close>

lemma log_events:
  assumes "active_logger w = Ptr g"
  shows "fold log_event es w = w\<lparr>streams := (streams w)
    \<lparr>std_out := std_out (streams w) @ concat (map event_line (filter (\<lambda>e. ev_level e \<noteq> LOG_ERROR \<and> ev_level e \<le> m_level g) es)),
     std_err := std_err (streams w) @ concat (map event_line (filter (\<lambda>e. ev_level e = LOG_ERROR) es))\<rparr>\<rparr>"
  using assms
proof (induction es arbitrary: w)
  case (Cons e es)
  show ?case
    by (cases "ev_level e \<le> m_level g"; cases "ev_level e = LOG_ERROR")
      (use Cons in \<open>simp_all add: log_event_step\<close>)
qed simp

lemma raised_level:
  assumes "active_logger w = Ptr g"
  shows "streams (log_event e (set_log_level l w)) = streams w \<longleftrightarrow> \<not> ev_level e \<le> l"
proof -
  have "log_event e (set_log_level l w) = (let u = set_log_level l w in if ev_level e \<le> l
    then if ev_level e = LOG_ERROR
      then u\<lparr>streams := (streams w)\<lparr>std_err := std_err (streams w) @ event_line e\<rparr>\<rparr>
      else u\<lparr>streams := (streams w)\<lparr>std_out := std_out (streams w) @ event_line e\<rparr>\<rparr>
    else u)"
    using assms by (simp add: set_log_level_def logger_set_log_level_def log_event_step Let_def)
  moreover have "(streams w)\<lparr>std_err := std_err (streams w) @ event_line e\<rparr> \<noteq> streams w"
    "(streams w)\<lparr>std_out := std_out (streams w) @ event_line e\<rparr> \<noteq> streams w"
    by (cases "streams w", simp add: event_line_def)+
  ultimately show ?thesis
    using assms by (simp add: Let_def set_log_level_def)
qed

end
